(* ===== verification/FR_Prelude.thy ===== *)
theory FR_Prelude
  imports Main "HOL-Library.AList"
begin

text \<open>
  Shared vocabulary of the FastRules library: the C++ exceptions a call can end with, the byte
  strings of \<^verbatim>\<open>std::string\<close> and the few operations of the C and C++ standard libraries that the
  sources use (\<^verbatim>\<open>std::string::find\<close>, the \<^verbatim>\<open>cctype\<close> predicates in the "C" locale,
  \<^verbatim>\<open>std::to_string\<close> and \<^verbatim>\<open>std::stoi\<close> on \<^verbatim>\<open>int\<close>), an \<^verbatim>\<open>unordered_map\<close> as an association list, and the
  interface of a keyed store (\<open>kv_store\<close>), which several components provide.
\<close>

named_theorems cpp_simps \<open>evaluation rules of the string and container operations\<close>
named_theorems frame_simps \<open>what an operation leaves unchanged\<close>

section \<open>Exceptions\<close>

text \<open>
  The exception classes that the handlers of the sources tell apart. Every other class derived
  from \<^verbatim>\<open>std::exception\<close> (\<^verbatim>\<open>RuleCompilationException\<close>, \<^verbatim>\<open>RuleValidationException\<close>,
  \<^verbatim>\<open>RuleExecutionException\<close>, \<^verbatim>\<open>ParameterTypeException\<close>, \<^verbatim>\<open>std::runtime_error\<close> and others) is a
  \<open>StdException\<close> that carries its class and its message.
\<close>

datatype exn_class =
    RuntimeError | RuleCompilationException | RuleValidationException
  | RuleExecutionException | ParameterTypeException | ValidationException
  | SandboxViolationException | InvalidArgument | OutOfRange | FilesystemError

datatype exn =
    RateLimitException string
  | RuleTimeoutException string
  | RuleExceptionThrown string
  | StdException exn_class string
  | UnknownException

fun exn_what :: "exn \<Rightarrow> string" where
  "exn_what (RateLimitException m) = m"
| "exn_what (RuleTimeoutException m) = m"
| "exn_what (RuleExceptionThrown m) = m"
| "exn_what (StdException c m) = m"
| "exn_what UnknownException = []"

text \<open>Sequencing of calls that can throw: the state an exception leaves behind is kept.\<close>

definition bindx :: "(exn + 'a) \<times> 's \<Rightarrow> ('a \<Rightarrow> 's \<Rightarrow> (exn + 'b) \<times> 's) \<Rightarrow> (exn + 'b) \<times> 's" where
  "bindx m f = (case m of (Inl e, s) \<Rightarrow> (Inl e, s) | (Inr v, s) \<Rightarrow> f v s)"

lemma bindx_simps [simp]: "bindx (Inl e, s) f = (Inl e, s)" "bindx (Inr v, s) f = f v s"
  by (simp_all add: bindx_def)

lemma bindx_InrE:
  assumes "bindx m f = (Inr w, s')"
  obtains v s where "m = (Inr v, s)" "f v s = (Inr w, s')"
  using assms by (cases m; cases "fst m") (auto simp: bindx_def)

lemma find_SomeD: "find P xs = Some x \<Longrightarrow> x \<in> set xs \<and> P x"
  by (induction xs) (auto split: if_splits)

section \<open>Characters and strings\<close>

definition cc :: "char \<Rightarrow> nat" where
  "cc c = of_char c"

definition std_isdigit :: "char \<Rightarrow> bool" where
  "std_isdigit c \<longleftrightarrow> 48 \<le> cc c \<and> cc c \<le> 57"

definition std_isupper :: "char \<Rightarrow> bool" where
  "std_isupper c \<longleftrightarrow> 65 \<le> cc c \<and> cc c \<le> 90"

definition std_islower :: "char \<Rightarrow> bool" where
  "std_islower c \<longleftrightarrow> 97 \<le> cc c \<and> cc c \<le> 122"

definition std_isalpha :: "char \<Rightarrow> bool" where
  "std_isalpha c \<longleftrightarrow> std_isupper c \<or> std_islower c"

definition std_isalnum :: "char \<Rightarrow> bool" where
  "std_isalnum c \<longleftrightarrow> std_isalpha c \<or> std_isdigit c"

definition std_isspace :: "char \<Rightarrow> bool" where
  "std_isspace c \<longleftrightarrow> cc c = 32 \<or> (9 \<le> cc c \<and> cc c \<le> 13)"

definition std_tolower :: "char \<Rightarrow> char" where
  "std_tolower c = (if std_isupper c then char_of (cc c + 32) else c)"

lemmas cctype_defs = cc_def std_isdigit_def std_isupper_def std_islower_def std_isalpha_def
  std_isalnum_def std_isspace_def std_tolower_def

text \<open>Evaluation of the character operations on literals.\<close>

lemmas char_eval = cctype_defs char_of_def bit_iff_odd

lemma cc_less_256 [simp]: "cc c < 256"
  unfolding cc_def by (cases c) simp

lemma cc_char_of [simp]: "cc (char_of n) = n mod 256"
  by (simp add: cc_def)

lemma cc_tolower: "cc (std_tolower c) = (if std_isupper c then cc c + 32 else cc c)"
  by (simp add: std_tolower_def std_isupper_def)

lemma not_isupper_tolower [simp]: "\<not> std_isupper (std_tolower c)"
  by (auto simp: std_isupper_def cc_tolower)

lemma std_tolower_idem [simp]: "std_tolower (std_tolower c) = std_tolower c"
  by (simp add: std_tolower_def [of "std_tolower c"])

lemma isalnum_tolower [simp]: "std_isalnum (std_tolower c) = std_isalnum c"
  by (auto simp: std_isalnum_def std_isalpha_def std_isupper_def std_islower_def std_isdigit_def
      cc_tolower)

definition matches_at :: "string \<Rightarrow> string \<Rightarrow> nat \<Rightarrow> bool" where
  "matches_at s pat i \<longleftrightarrow> i \<le> length s \<and> take (length pat) (drop i s) = pat"

fun str_find_aux :: "nat \<Rightarrow> string \<Rightarrow> string \<Rightarrow> nat option" where
  "str_find_aux i [] pat = (if pat = [] then Some i else None)"
| "str_find_aux i (c # s) pat =
     (if take (length pat) (c # s) = pat then Some i else str_find_aux (Suc i) s pat)"

text \<open>\<^verbatim>\<open>s.find(pat, pos)\<close>; \<^verbatim>\<open>npos\<close> is \<open>None\<close>.\<close>

definition str_find :: "string \<Rightarrow> string \<Rightarrow> nat \<Rightarrow> nat option" where
  "str_find s pat pos = (if pos \<le> length s then str_find_aux pos (drop pos s) pat else None)"

lemma str_find_aux_Some:
  "str_find_aux i s pat = Some j \<Longrightarrow>
     i \<le> j \<and> j - i \<le> length s \<and> take (length pat) (drop (j - i) s) = pat"
proof (induction s arbitrary: i)
  case Nil
  then show ?case by (auto split: if_splits)
next
  case (Cons c s)
  show ?case
  proof (cases "take (length pat) (c # s) = pat")
    case True
    with Cons.prems show ?thesis by simp
  next
    case False
    with Cons.prems have "str_find_aux (Suc i) s pat = Some j" by simp
    then have "Suc i \<le> j \<and> j - Suc i \<le> length s \<and> take (length pat) (drop (j - Suc i) s) = pat"
      by (rule Cons.IH)
    moreover from this have "j - i = Suc (j - Suc i)" by arith
    ultimately show ?thesis by simp
  qed
qed

lemma str_find_aux_None:
  "str_find_aux i s pat = None \<Longrightarrow> k \<le> length s \<Longrightarrow> take (length pat) (drop k s) \<noteq> pat"
proof (induction s arbitrary: i k)
  case Nil
  then show ?case by (auto split: if_splits)
next
  case (Cons c s)
  then show ?case by (cases k) (auto split: if_splits)
qed

lemma str_find_aux_least:
  "str_find_aux i s pat = Some j \<Longrightarrow> k < j - i \<Longrightarrow> take (length pat) (drop k s) \<noteq> pat"
proof (induction s arbitrary: i k)
  case Nil
  then show ?case by (auto split: if_splits)
next
  case (Cons c s)
  show ?case
  proof (cases "take (length pat) (c # s) = pat")
    case True
    with Cons.prems show ?thesis by simp
  next
    case False
    with Cons.prems have *: "str_find_aux (Suc i) s pat = Some j" by simp
    show ?thesis
    proof (cases k)
      case 0
      with False show ?thesis by simp
    next
      case (Suc k')
      with Cons.prems have "k' < j - Suc i" by simp
      with * have "take (length pat) (drop k' s) \<noteq> pat" by (rule Cons.IH)
      with Suc show ?thesis by simp
    qed
  qed
qed

lemma str_find_SomeD:
  assumes "str_find s pat pos = Some j"
  shows "pos \<le> j" "matches_at s pat j" "\<And>k. pos \<le> k \<Longrightarrow> k < j \<Longrightarrow> \<not> matches_at s pat k"
proof -
  from assms have pos: "pos \<le> length s" and f: "str_find_aux pos (drop pos s) pat = Some j"
    by (auto simp: str_find_def split: if_splits)
  from str_find_aux_Some [OF f] pos show "pos \<le> j" "matches_at s pat j"
    by (auto simp: matches_at_def)
  fix k assume "pos \<le> k" "k < j"
  then have "take (length pat) (drop (k - pos) (drop pos s)) \<noteq> pat"
    using str_find_aux_least [OF f, of "k - pos"] by simp
  with \<open>pos \<le> k\<close> show "\<not> matches_at s pat k" by (simp add: matches_at_def)
qed

lemma str_find_bounds: "str_find s pat start = Some pos \<Longrightarrow> start \<le> pos \<and> pos \<le> length s"
  using str_find_SomeD(1,2) [of s pat start pos] by (simp add: matches_at_def)

lemma str_find_None_iff:
  "str_find s pat pos = None \<longleftrightarrow> (\<forall>k\<ge>pos. \<not> matches_at s pat k)"
proof
  assume none: "str_find s pat pos = None"
  show "\<forall>k\<ge>pos. \<not> matches_at s pat k"
  proof (intro allI impI)
    fix k assume "pos \<le> k"
    show "\<not> matches_at s pat k"
    proof (cases "k \<le> length s")
      case True
      with \<open>pos \<le> k\<close> none have "str_find_aux pos (drop pos s) pat = None"
        by (simp add: str_find_def)
      from str_find_aux_None [OF this, of "k - pos"] True \<open>pos \<le> k\<close> show ?thesis
        by (simp add: matches_at_def)
    qed (simp add: matches_at_def)
  qed
next
  assume "\<forall>k\<ge>pos. \<not> matches_at s pat k"
  then show "str_find s pat pos = None"
    using str_find_SomeD(1,2) [of s pat pos] by (cases "str_find s pat pos") auto
qed

definition str_contains :: "string \<Rightarrow> string \<Rightarrow> bool" where
  "str_contains s pat \<longleftrightarrow> str_find s pat 0 \<noteq> None"

lemma str_contains_iff: "str_contains s pat \<longleftrightarrow> (\<exists>i. matches_at s pat i)"
  by (auto simp: str_contains_def str_find_None_iff)

lemma str_contains_append: "str_contains (a @ pat @ b) pat"
  unfolding str_contains_iff by (rule exI [of _ "length a"]) (simp add: matches_at_def)

definition substr :: "string \<Rightarrow> nat \<Rightarrow> nat \<Rightarrow> string" where
  "substr s pos n = take n (drop pos s)"


section \<open>Decimal integers\<close>

text \<open>\<^verbatim>\<open>std::to_string(int)\<close>, and the digits that \<^verbatim>\<open>strtol(s, &end, 10)\<close> reads: white space, a
  sign, then at least one digit (\<open>None\<close>: no conversion, \<^verbatim>\<open>end == s\<close>).\<close>

fun nat_digits :: "nat \<Rightarrow> string" where
  "nat_digits n =
     (if n < 10 then [char_of (48 + n)] else nat_digits (n div 10) @ [char_of (48 + n mod 10)])"

declare nat_digits.simps [simp del]

definition std_to_string :: "int \<Rightarrow> string" where
  "std_to_string i = (if i < 0 then CHR ''-'' # nat_digits (nat (- i)) else nat_digits (nat i))"

fun read_digits :: "nat \<Rightarrow> string \<Rightarrow> nat \<times> string" where
  "read_digits acc [] = (acc, [])"
| "read_digits acc (c # s) =
     (if std_isdigit c then read_digits (10 * acc + (cc c - 48)) s else (acc, c # s))"

definition scan_int :: "string \<Rightarrow> (int \<times> string) option" where
  "scan_int s =
     (let s1 = dropWhile std_isspace s;
          neg = (s1 \<noteq> [] \<and> hd s1 = CHR ''-'');
          s2 = (if s1 \<noteq> [] \<and> (hd s1 = CHR ''-'' \<or> hd s1 = CHR ''+'') then tl s1 else s1)
      in if s2 \<noteq> [] \<and> std_isdigit (hd s2)
         then let (v, rest) = read_digits 0 s2 in Some (if neg then - int v else int v, rest)
         else None)"

abbreviation int_min :: int where "int_min \<equiv> - 2147483648"
abbreviation int_max :: int where "int_max \<equiv> 2147483647"

text \<open>\<^verbatim>\<open>std::stoi\<close>; \<open>None\<close> stands for its \<^verbatim>\<open>invalid_argument\<close> and \<^verbatim>\<open>out_of_range\<close>.\<close>

definition stoi :: "string \<Rightarrow> int option" where
  "stoi s = (case scan_int s of
               None \<Rightarrow> None
             | Some (v, rest) \<Rightarrow> if int_min \<le> v \<and> v \<le> int_max then Some v else None)"

lemma std_isdigit_char_of: "n < 10 \<Longrightarrow> std_isdigit (char_of (48 + n :: nat))"
  by (simp add: std_isdigit_def)

lemma nat_digits_Cons: "\<exists>c cs. nat_digits n = c # cs \<and> std_isdigit c"
proof (induction n rule: nat_digits.induct)
  case (1 n)
  show ?case
  proof (cases "n < 10")
    case True
    then show ?thesis by (simp add: nat_digits.simps [of n] std_isdigit_char_of)
  next
    case False
    with 1 show ?thesis by (auto simp: nat_digits.simps [of n])
  qed
qed

lemma set_nat_digits: "c \<in> set (nat_digits n) \<Longrightarrow> std_isdigit c"
proof (induction n rule: nat_digits.induct)
  case (1 n)
  show ?case
  proof (cases "n < 10")
    case True
    with 1 show ?thesis by (simp add: nat_digits.simps [of n] std_isdigit_char_of)
  next
    case False
    have "std_isdigit (char_of (48 + n mod 10))" by (rule std_isdigit_char_of) simp
    with False 1 show ?thesis by (auto simp: nat_digits.simps [of n])
  qed
qed

lemma read_digits_append:
  "read_digits acc (nat_digits n @ rest) =
     read_digits (acc * 10 ^ length (nat_digits n) + n) rest"
proof (induction n arbitrary: acc rest rule: nat_digits.induct)
  case (1 n)
  show ?case
  proof (cases "n < 10")
    case True
    then show ?thesis by (simp add: nat_digits.simps [of n] std_isdigit_def algebra_simps)
  next
    case False
    let ?d = "char_of (48 + n mod 10)"
    have d: "std_isdigit ?d" "cc ?d - 48 = n mod 10"
      by (simp_all add: std_isdigit_char_of)
    from False have n: "nat_digits n = nat_digits (n div 10) @ [?d]"
      by (simp add: nat_digits.simps [of n])
    have "read_digits acc (nat_digits n @ rest) =
        read_digits (acc * 10 ^ length (nat_digits (n div 10)) + n div 10) (?d # rest)"
      using 1 [OF False, of acc "?d # rest"] by (simp add: n)
    also have "\<dots> = read_digits (acc * 10 ^ length (nat_digits n) + n) rest"
      using d by (simp add: n algebra_simps)
    finally show ?thesis .
  qed
qed

lemma read_digits_stop: "rest = [] \<or> \<not> std_isdigit (hd rest) \<Longrightarrow> read_digits v rest = (v, rest)"
  by (cases rest) auto

lemma digit_not_special:
  assumes "std_isdigit c"
  shows "\<not> std_isspace c" "c \<noteq> CHR ''-''" "c \<noteq> CHR ''+''"
proof -
  from assms show "\<not> std_isspace c" by (auto simp: std_isdigit_def std_isspace_def)
  show "c \<noteq> CHR ''-''" "c \<noteq> CHR ''+''"
    using assms by (auto simp: std_isdigit_def cc_def)
qed

lemma scan_int_to_string:
  assumes "rest = [] \<or> \<not> std_isdigit (hd rest)"
  shows "scan_int (std_to_string i @ rest) = Some (i, rest)"
proof -
  obtain c cs where d: "nat_digits (nat \<bar>i\<bar>) = c # cs" "std_isdigit c"
    using nat_digits_Cons by blast
  have r: "read_digits 0 (c # cs @ rest) = (nat \<bar>i\<bar>, rest)"
    using read_digits_append [of 0 "nat \<bar>i\<bar>" rest] read_digits_stop [OF assms] by (simp add: d)
  have minus: "\<not> std_isspace (CHR ''-'')" by (simp add: std_isspace_def cc_def)
  show ?thesis
  proof (cases "i < 0")
    case True
    then have "std_to_string i = CHR ''-'' # c # cs" using d by (simp add: std_to_string_def)
    with True r d(2) minus show ?thesis by (simp add: scan_int_def del: read_digits.simps)
  next
    case False
    then have "std_to_string i = c # cs" using d by (simp add: std_to_string_def)
    with False r d(2) digit_not_special [OF d(2)] show ?thesis
      by (simp add: scan_int_def del: read_digits.simps)
  qed
qed

lemma stoi_to_string: "int_min \<le> i \<Longrightarrow> i \<le> int_max \<Longrightarrow> stoi (std_to_string i) = Some i"
  using scan_int_to_string [of "[]" i] by (simp add: stoi_def)

lemma std_to_string_inject [simp]: "std_to_string i = std_to_string j \<longleftrightarrow> i = j"
proof
  assume "std_to_string i = std_to_string j"
  then have "scan_int (std_to_string i @ []) = scan_int (std_to_string j @ [])" by (rule arg_cong)
  then show "i = j" by (simp only: scan_int_to_string simp_thms option.inject prod.inject)
qed (rule arg_cong)

lemma std_to_string_nonempty [simp]: "std_to_string i \<noteq> []"
  using nat_digits_Cons [of "nat \<bar>i\<bar>"] by (auto simp: std_to_string_def)

section \<open>Keyed stores\<close>

text \<open>
  A keyed store: what \<^verbatim>\<open>find\<close> returns after an insertion under a key. The result and variable
  tables of \<^verbatim>\<open>RuleContext\<close>, the callback table, the histories of \<^verbatim>\<open>RuleVersionManager\<close> and the fields of an object of
  the C interface are such stores.
\<close>

locale kv_store =
  fixes put :: "'k \<Rightarrow> 'v \<Rightarrow> 's \<Rightarrow> 's"
    and get :: "'s \<Rightarrow> 'k \<Rightarrow> 'v option"
  assumes get_put_same: "get (put k v s) k = Some v"
    and get_put_other: "k' \<noteq> k \<Longrightarrow> get (put k v s) k' = get s k'"
begin

lemma get_put: "get (put k v s) k' = (if k' = k then Some v else get s k')"
  by (simp add: get_put_same get_put_other)

text \<open>After any sequence of insertions a key holds the last value stored under it.\<close>

lemma get_put_all:
  "get (fold (\<lambda>(k, v). put k v) kvs s) k =
     (case map_of (rev kvs) k of None \<Rightarrow> get s k | Some v \<Rightarrow> Some v)"
proof (induction kvs arbitrary: s)
  case Nil
  then show ?case by simp
next
  case (Cons kv kvs)
  obtain k0 v0 where kv: "kv = (k0, v0)" by (cases kv)
  have "get (fold (\<lambda>(k, v). put k v) (kv # kvs) s) k =
      (case map_of (rev kvs) k of None \<Rightarrow> get (put k0 v0 s) k | Some v \<Rightarrow> Some v)"
    by (simp add: kv Cons.IH)
  then show ?case
    by (simp add: kv get_put map_add_def split: option.splits)
qed

lemma put_idem_get: "get (put k v (put k w s)) = get (put k v s)"
  by (rule ext) (simp add: get_put)

end

end
