(* ===== verification/Parameter_Validator.thy ===== *)
theory Parameter_Validator
  imports FR_Prelude "HOL-Library.Word"
begin

text \<open>
  Parameters of a rule execution (\<^verbatim>\<open>RuleParameter\<close>, include/fastrules/rule.hpp) and their run-time
  type check (include/fastrules/parameter_validator.hpp, src/parameter_validator.cpp). A
  \<^verbatim>\<open>std::any\<close> is one of the value types the sources name, or an object or object pointer of
  another class; floating-point values are kept as bit patterns and every operation on them is
  an argument. A type's implementation-defined \<^verbatim>\<open>type_info::name()\<close> is an argument as well.
\<close>

section \<open>Values and their types\<close>

datatype cpp_type =
    TInt | TUInt | TShort | TUShort | TLong | TULong | TLongLong | TULongLong
  | TFloat | TDouble | TLongDouble | TBool | TChar | TString | TConstCharPtr | TCharPtr
  | TVoid | TVoidPtr | TVectorInt | TVectorDouble | TVectorString
  | TClass nat | TClassPtr nat

datatype any_value =
    NoValue
  | VInt int | VUInt int | VShort int | VUShort int | VLong int | VULong int
  | VLongLong int | VULongLong int
  | VFloat "32 word" | VDouble "64 word" | VLongDouble "80 word"
  | VBool bool | VChar char | VString string | VConstCharPtr string | VCharPtr string
  | VVoidPtr "64 word" | VVectorInt "int list" | VVectorDouble "64 word list"
  | VVectorString "string list"
  | VObject nat nat | VObjectPtr nat "64 word"

text \<open>\<^verbatim>\<open>any::type()\<close>; an empty \<^verbatim>\<open>any\<close> has type \<^verbatim>\<open>void\<close>.\<close>

fun any_type :: "any_value \<Rightarrow> cpp_type" where
  "any_type NoValue = TVoid"
| "any_type (VInt _) = TInt"
| "any_type (VUInt _) = TUInt"
| "any_type (VShort _) = TShort"
| "any_type (VUShort _) = TUShort"
| "any_type (VLong _) = TLong"
| "any_type (VULong _) = TULong"
| "any_type (VLongLong _) = TLongLong"
| "any_type (VULongLong _) = TULongLong"
| "any_type (VFloat _) = TFloat"
| "any_type (VDouble _) = TDouble"
| "any_type (VLongDouble _) = TLongDouble"
| "any_type (VBool _) = TBool"
| "any_type (VChar _) = TChar"
| "any_type (VString _) = TString"
| "any_type (VConstCharPtr _) = TConstCharPtr"
| "any_type (VCharPtr _) = TCharPtr"
| "any_type (VVoidPtr _) = TVoidPtr"
| "any_type (VVectorInt _) = TVectorInt"
| "any_type (VVectorDouble _) = TVectorDouble"
| "any_type (VVectorString _) = TVectorString"
| "any_type (VObject c _) = TClass c"
| "any_type (VObjectPtr c _) = TClassPtr c"

definition has_value :: "any_value \<Rightarrow> bool" where
  "has_value v \<longleftrightarrow> v \<noteq> NoValue"

record RuleParameter =
  param_name :: string
  param_value :: any_value
  param_type :: "cpp_type option"

text \<open>\<^verbatim>\<open>remove_pointer_t\<close> on the types above.\<close>

fun remove_pointer :: "cpp_type \<Rightarrow> cpp_type" where
  "remove_pointer TConstCharPtr = TChar"
| "remove_pointer TCharPtr = TChar"
| "remove_pointer TVoidPtr = TVoid"
| "remove_pointer (TClassPtr c) = TClass c"
| "remove_pointer t = t"

definition mk_param :: "string \<Rightarrow> any_value \<Rightarrow> RuleParameter" where
  "mk_param n v = \<lparr>param_name = n, param_value = v, param_type = Some (remove_pointer (any_type v))\<rparr>"

definition mk_param_typed :: "string \<Rightarrow> any_value \<Rightarrow> cpp_type \<Rightarrow> RuleParameter" where
  "mk_param_typed n v t = \<lparr>param_name = n, param_value = v, param_type = Some t\<rparr>"

section \<open>The validator\<close>

definition isInt :: "any_value \<Rightarrow> bool" where
  "isInt v \<longleftrightarrow> any_type v = TInt \<or> any_type v = TLong \<or> any_type v = TLongLong \<or> any_type v = TShort"

definition isDouble :: "any_value \<Rightarrow> bool" where
  "isDouble v \<longleftrightarrow> any_type v = TDouble \<or> any_type v = TFloat \<or> any_type v = TLongDouble"

definition isBool :: "any_value \<Rightarrow> bool" where
  "isBool v \<longleftrightarrow> any_type v = TBool"

definition isString :: "any_value \<Rightarrow> bool" where
  "isString v \<longleftrightarrow> any_type v = TString \<or> any_type v = TConstCharPtr"

definition isStringTypeIndex :: "cpp_type \<Rightarrow> bool" where
  "isStringTypeIndex t \<longleftrightarrow> t = TString \<or> t = TConstCharPtr \<or> t = TCharPtr"

definition isNumericTypeIndex :: "cpp_type \<Rightarrow> bool" where
  "isNumericTypeIndex t \<longleftrightarrow>
     t \<in> set [TInt, TUInt, TShort, TUShort, TLong, TULong, TLongLong, TULongLong,
              TFloat, TDouble, TLongDouble]"

definition valueMatchesTypeIndex :: "cpp_type \<Rightarrow> any_value \<Rightarrow> bool" where
  "valueMatchesTypeIndex declaredType value =
     (if \<not> has_value value then True
      else if any_type value = declaredType then True
      else
        let declaredScalar = (isNumericTypeIndex declaredType \<or> isStringTypeIndex declaredType
                              \<or> declaredType = TBool);
            valueScalar = (isInt value \<or> isDouble value \<or> isBool value \<or> isString value)
        in if \<not> declaredScalar \<or> \<not> valueScalar then True
           else if declaredType = TBool then isBool value
           else if isStringTypeIndex declaredType then isString value
           else isInt value \<or> isDouble value \<or> isBool value)"

definition type_mismatch_message :: "(cpp_type \<Rightarrow> string) \<Rightarrow> RuleParameter \<Rightarrow> cpp_type \<Rightarrow> string" where
  "type_mismatch_message type_name p t =
     ''Parameter '' @ [CHR 0x27] @ param_name p @ [CHR 0x27] @ '' declared as type '' @ [CHR 0x27]
       @ type_name t @ [CHR 0x27] @ '' but value holds '' @ [CHR 0x27]
       @ (if has_value (param_value p) then type_name (any_type (param_value p)) else ''nil'')
       @ [CHR 0x27]"

fun validateTypes :: "(cpp_type \<Rightarrow> string) \<Rightarrow> RuleParameter list \<Rightarrow> exn + unit" where
  "validateTypes type_name [] = Inr ()"
| "validateTypes type_name (p # ps) =
     (case param_type p of
        None \<Rightarrow> validateTypes type_name ps
      | Some t \<Rightarrow>
          if \<not> valueMatchesTypeIndex t (param_value p)
          then Inl (StdException ParameterTypeException (type_mismatch_message type_name p t))
          else validateTypes type_name ps)"

definition valueMatchesType :: "string \<Rightarrow> any_value \<Rightarrow> bool" where
  "valueMatchesType declaredType value =
     (if \<not> has_value value then True
      else if declaredType \<in> set [''int'', ''integer''] then isInt value
      else if declaredType \<in> set [''long'', ''long long'', ''int64'']
           then any_type value = TLong \<or> any_type value = TLongLong
      else if declaredType \<in> set [''double'', ''float'', ''number''] then isDouble value \<or> isInt value
      else if declaredType \<in> set [''bool'', ''boolean''] then isBool value
      else if declaredType \<in> set [''string'', ''std::string'', ''str''] then isString value
      else if declaredType \<in> set [''array'', ''list'', ''vector'']
           then any_type value = TVectorInt \<or> any_type value = TVectorDouble
                \<or> any_type value = TVectorString
      else if declaredType \<in> set [''optional'', ''nullable''] then True
      else True)"

definition getSupportedTypes :: "string list" where
  "getSupportedTypes =
     [''int'', ''integer'', ''long'', ''long long'', ''int64'',
      ''double'', ''float'', ''number'', ''bool'', ''boolean'',
      ''string'', ''std::string'', ''str'', ''array'', ''list'', ''vector'',
      ''optional'', ''nullable'']"

section \<open>What the check guarantees\<close>

lemmas type_check_defs = isInt_def isDouble_def isBool_def isString_def isStringTypeIndex_def
  isNumericTypeIndex_def has_value_def

lemma validateTypes_ok_iff:
  "validateTypes tn ps = Inr () \<longleftrightarrow>
     (\<forall>p\<in>set ps. \<forall>t. param_type p = Some t \<longrightarrow> valueMatchesTypeIndex t (param_value p))"
  by (induction ps) (auto split: option.splits)

lemma constructed_param_matches:
  "valueMatchesTypeIndex (remove_pointer (any_type v)) v"
  by (cases v) (simp_all add: valueMatchesTypeIndex_def type_check_defs)

text \<open>
  The type check never rejects what the C++ caller built without a declared type: a
  \<^verbatim>\<open>RuleParameter(name, value)\<close> records its value's own type (the pointee for pointers), and a
  parameter list made of such parameters always passes \<^verbatim>\<open>validateTypes\<close>.
\<close>

lemma constructed_params_validate:
  "validateTypes tn (map (\<lambda>(n, v). mk_param n v) nvs) = Inr ()"
  by (auto simp: validateTypes_ok_iff mk_param_def constructed_param_matches)

text \<open>
  A declared string or boolean type is enforced against every scalar value the check can
  recognise: \<^verbatim>\<open>validateTypes\<close> fails with the message that names the first offending parameter, its
  declared type and the type of the value it holds; every parameter before it was acceptable.
\<close>

lemma validateTypes_first_mismatch:
  assumes "validateTypes tn ps = Inl e"
  shows "\<exists>before p after t. ps = before @ p # after \<and> validateTypes tn before = Inr () \<and>
     param_type p = Some t \<and> param_value p \<noteq> NoValue \<and> any_type (param_value p) \<noteq> t \<and>
     e = StdException ParameterTypeException (type_mismatch_message tn p t) \<and>
     (if isStringTypeIndex t then \<not> isString (param_value p)
      else if t = TBool then \<not> isBool (param_value p)
      else isNumericTypeIndex t \<and> isString (param_value p))"
  using assms
proof (induction ps)
  case Nil
  then show ?case by simp
next
  case (Cons p ps)
  show ?case
  proof (cases "\<exists>t. param_type p = Some t \<and> \<not> valueMatchesTypeIndex t (param_value p)")
    case True
    then obtain t where t: "param_type p = Some t" "\<not> valueMatchesTypeIndex t (param_value p)" by blast
    with Cons.prems show ?thesis
      by (intro exI [of _ "[]"] exI [of _ p] exI [of _ ps] exI [of _ t])
        (auto simp: valueMatchesTypeIndex_def Let_def type_check_defs split: if_splits)
  next
    case False
    with Cons.prems have "validateTypes tn ps = Inl e" by (auto split: option.splits)
    from Cons.IH [OF this] obtain before q after t where
      *: "ps = before @ q # after" "validateTypes tn before = Inr ()" and
      **: "param_type q = Some t \<and> param_value q \<noteq> NoValue \<and> any_type (param_value q) \<noteq> t \<and>
         e = StdException ParameterTypeException (type_mismatch_message tn q t) \<and>
         (if isStringTypeIndex t then \<not> isString (param_value q)
          else if t = TBool then \<not> isBool (param_value q)
          else isNumericTypeIndex t \<and> isString (param_value q))" by blast
    from * False have "p # ps = (p # before) @ q # after" "validateTypes tn (p # before) = Inr ()"
      by (auto split: option.splits)
    with ** show ?thesis by blast
  qed
qed

lemma validateTypes_first_mismatch_example:
  "\<exists>before p after t.
     [mk_param ''a'' (VInt 1), mk_param_typed ''b'' (VInt 2) TString] = before @ p # after \<and>
     validateTypes (\<lambda>t. ''T'') before = Inr () \<and> param_type p = Some t \<and>
     param_value p \<noteq> NoValue \<and> any_type (param_value p) \<noteq> t \<and>
     StdException ParameterTypeException
       (type_mismatch_message (\<lambda>t. ''T'') (mk_param_typed ''b'' (VInt 2) TString) TString) =
       StdException ParameterTypeException (type_mismatch_message (\<lambda>t. ''T'') p t) \<and>
     (if isStringTypeIndex t then \<not> isString (param_value p)
      else if t = TBool then \<not> isBool (param_value p)
      else isNumericTypeIndex t \<and> isString (param_value p))"
  by (rule validateTypes_first_mismatch)
    (simp add: mk_param_def mk_param_typed_def valueMatchesTypeIndex_def type_check_defs)

end
