(* ===== verification/Rule_Context.thy ===== *)
theory Rule_Context
  imports Parameter_Validator
begin

text \<open>
  Results and the execution context: \<^verbatim>\<open>RuleMetrics\<close>, \<^verbatim>\<open>RuleResult\<close> and \<^verbatim>\<open>AsyncTask\<close>
  (include/fastrules/rule_result.hpp) and \<^verbatim>\<open>RuleContext\<close> (include/fastrules/rule_context.hpp,
  src/rule_context.cpp). The locks of the context make its operations atomic; an
  \<^verbatim>\<open>unordered_map\<close> is a partial map. A \<^verbatim>\<open>RuleException\<close> is its message.
\<close>

section \<open>Results\<close>

record RuleMetrics =
  evaluationCount :: int
  failureCount :: int
  totalExecutionTime :: int
  lastExecuted :: int

definition init_metrics :: RuleMetrics where
  "init_metrics = \<lparr>evaluationCount = 0, failureCount = 0, totalExecutionTime = 0, lastExecuted = 0\<rparr>"

datatype RuleResult =
  RuleResult (res_ruleName: string) (res_ruleId: int) (success: bool) (skipped: bool)
    (exception: "string option") (executedAt: int) (completedAt: int) (metrics: RuleMetrics)
    (childResults: "RuleResult list")

definition init_result :: RuleResult where
  "init_result = RuleResult [] 0 False False None 0 0 init_metrics []"

primrec with_success :: "bool \<Rightarrow> RuleResult \<Rightarrow> RuleResult" where
  "with_success b (RuleResult n i s k e x c m ch) = RuleResult n i b k e x c m ch"

primrec with_skipped :: "bool \<Rightarrow> RuleResult \<Rightarrow> RuleResult" where
  "with_skipped b (RuleResult n i s k e x c m ch) = RuleResult n i s b e x c m ch"

primrec with_exception :: "string option \<Rightarrow> RuleResult \<Rightarrow> RuleResult" where
  "with_exception ex (RuleResult n i s k e x c m ch) = RuleResult n i s k ex x c m ch"

primrec with_metrics :: "RuleMetrics \<Rightarrow> RuleResult \<Rightarrow> RuleResult" where
  "with_metrics m' (RuleResult n i s k e x c m ch) = RuleResult n i s k e x c m' ch"

primrec with_children :: "RuleResult list \<Rightarrow> RuleResult \<Rightarrow> RuleResult" where
  "with_children ch' (RuleResult n i s k e x c m ch) = RuleResult n i s k e x c m ch'"

primrec with_completedAt :: "int \<Rightarrow> RuleResult \<Rightarrow> RuleResult" where
  "with_completedAt t (RuleResult n i s k e x c m ch) = RuleResult n i s k e x t m ch"

definition isSuccess :: "RuleResult \<Rightarrow> bool" where
  "isSuccess r \<longleftrightarrow> success r \<and> exception r = None \<and> \<not> skipped r"

fun isFullySuccessful :: "RuleResult \<Rightarrow> bool" where
  "isFullySuccessful (RuleResult n i s k e x c m ch) =
     (if \<not> s \<or> e \<noteq> None \<or> k then False else list_all isFullySuccessful ch)"

definition duration :: "RuleResult \<Rightarrow> int" where
  "duration r = completedAt r - executedAt r"

lemma with_simps [simp]:
  "success (with_success b r) = b" "skipped (with_success b r) = skipped r"
  "exception (with_success b r) = exception r" "childResults (with_success b r) = childResults r"
  "res_ruleName (with_success b r) = res_ruleName r" "res_ruleId (with_success b r) = res_ruleId r"
  "success (with_skipped b r) = success r" "skipped (with_skipped b r) = b"
  "exception (with_skipped b r) = exception r" "childResults (with_skipped b r) = childResults r"
  "res_ruleName (with_skipped b r) = res_ruleName r" "res_ruleId (with_skipped b r) = res_ruleId r"
  "success (with_exception e r) = success r" "skipped (with_exception e r) = skipped r"
  "exception (with_exception e r) = e" "childResults (with_exception e r) = childResults r"
  "res_ruleName (with_exception e r) = res_ruleName r" "res_ruleId (with_exception e r) = res_ruleId r"
  "success (with_metrics m r) = success r" "skipped (with_metrics m r) = skipped r"
  "exception (with_metrics m r) = exception r" "childResults (with_metrics m r) = childResults r"
  "res_ruleName (with_metrics m r) = res_ruleName r" "res_ruleId (with_metrics m r) = res_ruleId r"
  "metrics (with_metrics m r) = m" "metrics (with_success b r) = metrics r"
  "metrics (with_exception e r) = metrics r" "metrics (with_children ch r) = metrics r"
  "success (with_children ch r) = success r" "skipped (with_children ch r) = skipped r"
  "exception (with_children ch r) = exception r" "childResults (with_children ch r) = ch"
  "res_ruleName (with_children ch r) = res_ruleName r" "res_ruleId (with_children ch r) = res_ruleId r"
  "success (with_completedAt t r) = success r" "skipped (with_completedAt t r) = skipped r"
  "exception (with_completedAt t r) = exception r" "childResults (with_completedAt t r) = childResults r"
  "completedAt (with_completedAt t r) = t" "executedAt (with_completedAt t r) = executedAt r"
  by (cases r, simp)+

lemma init_result_simps [simp]:
  "success init_result = False" "skipped init_result = False" "exception init_result = None"
  "childResults init_result = []" "metrics init_result = init_metrics"
  by (simp_all add: init_result_def)

text \<open>All results of the tree below (and including) a result.\<close>

fun result_tree :: "RuleResult \<Rightarrow> RuleResult list" where
  "result_tree (RuleResult n i s k e x c m ch) =
     RuleResult n i s k e x c m ch # concat (map result_tree ch)"

lemma fully_successful_iff: "isFullySuccessful r \<longleftrightarrow> (\<forall>s\<in>set (result_tree r). isSuccess s)"
proof (induction r rule: isFullySuccessful.induct)
  case (1 n i s k e x c m ch)
  show ?case
  proof (cases "\<not> s \<or> e \<noteq> None \<or> k")
    case False
    then have "isFullySuccessful c' \<longleftrightarrow> (\<forall>s\<in>set (result_tree c'). isSuccess s)" if "c' \<in> set ch" for c'
      using 1 that by blast
    with False show ?thesis by (auto simp: isSuccess_def list_all_iff)
  qed (auto simp: isSuccess_def)
qed

text \<open>The asynchronous wrapper and the coroutine task's \<^verbatim>\<open>get\<close>: a captured exception is rethrown.\<close>

record AsyncRuleResult =
  async_result :: RuleResult
  async_exception :: "exn option"
  async_completedAt :: int

definition async_isSuccess :: "AsyncRuleResult \<Rightarrow> bool" where
  "async_isSuccess a \<longleftrightarrow> async_exception a = None \<and> isSuccess (async_result a)"

record 'a promise_type =
  promise_value :: 'a
  promise_exception :: "exn option"

definition async_get :: "'a \<Rightarrow> 'a promise_type option \<Rightarrow> exn + 'a" where
  "async_get dflt handle =
     (case handle of
        None \<Rightarrow> Inr dflt
      | Some p \<Rightarrow> (case promise_exception p of Some e \<Rightarrow> Inl e | None \<Rightarrow> Inr (promise_value p)))"

section \<open>The context\<close>

record RuleContext =
  results :: "string \<rightharpoonup> RuleResult"
  variables :: "string \<rightharpoonup> any_value"
  lastError :: "(string \<times> string) option"

definition init_context :: RuleContext where
  "init_context = \<lparr>results = Map.empty, variables = Map.empty, lastError = None\<rparr>"

definition setResult :: "string \<Rightarrow> RuleResult \<Rightarrow> RuleContext \<Rightarrow> RuleContext" where
  "setResult ruleName r ctx = ctx\<lparr>results := (results ctx)(ruleName \<mapsto> r)\<rparr>"

definition getResult :: "RuleContext \<Rightarrow> string \<Rightarrow> RuleResult option" where
  "getResult ctx ruleName = results ctx ruleName"

definition hasResult :: "RuleContext \<Rightarrow> string \<Rightarrow> bool" where
  "hasResult ctx ruleName \<longleftrightarrow> results ctx ruleName \<noteq> None"

definition setVariable :: "string \<Rightarrow> any_value \<Rightarrow> RuleContext \<Rightarrow> RuleContext" where
  "setVariable name v ctx = ctx\<lparr>variables := (variables ctx)(name \<mapsto> v)\<rparr>"

definition getVariable :: "RuleContext \<Rightarrow> string \<Rightarrow> any_value option" where
  "getVariable ctx name = variables ctx name"

definition clear_context :: "RuleContext \<Rightarrow> RuleContext" where
  "clear_context ctx = ctx\<lparr>results := Map.empty, variables := Map.empty\<rparr>"

definition setLastError :: "string \<Rightarrow> string \<Rightarrow> RuleContext \<Rightarrow> RuleContext" where
  "setLastError ruleName err ctx = ctx\<lparr>lastError := Some (ruleName, err)\<rparr>"

definition getLastError :: "RuleContext \<Rightarrow> (string \<times> string) option" where
  "getLastError ctx = lastError ctx"

definition clearLastError :: "RuleContext \<Rightarrow> RuleContext" where
  "clearLastError ctx = ctx\<lparr>lastError := None\<rparr>"

text \<open>Copy construction and assignment.\<close>

definition copy_context :: "RuleContext \<Rightarrow> RuleContext" where
  "copy_context other =
     \<lparr>results = results other, variables = variables other, lastError = lastError other\<rparr>"

definition assign_context :: "RuleContext \<Rightarrow> RuleContext \<Rightarrow> RuleContext" where
  "assign_context this other =
     this\<lparr>results := results other, variables := variables other, lastError := lastError other\<rparr>"

interpretation result_store: kv_store setResult getResult
  by unfold_locales (simp_all add: setResult_def getResult_def)

interpretation variable_store: kv_store setVariable getVariable
  by unfold_locales (simp_all add: setVariable_def getVariable_def)

lemma context_frames [frame_simps]:
  "getResult (setVariable n v ctx) = getResult ctx" "getVariable (setResult n r ctx) = getVariable ctx"
  "getLastError (setResult n r ctx) = getLastError ctx" "getResult (setLastError n e ctx) = getResult ctx"
  "getVariable (setLastError n e ctx) = getVariable ctx" "getResult (clearLastError ctx) = getResult ctx"
  by (simp_all add: fun_eq_iff getResult_def getVariable_def setResult_def setVariable_def
      setLastError_def getLastError_def clearLastError_def)

lemma hasResult_getResult: "hasResult ctx n \<longleftrightarrow> getResult ctx n \<noteq> None"
  by (simp add: hasResult_def getResult_def)

lemma copy_context_id: "copy_context ctx = ctx" "assign_context this ctx = ctx"
  by (simp_all add: copy_context_def assign_context_def)

text \<open>
  \<^verbatim>\<open>clear()\<close> does not restore the initial state: it forgets all results and variables but keeps
  the recorded error, so a context that is cleared for reuse still reports the previous
  execution's error.
\<close>

lemma clear_keeps_last_error:
  "getResult (clear_context ctx) = Map.empty \<and> getVariable (clear_context ctx) = Map.empty \<and>
   getLastError (clear_context ctx) = getLastError ctx \<and>
   (clear_context ctx = init_context \<longleftrightarrow> getLastError ctx = None)"
  by (cases ctx) (auto simp: clear_context_def getResult_def getVariable_def getLastError_def
      init_context_def)

end
