(* ===== verification/Lua_Backend.thy ===== *)
theory Lua_Backend
  imports Rule_Context
begin

text \<open>
  The Lua backend: the value interface \<^verbatim>\<open>LuaValue\<close> / \<^verbatim>\<open>LuaBridgeValue\<close>, the callback registry
  \<^verbatim>\<open>ActionCallbacks\<close> (include/fastrules/action_callback.hpp) and \<^verbatim>\<open>LuaBridge3Backend\<close>
  (src/lua_backend_luabridge.cpp), the only backend \<^verbatim>\<open>LuaBackend::create\<close> returns. The Lua
  virtual machine is not part of the sources: what it does when a chunk is loaded, called or
  resumed is the record \<open>lua_vm\<close> of arguments. A registry reference is identified with the
  chunk it refers to, and the table of globals is kept explicitly. Stack balance and the liveness
  flags of stale values are not modelled.
\<close>

section \<open>Lua values\<close>

datatype lua_fn = FnPredicate string | FnAction nat | FnGetResult | FnOther nat

datatype lua_value =
    LNil | LBool bool | LInteger int | LNumber "64 word" | LString string
  | LTable "(lua_value \<times> lua_value) list" | LFunction lua_fn | LUserdata string "64 word"
  | LLightUserdata "64 word"

datatype LuaType = Nil_t | Boolean_t | Number_t | Integer_t | String_t | Table_t | Function_t | Userdata_t

text \<open>The environment in which a chunk runs: the results \<^verbatim>\<open>context.getResult\<close> reads, the deadline
  the count hook compares the clock with, and the number of clock readings made so far.\<close>

record run_env =
  env_results :: "string \<Rightarrow> RuleResult option"
  env_deadline :: "int option"
  env_tick :: nat

record 'h lua_state =
  lua_globals :: "string \<Rightarrow> lua_value"
  lua_heap :: 'h

record 'h lua_vm =
  vm_loadstring :: "string \<Rightarrow> string option"
  vm_pcall :: "string \<Rightarrow> run_env \<Rightarrow> 'h lua_state \<Rightarrow> (string + lua_value) \<times> 'h lua_state"
  vm_newthread :: "string \<Rightarrow> 'h \<Rightarrow> int option \<times> 'h"
  vm_resume :: "int \<Rightarrow> run_env \<Rightarrow> 'h lua_state \<Rightarrow> (string + bool) \<times> 'h lua_state"
  vm_newstate :: 'h
  vm_openlibs :: "string \<Rightarrow> lua_value"
  vm_gc :: "'h \<Rightarrow> 'h"
  vm_memoryKB :: "'h \<Rightarrow> nat"
  vm_str2number :: "string \<Rightarrow> 64 word option"
  vm_int2number :: "int \<Rightarrow> 64 word"
  vm_number2int :: "64 word \<Rightarrow> int"
  vm_number_fmt :: "64 word \<Rightarrow> string"
  vm_number_le :: "64 word \<Rightarrow> 64 word \<Rightarrow> bool"
  vm_float2double :: "32 word \<Rightarrow> 64 word"

text \<open>\<^verbatim>\<open>std::string(const char*)\<close>: up to the terminating null character.\<close>

definition c_str :: "string \<Rightarrow> string" where
  "c_str s = takeWhile (\<lambda>c. c \<noteq> CHR 0x00) s"

fun lv_type :: "lua_value \<Rightarrow> LuaType" where
  "lv_type LNil = Nil_t"
| "lv_type (LBool _) = Boolean_t"
| "lv_type (LInteger _) = Integer_t"
| "lv_type (LNumber _) = Number_t"
| "lv_type (LString _) = String_t"
| "lv_type (LTable _) = Table_t"
| "lv_type (LFunction _) = Function_t"
| "lv_type (LUserdata _ _) = Userdata_t"
| "lv_type (LLightUserdata _) = Userdata_t"

definition lv_isNil :: "lua_value \<Rightarrow> bool" where
  "lv_isNil v \<longleftrightarrow> v = LNil"

text \<open>\<^verbatim>\<open>lua_isstring\<close> also accepts numbers, which convert to strings.\<close>

fun lv_isString :: "lua_value \<Rightarrow> bool" where
  "lv_isString (LString _) = True"
| "lv_isString (LInteger _) = True"
| "lv_isString (LNumber _) = True"
| "lv_isString _ = False"

fun lv_isTable :: "lua_value \<Rightarrow> bool" where
  "lv_isTable (LTable _) = True"
| "lv_isTable _ = False"

fun lv_toBool :: "lua_value \<Rightarrow> bool" where
  "lv_toBool LNil = False"
| "lv_toBool (LBool b) = b"
| "lv_toBool _ = True"

fun lv_toNumber :: "'h lua_vm \<Rightarrow> lua_value \<Rightarrow> 64 word" where
  "lv_toNumber vm (LNumber d) = d"
| "lv_toNumber vm (LInteger i) = vm_int2number vm i"
| "lv_toNumber vm (LString s) = (case vm_str2number vm s of Some d \<Rightarrow> d | None \<Rightarrow> 0)"
| "lv_toNumber vm _ = 0"

fun lv_toInteger :: "'h lua_vm \<Rightarrow> lua_value \<Rightarrow> int" where
  "lv_toInteger vm (LInteger i) = i"
| "lv_toInteger vm (LNumber d) = vm_number2int vm d"
| "lv_toInteger vm (LString s) =
     (case vm_str2number vm s of Some d \<Rightarrow> vm_number2int vm d | None \<Rightarrow> 0)"
| "lv_toInteger vm _ = 0"

fun lv_toString :: "'h lua_vm \<Rightarrow> lua_value \<Rightarrow> string" where
  "lv_toString vm (LString s) = c_str s"
| "lv_toString vm (LInteger i) = std_to_string i"
| "lv_toString vm (LNumber d) = vm_number_fmt vm d"
| "lv_toString vm _ = []"

fun lv_length :: "'h lua_vm \<Rightarrow> lua_value \<Rightarrow> nat" where
  "lv_length vm (LTable es) = length es"
| "lv_length vm (LString s) = length s"
| "lv_length vm _ = 0"

fun lv_get :: "lua_value \<Rightarrow> string \<Rightarrow> lua_value" where
  "lv_get (LTable es) key = (case map_of es (LString (c_str key)) of Some v \<Rightarrow> v | None \<Rightarrow> LNil)"
| "lv_get _ key = LNil"

text \<open>\<^verbatim>\<open>pushAny\<close>: how a parameter value arrives in Lua. Casts to the signed 64-bit
  \<^verbatim>\<open>lua_Integer\<close> wrap.\<close>

definition to_lua_Integer :: "int \<Rightarrow> int" where
  "to_lua_Integer i = sint (word_of_int i :: 64 word)"

fun pushAny :: "'h lua_vm \<Rightarrow> any_value \<Rightarrow> lua_value" where
  "pushAny vm NoValue = LNil"
| "pushAny vm (VBool b) = LBool b"
| "pushAny vm (VInt i) = LInteger i"
| "pushAny vm (VUInt i) = LInteger (to_lua_Integer i)"
| "pushAny vm (VLong i) = LInteger (to_lua_Integer i)"
| "pushAny vm (VLongLong i) = LInteger (to_lua_Integer i)"
| "pushAny vm (VULong i) = LInteger (to_lua_Integer i)"
| "pushAny vm (VULongLong i) = LInteger (to_lua_Integer i)"
| "pushAny vm (VDouble d) = LNumber d"
| "pushAny vm (VFloat f) = LNumber (vm_float2double vm f)"
| "pushAny vm (VString s) = LString s"
| "pushAny vm (VConstCharPtr s) = LString (c_str s)"
| "pushAny vm _ = LNil"

section \<open>Action callbacks\<close>

datatype handler = StubHandler | Handler nat

text \<open>\<^verbatim>\<open>handlers_\<close>, as the association list in iteration order.\<close>

type_synonym ActionCallbacks = "(string \<times> handler) list"

definition registerHandler :: "string \<Rightarrow> handler \<Rightarrow> ActionCallbacks \<Rightarrow> ActionCallbacks" where
  "registerHandler name h cbs = AList.update name h cbs"

definition registerStub :: "string \<Rightarrow> ActionCallbacks \<Rightarrow> ActionCallbacks" where
  "registerStub name cbs = AList.update name StubHandler cbs"

definition hasHandler :: "ActionCallbacks \<Rightarrow> string \<Rightarrow> bool" where
  "hasHandler cbs name \<longleftrightarrow> map_of cbs name \<noteq> None"

definition forEachHandler :: "(string \<Rightarrow> handler \<Rightarrow> 's \<Rightarrow> 's) \<Rightarrow> ActionCallbacks \<Rightarrow> 's \<Rightarrow> 's" where
  "forEachHandler f cbs s = fold (\<lambda>(name, h). f name h) cbs s"

interpretation callback_store: kv_store registerHandler map_of
  by unfold_locales (simp_all add: registerHandler_def update_conv')

section \<open>The backend\<close>

record 'h backend =
  be_lua :: "'h lua_state"
  compiled :: "string \<rightharpoonup> string"
  coroutines :: "int \<rightharpoonup> string"
  globals_set :: "string set"
  predicates :: "string \<rightharpoonup> (lua_value list \<Rightarrow> bool)"
  actionHandlers :: "handler list"
  actionHandlerIds :: "string \<rightharpoonup> nat"

definition lua_setglobal :: "string \<Rightarrow> lua_value \<Rightarrow> 'h backend \<Rightarrow> 'h backend" where
  "lua_setglobal name v b =
     b\<lparr>be_lua := (be_lua b)\<lparr>lua_globals := (lua_globals (be_lua b))(c_str name := v)\<rparr>\<rparr>"

definition openLibraries :: "'h lua_vm \<Rightarrow> 'h backend \<Rightarrow> 'h backend" where
  "openLibraries vm b = b\<lparr>be_lua := (be_lua b)\<lparr>lua_globals := vm_openlibs vm\<rparr>\<rparr>"

definition create_backend :: "'h lua_vm \<Rightarrow> 'h backend" where
  "create_backend vm =
     \<lparr>be_lua = \<lparr>lua_globals = (\<lambda>_. LNil), lua_heap = vm_newstate vm\<rparr>,
      compiled = Map.empty, coroutines = Map.empty, globals_set = {}, predicates = Map.empty,
      actionHandlers = [], actionHandlerIds = Map.empty\<rparr>"

text \<open>\<^verbatim>\<open>reset\<close> drops every table of the backend and opens a new Lua state.\<close>

definition reset_backend :: "'h lua_vm \<Rightarrow> 'h backend \<Rightarrow> 'h backend" where
  "reset_backend vm b =
     openLibraries vm
       (b\<lparr>compiled := Map.empty, coroutines := Map.empty, globals_set := {},
          predicates := Map.empty, actionHandlers := [], actionHandlerIds := Map.empty,
          be_lua := \<lparr>lua_globals = (\<lambda>_. LNil), lua_heap = vm_newstate vm\<rparr>\<rparr>)"

definition be_collectGarbage :: "'h lua_vm \<Rightarrow> 'h backend \<Rightarrow> 'h backend" where
  "be_collectGarbage vm b = b\<lparr>be_lua := (be_lua b)\<lparr>lua_heap := vm_gc vm (lua_heap (be_lua b))\<rparr>\<rparr>"

definition memoryUsageKB :: "'h lua_vm \<Rightarrow> 'h backend \<Rightarrow> nat" where
  "memoryUsageKB vm b = vm_memoryKB vm (lua_heap (be_lua b))"

definition be_compileExpression ::
    "'h lua_vm \<Rightarrow> string \<Rightarrow> string \<Rightarrow> 'h backend \<Rightarrow> (exn + unit) \<times> 'h backend" where
  "be_compileExpression vm bid code b =
     (let wrapped = ''return '' @ code
      in case vm_loadstring vm (c_str wrapped) of
           Some msg \<Rightarrow> (Inl (StdException RuntimeError (''Failed to compile expression: '' @ msg)), b)
         | None \<Rightarrow> (Inr (), b\<lparr>compiled := (compiled b)(bid \<mapsto> c_str wrapped)\<rparr>))"

definition be_compileAction ::
    "'h lua_vm \<Rightarrow> string \<Rightarrow> string \<Rightarrow> 'h backend \<Rightarrow> (exn + unit) \<times> 'h backend" where
  "be_compileAction vm bid code b =
     (case vm_loadstring vm (c_str code) of
        Some msg \<Rightarrow> (Inl (StdException RuntimeError (''Failed to compile action: '' @ msg)), b)
      | None \<Rightarrow> (Inr (), b\<lparr>compiled := (compiled b)(bid \<mapsto> c_str code)\<rparr>))"

definition set_params :: "'h lua_vm \<Rightarrow> (string \<times> any_value) list \<Rightarrow> 'h backend \<Rightarrow> 'h backend" where
  "set_params vm params b = fold (\<lambda>(name, value). lua_setglobal name (pushAny vm value)) params b"

definition clear_params :: "(string \<times> any_value) list \<Rightarrow> 'h backend \<Rightarrow> 'h backend" where
  "clear_params params b = fold (\<lambda>(name, _). lua_setglobal name LNil) params b"

text \<open>The protected call of a chunk between setting and clearing the parameter globals.\<close>

definition call_with_params ::
    "'h lua_vm \<Rightarrow> run_env \<Rightarrow> string \<Rightarrow> (string \<times> any_value) list \<Rightarrow> 'h backend
       \<Rightarrow> (string + lua_value) \<times> 'h backend" where
  "call_with_params vm env chunk params b =
     (let b1 = set_params vm params b; (r, L) = vm_pcall vm chunk env (be_lua b1)
      in (r, clear_params params (b1\<lparr>be_lua := L\<rparr>)))"

definition be_evaluate ::
    "'h lua_vm \<Rightarrow> run_env \<Rightarrow> string \<Rightarrow> (string \<times> any_value) list \<Rightarrow> 'h backend
       \<Rightarrow> (exn + lua_value option) \<times> 'h backend" where
  "be_evaluate vm env bid params b =
     (case compiled b bid of
        None \<Rightarrow> (Inl (StdException RuntimeError (''Expression not compiled: '' @ bid)), b)
      | Some chunk \<Rightarrow>
          (case call_with_params vm env chunk params b of
             (Inl msg, b') \<Rightarrow> (Inl (StdException RuntimeError (''Expression evaluation failed: '' @ msg)), b')
           | (Inr v, b') \<Rightarrow> (Inr (Some v), b')))"

definition be_executeAction ::
    "'h lua_vm \<Rightarrow> run_env \<Rightarrow> string \<Rightarrow> (string \<times> any_value) list \<Rightarrow> 'h backend
       \<Rightarrow> (exn + unit) \<times> 'h backend" where
  "be_executeAction vm env bid params b =
     (case compiled b bid of
        None \<Rightarrow> (Inl (StdException RuntimeError (''Action not compiled: '' @ bid)), b)
      | Some chunk \<Rightarrow>
          (case call_with_params vm env chunk params b of
             (Inl msg, b') \<Rightarrow> (Inl (StdException RuntimeError (''Action execution failed: '' @ msg)), b')
           | (Inr v, b') \<Rightarrow> (Inr (), b')))"

definition be_createCoroutine :: "'h lua_vm \<Rightarrow> string \<Rightarrow> 'h backend \<Rightarrow> int option \<times> 'h backend" where
  "be_createCoroutine vm bid b =
     (case compiled b bid of
        None \<Rightarrow> (None, b)
      | Some chunk \<Rightarrow>
          (case vm_newthread vm chunk (lua_heap (be_lua b)) of
             (None, h) \<Rightarrow> (None, b\<lparr>be_lua := (be_lua b)\<lparr>lua_heap := h\<rparr>\<rparr>)
           | (Some threadRef, h) \<Rightarrow>
               (Some threadRef, b\<lparr>be_lua := (be_lua b)\<lparr>lua_heap := h\<rparr>,
                                  coroutines := (coroutines b)(threadRef \<mapsto> chunk)\<rparr>)))"

definition be_resumeCoroutine ::
    "'h lua_vm \<Rightarrow> run_env \<Rightarrow> int \<Rightarrow> 'h backend \<Rightarrow> (exn + bool) \<times> 'h backend" where
  "be_resumeCoroutine vm env handle b =
     (case coroutines b handle of
        None \<Rightarrow> (Inr True, b)
      | Some chunk \<Rightarrow>
          (case vm_resume vm handle env (be_lua b) of
             (Inr finished, L) \<Rightarrow> (Inr finished, b\<lparr>be_lua := L\<rparr>)
           | (Inl msg, L) \<Rightarrow> (Inl (StdException RuntimeError (''Coroutine execution failed: '' @ msg)),
                              b\<lparr>be_lua := L\<rparr>)))"

definition be_closeCoroutine :: "int \<Rightarrow> 'h backend \<Rightarrow> 'h backend" where
  "be_closeCoroutine handle b = b\<lparr>coroutines := (coroutines b)(handle := None)\<rparr>"

definition removeCompiled :: "string \<Rightarrow> 'h backend \<Rightarrow> 'h backend" where
  "removeCompiled bid b = b\<lparr>compiled := (compiled b)(bid := None)\<rparr>"

definition be_setGlobal :: "string \<Rightarrow> lua_value \<Rightarrow> 'h backend \<Rightarrow> 'h backend" where
  "be_setGlobal name v b = (lua_setglobal name v b)\<lparr>globals_set := insert name (globals_set b)\<rparr>"

definition be_getGlobal :: "'h backend \<Rightarrow> string \<Rightarrow> lua_value" where
  "be_getGlobal b name = lua_globals (be_lua b) (c_str name)"

definition be_clearGlobals :: "'h backend \<Rightarrow> 'h backend" where
  "be_clearGlobals b =
     b\<lparr>be_lua := (be_lua b)\<lparr>lua_globals :=
          (\<lambda>n. if n \<in> c_str ` globals_set b then LNil else lua_globals (be_lua b) n)\<rparr>,
       globals_set := {}\<rparr>"

definition registerPredicate :: "string \<Rightarrow> (lua_value list \<Rightarrow> bool) \<Rightarrow> 'h backend \<Rightarrow> 'h backend" where
  "registerPredicate name f b =
     lua_setglobal name (LFunction (FnPredicate name)) (b\<lparr>predicates := (predicates b)(name \<mapsto> f)\<rparr>)"

text \<open>\<^verbatim>\<open>luaPredicateCallHandler\<close>: a call of the closure looks the predicate up by name.\<close>

definition luaPredicateCallHandler :: "'h backend \<Rightarrow> string \<Rightarrow> lua_value list \<Rightarrow> string + lua_value" where
  "luaPredicateCallHandler b name args =
     (case predicates b name of
        None \<Rightarrow> Inl (''Predicate '' @ [CHR 0x27] @ name @ [CHR 0x27] @ '' not found or null in backend map'')
      | Some f \<Rightarrow> Inr (LBool (f args)))"

definition bind_action :: "string \<Rightarrow> handler \<Rightarrow> 'h backend \<Rightarrow> 'h backend" where
  "bind_action name h b =
     (case actionHandlerIds b name of
        Some i \<Rightarrow> lua_setglobal name (LFunction (FnAction i))
                    (b\<lparr>actionHandlers := (actionHandlers b)[i := h]\<rparr>)
      | None \<Rightarrow> let i = length (actionHandlers b)
                in lua_setglobal name (LFunction (FnAction i))
                     (b\<lparr>actionHandlers := actionHandlers b @ [h],
                        actionHandlerIds := (actionHandlerIds b)(name \<mapsto> i)\<rparr>))"

definition bindActions :: "ActionCallbacks \<Rightarrow> 'h backend \<Rightarrow> 'h backend" where
  "bindActions cbs b = forEachHandler bind_action cbs b"

text \<open>The closure of an action: the handler in its slot, or an error for an invalid slot.\<close>

definition action_closure :: "'h backend \<Rightarrow> nat \<Rightarrow> string + handler" where
  "action_closure b hId =
     (if hId < length (actionHandlers b) then Inr (actionHandlers b ! hId)
      else Inl ''Invalid action handler ID'')"

text \<open>What the closure passes to the handler: numbers, and strings that read as numbers, as
  \<^verbatim>\<open>double\<close>, then strings and booleans; everything else as an empty value.\<close>

definition action_args :: "'h lua_vm \<Rightarrow> lua_value list \<Rightarrow> any_value list" where
  "action_args vm vs =
     map (\<lambda>v. case v of
            LNumber d \<Rightarrow> VDouble d
          | LInteger i \<Rightarrow> VDouble (vm_int2number vm i)
          | LString s \<Rightarrow> (case vm_str2number vm s of
                            Some d \<Rightarrow> VDouble d | None \<Rightarrow> VString (c_str s))
          | LBool b \<Rightarrow> VBool b
          | _ \<Rightarrow> NoValue) vs"

section \<open>Compiled chunks\<close>

lemma lua_setglobal_simps [simp]:
  "compiled (lua_setglobal n v b) = compiled b" "coroutines (lua_setglobal n v b) = coroutines b"
  "globals_set (lua_setglobal n v b) = globals_set b" "predicates (lua_setglobal n v b) = predicates b"
  "actionHandlers (lua_setglobal n v b) = actionHandlers b"
  "actionHandlerIds (lua_setglobal n v b) = actionHandlerIds b"
  "lua_globals (be_lua (lua_setglobal n v b)) = (lua_globals (be_lua b))(c_str n := v)"
  "lua_heap (be_lua (lua_setglobal n v b)) = lua_heap (be_lua b)"
  by (simp_all add: lua_setglobal_def)

lemma fold_setglobal_frame [simp]:
  "compiled (fold (\<lambda>(n, v). lua_setglobal n (f v)) ps b) = compiled b"
  "coroutines (fold (\<lambda>(n, v). lua_setglobal n (f v)) ps b) = coroutines b"
  "actionHandlers (fold (\<lambda>(n, v). lua_setglobal n (f v)) ps b) = actionHandlers b"
  "actionHandlerIds (fold (\<lambda>(n, v). lua_setglobal n (f v)) ps b) = actionHandlerIds b"
  "predicates (fold (\<lambda>(n, v). lua_setglobal n (f v)) ps b) = predicates b"
  by (induction ps arbitrary: b; simp add: split_beta)+

text \<open>The globals that a list of parameters sets: Lua sees each name up to its first NUL.\<close>

definition c_names :: "(string \<times> 'a) list \<Rightarrow> (string \<times> 'a) list" where
  "c_names ps = map (\<lambda>(n, v). (c_str n, v)) ps"

lemma c_names_lookup: "n \<in> fst ` set ps \<Longrightarrow> map_of (rev (c_names ps)) (c_str n) \<noteq> None"
  by (auto simp: c_names_def map_of_eq_None_iff image_iff split_beta simp del: not_None_eq)

lemma fold_setglobal_globals:
  "lua_globals (be_lua (fold (\<lambda>(n, v). lua_setglobal n (f v)) ps b)) n =
     (case map_of (rev (c_names ps)) n of None \<Rightarrow> lua_globals (be_lua b) n | Some v \<Rightarrow> f v)"
proof (induction ps arbitrary: b)
  case (Cons p ps)
  then show ?case by (cases p) (auto simp: c_names_def map_add_def split: option.splits)
qed (simp add: c_names_def)

lemma call_with_params_frame [frame_simps]:
  assumes "call_with_params vm env chunk params b = (r, b')"
  shows "compiled b' = compiled b" "coroutines b' = coroutines b" "predicates b' = predicates b"
    "actionHandlers b' = actionHandlers b" "actionHandlerIds b' = actionHandlerIds b"
  using assms fold_setglobal_frame [of "\<lambda>_. LNil" params] fold_setglobal_frame [of "pushAny vm" params b]
  by (auto simp: call_with_params_def set_params_def clear_params_def split_beta Let_def)

lemma be_evaluate_frame [frame_simps]:
  assumes "be_evaluate vm env bid params b = (r, b')"
  shows "compiled b' = compiled b" "coroutines b' = coroutines b"
  using assms by (auto simp: be_evaluate_def split: option.splits prod.splits sum.splits
      dest: call_with_params_frame)

lemma be_executeAction_frame [frame_simps]:
  assumes "be_executeAction vm env bid params b = (r, b')"
  shows "compiled b' = compiled b" "coroutines b' = coroutines b"
  using assms by (auto simp: be_executeAction_def split: option.splits prod.splits sum.splits
      dest: call_with_params_frame)

lemma bind_action_frame [simp]:
  "compiled (bind_action n h b) = compiled b" "coroutines (bind_action n h b) = coroutines b"
  by (auto simp: bind_action_def Let_def split: option.splits)

lemma bindActions_frame [simp]:
  "compiled (bindActions cbs b) = compiled b" "coroutines (bindActions cbs b) = coroutines b"
  unfolding bindActions_def forEachHandler_def by (induction cbs arbitrary: b) (auto simp: split_beta)

lemma params_cleared:
  assumes "call_with_params vm env chunk params b = (r, b')" and "n \<in> fst ` set params"
  shows "be_getGlobal b' n = LNil"
proof -
  from assms(1) obtain b2 where "b' = clear_params params b2"
    by (auto simp: call_with_params_def split_beta Let_def)
  with c_names_lookup [OF assms(2)] show ?thesis
    using fold_setglobal_globals [of "\<lambda>_. LNil" params b2 "c_str n"]
    by (auto simp: be_getGlobal_def clear_params_def split: option.splits)
qed


text \<open>A concrete virtual machine for the examples below: every chunk compiles and returns the
  value of the global \<^verbatim>\<open>x\<close>, after assigning it to the global \<^verbatim>\<open>y\<close>.\<close>

definition sample_vm :: "unit lua_vm" where
  "sample_vm =
     \<lparr>vm_loadstring = (\<lambda>s. None),
      vm_pcall = (\<lambda>chunk env L. (Inr (lua_globals L ''x''),
                   L\<lparr>lua_globals := (lua_globals L)(''y'' := lua_globals L ''x'')\<rparr>)),
      vm_newthread = (\<lambda>chunk h. (Some 1, h)), vm_resume = (\<lambda>i env L. (Inr True, L)),
      vm_newstate = (), vm_openlibs = (\<lambda>_. LNil), vm_gc = id, vm_memoryKB = (\<lambda>_. 0),
      vm_str2number = (\<lambda>_. None), vm_int2number = word_of_int, vm_number2int = uint,
      vm_number_fmt = (\<lambda>_. ''0''), vm_number_le = (\<le>), vm_float2double = ucast\<rparr>"

definition sample_env :: run_env where
  "sample_env = \<lparr>env_results = (\<lambda>_. None), env_deadline = None, env_tick = 0\<rparr>"


section \<open>Values that reach Lua\<close>

text \<open>
  C40. What the type check of \<^verbatim>\<open>validateTypes\<close> accepts as a scalar does not always reach the
  expression: among the values it classifies as integer, floating-point, boolean or string,
  exactly those of type \<^verbatim>\<open>short\<close> and \<^verbatim>\<open>long double\<close> are pushed as nil; every other one arrives as
  a Lua value of the matching type.
\<close>

theorem scalars_reach_lua:
  assumes "isInt v \<or> isDouble v \<or> isBool v \<or> isString v"
  shows "(pushAny vm v = LNil \<longleftrightarrow> any_type v \<in> {TShort, TLongDouble}) \<and>
    (pushAny vm v \<noteq> LNil \<longrightarrow>
       lv_type (pushAny vm v) =
         (if isInt v then Integer_t else if isDouble v then Number_t
          else if isBool v then Boolean_t else String_t))"
  using assms by (cases v) (simp_all add: type_check_defs)

theorem scalars_reach_lua_witness:
  "pushAny sample_vm (VShort 7) = LNil \<and> pushAny sample_vm (VLong 7) \<noteq> LNil"
  using scalars_reach_lua [of "VShort 7" sample_vm] scalars_reach_lua [of "VLong 7" sample_vm]
  by (simp add: type_check_defs)

section \<open>Action slots\<close>

text \<open>Every bound name owns one slot, the slots are shared by no two names, and the name's global
  is the closure of its slot.\<close>

definition actions_ok :: "'h backend \<Rightarrow> bool" where
  "actions_ok b \<longleftrightarrow>
     (\<forall>n i. actionHandlerIds b n = Some i \<longrightarrow> i < length (actionHandlers b)) \<and>
     inj_on (actionHandlerIds b) (dom (actionHandlerIds b)) \<and>
     card (dom (actionHandlerIds b)) = length (actionHandlers b) \<and> finite (dom (actionHandlerIds b))"

lemma actions_ok_bind_action:
  assumes "actions_ok b"
  shows "actions_ok (bind_action n h b)"
proof (cases "actionHandlerIds b n")
  case None
  have fresh: "actionHandlerIds b m \<noteq> Some (length (actionHandlers b))" for m
    using assms unfolding actions_ok_def by (metis less_irrefl)
  have "inj_on (actionHandlerIds b) (dom (actionHandlerIds b))"
    using assms by (simp add: actions_ok_def)
  then have "inj_on ((actionHandlerIds b)(n \<mapsto> length (actionHandlers b)))
      (insert n (dom (actionHandlerIds b)))"
    using fresh fresh [THEN not_sym] unfolding inj_on_def by (auto split: if_splits)
  moreover have "n \<notin> dom (actionHandlerIds b)" using None by auto
  ultimately show ?thesis
    using assms None by (auto simp: actions_ok_def bind_action_def Let_def less_SucI)
next
  case (Some i)
  then show ?thesis using assms by (auto simp: actions_ok_def bind_action_def)
qed

lemma bind_action_ids:
  "actionHandlerIds (bind_action n h b) =
     (if actionHandlerIds b n = None
      then (actionHandlerIds b)(n \<mapsto> length (actionHandlers b)) else actionHandlerIds b)"
  by (auto simp: bind_action_def Let_def split: option.splits)

lemma bind_action_closure:
  assumes "actions_ok b"
  shows "\<exists>i. be_getGlobal (bind_action n h b) n = LFunction (FnAction i) \<and>
     actionHandlerIds (bind_action n h b) n = Some i \<and> action_closure (bind_action n h b) i = Inr h"
  using assms
  by (auto simp: bind_action_def be_getGlobal_def action_closure_def actions_ok_def Let_def
      split: option.splits)

lemma bind_action_other:
  assumes "actions_ok b" "c_str m \<noteq> c_str n" "actionHandlerIds b m = Some i"
  shows "actionHandlerIds (bind_action n h b) m = Some i"
    "action_closure (bind_action n h b) i = action_closure b i"
    "be_getGlobal (bind_action n h b) m = be_getGlobal b m"
proof -
  from assms have i: "i < length (actionHandlers b)" by (auto simp: actions_ok_def)
  have "m \<noteq> n" using assms(2) by auto
  have ne: "actionHandlerIds b n \<noteq> Some i"
    using assms unfolding actions_ok_def inj_on_def by (metis domI)
  show "actionHandlerIds (bind_action n h b) m = Some i" using assms \<open>m \<noteq> n\<close> by (simp add: bind_action_ids)
  show "action_closure (bind_action n h b) i = action_closure b i"
    using i ne by (auto simp: action_closure_def bind_action_def Let_def nth_append split: option.splits)
  show "be_getGlobal (bind_action n h b) m = be_getGlobal b m"
    using assms(2) by (auto simp: be_getGlobal_def bind_action_def Let_def split: option.splits)
qed

definition action_bound :: "'h backend \<Rightarrow> string \<Rightarrow> handler \<Rightarrow> bool" where
  "action_bound b n h \<longleftrightarrow>
     (\<exists>i. be_getGlobal b n = LFunction (FnAction i) \<and> actionHandlerIds b n = Some i \<and>
          action_closure b i = Inr h)"

lemma bindActions_fold:
  assumes "actions_ok b" "distinct (map (\<lambda>c. c_str (fst c)) cbs)"
  shows "actions_ok (bindActions cbs b) \<and>
    (\<forall>(n, h) \<in> set cbs. action_bound (bindActions cbs b) n h) \<and>
    (\<forall>n h. action_bound b n h \<longrightarrow> c_str n \<notin> (\<lambda>c. c_str (fst c)) ` set cbs \<longrightarrow> action_bound (bindActions cbs b) n h) \<and>
    dom (actionHandlerIds (bindActions cbs b)) = dom (actionHandlerIds b) \<union> fst ` set cbs"
  using assms
proof (induction cbs arbitrary: b)
  case Nil
  then show ?case by (simp add: bindActions_def forEachHandler_def)
next
  case (Cons c cbs)
  obtain n h where c: "c = (n, h)" by (cases c)
  let ?b = "bind_action n h b"
  have step: "bindActions (c # cbs) b = bindActions cbs ?b"
    by (simp add: bindActions_def forEachHandler_def c)
  have ok: "actions_ok ?b" using Cons.prems(1) by (rule actions_ok_bind_action)
  have new: "action_bound ?b n h"
    using bind_action_closure [OF Cons.prems(1)] by (auto simp: action_bound_def)
  have old: "action_bound ?b m g" if "action_bound b m g" "c_str m \<noteq> c_str n" for m g
    using that bind_action_other [OF Cons.prems(1) that(2)] by (auto simp: action_bound_def)
  have doms: "dom (actionHandlerIds ?b) = insert n (dom (actionHandlerIds b))"
    by (auto simp: bind_action_ids split: if_splits)
  have "distinct (map (\<lambda>c. c_str (fst c)) cbs)" "c_str n \<notin> (\<lambda>c. c_str (fst c)) ` set cbs" using Cons.prems(2) by (auto simp: c)
  with Cons.IH [OF ok] new old doms show ?case unfolding step by (auto simp: c)
qed

text \<open>
  Binding the action callbacks is idempotent in space and up to date in content: each
  registered name's global is a closure whose slot holds the handler registered for it, a name
  keeps one slot for ever (names are compared as Lua sees them, up to a NUL), and binding the same registry again (as every compilation does) adds
  no slot, so the handler table is never longer than the number of distinct names bound.
\<close>

lemma bindActions_slots:
  assumes "actions_ok b" and "distinct (map (\<lambda>c. c_str (fst c)) cbs)"
  shows "actions_ok (bindActions cbs b) \<and>
    (\<forall>(n, h) \<in> set cbs. action_bound (bindActions cbs b) n h) \<and>
    length (actionHandlers (bindActions cbs (bindActions cbs b))) = length (actionHandlers (bindActions cbs b))"
proof -
  note one = bindActions_fold [OF assms]
  then have ok: "actions_ok (bindActions cbs b)" by blast
  note two = bindActions_fold [OF ok assms(2)]
  have "length (actionHandlers (bindActions cbs (bindActions cbs b))) =
      card (dom (actionHandlerIds (bindActions cbs b)) \<union> fst ` set cbs)"
    using two by (auto simp: actions_ok_def)
  also have "\<dots> = card (dom (actionHandlerIds (bindActions cbs b)))"
    using one by (simp add: Un_absorb2)
  also have "\<dots> = length (actionHandlers (bindActions cbs b))"
    using ok by (simp add: actions_ok_def)
  finally show ?thesis using one by blast
qed

lemma actions_ok_create: "actions_ok (create_backend vm)"
  by (simp add: actions_ok_def create_backend_def)

lemma bindActions_slots_example:
  "let cbs = [(''log'', Handler 1), (''mail'', StubHandler)]; b = create_backend sample_vm
   in actions_ok (bindActions cbs b) \<and> action_bound (bindActions cbs b) ''log'' (Handler 1) \<and>
      length (actionHandlers (bindActions cbs (bindActions cbs b))) = 2"
proof -
  let ?cbs = "[(''log'', Handler 1), (''mail'', StubHandler)]" and ?b = "create_backend sample_vm"
  have "actions_ok (bindActions ?cbs ?b) \<and>
    (\<forall>(n, h) \<in> set ?cbs. action_bound (bindActions ?cbs ?b) n h) \<and>
    length (actionHandlers (bindActions ?cbs (bindActions ?cbs ?b))) = length (actionHandlers (bindActions ?cbs ?b))"
    by (rule bindActions_slots) (simp_all add: actions_ok_create c_str_def)
  moreover have "length (actionHandlers (bindActions ?cbs ?b)) = 2"
    by (simp add: bindActions_def forEachHandler_def bind_action_def create_backend_def)
  ultimately show ?thesis by simp
qed

end
