(* ===== verification/Lua_Engine.thy ===== *)
theory Lua_Engine
  imports Lua_Backend
begin

text \<open>
  \<^verbatim>\<open>LuaEngine\<close> (include/fastrules/lua_engine.hpp, src/lua_engine.cpp): the reference table that
  names compiled chunks by integers, compilation with length limit and memory-triggered reset,
  evaluation with a deadline, coroutines, callback discovery and the built-in predicates. Clock
  readings are taken from the stream \<open>clk\<close>; \<open>n\<close> is the number of readings made so far. The two
  mutexes make every operation atomic. A call nested inside a running chunk is represented by
  its outer deadline only.
\<close>

section \<open>Parameter name extraction\<close>

definition luaKeywords :: "string list" where
  "luaKeywords =
     [''and'', ''break'', ''do'', ''else'', ''elseif'', ''end'', ''false'', ''for'',
      ''function'', ''goto'', ''if'', ''in'', ''local'', ''nil'', ''not'', ''or'',
      ''repeat'', ''return'', ''then'', ''true'', ''until'', ''while'']"

definition lua_builtins :: "string list" where
  "lua_builtins =
     [''isNotNull'', ''isNull'', ''isEmpty'', ''isNotEmpty'', ''inRange'',
      ''matchesRegex'', ''startsWith'', ''endsWith'', ''hasLength'',
      ''hasMinLength'', ''hasMaxLength'', ''countEquals'', ''countGreaterThan'',
      ''countLessThan'', ''contains'', ''string'', ''table'', ''math'',
      ''pairs'', ''ipairs'', ''tonumber'', ''tostring'', ''type'', ''print'',
      ''coroutine'', ''os'', ''io'', ''debug'', ''package'', ''require'',
      ''loadfile'', ''dofile'', ''load'', ''assert'', ''error'', ''pcall'',
      ''xpcall'', ''collectgarbage'', ''module'', ''select'',
      ''rawget'', ''rawset'', ''rawequal'', ''rawlen'', ''getmetatable'',
      ''setmetatable'', ''next'', ''unpack'', ''_G'', ''_VERSION'',
      ''context'', ''success'', ''failure'', ''callbacks'']"

datatype scan_state = Normal | SingleString | DoubleString

definition ident_start :: "char \<Rightarrow> bool" where
  "ident_start c \<longleftrightarrow> std_isalpha c \<or> c = CHR ''_''"

definition ident_char :: "char \<Rightarrow> bool" where
  "ident_char c \<longleftrightarrow> std_isalnum c \<or> c = CHR ''_''"

definition num_char :: "char \<Rightarrow> bool" where
  "num_char c \<longleftrightarrow> std_isdigit c \<or> c = CHR ''.''"

text \<open>The first character that is not white space is \<open>c\<close>.\<close>

definition next_nonspace_is :: "char \<Rightarrow> string \<Rightarrow> bool" where
  "next_nonspace_is c s \<longleftrightarrow>
     (case dropWhile std_isspace s of [] \<Rightarrow> False | d # _ \<Rightarrow> d = c)"

definition add_name :: "string \<Rightarrow> string list \<Rightarrow> string list" where
  "add_name name names = (if name \<in> set names then names else names @ [name])"

text \<open>
  The scanner. \<open>done\<close> is the text already consumed, reversed (the source looks back from the
  start of an identifier for a dot), \<open>rest\<close> the text from the current position on.
\<close>

function extract_loop :: "scan_state \<Rightarrow> string \<Rightarrow> string \<Rightarrow> string list \<Rightarrow> string list" where
  "extract_loop st before [] names = names"
| "extract_loop SingleString before (c # rest) names =
     (if c = CHR 0x5C \<and> rest \<noteq> [] then extract_loop SingleString (hd rest # c # before) (tl rest) names
      else if c = CHR 0x27 then extract_loop Normal (c # before) rest names
      else extract_loop SingleString (c # before) rest names)"
| "extract_loop DoubleString before (c # rest) names =
     (if c = CHR 0x5C \<and> rest \<noteq> [] then extract_loop DoubleString (hd rest # c # before) (tl rest) names
      else if c = CHR 0x22 then extract_loop Normal (c # before) rest names
      else extract_loop DoubleString (c # before) rest names)"
| "extract_loop Normal before (c # rest) names =
     (if c = CHR 0x27 then extract_loop SingleString (c # before) rest names
      else if c = CHR 0x22 then extract_loop DoubleString (c # before) rest names
      else if std_isdigit c \<or> (c = CHR ''.'' \<and> rest \<noteq> [] \<and> std_isdigit (hd rest)) then
        extract_loop Normal (rev (takeWhile num_char (c # rest)) @ before)
          (dropWhile num_char rest) names
      else if ident_start c then
        (let name = takeWhile ident_char (c # rest); rest' = dropWhile ident_char rest;
             isField = next_nonspace_is CHR ''.'' before;
             isFunction = next_nonspace_is CHR ''('' rest'
         in extract_loop Normal (rev name @ before) rest'
              (if \<not> isField \<and> \<not> isFunction \<and> name \<notin> set luaKeywords \<and> name \<notin> set lua_builtins
               then add_name name names else names))
      else extract_loop Normal (c # before) rest names)"
  by pat_completeness auto
termination extract_loop
  by (relation "measure (\<lambda>(st, before, rest, names). length rest)")
    (auto simp: le_imp_less_Suc length_dropWhile_le)

definition extractParameterNames :: "string \<Rightarrow> string list" where
  "extractParameterNames expression = extract_loop Normal [] expression []"

section \<open>Built-in predicates\<close>

definition arg_str :: "'h lua_vm \<Rightarrow> lua_value list \<Rightarrow> nat \<Rightarrow> string" where
  "arg_str vm args i = lv_toString vm (args ! i)"

text \<open>\<^verbatim>\<open>static_cast<size_t>\<close> of a 64-bit integer.\<close>

definition to_size :: "int \<Rightarrow> nat" where
  "to_size i = unat (word_of_int i :: 64 word)"

definition pred_isNotNull :: "'h lua_vm \<Rightarrow> lua_value list \<Rightarrow> bool" where
  "pred_isNotNull vm args = (if args = [] then False else \<not> lv_isNil (args ! 0))"

definition pred_isNull :: "'h lua_vm \<Rightarrow> lua_value list \<Rightarrow> bool" where
  "pred_isNull vm args = (if args = [] then True else lv_isNil (args ! 0))"

definition pred_isEmpty :: "'h lua_vm \<Rightarrow> lua_value list \<Rightarrow> bool" where
  "pred_isEmpty vm args = (if args = [] then True else arg_str vm args 0 = [])"

definition pred_isNotEmpty :: "'h lua_vm \<Rightarrow> lua_value list \<Rightarrow> bool" where
  "pred_isNotEmpty vm args = (if args = [] then False else arg_str vm args 0 \<noteq> [])"

definition pred_inRange :: "'h lua_vm \<Rightarrow> lua_value list \<Rightarrow> bool" where
  "pred_inRange vm args =
     (if length args < 3 then False
      else let value = lv_toNumber vm (args ! 0); min = lv_toNumber vm (args ! 1);
               max = lv_toNumber vm (args ! 2)
           in vm_number_le vm min value \<and> vm_number_le vm value max)"

definition pred_matchesRegex :: "'h lua_vm \<Rightarrow> lua_value list \<Rightarrow> bool" where
  "pred_matchesRegex vm args =
     (if length args < 2 then False else str_contains (arg_str vm args 0) (arg_str vm args 1))"

definition pred_startsWith :: "'h lua_vm \<Rightarrow> lua_value list \<Rightarrow> bool" where
  "pred_startsWith vm args =
     (if length args < 2 then False
      else let str = arg_str vm args 0; prefix = arg_str vm args 1
           in length str \<ge> length prefix \<and> substr str 0 (length prefix) = prefix)"

definition pred_endsWith :: "'h lua_vm \<Rightarrow> lua_value list \<Rightarrow> bool" where
  "pred_endsWith vm args =
     (if length args < 2 then False
      else let str = arg_str vm args 0; suffix = arg_str vm args 1
           in length str \<ge> length suffix
              \<and> substr str (length str - length suffix) (length suffix) = suffix)"

definition pred_hasLength :: "'h lua_vm \<Rightarrow> lua_value list \<Rightarrow> bool" where
  "pred_hasLength vm args =
     (if length args < 2 then False
      else length (arg_str vm args 0) = to_size (lv_toInteger vm (args ! 1)))"

definition pred_hasMinLength :: "'h lua_vm \<Rightarrow> lua_value list \<Rightarrow> bool" where
  "pred_hasMinLength vm args =
     (if length args < 2 then False
      else length (arg_str vm args 0) \<ge> to_size (lv_toInteger vm (args ! 1)))"

definition pred_hasMaxLength :: "'h lua_vm \<Rightarrow> lua_value list \<Rightarrow> bool" where
  "pred_hasMaxLength vm args =
     (if length args < 2 then False
      else length (arg_str vm args 0) \<le> to_size (lv_toInteger vm (args ! 1)))"

definition pred_countEquals :: "'h lua_vm \<Rightarrow> lua_value list \<Rightarrow> bool" where
  "pred_countEquals vm args =
     (if length args < 2 \<or> \<not> lv_isTable (args ! 0) then False
      else lv_length vm (args ! 0) = to_size (lv_toInteger vm (args ! 1)))"

definition pred_countGreaterThan :: "'h lua_vm \<Rightarrow> lua_value list \<Rightarrow> bool" where
  "pred_countGreaterThan vm args =
     (if length args < 2 \<or> \<not> lv_isTable (args ! 0) then False
      else lv_length vm (args ! 0) > to_size (lv_toInteger vm (args ! 1)))"

definition pred_countLessThan :: "'h lua_vm \<Rightarrow> lua_value list \<Rightarrow> bool" where
  "pred_countLessThan vm args =
     (if length args < 2 \<or> \<not> lv_isTable (args ! 0) then False
      else lv_length vm (args ! 0) < to_size (lv_toInteger vm (args ! 1)))"

text \<open>\<^verbatim>\<open>registerPredicates\<close>. The predicate \<^verbatim>\<open>contains\<close> walks a live Lua table and is not modelled.\<close>

definition builtin_predicates :: "'h lua_vm \<Rightarrow> (string \<times> (lua_value list \<Rightarrow> bool)) list" where
  "builtin_predicates vm =
     [(''isNotNull'', pred_isNotNull vm), (''isNull'', pred_isNull vm),
      (''isEmpty'', pred_isEmpty vm), (''isNotEmpty'', pred_isNotEmpty vm),
      (''inRange'', pred_inRange vm), (''matchesRegex'', pred_matchesRegex vm),
      (''startsWith'', pred_startsWith vm), (''endsWith'', pred_endsWith vm),
      (''hasLength'', pred_hasLength vm), (''hasMinLength'', pred_hasMinLength vm),
      (''hasMaxLength'', pred_hasMaxLength vm), (''countEquals'', pred_countEquals vm),
      (''countGreaterThan'', pred_countGreaterThan vm), (''countLessThan'', pred_countLessThan vm)]"

definition registerPredicates :: "'h lua_vm \<Rightarrow> 'h backend \<Rightarrow> 'h backend" where
  "registerPredicates vm b = fold (\<lambda>(name, f). registerPredicate name f) (builtin_predicates vm) b"

section \<open>Engine state\<close>

record TypeDescriptor =
  td_name :: string
  td_extractPointer :: "any_value \<Rightarrow> 64 word option"

record 'h LuaEngine =
  backend :: "'h backend"
  refToBackendId :: "int \<rightharpoonup> string"
  coroutineRegistry :: "int \<rightharpoonup> bool"
  coroutineHandles :: "int \<rightharpoonup> int"
  paramNames :: "int \<rightharpoonup> string list"
  nextRefId :: int
  instanceId :: "64 word"
  typeRegistry :: "cpp_type \<rightharpoonup> TypeDescriptor"
  actionCallbacks :: ActionCallbacks
  maxExpressionLength :: nat
  autoResetThresholdKB :: nat
  compileCount :: int
  generation :: int

definition setupEnvironment :: "'h backend \<Rightarrow> 'h backend" where
  "setupEnvironment b =
     be_setGlobal ''context'' (LTable [])
       (fold (\<lambda>n. be_setGlobal n LNil)
          [''os'', ''io'', ''debug'', ''loadfile'', ''dofile'', ''require''] b)"

text \<open>The process-wide counter of engine instances.\<close>

definition nextInstanceId :: "64 word \<Rightarrow> 64 word \<times> 64 word" where
  "nextInstanceId counter = (counter + 1, counter + 1)"

definition create_engine :: "'h lua_vm \<Rightarrow> 64 word \<Rightarrow> 'h LuaEngine" where
  "create_engine vm iid =
     \<lparr>backend = registerPredicates vm (setupEnvironment (openLibraries vm (create_backend vm))),
      refToBackendId = Map.empty, coroutineRegistry = Map.empty, coroutineHandles = Map.empty,
      paramNames = Map.empty, nextRefId = 1, instanceId = iid, typeRegistry = Map.empty,
      actionCallbacks = [], maxExpressionLength = 0, autoResetThresholdKB = 0,
      compileCount = 0, generation = 0\<rparr>"

definition bindActionsToState :: "'h LuaEngine \<Rightarrow> 'h LuaEngine" where
  "bindActionsToState eng = eng\<lparr>backend := bindActions (actionCallbacks eng) (backend eng)\<rparr>"

definition registerAction :: "string \<Rightarrow> handler \<Rightarrow> 'h LuaEngine \<Rightarrow> 'h LuaEngine" where
  "registerAction name h eng =
     eng\<lparr>actionCallbacks := registerHandler name h (actionCallbacks eng)\<rparr>"

definition clone_engine :: "'h lua_vm \<Rightarrow> 64 word \<Rightarrow> 'h LuaEngine \<Rightarrow> 'h LuaEngine" where
  "clone_engine vm iid eng =
     bindActionsToState
       ((create_engine vm iid)\<lparr>typeRegistry := typeRegistry eng,
          actionCallbacks := actionCallbacks eng, maxExpressionLength := maxExpressionLength eng,
          compileCount := compileCount eng, autoResetThresholdKB := autoResetThresholdKB eng\<rparr>)"

definition makeBackendId :: "int \<Rightarrow> string" where
  "makeBackendId ref = ''ref_'' @ std_to_string ref"

definition getMemoryUsageKB :: "'h lua_vm \<Rightarrow> 'h LuaEngine \<Rightarrow> nat" where
  "getMemoryUsageKB vm eng = memoryUsageKB vm (backend eng)"

definition collectGarbage :: "'h lua_vm \<Rightarrow> 'h LuaEngine \<Rightarrow> 'h LuaEngine" where
  "collectGarbage vm eng = eng\<lparr>backend := be_collectGarbage vm (be_collectGarbage vm (backend eng))\<rparr>"

text \<open>\<^verbatim>\<open>resetState\<close>. The handles it closes are dropped with the backend's tables by the reset that
  follows.\<close>

definition resetState :: "'h lua_vm \<Rightarrow> 'h LuaEngine \<Rightarrow> 'h LuaEngine" where
  "resetState vm eng =
     (let eng1 = eng\<lparr>generation := generation eng + 1,
                     refToBackendId := Map.empty, coroutineRegistry := Map.empty,
                     coroutineHandles := Map.empty, paramNames := Map.empty, nextRefId := 1,
                     compileCount := 0\<rparr>;
          b1 = reset_backend vm (be_collectGarbage vm (be_collectGarbage vm (backend eng)));
          b2 = registerPredicates vm (setupEnvironment (openLibraries vm b1))
      in bindActionsToState (eng1\<lparr>backend := b2\<rparr>))"

definition autoReset :: "'h lua_vm \<Rightarrow> 'h LuaEngine \<Rightarrow> 'h LuaEngine" where
  "autoReset vm eng =
     (if autoResetThresholdKB eng > 0 \<and> getMemoryUsageKB vm eng > autoResetThresholdKB eng
      then resetState vm eng else eng)"

section \<open>Compilation\<close>

definition length_exceeded :: "string \<Rightarrow> nat \<Rightarrow> nat \<Rightarrow> exn" where
  "length_exceeded what limit len =
     StdException RuleCompilationException
       (what @ '' exceeds maximum length of '' @ std_to_string (int limit) @
        '' characters (was '' @ std_to_string (int len) @ '')'')"

definition compilation_failed :: "exn \<Rightarrow> exn" where
  "compilation_failed e = StdException RuleCompilationException (''Compilation failed: '' @ exn_what e)"

definition record_ref :: "int \<Rightarrow> string list \<Rightarrow> 'h LuaEngine \<Rightarrow> 'h LuaEngine" where
  "record_ref ref params eng =
     eng\<lparr>paramNames := (paramNames eng)(ref \<mapsto> params), compileCount := compileCount eng + 1,
         refToBackendId := (refToBackendId eng)(ref \<mapsto> makeBackendId ref)\<rparr>"

definition compileExpression ::
    "'h lua_vm \<Rightarrow> string \<Rightarrow> 'h LuaEngine \<Rightarrow> (exn + int option) \<times> 'h LuaEngine" where
  "compileExpression vm expression eng0 =
     (if maxExpressionLength eng0 > 0 \<and> length expression > maxExpressionLength eng0
      then (Inl (length_exceeded ''Expression'' (maxExpressionLength eng0) (length expression)), eng0)
      else if expression = [] \<or> list_all std_isspace expression then (Inr None, eng0)
      else
        let params = extractParameterNames expression;
            eng1 = autoReset vm eng0;
            ref = nextRefId eng1;
            eng2 = eng1\<lparr>nextRefId := ref + 1\<rparr>
        in case be_compileExpression vm (makeBackendId ref) expression (backend eng2) of
             (Inl e, b) \<Rightarrow> (Inl (compilation_failed e), eng2\<lparr>backend := b\<rparr>)
           | (Inr _, b) \<Rightarrow> (Inr (Some ref), record_ref ref params (eng2\<lparr>backend := b\<rparr>)))"

definition compileAction ::
    "'h lua_vm \<Rightarrow> string \<Rightarrow> 'h LuaEngine \<Rightarrow> (exn + int option) \<times> 'h LuaEngine" where
  "compileAction vm action eng0 =
     (if action = [] then (Inr None, eng0)
      else if maxExpressionLength eng0 > 0 \<and> length action > maxExpressionLength eng0
      then (Inl (length_exceeded ''Action'' (maxExpressionLength eng0) (length action)), eng0)
      else
        let params = extractParameterNames action;
            eng1 = bindActionsToState (autoReset vm eng0);
            ref = nextRefId eng1;
            eng2 = eng1\<lparr>nextRefId := ref + 1\<rparr>
        in case be_compileAction vm (makeBackendId ref) action (backend eng2) of
             (Inl e, b) \<Rightarrow> (Inl (compilation_failed e), eng2\<lparr>backend := b\<rparr>)
           | (Inr _, b) \<Rightarrow> (Inr (Some ref), record_ref ref params (eng2\<lparr>backend := b\<rparr>)))"

definition compileCoroutine ::
    "'h lua_vm \<Rightarrow> string \<Rightarrow> 'h LuaEngine \<Rightarrow> (exn + int option) \<times> 'h LuaEngine" where
  "compileCoroutine vm expression eng0 =
     (if expression = [] then (Inr None, eng0)
      else
        let params = extractParameterNames expression;
            eng1 = bindActionsToState (autoReset vm eng0);
            ref = nextRefId eng1;
            eng2 = eng1\<lparr>nextRefId := ref + 1\<rparr>
        in case be_compileExpression vm (makeBackendId ref) expression (backend eng2) of
             (Inl e, b) \<Rightarrow> (Inl e, eng2\<lparr>backend := b\<rparr>)
           | (Inr _, b) \<Rightarrow>
               (case be_createCoroutine vm (makeBackendId ref) b of
                  (None, b') \<Rightarrow>
                    (Inl (StdException RuleCompilationException
                            ''Failed to create coroutine from compiled expression''),
                     eng2\<lparr>backend := b'\<rparr>)
                | (Some handle, b') \<Rightarrow>
                    (Inr (Some ref),
                     record_ref ref params
                       (eng2\<lparr>backend := b',
                             coroutineRegistry := (coroutineRegistry eng2)(ref \<mapsto> True),
                             coroutineHandles := (coroutineHandles eng2)(ref \<mapsto> handle)\<rparr>))))"

definition releaseRef :: "int \<Rightarrow> 'h LuaEngine \<Rightarrow> 'h LuaEngine" where
  "releaseRef ref eng =
     (let eng1 = (case refToBackendId eng ref of
                    Some bid \<Rightarrow> eng\<lparr>backend := removeCompiled bid (backend eng),
                                     refToBackendId := (refToBackendId eng)(ref := None)\<rparr>
                  | None \<Rightarrow> eng);
          eng2 = (case coroutineHandles eng1 ref of
                    Some h \<Rightarrow> eng1\<lparr>backend := be_closeCoroutine h (backend eng1),
                                   coroutineHandles := (coroutineHandles eng1)(ref := None)\<rparr>
                  | None \<Rightarrow> eng1)
      in eng2\<lparr>coroutineRegistry := (coroutineRegistry eng2)(ref := None),
              paramNames := (paramNames eng2)(ref := None)\<rparr>)"

section \<open>Evaluation\<close>

definition anyToLuaValue :: "any_value \<Rightarrow> lua_value" where
  "anyToLuaValue value =
     (case value of
        VBool b \<Rightarrow> LBool b
      | VInt i \<Rightarrow> LInteger i
      | VDouble d \<Rightarrow> LNumber d
      | VString s \<Rightarrow> LString s
      | VConstCharPtr s \<Rightarrow> LString (c_str s)
      | VVoidPtr p \<Rightarrow> LLightUserdata p
      | _ \<Rightarrow> LNil)"

definition luaValueToAny :: "'h lua_vm \<Rightarrow> lua_value \<Rightarrow> any_value" where
  "luaValueToAny vm v =
     (case lv_type v of
        Boolean_t \<Rightarrow> VBool (lv_toBool v)
      | Number_t \<Rightarrow> VDouble (lv_toNumber vm v)
      | Integer_t \<Rightarrow> VInt (sint (word_of_int (lv_toInteger vm v) :: 32 word))
      | String_t \<Rightarrow> VString (lv_toString vm v)
      | _ \<Rightarrow> NoValue)"

definition engine_setGlobal :: "string \<Rightarrow> any_value \<Rightarrow> 'h LuaEngine \<Rightarrow> 'h LuaEngine" where
  "engine_setGlobal name value eng = eng\<lparr>backend := be_setGlobal name (anyToLuaValue value) (backend eng)\<rparr>"

definition engine_clearGlobals :: "'h LuaEngine \<Rightarrow> 'h LuaEngine" where
  "engine_clearGlobals eng = eng\<lparr>backend := be_clearGlobals (backend eng)\<rparr>"

text \<open>\<^verbatim>\<open>setupContextTable\<close>: the global \<^verbatim>\<open>context\<close> is a table with the field \<^verbatim>\<open>getResult\<close>; the closure
  reads the results of the context that is current while the chunk runs.\<close>

definition setupContextTable :: "'h backend \<Rightarrow> 'h backend" where
  "setupContextTable b =
     (let b1 = (if lv_isTable (be_getGlobal b ''context'') then b
                else be_setGlobal ''context'' (LTable []) b)
      in case be_getGlobal b1 ''context'' of
           LTable es \<Rightarrow> lua_setglobal ''context''
                          (LTable (AList.update (LString ''getResult'') (LFunction FnGetResult) es)) b1
         | _ \<Rightarrow> b1)"

definition context_getResult ::
    "'h lua_vm \<Rightarrow> (string \<Rightarrow> RuleResult option) \<Rightarrow> lua_value \<Rightarrow> lua_value" where
  "context_getResult vm lookup arg =
     (let ruleName = (if lv_isString arg then lv_toString vm arg else [])
      in case lookup ruleName of
           Some r \<Rightarrow> LTable [(LString ''success'', LBool (success r)),
                             (LString ''ruleId'', LString (c_str (res_ruleName r)))]
         | None \<Rightarrow> LTable [(LString ''success'', LBool False),
                           (LString ''ruleId'', LString ruleName)])"

definition buildParamPairs :: "RuleParameter list \<Rightarrow> (string \<times> any_value) list" where
  "buildParamPairs parameters = map (\<lambda>p. (param_name p, param_value p)) parameters"

definition is_registered :: "'h LuaEngine \<Rightarrow> RuleParameter \<Rightarrow> bool" where
  "is_registered eng p \<longleftrightarrow>
     (case param_type p of None \<Rightarrow> False | Some t \<Rightarrow> typeRegistry eng t \<noteq> None)"

definition setRegisteredTypeGlobal ::
    "string \<Rightarrow> cpp_type \<Rightarrow> any_value \<Rightarrow> (cpp_type \<rightharpoonup> TypeDescriptor) \<Rightarrow> 'h backend \<Rightarrow> 'h backend" where
  "setRegisteredTypeGlobal name t value registry b =
     (if \<not> has_value value then lua_setglobal name LNil b
      else
        let fallback = (case value of VVoidPtr p \<Rightarrow> LLightUserdata p | _ \<Rightarrow> LNil)
        in case registry t of
             None \<Rightarrow> lua_setglobal name fallback b
           | Some desc \<Rightarrow>
               (case td_extractPointer desc value of
                  None \<Rightarrow> lua_setglobal name fallback b
                | Some ptr \<Rightarrow> lua_setglobal name (LUserdata (''__fastrules_mt_'' @ td_name desc) ptr) b))"

definition clearRegisteredTypeGlobal :: "string \<Rightarrow> 'h backend \<Rightarrow> 'h backend" where
  "clearRegisteredTypeGlobal name b = lua_setglobal name LNil b"

text \<open>The loop that passes objects of registered types as globals and takes them out of the pairs.\<close>

definition set_objects ::
    "'h LuaEngine \<Rightarrow> RuleParameter list \<Rightarrow> (string \<times> any_value) list \<Rightarrow> 'h backend
       \<Rightarrow> (string \<times> any_value) list \<times> 'h backend" where
  "set_objects eng parameters pairs b =
     fold (\<lambda>p (pairs, b).
       if is_registered eng p
       then (filter (\<lambda>q. fst q \<noteq> param_name p) pairs,
             setRegisteredTypeGlobal (param_name p) (the (param_type p)) (param_value p)
               (typeRegistry eng) b)
       else (pairs, b)) parameters (pairs, b)"

definition clear_objects :: "'h LuaEngine \<Rightarrow> RuleParameter list \<Rightarrow> 'h backend \<Rightarrow> 'h backend" where
  "clear_objects eng parameters b =
     fold (\<lambda>p b. if is_registered eng p then clearRegisteredTypeGlobal (param_name p) b else b)
       parameters b"

definition has_timeout :: "int option \<Rightarrow> bool" where
  "has_timeout timeout \<longleftrightarrow> (case timeout of None \<Rightarrow> False | Some ms \<Rightarrow> ms > 0)"

definition ms_to_ns :: "int \<Rightarrow> int" where
  "ms_to_ns ms = ms * 1000000"

definition timed_out :: "int \<Rightarrow> exn" where
  "timed_out ms =
     RuleTimeoutException (''Rule execution timed out after '' @ std_to_string ms @ ''ms'')"

text \<open>
  The common frame of \<^verbatim>\<open>evaluateExpression\<close> and \<^verbatim>\<open>executeAction\<close>: \<open>run\<close> is the backend call. With a
  positive timeout the clock is read before the call, to set the deadline, and after it. The
  guard restores the outer deadline on every path, so it is visible to the chunk only.
\<close>

definition run_chunk ::
    "(nat \<Rightarrow> int) \<Rightarrow> (run_env \<Rightarrow> string \<Rightarrow> (string \<times> any_value) list \<Rightarrow> 'h backend \<Rightarrow> (exn + 'a) \<times> 'h backend)
       \<Rightarrow> string \<Rightarrow> int \<Rightarrow> RuleParameter list \<Rightarrow> RuleContext \<Rightarrow> int option \<Rightarrow> int option
       \<Rightarrow> 'h LuaEngine \<times> nat \<Rightarrow> (exn + 'a) \<times> 'h LuaEngine \<times> nat" where
  "run_chunk clk run invalid ref parameters ctx timeout outer s =
     (let (eng, n) = s
      in case refToBackendId eng ref of
           None \<Rightarrow> (Inl (StdException RuleExecutionException invalid), eng, n)
         | Some bid \<Rightarrow>
             (let (pairs, b1) = set_objects eng parameters (buildParamPairs parameters)
                                 (setupContextTable (backend eng));
                 deadline = clk n + ms_to_ns (the timeout);
                 n1 = (if has_timeout timeout then n + 1 else n);
                 env = \<lparr>env_results = getResult ctx,
                        env_deadline = (if has_timeout timeout then Some deadline else outer),
                        env_tick = n1\<rparr>
             in case run env bid pairs b1 of
                  (Inl e, b2) \<Rightarrow> (Inl e, eng\<lparr>backend := b2\<rparr>, n1)
                | (Inr v, b2) \<Rightarrow>
                    let eng' = eng\<lparr>backend := clear_objects eng parameters b2\<rparr>
                    in if has_timeout timeout
                       then (if clk n1 > deadline then (Inl (timed_out (the timeout)), eng', n1 + 1)
                             else (Inr v, eng', n1 + 1))
                       else (Inr v, eng', n1)))"

definition evaluateExpression ::
    "'h lua_vm \<Rightarrow> (nat \<Rightarrow> int) \<Rightarrow> int \<Rightarrow> RuleParameter list \<Rightarrow> RuleContext \<Rightarrow> int option \<Rightarrow> int option
       \<Rightarrow> 'h LuaEngine \<times> nat \<Rightarrow> (exn + bool) \<times> 'h LuaEngine \<times> nat" where
  "evaluateExpression vm clk ref parameters ctx timeout outer s =
     bindx (run_chunk clk (be_evaluate vm) ''Invalid expression reference'' ref parameters ctx timeout outer s)
       (\<lambda>result s'. case result of
          None \<Rightarrow> (Inl (StdException RuleExecutionException ''Expression evaluation returned null''), s')
        | Some v \<Rightarrow> (Inr (lv_toBool v), s'))"

definition executeAction ::
    "'h lua_vm \<Rightarrow> (nat \<Rightarrow> int) \<Rightarrow> int \<Rightarrow> RuleParameter list \<Rightarrow> RuleContext \<Rightarrow> int option \<Rightarrow> int option
       \<Rightarrow> 'h LuaEngine \<times> nat \<Rightarrow> (exn + unit) \<times> 'h LuaEngine \<times> nat" where
  "executeAction vm clk ref parameters ctx timeout outer s =
     run_chunk clk (be_executeAction vm) ''Invalid action reference'' ref parameters ctx timeout outer s"

definition isCoroutine :: "'h LuaEngine \<Rightarrow> int \<Rightarrow> bool" where
  "isCoroutine eng ref \<longleftrightarrow> coroutineRegistry eng ref \<noteq> None"

definition resumeCoroutine ::
    "'h lua_vm \<Rightarrow> int \<Rightarrow> RuleParameter list \<Rightarrow> RuleContext \<Rightarrow> nat \<Rightarrow> 'h LuaEngine
       \<Rightarrow> (exn + bool) \<times> 'h LuaEngine" where
  "resumeCoroutine vm ref parameters ctx n eng =
     (case coroutineHandles eng ref of
        None \<Rightarrow> (Inl (StdException RuleExecutionException ''Invalid coroutine reference''), eng)
      | Some handle \<Rightarrow>
          (if coroutineRegistry eng ref = None
          then (Inl (StdException RuleExecutionException ''Reference is not a coroutine''), eng)
          else
            let (pairs, b1) = set_objects eng parameters (buildParamPairs parameters)
                                (setupContextTable (backend eng));
                b2 = fold (\<lambda>(name, value). be_setGlobal name (anyToLuaValue value)) pairs b1;
                env = \<lparr>env_results = getResult ctx, env_deadline = None, env_tick = n\<rparr>
            in case be_resumeCoroutine vm env handle b2 of
                 (Inl e, b3) \<Rightarrow> (Inl e, eng\<lparr>backend := b3\<rparr>)
               | (Inr finished, b3) \<Rightarrow>
                   (Inr finished,
                    eng\<lparr>backend := clear_objects eng parameters
                           (fold (\<lambda>(name, _). be_setGlobal name LNil) pairs b3)\<rparr>)))"

text \<open>\<^verbatim>\<open>await\<close>: resumes until the coroutine has finished, at most \<open>fuel\<close> times; \<open>None\<close> is a run that
  has not ended yet.\<close>

fun await_co ::
    "nat \<Rightarrow> 'h lua_vm \<Rightarrow> int \<Rightarrow> RuleParameter list \<Rightarrow> RuleContext \<Rightarrow> nat \<Rightarrow> 'h LuaEngine
       \<Rightarrow> ((exn + any_value option) \<times> 'h LuaEngine) option" where
  "await_co 0 vm ref parameters ctx n eng = None"
| "await_co (Suc fuel) vm ref parameters ctx n eng =
     (case resumeCoroutine vm ref parameters ctx n eng of
        (Inl e, eng') \<Rightarrow> Some (Inl e, eng')
      | (Inr completed, eng') \<Rightarrow>
          if \<not> completed then await_co fuel vm ref parameters ctx n eng'
          else Some (Inr (case coroutineHandles eng' ref of None \<Rightarrow> None | Some h \<Rightarrow> Some NoValue), eng'))"

section \<open>Callback discovery\<close>

definition trim_spaces :: "string \<Rightarrow> string" where
  "trim_spaces s = dropWhile std_isspace (rev (dropWhile std_isspace (rev s)))"

function discover_loop :: "string \<Rightarrow> nat \<Rightarrow> ActionCallbacks \<Rightarrow> ActionCallbacks" where
  "discover_loop action pos cbs =
     (case str_find action ''callbacks.'' pos of
        None \<Rightarrow> cbs
      | Some p \<Rightarrow>
          let p' = p + 10;
              cbs' = (case str_find action ''('' p' of
                        None \<Rightarrow> cbs
                      | Some e \<Rightarrow>
                          let name = trim_spaces (substr action p' (e - p'))
                          in if name \<noteq> [] \<and> \<not> hasHandler cbs name then registerStub name cbs else cbs)
          in discover_loop action p' cbs')"
  by pat_completeness auto
termination discover_loop
  by (relation "measure (\<lambda>(action, pos, cbs). length action + 10 - pos)")
    (auto dest!: str_find_bounds)

definition discoverCallbacks :: "string list \<Rightarrow> 'h LuaEngine \<Rightarrow> 'h LuaEngine" where
  "discoverCallbacks actions eng =
     bindActionsToState
       (eng\<lparr>actionCallbacks :=
          fold (\<lambda>action cbs. if action = [] then cbs else discover_loop action 0 cbs)
            actions (actionCallbacks eng)\<rparr>)"

section \<open>References and chunks\<close>

text \<open>
  The invariant of the reference tables: references count up from 1, a live reference's backend
  id is the one made from it and names a compiled chunk, and the other tables follow.
\<close>

definition engine_ok :: "'h LuaEngine \<Rightarrow> bool" where
  "engine_ok eng \<longleftrightarrow>
     1 \<le> nextRefId eng \<and>
     (\<forall>r bid. refToBackendId eng r = Some bid \<longrightarrow>
        1 \<le> r \<and> r < nextRefId eng \<and> bid = makeBackendId r \<and> compiled (backend eng) bid \<noteq> None) \<and>
     dom (paramNames eng) = dom (refToBackendId eng) \<and>
     dom (coroutineHandles eng) \<subseteq> dom (refToBackendId eng) \<and>
     dom (coroutineRegistry eng) = dom (coroutineHandles eng)"

text \<open>The chunk that a reference stands for.\<close>

definition chunk_of :: "'h LuaEngine \<Rightarrow> int \<Rightarrow> string option" where
  "chunk_of eng ref =
     (case refToBackendId eng ref of None \<Rightarrow> None | Some bid \<Rightarrow> compiled (backend eng) bid)"

text \<open>Two engines with the same tables and chunks.\<close>

definition same_refs :: "'h LuaEngine \<Rightarrow> 'h LuaEngine \<Rightarrow> bool" where
  "same_refs eng eng' \<longleftrightarrow>
     refToBackendId eng' = refToBackendId eng \<and> paramNames eng' = paramNames eng \<and>
     coroutineHandles eng' = coroutineHandles eng \<and> coroutineRegistry eng' = coroutineRegistry eng \<and>
     nextRefId eng' = nextRefId eng \<and> generation eng' = generation eng \<and>
     instanceId eng' = instanceId eng \<and> compiled (backend eng') = compiled (backend eng)"

lemma same_refsD:
  assumes "same_refs eng eng'"
  shows "engine_ok eng' = engine_ok eng" "chunk_of eng' = chunk_of eng"
    "generation eng' = generation eng" "instanceId eng' = instanceId eng"
    "refToBackendId eng' = refToBackendId eng"
proof -
  show "chunk_of eng' = chunk_of eng"
    by (rule ext) (use assms in \<open>simp add: chunk_of_def same_refs_def split: option.splits\<close>)
qed (use assms in \<open>simp_all add: same_refs_def engine_ok_def\<close>)

lemma same_refs_refl [simp]: "same_refs eng eng"
  by (simp add: same_refs_def)

lemma same_refs_backend:
  "compiled b = compiled (backend eng) \<Longrightarrow> same_refs eng (eng\<lparr>backend := b\<rparr>)"
  by (simp add: same_refs_def)

lemma makeBackendId_inject [simp]: "makeBackendId r = makeBackendId r' \<longleftrightarrow> r = r'"
  by (simp add: makeBackendId_def)

lemma fresh_backendId:
  assumes "engine_ok eng" "refToBackendId eng r = Some bid"
  shows "bid \<noteq> makeBackendId (nextRefId eng)"
proof -
  from assms have "bid = makeBackendId r" "r < nextRefId eng" by (simp_all add: engine_ok_def)
  then show ?thesis by simp
qed

lemma chunk_of_live: "engine_ok eng \<Longrightarrow> refToBackendId eng r \<noteq> None \<longleftrightarrow> chunk_of eng r \<noteq> None"
  by (auto simp: chunk_of_def engine_ok_def split: option.splits)

lemma be_setGlobal_frame [simp]:
  "compiled (be_setGlobal n v b) = compiled b" "coroutines (be_setGlobal n v b) = coroutines b"
  by (simp_all add: be_setGlobal_def)

lemma fold_be_setGlobal_frame [simp]:
  "compiled (fold (\<lambda>(n, v). be_setGlobal n (f v)) ps b) = compiled b"
  by (induction ps arbitrary: b) (simp_all add: split_beta)

lemma setupContextTable_frame [simp]: "compiled (setupContextTable b) = compiled b"
  by (simp add: setupContextTable_def Let_def split: lua_value.splits)

lemma setRegisteredTypeGlobal_frame [simp]:
  "compiled (setRegisteredTypeGlobal n t v reg b) = compiled b"
  by (simp add: setRegisteredTypeGlobal_def Let_def split: option.splits any_value.splits)

lemma set_objects_frame [frame_simps]:
  "set_objects eng ps pairs b = (pairs', b') \<Longrightarrow> compiled b' = compiled b"
proof (induction ps arbitrary: pairs b)
  case Nil
  then show ?case by (simp add: set_objects_def)
next
  case (Cons p ps)
  then show ?case by (auto simp: set_objects_def split: if_splits)
qed

lemma clear_objects_frame [simp]: "compiled (clear_objects eng ps b) = compiled b"
  unfolding clear_objects_def
  by (induction ps arbitrary: b) (simp_all add: clearRegisteredTypeGlobal_def)

lemma run_chunk_same_refs:
  assumes "run_chunk clk run what ref ps ctx timeout outer (eng, n) = (r, eng', n')"
    and "\<And>env bid pairs b r b'. run env bid pairs b = (r, b') \<Longrightarrow> compiled b' = compiled b"
  shows "same_refs eng eng'"
proof (cases "refToBackendId eng ref")
  case None
  with assms(1) show ?thesis by (simp add: run_chunk_def)
next
  case (Some bid)
  obtain pairs b1 where o: "set_objects eng ps (buildParamPairs ps) (setupContextTable (backend eng)) = (pairs, b1)"
    by fastforce
  then have b1: "compiled b1 = compiled (backend eng)" by (auto dest: set_objects_frame)
  show ?thesis
    using assms(1) Some o b1
    by (auto simp: run_chunk_def Let_def same_refs_def dest!: assms(2)
        split: prod.splits sum.splits if_splits)
qed

lemma evaluateExpression_same_refs:
  assumes "evaluateExpression vm clk ref ps ctx timeout outer (eng, n) = (r, eng', n')"
  shows "same_refs eng eng'"
proof -
  obtain r0 eng0 n0 where
    c: "run_chunk clk (be_evaluate vm) ''Invalid expression reference'' ref ps ctx timeout outer (eng, n) = (r0, eng0, n0)"
    by (metis prod.exhaust)
  with assms have "eng' = eng0" by (cases r0) (auto simp: evaluateExpression_def split: option.splits)
  moreover have "same_refs eng eng0" by (rule run_chunk_same_refs [OF c]) (rule be_evaluate_frame(1))
  ultimately show ?thesis by simp
qed

lemma executeAction_same_refs:
  assumes "executeAction vm clk ref ps ctx timeout outer (eng, n) = (r, eng', n')"
  shows "same_refs eng eng'"
  by (rule run_chunk_same_refs [OF assms [unfolded executeAction_def]]) (rule be_executeAction_frame(1))

lemma be_resumeCoroutine_frame [frame_simps]:
  "be_resumeCoroutine vm env h b = (r, b') \<Longrightarrow> compiled b' = compiled b"
  by (auto simp: be_resumeCoroutine_def split: option.splits prod.splits sum.splits)

lemma resumeCoroutine_same_refs:
  assumes "resumeCoroutine vm ref ps ctx n eng = (r, eng')"
  shows "same_refs eng eng'"
proof -
  obtain pairs b1 where o: "set_objects eng ps (buildParamPairs ps) (setupContextTable (backend eng)) = (pairs, b1)"
    by fastforce
  then have b1: "compiled b1 = compiled (backend eng)" by (auto dest: set_objects_frame)
  have "compiled (fold (\<lambda>(name, value). be_setGlobal name (anyToLuaValue value)) pairs b) = compiled b"
    "compiled (fold (\<lambda>(name, _). be_setGlobal name LNil) pairs b) = compiled b" for b :: "'a backend"
    using fold_be_setGlobal_frame [of anyToLuaValue pairs b]
      fold_be_setGlobal_frame [of "\<lambda>_. LNil" pairs b] by simp_all
  with assms o b1 show ?thesis
    by (auto simp: resumeCoroutine_def same_refs_def dest!: be_resumeCoroutine_frame
        split: option.splits prod.splits sum.splits if_splits)
qed

lemma bindActionsToState_same_refs [simp]: "same_refs eng (bindActionsToState eng)"
  by (simp add: bindActionsToState_def same_refs_def)

lemma bindActionsToState_frame [simp]:
  "nextRefId (bindActionsToState eng) = nextRefId eng" "generation (bindActionsToState eng) = generation eng"
  "refToBackendId (bindActionsToState eng) = refToBackendId eng"
  "instanceId (bindActionsToState eng) = instanceId eng"
  by (simp_all add: bindActionsToState_def)

lemma resetState_simps [simp]:
  "generation (resetState vm eng) = generation eng + 1" "refToBackendId (resetState vm eng) = Map.empty"
  "instanceId (resetState vm eng) = instanceId eng" "engine_ok (resetState vm eng)"
  by (simp_all add: resetState_def Let_def bindActionsToState_def engine_ok_def)

lemma autoReset_cases:
  "autoReset vm eng = eng \<or> (autoReset vm eng = resetState vm eng \<and> generation (autoReset vm eng) = generation eng + 1)"
  by (simp add: autoReset_def)

lemma engine_ok_autoReset [simp]: "engine_ok eng \<Longrightarrow> engine_ok (autoReset vm eng)"
  by (simp add: autoReset_def)

text \<open>A new reference: its chunk is the one just compiled and every other reference keeps its own.\<close>

lemma record_ref_ok:
  assumes ok: "engine_ok eng" and b: "compiled b = (compiled (backend eng))(makeBackendId (nextRefId eng) \<mapsto> chunk)"
    and eng': "eng' = record_ref (nextRefId eng) ps (eng\<lparr>nextRefId := nextRefId eng + 1, backend := b,
        coroutineRegistry := cr, coroutineHandles := ch\<rparr>)"
    and co: "dom ch \<subseteq> insert (nextRefId eng) (dom (coroutineHandles eng))" "dom cr = dom ch"
  shows "engine_ok eng'" "chunk_of eng' (nextRefId eng) = Some chunk"
    "r \<noteq> nextRefId eng \<Longrightarrow> chunk_of eng' r = chunk_of eng r" "generation eng' = generation eng"
proof -
  note ne = fresh_backendId [OF ok]
  have "dom ch \<subseteq> insert (nextRefId eng) (dom (refToBackendId eng))"
    using ok co(1) unfolding engine_ok_def by blast
  then have ch: "\<exists>z. refToBackendId eng x = Some z" if "ch x = Some y" "x \<noteq> nextRefId eng" for x y
    using that by blast
  show "engine_ok eng'"
    using ok ch co(2) b ne by (auto simp: engine_ok_def eng' record_ref_def intro: less_imp_le split: if_splits)
  show "chunk_of eng' (nextRefId eng) = Some chunk"
    by (simp add: chunk_of_def eng' record_ref_def b)
  show "chunk_of eng' r = chunk_of eng r" if "r \<noteq> nextRefId eng"
    using that ne by (auto simp: chunk_of_def eng' record_ref_def b split: option.splits)
  show "generation eng' = generation eng" by (simp add: eng' record_ref_def)
qed

text \<open>A failed compilation only uses up a number.\<close>

lemma failed_ref_ok:
  assumes "engine_ok eng" and "compiled b = compiled (backend eng)
      \<or> compiled b = (compiled (backend eng))(makeBackendId (nextRefId eng) \<mapsto> c)"
  shows "engine_ok (eng\<lparr>nextRefId := nextRefId eng + 1, backend := b\<rparr>)"
    "chunk_of (eng\<lparr>nextRefId := nextRefId eng + 1, backend := b\<rparr>) = chunk_of eng"
proof -
  note ne = fresh_backendId [OF assms(1)]
  show "engine_ok (eng\<lparr>nextRefId := nextRefId eng + 1, backend := b\<rparr>)"
    using assms ne by (auto simp: engine_ok_def intro: less_imp_le)
  show "chunk_of (eng\<lparr>nextRefId := nextRefId eng + 1, backend := b\<rparr>) = chunk_of eng"
    using assms(2) ne by (auto simp: chunk_of_def fun_eq_iff split: option.splits)
qed

lemma be_compile_compiled:
  "be_compileExpression vm bid code b = (Inr u, b') \<Longrightarrow>
     compiled b' = (compiled b)(bid \<mapsto> c_str (''return '' @ code))"
  "be_compileExpression vm bid code b = (Inl e, b') \<Longrightarrow> b' = b"
  "be_compileAction vm bid code b = (Inr u, b') \<Longrightarrow> compiled b' = (compiled b)(bid \<mapsto> c_str code)"
  "be_compileAction vm bid code b = (Inl e, b') \<Longrightarrow> b' = b"
  by (auto simp: be_compileExpression_def be_compileAction_def Let_def split: option.splits)

lemma be_createCoroutine_compiled:
  "be_createCoroutine vm bid b = (h, b') \<Longrightarrow> compiled b' = compiled b"
  by (auto simp: be_createCoroutine_def split: option.splits prod.splits)

text \<open>What every operation keeps: the invariant, and, unless the Lua state was reset, the chunk of
  every reference that it does not release.\<close>

definition op_keeps :: "'h LuaEngine \<Rightarrow> 'h LuaEngine \<Rightarrow> bool" where
  "op_keeps eng eng' \<longleftrightarrow>
     engine_ok eng' \<and> instanceId eng' = instanceId eng \<and> generation eng \<le> generation eng' \<and>
     (generation eng' = generation eng \<longrightarrow>
        (\<forall>r c. chunk_of eng r = Some c \<longrightarrow> chunk_of eng' r = Some c))"

lemma op_keeps_same_refs: "engine_ok eng \<Longrightarrow> same_refs eng eng' \<Longrightarrow> op_keeps eng eng'"
  by (simp add: op_keeps_def same_refsD)

lemma op_keeps_refl: "engine_ok eng \<Longrightarrow> op_keeps eng eng"
  by (simp add: op_keeps_def)

lemma op_keeps_trans: "op_keeps a b \<Longrightarrow> op_keeps b c \<Longrightarrow> op_keeps a c"
  by (auto simp: op_keeps_def)

lemma op_keeps_reset: "op_keeps eng (resetState vm eng)"
  by (simp add: op_keeps_def)

lemma op_keeps_autoReset: "engine_ok eng \<Longrightarrow> op_keeps eng (autoReset vm eng)"
  by (simp add: autoReset_def op_keeps_reset op_keeps_refl)

lemma chunk_of_next: "engine_ok eng \<Longrightarrow> chunk_of eng (nextRefId eng) = None"
  by (auto simp: chunk_of_def engine_ok_def split: option.splits)

lemma op_keeps_record_ref:
  assumes "engine_ok eng" "compiled b = (compiled (backend eng))(makeBackendId (nextRefId eng) \<mapsto> chunk)"
    "dom ch \<subseteq> insert (nextRefId eng) (dom (coroutineHandles eng))" "dom cr = dom ch"
    "eng' = record_ref (nextRefId eng) ps (eng\<lparr>nextRefId := nextRefId eng + 1, backend := b,
        coroutineRegistry := cr, coroutineHandles := ch\<rparr>)"
  shows "op_keeps eng eng'" "chunk_of eng' (nextRefId eng) = Some chunk"
proof -
  note r = record_ref_ok [OF assms(1,2,5,3,4)]
  have "instanceId eng' = instanceId eng" by (simp add: assms(5) record_ref_def)
  then show "op_keeps eng eng'"
    unfolding op_keeps_def using r(1,3,4) chunk_of_next [OF assms(1)]
    by (metis option.distinct(1) order_refl)
  show "chunk_of eng' (nextRefId eng) = Some chunk" by (rule r(2))
qed

lemma op_keeps_record_plain:
  assumes "engine_ok eng" "compiled b = (compiled (backend eng))(makeBackendId (nextRefId eng) \<mapsto> chunk)"
    "eng' = record_ref (nextRefId eng) ps (eng\<lparr>nextRefId := nextRefId eng + 1, backend := b\<rparr>)"
  shows "op_keeps eng eng'" "chunk_of eng' (nextRefId eng) = Some chunk"
proof -
  from assms(3) have e: "eng' = record_ref (nextRefId eng) ps (eng\<lparr>nextRefId := nextRefId eng + 1, backend := b,
      coroutineRegistry := coroutineRegistry eng, coroutineHandles := coroutineHandles eng\<rparr>)"
    by (cases eng) (simp add: record_ref_def)
  have d: "dom (coroutineRegistry eng) = dom (coroutineHandles eng)" using assms(1) by (simp add: engine_ok_def)
  show "op_keeps eng eng'" "chunk_of eng' (nextRefId eng) = Some chunk"
    using op_keeps_record_ref [OF assms(1,2) _ d e] by auto
qed

lemma op_keeps_failed_ref:
  assumes "engine_ok eng" and "compiled b = compiled (backend eng)
      \<or> compiled b = (compiled (backend eng))(makeBackendId (nextRefId eng) \<mapsto> c)"
  shows "op_keeps eng (eng\<lparr>nextRefId := nextRefId eng + 1, backend := b\<rparr>)"
  using failed_ref_ok [OF assms] by (simp add: op_keeps_def)

text \<open>The three ways a compilation ends: refused before anything happens, refused by Lua after a
  number was taken, or recorded under the next number.\<close>

definition compile_outcome ::
    "'h lua_vm \<Rightarrow> string \<Rightarrow> 'h LuaEngine \<Rightarrow> exn + int option \<Rightarrow> 'h LuaEngine \<Rightarrow> bool" where
  "compile_outcome vm chunk eng r eng' \<longleftrightarrow>
     eng' = eng \<and> (\<forall>ref. r \<noteq> Inr (Some ref)) \<or>
     (\<exists>e. r = Inl e \<and> op_keeps eng eng') \<or>
     (\<exists>ref. r = Inr (Some ref) \<and> op_keeps eng eng' \<and> chunk_of eng' ref = Some chunk \<and>
        (generation eng' = generation eng \<longrightarrow> chunk_of eng ref = None))"

lemma compile_outcome_record:
  assumes "engine_ok eng" "op_keeps eng eng1" "generation eng1 = generation eng \<longrightarrow> chunk_of eng1 = chunk_of eng"
    "op_keeps eng1 eng'" "chunk_of eng' (nextRefId eng1) = Some chunk" "generation eng' = generation eng1"
  shows "compile_outcome vm chunk eng (Inr (Some (nextRefId eng1))) eng'"
proof -
  have "engine_ok eng1" using assms(2) by (simp add: op_keeps_def)
  then have "chunk_of eng1 (nextRefId eng1) = None" by (rule chunk_of_next)
  moreover have "op_keeps eng eng'" using assms(2,4) by (rule op_keeps_trans)
  ultimately show ?thesis using assms(3,5,6) by (auto simp: compile_outcome_def)
qed

lemma autoReset_same_chunks:
  "generation (autoReset vm eng) = generation eng \<longrightarrow> chunk_of (autoReset vm eng) = chunk_of eng"
  using autoReset_cases [of vm eng] by auto

lemma compileExpression_outcome:
  assumes ok: "engine_ok eng" and c: "compileExpression vm code eng = (r, eng')"
  shows "compile_outcome vm (c_str (''return '' @ code)) eng r eng'"
proof -
  let ?e = "autoReset vm eng"
  have oke: "engine_ok ?e" using ok by simp
  have keep: "op_keeps eng ?e" using ok by (rule op_keeps_autoReset)
  obtain u b where b: "be_compileExpression vm (makeBackendId (nextRefId ?e)) code (backend ?e) = (u, b)"
    by fastforce
  show ?thesis
  proof (cases "eng' = eng \<and> (\<forall>ref. r \<noteq> Inr (Some ref))")
    case True
    then show ?thesis by (simp add: compile_outcome_def)
  next
    case False
    show ?thesis
    proof (cases u)
      case (Inl e)
      with b have "b = backend ?e" by (auto dest: be_compile_compiled(2))
      with False Inl c b have "\<exists>e. r = Inl e" "eng' = ?e\<lparr>nextRefId := nextRefId ?e + 1, backend := b\<rparr>"
        by (auto simp: compileExpression_def Let_def split: if_splits)
      moreover have "op_keeps ?e (?e\<lparr>nextRefId := nextRefId ?e + 1, backend := b\<rparr>)"
        using oke by (rule op_keeps_failed_ref) (simp add: \<open>b = backend ?e\<close>)
      ultimately show ?thesis using op_keeps_trans [OF keep] by (auto simp: compile_outcome_def)
    next
      case (Inr v)
      with False c b have r: "r = Inr (Some (nextRefId ?e))" and
        e: "eng' = record_ref (nextRefId ?e) (extractParameterNames code) (?e\<lparr>nextRefId := nextRefId ?e + 1, backend := b\<rparr>)"
        by (auto simp: compileExpression_def Let_def split: if_splits)
      have cb: "compiled b = (compiled (backend ?e))(makeBackendId (nextRefId ?e) \<mapsto> c_str (''return '' @ code))"
        using b Inr by (auto dest: be_compile_compiled(1))
      have "generation eng' = generation ?e" by (simp add: e record_ref_def)
      with op_keeps_record_plain [OF oke cb e] ok keep autoReset_same_chunks show ?thesis
        unfolding r by (intro compile_outcome_record)
    qed
  qed
qed

text \<open>\<^verbatim>\<open>compileAction\<close> and \<^verbatim>\<open>compileCoroutine\<close> also bind the callbacks before they compile.\<close>

lemma bound_start:
  assumes "engine_ok eng"
  shows "engine_ok (bindActionsToState (autoReset vm eng))"
    "op_keeps eng (bindActionsToState (autoReset vm eng))"
    "generation (bindActionsToState (autoReset vm eng)) = generation eng \<longrightarrow>
       chunk_of (bindActionsToState (autoReset vm eng)) = chunk_of eng"
proof -
  have ok: "engine_ok (autoReset vm eng)" using assms by simp
  note same = same_refsD [OF bindActionsToState_same_refs, of "autoReset vm eng"]
  show "engine_ok (bindActionsToState (autoReset vm eng))" using ok same by simp
  show "op_keeps eng (bindActionsToState (autoReset vm eng))"
    using op_keeps_autoReset [OF assms] op_keeps_same_refs [OF ok bindActionsToState_same_refs]
    by (rule op_keeps_trans)
  show "generation (bindActionsToState (autoReset vm eng)) = generation eng \<longrightarrow>
       chunk_of (bindActionsToState (autoReset vm eng)) = chunk_of eng"
    using autoReset_same_chunks [of vm eng] same by simp
qed

lemma compileAction_outcome:
  assumes ok: "engine_ok eng" and c: "compileAction vm code eng = (r, eng')"
  shows "compile_outcome vm (c_str code) eng r eng'"
proof -
  define e0 where "e0 = bindActionsToState (autoReset vm eng)"
  note st = bound_start [OF ok, of vm, folded e0_def]
  obtain u b where b: "be_compileAction vm (makeBackendId (nextRefId e0)) code (backend e0) = (u, b)"
    by fastforce
  show ?thesis
  proof (cases "eng' = eng \<and> (\<forall>ref. r \<noteq> Inr (Some ref))")
    case True
    then show ?thesis by (simp add: compile_outcome_def)
  next
    case False
    show ?thesis
    proof (cases u)
      case (Inl e)
      with b have be: "b = backend e0" by (auto dest: be_compile_compiled(4))
      with False Inl c b have "\<exists>e. r = Inl e" "eng' = e0\<lparr>nextRefId := nextRefId e0 + 1, backend := b\<rparr>"
        by (auto simp: compileAction_def Let_def e0_def split: if_splits)
      moreover have "op_keeps e0 (e0\<lparr>nextRefId := nextRefId e0 + 1, backend := b\<rparr>)"
        using st(1) by (rule op_keeps_failed_ref) (simp add: be)
      ultimately show ?thesis using op_keeps_trans [OF st(2)] by (auto simp: compile_outcome_def)
    next
      case (Inr v)
      with False c b have r: "r = Inr (Some (nextRefId e0))" and
        e: "eng' = record_ref (nextRefId e0) (extractParameterNames code) (e0\<lparr>nextRefId := nextRefId e0 + 1, backend := b\<rparr>)"
        by (auto simp: compileAction_def Let_def e0_def split: if_splits)
      have cb: "compiled b = (compiled (backend e0))(makeBackendId (nextRefId e0) \<mapsto> c_str code)"
        using b Inr by (auto dest: be_compile_compiled(3))
      have "generation eng' = generation e0" by (simp add: e record_ref_def)
      with op_keeps_record_plain [OF st(1) cb e] ok st(2,3) show ?thesis
        unfolding r by (intro compile_outcome_record)
    qed
  qed
qed

lemma compileCoroutine_outcome:
  assumes ok: "engine_ok eng" and c: "compileCoroutine vm code eng = (r, eng')"
  shows "compile_outcome vm (c_str (''return '' @ code)) eng r eng'"
proof (cases "code = []")
  case True
  with c show ?thesis by (auto simp: compileCoroutine_def compile_outcome_def)
next
  case False
  define e0 where "e0 = bindActionsToState (autoReset vm eng)"
  note st = bound_start [OF ok, of vm, folded e0_def]
  let ?bid = "makeBackendId (nextRefId e0)"
  obtain u b where b: "be_compileExpression vm ?bid code (backend e0) = (u, b)" by fastforce
  obtain h b' where b': "be_createCoroutine vm ?bid b = (h, b')" by fastforce
  show ?thesis
  proof (cases u)
    case (Inl e)
    with b have be: "b = backend e0" by (auto dest: be_compile_compiled(2))
    with False Inl c b have "\<exists>e. r = Inl e" "eng' = e0\<lparr>nextRefId := nextRefId e0 + 1, backend := b\<rparr>"
      by (auto simp: compileCoroutine_def Let_def e0_def)
    moreover have "op_keeps e0 (e0\<lparr>nextRefId := nextRefId e0 + 1, backend := b\<rparr>)"
      using st(1) by (rule op_keeps_failed_ref) (simp add: be)
    ultimately show ?thesis using op_keeps_trans [OF st(2)] by (auto simp: compile_outcome_def)
  next
    case (Inr v)
    have cb: "compiled b' = (compiled (backend e0))(?bid \<mapsto> c_str (''return '' @ code))"
      using be_compile_compiled(1) [OF b [unfolded Inr]] be_createCoroutine_compiled [OF b'] by simp
    show ?thesis
    proof (cases h)
      case None
      with False Inr c b b' have "\<exists>e. r = Inl e" "eng' = e0\<lparr>nextRefId := nextRefId e0 + 1, backend := b'\<rparr>"
        by (auto simp: compileCoroutine_def Let_def e0_def)
      moreover have "op_keeps e0 (e0\<lparr>nextRefId := nextRefId e0 + 1, backend := b'\<rparr>)"
        by (rule op_keeps_failed_ref [OF st(1) disjI2 [OF cb]])
      ultimately show ?thesis using op_keeps_trans [OF st(2)] by (auto simp: compile_outcome_def)
    next
      case (Some hd)
      with False Inr c b b' have r: "r = Inr (Some (nextRefId e0))" and
        e: "eng' = record_ref (nextRefId e0) (extractParameterNames code)
              (e0\<lparr>nextRefId := nextRefId e0 + 1, backend := b',
                  coroutineRegistry := (coroutineRegistry e0)(nextRefId e0 \<mapsto> True),
                  coroutineHandles := (coroutineHandles e0)(nextRefId e0 \<mapsto> hd)\<rparr>)"
        by (auto simp: compileCoroutine_def Let_def e0_def)
      have d: "dom ((coroutineHandles e0)(nextRefId e0 \<mapsto> hd)) \<subseteq> insert (nextRefId e0) (dom (coroutineHandles e0))"
        "dom ((coroutineRegistry e0)(nextRefId e0 \<mapsto> True)) = dom ((coroutineHandles e0)(nextRefId e0 \<mapsto> hd))"
        using st(1) by (auto simp: engine_ok_def)
      have "generation eng' = generation e0" by (simp add: e record_ref_def)
      with op_keeps_record_ref [OF st(1) cb d e] ok st(2,3) show ?thesis
        unfolding r by (intro compile_outcome_record)
    qed
  qed
qed

lemma compile_outcome_keeps: "engine_ok eng \<Longrightarrow> compile_outcome vm chunk eng r eng' \<Longrightarrow> op_keeps eng eng'"
  by (auto simp: compile_outcome_def op_keeps_refl)

lemma releaseRef_simps:
  "refToBackendId (releaseRef r eng) = (refToBackendId eng)(r := None)"
  "paramNames (releaseRef r eng) = (paramNames eng)(r := None)"
  "coroutineHandles (releaseRef r eng) = (coroutineHandles eng)(r := None)"
  "coroutineRegistry (releaseRef r eng) = (coroutineRegistry eng)(r := None)"
  "nextRefId (releaseRef r eng) = nextRefId eng" "generation (releaseRef r eng) = generation eng"
  "instanceId (releaseRef r eng) = instanceId eng"
  "compiled (backend (releaseRef r eng)) =
     (case refToBackendId eng r of None \<Rightarrow> compiled (backend eng)
      | Some bid \<Rightarrow> (compiled (backend eng))(bid := None))"
  by (auto simp: releaseRef_def Let_def removeCompiled_def be_closeCoroutine_def fun_eq_iff split: option.splits)

lemma releaseRef_ok:
  assumes "engine_ok eng"
  shows "engine_ok (releaseRef r eng)" "chunk_of (releaseRef r eng) = (chunk_of eng)(r := None)"
proof -
  have other: "bid' \<noteq> bid"
    if "refToBackendId eng r = Some bid" "refToBackendId eng r' = Some bid'" "r' \<noteq> r" for r' bid bid'
  proof -
    from that assms have "bid = makeBackendId r" "bid' = makeBackendId r'" by (simp_all add: engine_ok_def)
    with that(3) show ?thesis by simp
  qed
  show "engine_ok (releaseRef r eng)"
    using assms other unfolding engine_ok_def releaseRef_simps by (auto split: option.splits)
  show "chunk_of (releaseRef r eng) = (chunk_of eng)(r := None)"
    using other unfolding chunk_of_def releaseRef_simps by (auto simp: fun_eq_iff split: option.splits)
qed

section \<open>Runs of an engine\<close>

datatype engine_op =
    OpCompileExpression string | OpCompileAction string | OpCompileCoroutine string
  | OpEvaluate int "RuleParameter list" RuleContext "int option"
  | OpExecute int "RuleParameter list" RuleContext "int option"
  | OpResume int "RuleParameter list" RuleContext
  | OpSetGlobal string any_value | OpClearGlobals | OpRegisterAction string handler
  | OpDiscover "string list" | OpRelease int | OpResetState | OpCollectGarbage

fun engine_step :: "'h lua_vm \<Rightarrow> (nat \<Rightarrow> int) \<Rightarrow> engine_op \<Rightarrow> 'h LuaEngine \<times> nat \<Rightarrow> 'h LuaEngine \<times> nat" where
  "engine_step vm clk (OpCompileExpression s) (eng, n) = (snd (compileExpression vm s eng), n)"
| "engine_step vm clk (OpCompileAction s) (eng, n) = (snd (compileAction vm s eng), n)"
| "engine_step vm clk (OpCompileCoroutine s) (eng, n) = (snd (compileCoroutine vm s eng), n)"
| "engine_step vm clk (OpEvaluate r ps ctx t) (eng, n) = snd (evaluateExpression vm clk r ps ctx t None (eng, n))"
| "engine_step vm clk (OpExecute r ps ctx t) (eng, n) = snd (executeAction vm clk r ps ctx t None (eng, n))"
| "engine_step vm clk (OpResume r ps ctx) (eng, n) = (snd (resumeCoroutine vm r ps ctx n eng), n)"
| "engine_step vm clk (OpSetGlobal x v) (eng, n) = (engine_setGlobal x v eng, n)"
| "engine_step vm clk OpClearGlobals (eng, n) = (engine_clearGlobals eng, n)"
| "engine_step vm clk (OpRegisterAction x h) (eng, n) = (registerAction x h eng, n)"
| "engine_step vm clk (OpDiscover as) (eng, n) = (discoverCallbacks as eng, n)"
| "engine_step vm clk (OpRelease r) (eng, n) = (releaseRef r eng, n)"
| "engine_step vm clk OpResetState (eng, n) = (resetState vm eng, n)"
| "engine_step vm clk OpCollectGarbage (eng, n) = (collectGarbage vm eng, n)"

definition run_engine :: "'h lua_vm \<Rightarrow> (nat \<Rightarrow> int) \<Rightarrow> engine_op list \<Rightarrow> 'h LuaEngine \<times> nat \<Rightarrow> 'h LuaEngine \<times> nat" where
  "run_engine vm clk ops s = fold (engine_step vm clk) ops s"

lemma engine_step_keeps:
  assumes ok: "engine_ok eng" and step: "engine_step vm clk op (eng, n) = (eng', n')"
    and nr: "\<And>r. op \<noteq> OpRelease r"
  shows "op_keeps eng eng'"
proof (cases op)
  case (OpCompileExpression x)
  with step compileExpression_outcome [OF ok, of vm x] compile_outcome_keeps [OF ok] show ?thesis
    by (metis Pair_inject engine_step.simps(1) prod.collapse)
next
  case (OpCompileAction x)
  with step compileAction_outcome [OF ok, of vm x] compile_outcome_keeps [OF ok] show ?thesis
    by (metis Pair_inject engine_step.simps(2) prod.collapse)
next
  case (OpCompileCoroutine x)
  with step compileCoroutine_outcome [OF ok, of vm x] compile_outcome_keeps [OF ok] show ?thesis
    by (metis Pair_inject engine_step.simps(3) prod.collapse)
next
  case (OpEvaluate r ps ctx t)
  with step obtain x where "evaluateExpression vm clk r ps ctx t None (eng, n) = (x, eng', n')"
    by (metis engine_step.simps(4) prod.collapse)
  with evaluateExpression_same_refs op_keeps_same_refs [OF ok] show ?thesis by blast
next
  case (OpExecute r ps ctx t)
  with step obtain x where "executeAction vm clk r ps ctx t None (eng, n) = (x, eng', n')"
    by (metis engine_step.simps(5) prod.collapse)
  with executeAction_same_refs op_keeps_same_refs [OF ok] show ?thesis by blast
next
  case (OpResume r ps ctx)
  with step obtain x where "resumeCoroutine vm r ps ctx n eng = (x, eng')"
    by (metis Pair_inject engine_step.simps(6) prod.collapse)
  with resumeCoroutine_same_refs op_keeps_same_refs [OF ok] show ?thesis by blast
next
  case OpResetState
  with step show ?thesis by (auto simp: op_keeps_reset)
next
  case (OpRelease r)
  with nr show ?thesis by blast
qed (use step in \<open>auto simp: engine_setGlobal_def engine_clearGlobals_def registerAction_def
      discoverCallbacks_def collectGarbage_def be_collectGarbage_def be_clearGlobals_def
      bindActionsToState_def same_refs_def intro!: op_keeps_same_refs [OF ok]\<close>)

lemma engine_step_chunk:
  assumes ok: "engine_ok eng" and step: "engine_step vm clk op (eng, n) = (eng', n')"
  shows "engine_ok eng'" "generation eng \<le> generation eng'"
    "generation eng' = generation eng \<Longrightarrow> op \<noteq> OpRelease r \<Longrightarrow> chunk_of eng r = Some c \<Longrightarrow> chunk_of eng' r = Some c"
proof -
  have "engine_ok eng' \<and> generation eng \<le> generation eng' \<and>
    (generation eng' = generation eng \<longrightarrow> op \<noteq> OpRelease r \<longrightarrow> chunk_of eng r = Some c \<longrightarrow> chunk_of eng' r = Some c)"
  proof (cases "\<exists>r'. op = OpRelease r'")
    case True
    then obtain r' where r': "op = OpRelease r'" by blast
    with step have "eng' = releaseRef r' eng" by simp
    with releaseRef_ok [OF ok, of r'] r' show ?thesis by (simp add: releaseRef_simps)
  next
    case False
    with engine_step_keeps [OF ok step] show ?thesis by (auto simp: op_keeps_def)
  qed
  then show "engine_ok eng'" "generation eng \<le> generation eng'"
    "generation eng' = generation eng \<Longrightarrow> op \<noteq> OpRelease r \<Longrightarrow> chunk_of eng r = Some c \<Longrightarrow> chunk_of eng' r = Some c"
    by blast+
qed

lemma run_engine_chunk:
  assumes "engine_ok eng" "run_engine vm clk ops (eng, n) = (eng', n')"
  shows "engine_ok eng' \<and> generation eng \<le> generation eng' \<and>
    (generation eng' = generation eng \<longrightarrow> OpRelease r \<notin> set ops \<longrightarrow> chunk_of eng r = Some c \<longrightarrow> chunk_of eng' r = Some c)"
  using assms
proof (induction ops arbitrary: eng n)
  case Nil
  then show ?case by (simp add: run_engine_def)
next
  case (Cons op ops)
  obtain eng1 n1 where st: "engine_step vm clk op (eng, n) = (eng1, n1)" by fastforce
  note one = engine_step_chunk [OF Cons.prems(1) st]
  have "run_engine vm clk ops (eng1, n1) = (eng', n')" using Cons.prems(2) st by (simp add: run_engine_def)
  note two = Cons.IH [OF one(1) this]
  show ?case
  proof (intro conjI impI)
    show "engine_ok eng'" "generation eng \<le> generation eng'" using one(2) two by auto
    assume g: "generation eng' = generation eng" "OpRelease r \<notin> set (op # ops)" "chunk_of eng r = Some c"
    with one(2) two have "generation eng1 = generation eng" by linarith
    with one(3) g have "chunk_of eng1 r = Some c" by auto
    with g \<open>generation eng1 = generation eng\<close> two show "chunk_of eng' r = Some c" by simp
  qed
qed


lemma engine_ok_create: "engine_ok (create_engine vm iid)"
  by (simp add: create_engine_def engine_ok_def)


text \<open>
  A reset leaves nothing behind: after \<^verbatim>\<open>resetState\<close> the generation has moved on, every
  reference handed out before is refused by \<^verbatim>\<open>evaluateExpression\<close> and \<^verbatim>\<open>executeAction\<close> with the error
  for invalid references (never run against a recycled number), and numbering starts again.
\<close>

lemma reset_invalidates_references:
  "generation (resetState vm eng) = generation eng + 1 \<and>
   chunk_of (resetState vm eng) ref = None \<and>
   evaluateExpression vm clk ref ps ctx timeout outer (resetState vm eng, n) =
     (Inl (StdException RuleExecutionException ''Invalid expression reference''), resetState vm eng, n) \<and>
   executeAction vm clk ref ps ctx timeout outer (resetState vm eng, n) =
     (Inl (StdException RuleExecutionException ''Invalid action reference''), resetState vm eng, n) \<and>
   instanceId (resetState vm eng) = instanceId eng"
  by (simp add: chunk_of_def evaluateExpression_def executeAction_def run_chunk_def)

section \<open>Timeouts\<close>

lemma be_evaluate_Some: "be_evaluate vm env bid pairs b = (Inr v, b') \<Longrightarrow> v \<noteq> None"
  by (auto simp: be_evaluate_def split: option.splits prod.splits sum.splits)

text \<open>
  C36. A positive timeout is enforced on both sides of the call: the chunk runs under the deadline
  that lies the timeout after the clock reading taken before it, a truth value is returned only
  if the clock read after it has not passed that deadline, and a value that comes later is turned
  into the timeout exception that names the limit. An error raised by the chunk, among them the
  one of the deadline hook, is passed on as it is.
\<close>

theorem evaluate_within_timeout:
  assumes "ms > 0" and "refToBackendId eng ref = Some bid"
    and "evaluateExpression vm clk ref ps ctx (Some ms) outer (eng, n) = (r, eng', n')"
  shows "\<exists>env pairs b. env_deadline env = Some (clk n + ms * 1000000) \<and> env_results env = getResult ctx \<and>
     compiled b = compiled (backend eng) \<and>
     (case fst (be_evaluate vm env bid pairs b) of
        Inl e \<Rightarrow> r = Inl e
      | Inr v \<Rightarrow> r = (if clk (n + 1) > clk n + ms * 1000000 then Inl (timed_out ms) else Inr (lv_toBool (the v))))"
proof -
  obtain pairs b1 where o: "set_objects eng ps (buildParamPairs ps) (setupContextTable (backend eng)) = (pairs, b1)"
    by fastforce
  then have b1: "compiled b1 = compiled (backend eng)" by (auto dest: set_objects_frame)
  let ?env = "\<lparr>env_results = getResult ctx, env_deadline = Some (clk n + ms * 1000000), env_tick = n + 1\<rparr>"
  obtain x b2 where ev: "be_evaluate vm ?env bid pairs b1 = (x, b2)" by fastforce
  have "case fst (be_evaluate vm ?env bid pairs b1) of
        Inl e \<Rightarrow> r = Inl e
      | Inr v \<Rightarrow> r = (if clk (n + 1) > clk n + ms * 1000000 then Inl (timed_out ms) else Inr (lv_toBool (the v)))"
    using assms o ev
    by (cases x) (auto simp: evaluateExpression_def run_chunk_def has_timeout_def ms_to_ns_def
        dest: be_evaluate_Some split: if_splits)
  with b1 show ?thesis
    by (intro exI [of _ ?env] exI [of _ pairs] exI [of _ b1]) simp
qed

theorem evaluate_within_timeout_witness:
  "\<exists>e. fst (evaluateExpression sample_vm (\<lambda>n. int n * 9000000) 1 [mk_param ''x'' (VInt 1)] init_context
       (Some 5) None (snd (compileExpression sample_vm ''x'' (create_engine sample_vm 1)), 0)) = Inl e"
proof -
  let ?eng = "snd (compileExpression sample_vm ''x'' (create_engine sample_vm 1))"
  have compiled0: "compiled (backend (create_engine sample_vm 1)) = Map.empty"
    by (simp add: create_engine_def registerPredicates_def builtin_predicates_def registerPredicate_def
        setupEnvironment_def openLibraries_def create_backend_def)
  have id: "makeBackendId 1 = ''ref_1''"
    by (simp add: makeBackendId_def std_to_string_def nat_digits.simps char_of_def bit_iff_odd)
  have e: "refToBackendId ?eng 1 = Some ''ref_1''" "compiled (backend ?eng) = [''ref_1'' \<mapsto> ''return x'']"
    using compiled0 id
    by (auto simp: compileExpression_def create_engine_def autoReset_def std_isspace_def cc_def record_ref_def
        be_compileExpression_def sample_vm_def c_str_def Let_def)
  obtain r eng' n' where ev: "evaluateExpression sample_vm (\<lambda>n. int n * 9000000) 1
      [mk_param ''x'' (VInt 1)] init_context (Some 5) None (?eng, 0) = (r, eng', n')"
    by (metis prod.exhaust)
  from evaluate_within_timeout [OF _ e(1) ev] obtain env pairs b where
    "case fst (be_evaluate sample_vm env ''ref_1'' pairs b) of
       Inl e \<Rightarrow> r = Inl e
     | Inr v \<Rightarrow> r = (if int (0 + 1) * 9000000 > int 0 * 9000000 + 5 * 1000000 then Inl (timed_out 5)
                     else Inr (lv_toBool (the v)))"
    by auto
  then have "\<exists>e. r = Inl e" by (cases "fst (be_evaluate sample_vm env ''ref_1'' pairs b)") auto
  with ev show ?thesis by simp
qed

section \<open>Names and callbacks\<close>

definition param_name_ok :: "string \<Rightarrow> bool" where
  "param_name_ok s \<longleftrightarrow>
     s \<noteq> [] \<and> ident_start (hd s) \<and> list_all ident_char s \<and> s \<notin> set luaKeywords \<and> s \<notin> set lua_builtins"

lemma ident_start_char: "ident_start c \<Longrightarrow> ident_char c"
  by (auto simp: ident_start_def ident_char_def std_isalnum_def)

lemma extract_loop_names:
  assumes "distinct names" "list_all param_name_ok names"
  shows "distinct (extract_loop st before rest names) \<and> list_all param_name_ok (extract_loop st before rest names) \<and>
    set names \<subseteq> set (extract_loop st before rest names)"
  using assms
proof (induction st before rest names rule: extract_loop.induct)
  case (4 before c rest names)
  have ok: "param_name_ok (takeWhile ident_char (c # rest))"
    if "ident_start c" "takeWhile ident_char (c # rest) \<notin> set luaKeywords"
      "takeWhile ident_char (c # rest) \<notin> set lua_builtins"
    using that ident_start_char [of c] by (auto simp: param_name_ok_def list_all_iff dest: set_takeWhileD)
  let ?name = "takeWhile ident_char (c # rest)"
  consider (sq) "c = CHR 0x27" | (dq) "c = CHR 0x22"
    | (num) "c \<noteq> CHR 0x27" "c \<noteq> CHR 0x22" "std_isdigit c \<or> (c = CHR ''.'' \<and> rest \<noteq> [] \<and> std_isdigit (hd rest))"
    | (ident) "c \<noteq> CHR 0x27" "c \<noteq> CHR 0x22" "\<not> (std_isdigit c \<or> (c = CHR ''.'' \<and> rest \<noteq> [] \<and> std_isdigit (hd rest)))"
        "ident_start c"
    | (other) "c \<noteq> CHR 0x27" "c \<noteq> CHR 0x22" "\<not> (std_isdigit c \<or> (c = CHR ''.'' \<and> rest \<noteq> [] \<and> std_isdigit (hd rest)))"
        "\<not> ident_start c"
    by blast
  then show ?case
  proof cases
    case sq
    with "4.IH"(1) "4.prems" show ?thesis by simp
  next
    case dq
    with "4.IH"(2) "4.prems" show ?thesis by simp
  next
    case num
    with "4.IH"(3) "4.prems" show ?thesis by (simp only: extract_loop.simps if_False if_True simp_thms)
  next
    case other
    with "4.IH"(5) "4.prems" show ?thesis by (simp only: extract_loop.simps if_False if_True simp_thms)
  next
    case ident
    define new where "new = (if \<not> next_nonspace_is CHR ''.'' before \<and>
        \<not> next_nonspace_is CHR ''('' (dropWhile ident_char rest) \<and> ?name \<notin> set luaKeywords \<and> ?name \<notin> set lua_builtins
      then add_name ?name names else names)"
    have new: "distinct new" "list_all param_name_ok new" "set names \<subseteq> set new"
      using "4.prems" ok ident(4) by (auto simp: new_def add_name_def simp del: takeWhile.simps)
    have "extract_loop Normal before (c # rest) names =
        extract_loop Normal (rev ?name @ before) (dropWhile ident_char rest) new"
      using ident by (simp only: extract_loop.simps if_False if_True simp_thms Let_def new_def)
    moreover have "distinct (extract_loop Normal (rev ?name @ before) (dropWhile ident_char rest) new) \<and>
        list_all param_name_ok (extract_loop Normal (rev ?name @ before) (dropWhile ident_char rest) new) \<and>
        set new \<subseteq> set (extract_loop Normal (rev ?name @ before) (dropWhile ident_char rest) new)"
      using "4.IH"(4) ident new(1,2) unfolding new_def by (simp only: refl simp_thms)
    ultimately show ?thesis using new(3) by auto
  qed
qed auto

text \<open>
  The scanner terminates on every text and reports only proper parameter names: the extracted
  names are pairwise distinct, each is a Lua identifier, and none is a keyword or one of the
  built-in names.
\<close>

lemma extractParameterNames_proper:
  "distinct (extractParameterNames e) \<and> list_all param_name_ok (extractParameterNames e)"
  using extract_loop_names [of "[]" Normal "[]" e] by (simp add: extractParameterNames_def)

lemma extractParameterNames_proper_example:
  "extractParameterNames ''age>=18 and x.y==f(z)'' = [''age'', ''x'', ''z''] \<and>
   list_all param_name_ok (extractParameterNames ''age>=18 and x.y==f(z)'')"
proof
  show "extractParameterNames ''age>=18 and x.y==f(z)'' = [''age'', ''x'', ''z'']"
    by (simp add: extractParameterNames_def ident_start_def ident_char_def num_char_def char_eval
        next_nonspace_is_def luaKeywords_def lua_builtins_def add_name_def Let_def)
  show "list_all param_name_ok (extractParameterNames ''age>=18 and x.y==f(z)'')"
    using extractParameterNames_proper by blast
qed

end
