(* ===== verification/Rate_Limiter.thy ===== *)
theory Rate_Limiter
  imports FR_Prelude
begin

text \<open>
  \<^verbatim>\<open>RateLimiter\<close> (include/fastrules/rate_limiter.hpp, src/rate_limiter.cpp): per-rule sliding
  windows over the steady clock. A time point is its number of nanoseconds. Every call of
  \<^verbatim>\<open>steady_clock::now()\<close> is an argument of the operation that makes it: \<^verbatim>\<open>isAllowed\<close> reads the
  clock twice, first in \<^verbatim>\<open>cleanupOldEntries\<close> and then for the time stamp it records. The mutexes
  make every operation atomic, so a run of the limiter is a sequence of calls.
\<close>

section \<open>State and operations\<close>

type_synonym time_point = int

record Config =
  cfg_ruleName :: string
  maxExecutionsPerSecond :: int
  maxExecutionsPerMinute :: int
  burstSize :: int

definition isEnabled :: "Config \<Rightarrow> bool" where
  "isEnabled c \<longleftrightarrow> maxExecutionsPerSecond c > 0 \<or> maxExecutionsPerMinute c > 0"

record RuleState =
  rs_config :: Config
  secondWindow :: "time_point list"
  minuteWindow :: "time_point list"

type_synonym RateLimiter = "string \<rightharpoonup> RuleState"

abbreviation one_second :: int where "one_second \<equiv> 1000000000"
abbreviation one_minute :: int where "one_minute \<equiv> 60000000000"

text \<open>The two \<^verbatim>\<open>while (!q.empty() && q.front() < limit) q.pop();\<close> loops.\<close>

definition cleanupOldEntries :: "time_point \<Rightarrow> RuleState \<Rightarrow> RuleState" where
  "cleanupOldEntries now st =
     st\<lparr>secondWindow := dropWhile (\<lambda>t. t < now - one_second) (secondWindow st),
        minuteWindow := dropWhile (\<lambda>t. t < now - one_minute) (minuteWindow st)\<rparr>"

definition second_limit :: "Config \<Rightarrow> int" where
  "second_limit c = (if burstSize c > 0 then burstSize c else maxExecutionsPerSecond c)"

definition isAllowed :: "time_point \<Rightarrow> time_point \<Rightarrow> string \<Rightarrow> RateLimiter \<Rightarrow> bool \<times> RateLimiter" where
  "isAllowed t1 t2 ruleName rl =
     (case rl ruleName of
        None \<Rightarrow> (True, rl)
      | Some st0 \<Rightarrow>
          let st = cleanupOldEntries t1 st0; config = rs_config st; rl1 = rl(ruleName \<mapsto> st)
          in if \<not> isEnabled config then (True, rl1)
             else if maxExecutionsPerSecond config > 0
                     \<and> int (length (secondWindow st)) \<ge> second_limit config then (False, rl1)
             else if maxExecutionsPerMinute config > 0
                     \<and> int (length (minuteWindow st)) \<ge> maxExecutionsPerMinute config then (False, rl1)
             else (True, rl(ruleName \<mapsto> st\<lparr>secondWindow := secondWindow st @ [t2],
                                           minuteWindow := minuteWindow st @ [t2]\<rparr>)))"

definition checkAllowed ::
    "time_point \<Rightarrow> time_point \<Rightarrow> string \<Rightarrow> RateLimiter \<Rightarrow> (exn + unit) \<times> RateLimiter" where
  "checkAllowed t1 t2 ruleName rl =
     (let (ok, rl') = isAllowed t1 t2 ruleName rl
      in if ok then (Inr (), rl')
         else (Inl (RateLimitException (''Rate limit exceeded for rule '' @ [CHR 0x27] @ ruleName @ [CHR 0x27])), rl'))"

definition configure :: "Config \<Rightarrow> RateLimiter \<Rightarrow> RateLimiter" where
  "configure config rl =
     rl(cfg_ruleName config \<mapsto>
          (case rl (cfg_ruleName config) of
             None \<Rightarrow> \<lparr>rs_config = config, secondWindow = [], minuteWindow = []\<rparr>
           | Some st \<Rightarrow> st\<lparr>rs_config := config\<rparr>))"

definition remove_config :: "string \<Rightarrow> RateLimiter \<Rightarrow> RateLimiter" where
  "remove_config ruleName rl = rl(ruleName := None)"

definition reset_limiter :: "RateLimiter \<Rightarrow> RateLimiter" where
  "reset_limiter rl = Map.empty"

definition getCurrentExecutionsPerSecond ::
    "time_point \<Rightarrow> string \<Rightarrow> RateLimiter \<Rightarrow> int \<times> RateLimiter" where
  "getCurrentExecutionsPerSecond t ruleName rl =
     (case rl ruleName of
        None \<Rightarrow> (0, rl)
      | Some st0 \<Rightarrow> let st = cleanupOldEntries t st0
                    in (int (length (secondWindow st)), rl(ruleName \<mapsto> st)))"

definition getCurrentExecutionsPerMinute ::
    "time_point \<Rightarrow> string \<Rightarrow> RateLimiter \<Rightarrow> int \<times> RateLimiter" where
  "getCurrentExecutionsPerMinute t ruleName rl =
     (case rl ruleName of
        None \<Rightarrow> (0, rl)
      | Some st0 \<Rightarrow> let st = cleanupOldEntries t st0
                    in (int (length (minuteWindow st)), rl(ruleName \<mapsto> st)))"

section \<open>Runs of a limiter\<close>

text \<open>
  A run is a sequence of calls, each with the clock readings it makes. It yields the permitted
  executions in order, each as the rule's name and the time stamp that was recorded for it.
\<close>

datatype limiter_op =
    OpIsAllowed string time_point time_point
  | OpPerSecond string time_point
  | OpPerMinute string time_point
  | OpConfigure Config
  | OpRemove string
  | OpReset

fun limiter_step :: "limiter_op \<Rightarrow> RateLimiter \<Rightarrow> (string \<times> time_point) list \<times> RateLimiter" where
  "limiter_step (OpIsAllowed n t1 t2) rl =
     (let (ok, rl') = isAllowed t1 t2 n rl in (if ok then [(n, t2)] else [], rl'))"
| "limiter_step (OpPerSecond n t) rl = ([], snd (getCurrentExecutionsPerSecond t n rl))"
| "limiter_step (OpPerMinute n t) rl = ([], snd (getCurrentExecutionsPerMinute t n rl))"
| "limiter_step (OpConfigure c) rl = ([], configure c rl)"
| "limiter_step (OpRemove n) rl = ([], remove_config n rl)"
| "limiter_step OpReset rl = ([], reset_limiter rl)"

fun run_limiter :: "limiter_op list \<Rightarrow> RateLimiter \<Rightarrow> (string \<times> time_point) list \<times> RateLimiter" where
  "run_limiter [] rl = ([], rl)"
| "run_limiter (e # es) rl =
     (let (xs, rl1) = limiter_step e rl; (ys, rl2) = run_limiter es rl1 in (xs @ ys, rl2))"

text \<open>The readings of a steady clock never go back, within a call and between calls.\<close>

fun op_times :: "limiter_op \<Rightarrow> time_point list" where
  "op_times (OpIsAllowed n t1 t2) = [t1, t2]"
| "op_times (OpPerSecond n t) = [t]"
| "op_times (OpPerMinute n t) = [t]"
| "op_times (OpConfigure c) = []"
| "op_times (OpRemove n) = []"
| "op_times OpReset = []"

definition clock_ordered :: "limiter_op list \<Rightarrow> bool" where
  "clock_ordered es \<longleftrightarrow> sorted (concat (map op_times es))"

fun op_rule :: "limiter_op \<Rightarrow> string option" where
  "op_rule (OpIsAllowed n t1 t2) = Some n"
| "op_rule (OpPerSecond n t) = Some n"
| "op_rule (OpPerMinute n t) = Some n"
| "op_rule (OpConfigure c) = Some (cfg_ruleName c)"
| "op_rule (OpRemove n) = Some n"
| "op_rule OpReset = None"

fun reconfigures :: "string \<Rightarrow> limiter_op \<Rightarrow> bool" where
  "reconfigures n (OpConfigure c) = (cfg_ruleName c = n)"
| "reconfigures n (OpRemove m) = (m = n)"
| "reconfigures n OpReset = True"
| "reconfigures n e = False"

definition permitted :: "string \<Rightarrow> (string \<times> time_point) list \<Rightarrow> time_point list" where
  "permitted n xs = map snd (filter (\<lambda>x. fst x = n) xs)"

text \<open>How many of the time stamps lie in the window of length \<open>w\<close> that ends at \<open>T\<close>.\<close>

definition in_window :: "time_point \<Rightarrow> int \<Rightarrow> time_point list \<Rightarrow> nat" where
  "in_window T w ts = length (filter (\<lambda>t. T - w \<le> t \<and> t \<le> T) ts)"

lemma in_window_append [simp]: "in_window T w (xs @ ys) = in_window T w xs + in_window T w ys"
  by (simp add: in_window_def)

lemma dropWhile_sorted_filter:
  "sorted ts \<Longrightarrow> dropWhile (\<lambda>t. t < (c::int)) ts = filter (\<lambda>t. c \<le> t) ts"
proof (induction ts)
  case (Cons t ts)
  show ?case
  proof (cases "t < c")
    case True
    with Cons show ?thesis by simp
  next
    case False
    with Cons.prems have "\<forall>u\<in>set ts. c \<le> u" by auto
    with False show ?thesis by simp
  qed
qed simp

text \<open>
  \<open>window_ok w hist q tc\<close>: the queue \<open>q\<close> holds exactly the permitted time stamps \<open>hist\<close> that are
  not older than \<open>w\<close> before the last clean-up \<open>tc\<close>.
\<close>

definition window_ok :: "int \<Rightarrow> time_point list \<Rightarrow> time_point list \<Rightarrow> time_point \<Rightarrow> bool" where
  "window_ok w hist q tc \<longleftrightarrow>
     sorted hist \<and> (\<forall>t\<in>set hist. t \<le> tc) \<and> (\<exists>c \<le> tc - w. q = filter (\<lambda>t. c \<le> t) hist)"

lemma window_ok_init: "window_ok w [] [] tc"
  by (auto simp: window_ok_def)

lemma window_ok_cleanup:
  assumes "window_ok w hist q tc" and "tc \<le> t"
  shows "dropWhile (\<lambda>u. u < t - w) q = filter (\<lambda>u. t - w \<le> u) hist"
proof -
  from assms obtain c where c: "c \<le> tc - w" "q = filter (\<lambda>u. c \<le> u) hist" and s: "sorted hist"
    by (auto simp: window_ok_def)
  have "sorted q" using s c(2) by (simp add: sorted_wrt_filter)
  then have "dropWhile (\<lambda>u. u < t - w) q = filter (\<lambda>u. t - w \<le> u) q"
    by (rule dropWhile_sorted_filter)
  also have "\<dots> = filter (\<lambda>u. t - w \<le> u) hist"
    using c assms(2) by (auto intro: filter_cong)
  finally show ?thesis .
qed

lemma window_ok_later:
  assumes "window_ok w hist q tc" "tc \<le> t"
  shows "window_ok w hist q t"
proof -
  from assms obtain c where "c \<le> tc - w" "q = filter (\<lambda>u. c \<le> u) hist" "sorted hist"
    "\<forall>u\<in>set hist. u \<le> tc" by (auto simp: window_ok_def)
  moreover from this assms(2) have "c \<le> t - w" "\<forall>u\<in>set hist. u \<le> t" by auto
  ultimately show ?thesis unfolding window_ok_def by blast
qed

lemma window_ok_cleaned:
  assumes "window_ok w hist q tc" and "tc \<le> t1"
  shows "window_ok w hist (filter (\<lambda>u. t1 - w \<le> u) hist) t1"
  using assms by (auto simp: window_ok_def)

lemma window_ok_push:
  assumes "window_ok w hist (filter (\<lambda>u. t1 - w \<le> u) hist) t1" "t1 \<le> t2" "0 \<le> w"
  shows "window_ok w (hist @ [t2]) (filter (\<lambda>u. t1 - w \<le> u) hist @ [t2]) t2"
proof -
  from assms have "sorted (hist @ [t2])" "\<forall>t\<in>set (hist @ [t2]). t \<le> t2"
    by (auto simp: window_ok_def sorted_append)
  moreover have "filter (\<lambda>u. t1 - w \<le> u) hist @ [t2] = filter (\<lambda>u. t1 - w \<le> u) (hist @ [t2])"
    using assms by simp
  moreover have "t1 - w \<le> t2 - w" using assms by simp
  ultimately show ?thesis unfolding window_ok_def by blast
qed


section \<open>The window bounds\<close>

definition windows_bounded :: "Config \<Rightarrow> time_point list \<Rightarrow> bool" where
  "windows_bounded c hist \<longleftrightarrow>
     (maxExecutionsPerSecond c > 0 \<longrightarrow> (\<forall>T. int (in_window T one_second hist) \<le> second_limit c)) \<and>
     (maxExecutionsPerMinute c > 0 \<longrightarrow>
        (\<forall>T. int (in_window T one_minute hist) \<le> maxExecutionsPerMinute c))"

definition limiter_inv :: "string \<Rightarrow> Config \<Rightarrow> time_point list \<Rightarrow> time_point \<Rightarrow> RateLimiter \<Rightarrow> bool" where
  "limiter_inv n c hist tc rl \<longleftrightarrow>
     (\<exists>st. rl n = Some st \<and> rs_config st = c \<and> windows_bounded c hist \<and>
        (isEnabled c \<longrightarrow> window_ok one_second hist (secondWindow st) tc \<and>
                        window_ok one_minute hist (minuteWindow st) tc))"

lemma in_window_push:
  assumes "int (length (filter (\<lambda>u. t1 - w \<le> u) hist)) < b" "t1 \<le> t2"
    and "\<forall>T. int (in_window T w hist) \<le> b"
  shows "int (in_window T w (hist @ [t2])) \<le> b"
proof (cases "T < t2")
  case True
  then have "in_window T w [t2] = 0" by (simp add: in_window_def)
  with assms(3) show ?thesis by simp
next
  case False
  have "length (filter (\<lambda>t. T - w \<le> t \<and> t \<le> T) hist) \<le> length (filter (\<lambda>u. t1 - w \<le> u) hist)"
  proof -
    have "filter (\<lambda>t. T - w \<le> t \<and> t \<le> T) hist =
        filter (\<lambda>t. T - w \<le> t \<and> t \<le> T) (filter (\<lambda>u. t1 - w \<le> u) hist)"
      using False assms(2) by (auto intro: filter_cong)
    then show ?thesis by (metis length_filter_le)
  qed
  moreover have "in_window T w [t2] \<le> 1" by (simp add: in_window_def)
  ultimately show ?thesis using assms(1) by (simp add: in_window_def)
qed

lemma limiter_inv_later: "limiter_inv n c hist tc rl \<Longrightarrow> tc \<le> t \<Longrightarrow> limiter_inv n c hist t rl"
  by (auto simp: limiter_inv_def intro: window_ok_later)

lemma limiter_inv_cleanup:
  assumes "limiter_inv n c hist tc rl" "tc \<le> t" "rl n = Some st0"
  shows "limiter_inv n c hist t (rl(n \<mapsto> cleanupOldEntries t st0))"
    and "isEnabled c \<Longrightarrow> secondWindow (cleanupOldEntries t st0) = filter (\<lambda>u. t - one_second \<le> u) hist"
    and "isEnabled c \<Longrightarrow> minuteWindow (cleanupOldEntries t st0) = filter (\<lambda>u. t - one_minute \<le> u) hist"
  using assms
  by (auto simp: limiter_inv_def cleanupOldEntries_def window_ok_cleanup intro: window_ok_cleaned)

lemma limiter_inv_isAllowed:
  assumes inv: "limiter_inv n c hist tc rl" and t: "tc \<le> t1" "t1 \<le> t2"
    and step: "isAllowed t1 t2 n rl = (ok, rl')" and en: "isEnabled c"
  shows "limiter_inv n c (if ok then hist @ [t2] else hist) t2 rl'"
proof -
  from inv obtain st0 where st0: "rl n = Some st0" "rs_config st0 = c" "windows_bounded c hist"
    by (auto simp: limiter_inv_def)
  define st where "st = cleanupOldEntries t1 st0"
  have conf: "rs_config st = c" using st0 by (simp add: st_def cleanupOldEntries_def)
  note cl = limiter_inv_cleanup [OF inv t(1) st0(1), folded st_def]
  have denied: "limiter_inv n c hist t2 (rl(n \<mapsto> st))"
    using cl(1) t(2) by (rule limiter_inv_later)
  show ?thesis
  proof (cases ok)
    case False
    with step st0(1) have "rl' = rl(n \<mapsto> st)"
      by (auto simp: isAllowed_def Let_def st_def split: if_splits)
    with denied False show ?thesis by simp
  next
    case True
    with step st0(1) conf en have rl': "rl' = rl(n \<mapsto> st\<lparr>secondWindow := secondWindow st @ [t2],
          minuteWindow := minuteWindow st @ [t2]\<rparr>)"
      and sec: "maxExecutionsPerSecond c > 0 \<Longrightarrow> int (length (secondWindow st)) < second_limit c"
      and mi: "maxExecutionsPerMinute c > 0 \<Longrightarrow>
                 int (length (minuteWindow st)) < maxExecutionsPerMinute c"
      by (auto simp: isAllowed_def Let_def st_def [symmetric] split: if_splits)
    have "windows_bounded c (hist @ [t2])"
      using st0(3) sec mi t(2) unfolding windows_bounded_def cl(2,3) [OF en]
      by (blast intro: in_window_push)
    moreover have "window_ok one_second (hist @ [t2]) (secondWindow st @ [t2]) t2"
      and "window_ok one_minute (hist @ [t2]) (minuteWindow st @ [t2]) t2"
      using cl(1) cl(2,3) [OF en] t(2) en
      by (auto simp: limiter_inv_def intro!: window_ok_push)
    ultimately show ?thesis using True rl' conf by (simp add: limiter_inv_def)
  qed
qed

lemma limiter_frames [frame_simps]:
  assumes "m \<noteq> n"
  shows "snd (isAllowed t1 t2 m rl) n = rl n"
    and "snd (getCurrentExecutionsPerSecond t m rl) n = rl n"
    and "snd (getCurrentExecutionsPerMinute t m rl) n = rl n"
    and "remove_config m rl n = rl n"
  using assms
  by (simp_all add: isAllowed_def getCurrentExecutionsPerSecond_def remove_config_def
      getCurrentExecutionsPerMinute_def Let_def split: option.splits)

lemma configure_frame [frame_simps]: "cfg_ruleName c \<noteq> n \<Longrightarrow> configure c rl n = rl n"
  by (simp add: configure_def)

lemma limiter_step_other:
  assumes "limiter_step e rl = (xs, rl')" "\<not> reconfigures n e" "op_rule e \<noteq> Some n"
  shows "rl' n = rl n" "permitted n xs = []"
proof -
  from assms(1) have "rl' = snd (limiter_step e rl)" "xs = fst (limiter_step e rl)" by simp_all
  with assms(2,3) show "rl' n = rl n" "permitted n xs = []"
    by (cases e; simp add: frame_simps permitted_def split_beta)+
qed

lemma limiter_step_inv:
  assumes inv: "limiter_inv n c hist tc rl" and en: "isEnabled c" and nr: "\<not> reconfigures n e"
    and t: "\<forall>t\<in>set (op_times e). tc \<le> t" "sorted (op_times e)"
    and step: "limiter_step e rl = (xs, rl')" and tc': "tc \<le> tc'" "\<forall>t\<in>set (op_times e). t \<le> tc'"
  shows "limiter_inv n c (hist @ permitted n xs) tc' rl'"
proof -
  consider (allowed) t1 t2 where "e = OpIsAllowed n t1 t2" | (sec) t1 where "e = OpPerSecond n t1"
    | (min) t1 where "e = OpPerMinute n t1"
    | (other) "op_rule e \<noteq> Some n"
    using nr by (cases e) auto
  then show ?thesis
  proof cases
    case allowed
    obtain ok rl1 where a: "isAllowed t1 t2 n rl = (ok, rl1)" by fastforce
    with step allowed have "rl' = rl1" "permitted n xs = (if ok then [t2] else [])"
      by (auto simp: permitted_def)
    with limiter_inv_isAllowed [OF inv _ _ a en] t allowed
    have "limiter_inv n c (hist @ permitted n xs) t2 rl'" by (cases ok) auto
    then show ?thesis using tc'(2) allowed by (auto intro: limiter_inv_later)
  next
    case sec
    from inv obtain st0 where "rl n = Some st0" by (auto simp: limiter_inv_def)
    with limiter_inv_cleanup(1) [OF inv, of t1 st0] t sec step show ?thesis
      using tc'(2) by (auto simp: permitted_def getCurrentExecutionsPerSecond_def Let_def
          intro: limiter_inv_later)
  next
    case min
    from inv obtain st0 where "rl n = Some st0" by (auto simp: limiter_inv_def)
    with limiter_inv_cleanup(1) [OF inv, of t1 st0] t min step show ?thesis
      using tc'(2) by (auto simp: permitted_def getCurrentExecutionsPerMinute_def Let_def
          intro: limiter_inv_later)
  next
    case other
    with limiter_step_other [OF step nr] inv have "limiter_inv n c (hist @ permitted n xs) tc rl'"
      by (simp add: limiter_inv_def)
    then show ?thesis using tc'(1) by (rule limiter_inv_later)
  qed
qed

lemma permitted_append [simp]: "permitted n (xs @ ys) = permitted n xs @ permitted n ys"
  by (simp add: permitted_def)

lemma run_limiter_bounded:
  assumes "limiter_inv n c hist tc rl" "isEnabled c" "\<forall>e\<in>set es. \<not> reconfigures n e"
    and "clock_ordered es" "\<forall>t\<in>set (concat (map op_times es)). tc \<le> t"
  shows "windows_bounded c (hist @ permitted n (fst (run_limiter es rl)))"
  using assms
proof (induction es arbitrary: hist tc rl)
  case Nil
  then show ?case by (auto simp: limiter_inv_def permitted_def)
next
  case (Cons e es)
  obtain xs rl1 where st: "limiter_step e rl = (xs, rl1)" by fastforce
  define tc' where "tc' = (if op_times e = [] then tc else last (op_times e))"
  have so: "sorted (op_times e)" "clock_ordered es"
    "\<forall>x\<in>set (op_times e). \<forall>y\<in>set (concat (map op_times es)). x \<le> y"
    using Cons.prems(4) by (auto simp: clock_ordered_def sorted_append)
  have le: "tc \<le> tc'" "\<forall>t\<in>set (op_times e). t \<le> tc'"
    using Cons.prems(5) so(1) by (cases e; auto simp: tc'_def)+
  have "limiter_inv n c (hist @ permitted n xs) tc' rl1"
    using limiter_step_inv [OF Cons.prems(1,2) _ _ so(1) st le] Cons.prems(3,5) by auto
  moreover note Cons.prems(2)
  moreover have "\<forall>e\<in>set es. \<not> reconfigures n e" using Cons.prems(3) by simp
  moreover note so(2)
  moreover have "\<forall>t\<in>set (concat (map op_times es)). tc' \<le> t"
    using so(3) Cons.prems(5) by (cases e) (auto simp: tc'_def)
  ultimately have "windows_bounded c ((hist @ permitted n xs) @ permitted n (fst (run_limiter es rl1)))"
    by (rule Cons.IH)
  then show ?case by (simp add: st split_beta)
qed

text \<open>
  C39. The sliding windows keep their promise. After a rule is configured on a limiter that did not
  know it, and however the calls for this and other rules, the metric queries and configurations
  of other rules are ordered, no interval of one second contains more permitted executions of the
  rule than its burst size (or its per-second limit when no burst size is set), and no interval of
  one minute contains more than its per-minute limit.
\<close>

theorem rate_limit_windows:
  assumes "rl (cfg_ruleName c) = None"
    and "\<forall>e\<in>set es. \<not> reconfigures (cfg_ruleName c) e" and "clock_ordered es"
  shows "windows_bounded c (permitted (cfg_ruleName c) (fst (run_limiter es (configure c rl))))"
proof (cases "isEnabled c")
  case False
  then show ?thesis by (simp add: windows_bounded_def isEnabled_def)
next
  case True
  define ts where "ts = concat (map op_times es)"
  define tc where "tc = (case ts of [] \<Rightarrow> 0 | t # _ \<Rightarrow> t)"
  have "second_limit c > 0 \<or> maxExecutionsPerSecond c \<le> 0" by (auto simp: second_limit_def)
  then have "limiter_inv (cfg_ruleName c) c [] tc (configure c rl)"
    using assms(1) by (auto simp: limiter_inv_def configure_def windows_bounded_def in_window_def
        window_ok_init)
  moreover have "\<forall>t\<in>set (concat (map op_times es)). tc \<le> t"
    using assms(3) unfolding clock_ordered_def tc_def ts_def [symmetric] by (cases ts) simp_all
  ultimately show ?thesis
    using run_limiter_bounded [of _ c "[]"] True assms(2,3) by fastforce
qed

theorem rate_limit_windows_witness:
  "let c = \<lparr>cfg_ruleName = ''r'', maxExecutionsPerSecond = 1, maxExecutionsPerMinute = 3, burstSize = 2\<rparr>;
       es = [OpIsAllowed ''r'' 10 11, OpIsAllowed ''q'' 12 12, OpIsAllowed ''r'' 13 14,
             OpIsAllowed ''r'' 15 16, OpPerSecond ''r'' 17]
   in permitted ''r'' (fst (run_limiter es (configure c Map.empty))) = [11, 14] \<and>
      windows_bounded c (permitted ''r'' (fst (run_limiter es (configure c Map.empty))))"
proof -
  let ?c = "\<lparr>cfg_ruleName = ''r'', maxExecutionsPerSecond = 1, maxExecutionsPerMinute = 3, burstSize = 2\<rparr>"
  let ?es = "[OpIsAllowed ''r'' 10 11, OpIsAllowed ''q'' 12 12, OpIsAllowed ''r'' 13 14,
             OpIsAllowed ''r'' 15 16, OpPerSecond ''r'' 17]"
  have "windows_bounded ?c (permitted (cfg_ruleName ?c) (fst (run_limiter ?es (configure ?c Map.empty))))"
    by (rule rate_limit_windows) (simp_all add: clock_ordered_def)
  moreover have "permitted ''r'' (fst (run_limiter ?es (configure ?c Map.empty))) = [11, 14]"
    by (simp add: permitted_def isAllowed_def configure_def cleanupOldEntries_def isEnabled_def
        second_limit_def getCurrentExecutionsPerSecond_def)
  ultimately show ?thesis by simp
qed

text \<open>
  A rule that is within its limits is let through: when every execution recorded for a
  configured rule is more than a minute old at the clean-up, \<^verbatim>\<open>isAllowed\<close> permits the next one and
  forgets the old ones: the recorded windows hold the new time stamp alone, whatever the positive
  limits and however full the windows were.
\<close>

lemma isAllowed_recovers:
  assumes "rl n = Some st" and "isEnabled (rs_config st)"
    and "\<forall>t\<in>set (secondWindow st) \<union> set (minuteWindow st). t < t1 - one_minute"
  shows "isAllowed t1 t2 n rl = (True, rl(n \<mapsto> st\<lparr>secondWindow := [t2], minuteWindow := [t2]\<rparr>))"
proof -
  have drop: "dropWhile (\<lambda>t. t < t1 - w) xs = []"
    if "w \<le> one_minute" "\<forall>t\<in>set xs. t < t1 - one_minute" for w xs
    using that by (induction xs) auto
  show ?thesis
    using assms by (auto simp: isAllowed_def Let_def cleanupOldEntries_def drop isEnabled_def second_limit_def)
qed

lemma isAllowed_recovers_example:
  "let c = \<lparr>cfg_ruleName = ''r'', maxExecutionsPerSecond = 1, maxExecutionsPerMinute = 0, burstSize = 0\<rparr>;
       st = \<lparr>rs_config = c, secondWindow = [5], minuteWindow = [5]\<rparr>
   in isAllowed 6 6 ''r'' [''r'' \<mapsto> st] = (False, [''r'' \<mapsto> st]) \<and>
      isAllowed 60000000007 60000000008 ''r'' [''r'' \<mapsto> st] =
        (True, [''r'' \<mapsto> st\<lparr>secondWindow := [60000000008], minuteWindow := [60000000008]\<rparr>])"
proof -
  let ?c = "\<lparr>cfg_ruleName = ''r'', maxExecutionsPerSecond = 1, maxExecutionsPerMinute = 0, burstSize = 0\<rparr>"
  let ?st = "\<lparr>rs_config = ?c, secondWindow = [5], minuteWindow = [5]\<rparr>"
  have "isAllowed 60000000007 60000000008 ''r'' [''r'' \<mapsto> ?st] =
        (True, [''r'' \<mapsto> ?st](''r'' \<mapsto> ?st\<lparr>secondWindow := [60000000008], minuteWindow := [60000000008]\<rparr>))"
    by (rule isAllowed_recovers) (simp_all add: isEnabled_def)
  then show ?thesis
    by (simp add: isAllowed_def cleanupOldEntries_def isEnabled_def second_limit_def)
qed

end
