(* ===== verification/Expression_Validator.thy ===== *)
theory Expression_Validator
  imports FR_Prelude
begin

text \<open>
  \<^verbatim>\<open>ExpressionValidator\<close> (include/fastrules/expression_validator.hpp,
  src/expression_validator.cpp): the lexical checks that \<^verbatim>\<open>Rule::compile\<close> runs on an expression or
  an action before Lua sees it. The tests are pure functions of the source text; \<^verbatim>\<open>isValidLua\<close>, which also
  compiles the text, takes the compilation as an argument.
\<close>

section \<open>Identifier boundaries\<close>

definition isIdentifierChar :: "char \<Rightarrow> bool" where
  "isIdentifierChar c \<longleftrightarrow> std_isalnum c \<or> c = CHR ''_''"

text \<open>An occurrence of \<open>pat\<close> at position \<open>i\<close> with no identifier character next to it.\<close>

definition boundary_at :: "string \<Rightarrow> string \<Rightarrow> nat \<Rightarrow> bool" where
  "boundary_at hay pat i \<longleftrightarrow>
     (i = 0 \<or> \<not> isIdentifierChar (hay ! (i - 1))) \<and>
     (i + length pat \<ge> length hay \<or> \<not> isIdentifierChar (hay ! (i + length pat)))"

text \<open>The \<^verbatim>\<open>while (pos != npos)\<close> loop, entered with the result of a \<^verbatim>\<open>find\<close>.\<close>

function boundary_loop :: "string \<Rightarrow> string \<Rightarrow> nat \<Rightarrow> bool" where
  "boundary_loop hay pat start =
     (case str_find hay pat start of
        None \<Rightarrow> False
      | Some pos \<Rightarrow> if boundary_at hay pat pos then True else boundary_loop hay pat (pos + 1))"
  by pat_completeness auto

termination boundary_loop
  by (relation "measure (\<lambda>(hay, pat, start). Suc (length hay) - start)")
    (auto dest!: str_find_bounds)

declare boundary_loop.simps [simp del]

definition containsAtIdentifierBoundary :: "string \<Rightarrow> string \<Rightarrow> bool" where
  "containsAtIdentifierBoundary haystack pattern =
     (if pattern = [] then False else boundary_loop haystack pattern 0)"

lemma boundary_loop_iff:
  "boundary_loop hay pat start \<longleftrightarrow> (\<exists>i\<ge>start. matches_at hay pat i \<and> boundary_at hay pat i)"
proof (induction hay pat start rule: boundary_loop.induct)
  case (1 hay pat start)
  show ?case
  proof (cases "str_find hay pat start")
    case None
    then have "\<forall>k\<ge>start. \<not> matches_at hay pat k" by (simp add: str_find_None_iff)
    with None show ?thesis by (auto simp: boundary_loop.simps [of hay pat start])
  next
    case (Some pos)
    note f = str_find_SomeD [OF Some]
    show ?thesis
    proof (cases "boundary_at hay pat pos")
      case True
      with f Some show ?thesis by (auto simp: boundary_loop.simps [of hay pat start])
    next
      case False
      with Some have "boundary_loop hay pat start = boundary_loop hay pat (pos + 1)"
        by (simp add: boundary_loop.simps [of hay pat start])
      also have "\<dots> \<longleftrightarrow> (\<exists>i\<ge>pos + 1. matches_at hay pat i \<and> boundary_at hay pat i)"
        using "1.IH" Some False by blast
      also have "\<dots> \<longleftrightarrow> (\<exists>i\<ge>start. matches_at hay pat i \<and> boundary_at hay pat i)"
        (is "?l = ?r")
      proof
        assume ?l
        with f(1) show ?r by (meson le_trans le_add1)
      next
        assume ?r
        then obtain i where i: "start \<le> i" "matches_at hay pat i" "boundary_at hay pat i" by blast
        have "\<not> i < pos" using f(3) i by blast
        moreover have "i \<noteq> pos" using False i by blast
        ultimately have "pos + 1 \<le> i" by simp
        with i show ?l by blast
      qed
      finally show ?thesis .
    qed
  qed
qed

section \<open>Dangerous patterns\<close>

definition getDangerousPatterns :: "(string \<times> string) list" where
  "getDangerousPatterns =
    [(''os.execute'', ''os.execute() - shell command execution''),
     (''os.exit'', ''os.exit() - process termination''),
     (''io.open'', ''io.open() - file system access''),
     (''io.popen'', ''io.popen() - shell command execution''),
     (''loadfile'', ''loadfile() - arbitrary code loading''),
     (''dofile'', ''dofile() - arbitrary code execution''),
     (''require'', ''require() - module loading''),
     (''loadstring'', ''loadstring() - arbitrary code loading''),
     (''load'', ''load() - arbitrary code loading''),
     (''debug.getregistry'', ''debug.getregistry() - internal access''),
     (''debug.getlocal'', ''debug.getlocal() - stack inspection''),
     (''debug.setupvalue'', ''debug.setupvalue() - upvalue manipulation''),
     (''collectgarbage'', ''collectgarbage() - GC manipulation''),
     (''rawset'', ''rawset() - bypass metatables''),
     (''rawget'', ''rawget() - bypass metatables''),
     (''setmetatable'', ''setmetatable() - metatable manipulation''),
     (''getmetatable'', ''getmetatable() - metatable access''),
     (''rawequal'', ''rawequal() - bypass metatables''),
     (''rawlen'', ''rawlen() - bypass metatables''),
     (''package'', ''package - module system access''),
     (''module'', ''module() - module creation''),
     (''newproxy'', ''newproxy() - userdata creation'')]"

definition findDangerousPatterns :: "string \<Rightarrow> string list" where
  "findDangerousPatterns expression =
     (let lowerExpr = map std_tolower expression
      in map snd (filter (\<lambda>(pattern, description). containsAtIdentifierBoundary lowerExpr pattern)
           getDangerousPatterns))"

definition containsDangerousPatterns :: "string \<Rightarrow> bool" where
  "containsDangerousPatterns expression \<longleftrightarrow> findDangerousPatterns expression \<noteq> []"

section \<open>The light validation\<close>

record ValidationResult =
  valid :: bool
  warnings :: "string list"
  errors :: "string list"

definition quote_char :: "char \<Rightarrow> bool" where
  "quote_char c \<longleftrightarrow> c = CHR 0x22 \<or> c = CHR 0x27"

text \<open>The string-literal scan: \<open>prev\<close> is \<^verbatim>\<open>expression[i-1]\<close>, \<open>None\<close> at \<^verbatim>\<open>i == 0\<close>.\<close>

fun string_scan :: "bool \<Rightarrow> char \<Rightarrow> char option \<Rightarrow> string \<Rightarrow> bool" where
  "string_scan inString delim prev [] = inString"
| "string_scan inString delim prev (c # s) =
     (if \<not> inString \<and> quote_char c then string_scan True c (Some c) s
      else if inString \<and> c = delim
      then (if prev = None \<or> prev \<noteq> Some (CHR 0x5C) then string_scan False delim (Some c) s
            else string_scan True delim (Some c) s)
      else string_scan inString delim (Some c) s)"

definition validate_errors :: "string \<Rightarrow> string list" where
  "validate_errors expression =
     map (\<lambda>pattern. ''Dangerous pattern detected: '' @ pattern) (findDangerousPatterns expression) @
     (if count_list expression (CHR ''('') \<noteq> count_list expression (CHR '')'')
      then [''Mismatched parentheses''] else []) @
     (if count_list expression (CHR ''['') \<noteq> count_list expression (CHR '']'')
      then [''Mismatched brackets''] else []) @
     (if count_list expression (CHR ''{'') \<noteq> count_list expression (CHR ''}'')
      then [''Mismatched braces''] else []) @
     (if string_scan False (CHR 0x00) None expression then [''Unclosed string literal''] else [])"

definition validate_warnings :: "string \<Rightarrow> string list" where
  "validate_warnings expression =
     (if str_contains expression ''while true''
      then [''Expression contains '' @ [CHR 0x27] @ ''while true'' @ [CHR 0x27] @
            '' - potential infinite loop''] else []) @
     (if str_contains expression ''for '' \<and> str_contains expression ''do''
      then [''Expression contains loop - ensure timeout is set''] else [])"

definition validate :: "string \<Rightarrow> ValidationResult" where
  "validate expression =
     (if expression = [] then \<lparr>valid = True, warnings = [], errors = []\<rparr>
      else \<lparr>valid = (validate_errors expression = []),
            warnings = validate_warnings expression,
            errors = validate_errors expression\<rparr>)"

definition isValidLuaSyntax :: "string \<Rightarrow> bool" where
  "isValidLuaSyntax expression = (if expression = [] then True else valid (validate expression))"

text \<open>
  \<^verbatim>\<open>isValidLua\<close> compiles the text and releases the reference it got: the engine is abstract here,
  with its \<^verbatim>\<open>compileExpression\<close> (\<open>Inl\<close> for an exception) and its \<^verbatim>\<open>releaseRef\<close> as arguments.
\<close>

definition isValidLua ::
    "(string \<Rightarrow> 'e \<Rightarrow> (exn + int option) \<times> 'e) \<Rightarrow> (int \<Rightarrow> 'e \<Rightarrow> 'e) \<Rightarrow> string \<Rightarrow> 'e \<Rightarrow> bool \<times> 'e" where
  "isValidLua compileExpr releaseReference expression engine =
     (if expression = [] then (True, engine)
      else if \<not> valid (validate expression) then (False, engine)
      else case compileExpr expression engine of
             (Inr (Some ref), engine') \<Rightarrow> (True, releaseReference ref engine')
           | (Inr None, engine') \<Rightarrow> (False, engine')
           | (Inl e, engine') \<Rightarrow> (False, engine'))"

section \<open>Properties\<close>

lemma boundary_search_iff:
  "containsAtIdentifierBoundary hay pat \<longleftrightarrow>
     pat \<noteq> [] \<and> (\<exists>pre post. hay = pre @ pat @ post \<and>
        (pre = [] \<or> \<not> isIdentifierChar (last pre)) \<and>
        (post = [] \<or> \<not> isIdentifierChar (hd post)))"
proof (cases "pat = []")
  case True
  then show ?thesis by (simp add: containsAtIdentifierBoundary_def)
next
  case False
  have "(matches_at hay pat i \<and> boundary_at hay pat i) \<longleftrightarrow>
      (\<exists>pre post. hay = pre @ pat @ post \<and> length pre = i \<and>
        (pre = [] \<or> \<not> isIdentifierChar (last pre)) \<and> (post = [] \<or> \<not> isIdentifierChar (hd post)))"
    (is "?l \<longleftrightarrow> ?r") for i
  proof
    assume ?l
    then have i: "i \<le> length hay" and pat: "take (length pat) (drop i hay) = pat"
      by (simp_all add: matches_at_def)
    let ?pre = "take i hay" and ?post = "drop (i + length pat) hay"
    have "hay = ?pre @ pat @ ?post"
      by (metis append_take_drop_id drop_drop pat add.commute)
    moreover have "?pre \<noteq> [] \<Longrightarrow> last ?pre = hay ! (i - 1)"
      using i by (cases i) (auto simp: take_Suc_conv_app_nth)
    moreover have "?post \<noteq> [] \<Longrightarrow> hd ?post = hay ! (i + length pat)"
      by (simp add: hd_drop_conv_nth)
    ultimately show ?r using \<open>?l\<close> i by (intro exI [of _ ?pre] exI [of _ ?post])
      (auto simp: boundary_at_def)
  next
    assume ?r
    then obtain pre post where h: "hay = pre @ pat @ post" "length pre = i"
      "pre = [] \<or> \<not> isIdentifierChar (last pre)" "post = [] \<or> \<not> isIdentifierChar (hd post)" by blast
    then show ?l
      by (cases pre rule: rev_cases; cases post)
        (auto simp: matches_at_def boundary_at_def nth_append)
  qed
  then show ?thesis
    using False by (auto simp: containsAtIdentifierBoundary_def boundary_loop_iff)
qed

lemma identifier_no_boundary:
  assumes "\<forall>c\<in>set hay. isIdentifierChar c" "hay \<noteq> pat"
  shows "\<not> containsAtIdentifierBoundary hay pat"
proof
  assume "containsAtIdentifierBoundary hay pat"
  then obtain pre post where "hay = pre @ pat @ post" "pre = [] \<or> \<not> isIdentifierChar (last pre)"
    "post = [] \<or> \<not> isIdentifierChar (hd post)"
    unfolding boundary_search_iff by blast
  with assms show False by (cases pre rule: rev_cases; cases post) auto
qed

text \<open>
  The boundary search finds exactly the occurrences that stand alone: the loop over \<^verbatim>\<open>find\<close>
  answers true if and only if the (non-empty) pattern occurs at some position with no
  identifier character on either side.
\<close>

lemma containsAtIdentifierBoundary_iff:
  "containsAtIdentifierBoundary hay pat \<longleftrightarrow>
     pat \<noteq> [] \<and> (\<exists>pre post. hay = pre @ pat @ post \<and>
        (pre = [] \<or> \<not> isIdentifierChar (last pre)) \<and>
        (post = [] \<or> \<not> isIdentifierChar (hd post)))"
  by (rule boundary_search_iff)

lemma containsAtIdentifierBoundary_iff_example:
  "containsAtIdentifierBoundary ''a load(x)'' ''load''
   \<and> \<not> containsAtIdentifierBoundary ''payload'' ''load''"
proof
  show "containsAtIdentifierBoundary ''a load(x)'' ''load''"
    unfolding containsAtIdentifierBoundary_iff
    by (rule conjI, simp, rule exI [of _ "''a ''"], rule exI [of _ "''(x)''"])
      (simp add: isIdentifierChar_def char_eval)
  have "pre = ''pay'' \<and> post = []" if "''payload'' = pre @ ''load'' @ post" for pre post
    using that by (auto simp: Cons_eq_append_conv)
  then show "\<not> containsAtIdentifierBoundary ''payload'' ''load''"
    unfolding containsAtIdentifierBoundary_iff
    by (fastforce simp: isIdentifierChar_def char_eval)
qed

text \<open>
  Nothing on the list of dangerous functions gets through by spelling: whenever the text of a
  listed pattern stands in an expression in any mixture of upper and lower case, not glued to
  identifier characters, \<^verbatim>\<open>validate\<close> rejects the expression and names the pattern's description
  among the errors.
\<close>

lemma validate_rejects_dangerous:
  assumes "(pat, desc) \<in> set getDangerousPatterns" and "map std_tolower p = pat"
    and "pre = [] \<or> \<not> isIdentifierChar (last (map std_tolower pre))"
    and "post = [] \<or> \<not> isIdentifierChar (hd (map std_tolower post))"
  shows "\<not> valid (validate (pre @ p @ post)) \<and>
    ''Dangerous pattern detected: '' @ desc \<in> set (errors (validate (pre @ p @ post)))"
proof -
  let ?e = "pre @ p @ post"
  from assms(1) have ne: "pat \<noteq> []" by (auto simp: getDangerousPatterns_def)
  have "containsAtIdentifierBoundary (map std_tolower ?e) pat"
    unfolding boundary_search_iff using assms ne
    by (intro conjI exI [of _ "map std_tolower pre"] exI [of _ "map std_tolower post"]) auto
  with assms(1) have "desc \<in> set (findDangerousPatterns ?e)"
    by (force simp: findDangerousPatterns_def)
  then have "''Dangerous pattern detected: '' @ desc \<in> set (validate_errors ?e)"
    by (auto simp: validate_errors_def)
  moreover have "?e \<noteq> []" using assms(2) ne by auto
  ultimately show ?thesis by (auto simp: validate_def)
qed

lemma validate_rejects_dangerous_example:
  "\<not> valid (validate ''x + OS.Execute(1)'') \<and>
   ''Dangerous pattern detected: os.execute() - shell command execution''
     \<in> set (errors (validate ''x + OS.Execute(1)''))"
  using validate_rejects_dangerous [of "''os.execute''" "''os.execute() - shell command execution''"
      "''OS.Execute''" "''x + ''" "''(1)''"]
  by (simp add: getDangerousPatterns_def isIdentifierChar_def char_eval)

lemma identifier_scan:
  "\<forall>c\<in>set s. isIdentifierChar c \<Longrightarrow> \<not> string_scan False d prev s"
proof (induction s arbitrary: prev)
  case (Cons c s)
  then have "\<not> quote_char c" by (auto simp: isIdentifierChar_def quote_char_def cctype_defs)
  with Cons show ?case by simp
qed simp

lemma identifier_count:
  assumes "\<forall>c\<in>set s. isIdentifierChar c" "\<not> isIdentifierChar d"
  shows "count_list s d = 0"
  using assms by (auto simp: count_list_0_iff)

lemma std_tolower_alnum: "isIdentifierChar c \<Longrightarrow> isIdentifierChar (std_tolower c)"
  by (cases "std_isupper c") (auto simp: isIdentifierChar_def std_tolower_def [of c]
      std_isalnum_def std_isalpha_def std_isupper_def std_islower_def)

text \<open>
  Ordinary names are never refused: an expression that is one Lua identifier is valid unless
  it is, up to case, one of the listed names itself. Identifiers that merely contain a listed
  name (\<^verbatim>\<open>payload\<close>, \<^verbatim>\<open>package_type\<close>) pass.
\<close>

lemma validate_accepts_identifiers:
  assumes "\<forall>c\<in>set e. isIdentifierChar c" and "map std_tolower e \<notin> fst ` set getDangerousPatterns"
  shows "valid (validate e) \<and> errors (validate e) = []"
proof -
  have "\<forall>c\<in>set (map std_tolower e). isIdentifierChar c"
    using assms(1) std_tolower_alnum by auto
  then have "\<not> containsAtIdentifierBoundary (map std_tolower e) pat"
    if "(pat, desc) \<in> set getDangerousPatterns" for pat desc
    using identifier_no_boundary [of "map std_tolower e" pat] assms(2) that
    by (metis fst_conv image_eqI)
  then have "findDangerousPatterns e = []"
    by (auto simp: findDangerousPatterns_def filter_empty_conv)
  moreover have "count_list e d = 0" if "\<not> isIdentifierChar d" for d
    using identifier_count [OF assms(1) that] .
  ultimately have "validate_errors e = []"
    using identifier_scan [OF assms(1)]
    by (simp add: validate_errors_def isIdentifierChar_def cctype_defs)
  then show ?thesis by (simp add: validate_def)
qed

lemma validate_accepts_identifiers_example:
  "valid (validate ''payload'') \<and> errors (validate ''payload'') = []"
  by (rule validate_accepts_identifiers)
    (simp_all add: isIdentifierChar_def cctype_defs getDangerousPatterns_def)

text \<open>
  The string scan does not follow Lua's escapes: it looks at one preceding backslash only, so
  the complete Lua literal \<^verbatim>\<open>"\\"\<close> (a string of one backslash) is reported as unclosed and the
  expression is refused.
\<close>

lemma escaped_backslash_rejected:
  "validate [CHR ''x'', CHR 0x3D, CHR 0x3D, CHR 0x22, CHR 0x5C, CHR 0x5C, CHR 0x22] =
     \<lparr>valid = False, warnings = [], errors = [''Unclosed string literal'']\<rparr>"
proof -
  let ?e = "[CHR ''x'', CHR 0x3D, CHR 0x3D, CHR 0x22, CHR 0x5C, CHR 0x5C, CHR 0x22]"
  have "\<not> containsAtIdentifierBoundary (map std_tolower ?e) pat"
    if "(pat, desc) \<in> set getDangerousPatterns" for pat desc
  proof -
    have "map std_tolower ?e = ?e" by (simp add: cctype_defs)
    moreover have "hd pat \<noteq> CHR ''x''" "hd pat \<noteq> CHR 0x3D" "hd pat \<noteq> CHR 0x22" "hd pat \<noteq> CHR 0x5C"
      "pat \<noteq> []" using that by (auto simp: getDangerousPatterns_def)
    then have "hd pat \<notin> set ?e" "pat \<noteq> []" by auto
    ultimately show ?thesis
      unfolding boundary_search_iff by (metis list.set_sel(1) Un_iff set_append)
  qed
  then have "findDangerousPatterns ?e = []"
    by (auto simp: findDangerousPatterns_def filter_empty_conv)
  then show ?thesis
    by (simp add: validate_def validate_errors_def validate_warnings_def quote_char_def
        str_contains_def str_find_def)
qed

end
