(* ===== verification/Performance_Counters.thy ===== *)
theory Performance_Counters
  imports FR_Prelude "HOL-Library.Word"
begin

text \<open>
  \<^verbatim>\<open>PerformanceCounters\<close> (include/fastrules/performance_counters.hpp,
  src/performance_counters.cpp): ten \<^verbatim>\<open>atomic<uint64_t>\<close> counters. Each counter is a 64-bit word
  and wraps; the derived rates divide, so they are given as the pair of the operands they
  divide (\<^verbatim>\<open>None\<close> where the code returns 0.0 because nothing was executed).
\<close>

section \<open>Counters\<close>

record Counters =
  totalRulesExecuted :: "64 word"
  totalRulesSuccessful :: "64 word"
  totalRulesFailed :: "64 word"
  totalRulesSkipped :: "64 word"
  totalRulesCached :: "64 word"
  totalRulesTimedOut :: "64 word"
  totalRulesRateLimited :: "64 word"
  totalCompileCount :: "64 word"
  totalCompileFailures :: "64 word"
  totalExecutionTimeNs :: "64 word"

definition reset_counters :: "Counters \<Rightarrow> Counters" where
  "reset_counters c =
     c\<lparr>totalRulesExecuted := 0, totalRulesSuccessful := 0, totalRulesFailed := 0,
       totalRulesSkipped := 0, totalRulesCached := 0, totalRulesTimedOut := 0,
       totalRulesRateLimited := 0, totalCompileCount := 0, totalCompileFailures := 0,
       totalExecutionTimeNs := 0\<rparr>"

definition recordExecution :: "bool \<Rightarrow> bool \<Rightarrow> bool \<Rightarrow> bool \<Rightarrow> bool \<Rightarrow> Counters \<Rightarrow> Counters" where
  "recordExecution success skipped cached timedOut rateLimited c =
     (let c = c\<lparr>totalRulesExecuted := totalRulesExecuted c + 1\<rparr>;
          c = (if success then c\<lparr>totalRulesSuccessful := totalRulesSuccessful c + 1\<rparr>
               else c\<lparr>totalRulesFailed := totalRulesFailed c + 1\<rparr>);
          c = (if skipped then c\<lparr>totalRulesSkipped := totalRulesSkipped c + 1\<rparr> else c);
          c = (if cached then c\<lparr>totalRulesCached := totalRulesCached c + 1\<rparr> else c);
          c = (if timedOut then c\<lparr>totalRulesTimedOut := totalRulesTimedOut c + 1\<rparr> else c)
      in (if rateLimited then c\<lparr>totalRulesRateLimited := totalRulesRateLimited c + 1\<rparr> else c))"

definition recordCompile :: "bool \<Rightarrow> Counters \<Rightarrow> Counters" where
  "recordCompile success c =
     (let c = c\<lparr>totalCompileCount := totalCompileCount c + 1\<rparr>
      in if \<not> success then c\<lparr>totalCompileFailures := totalCompileFailures c + 1\<rparr> else c)"

text \<open>The duration is a signed count of nanoseconds, cast to \<^verbatim>\<open>uint64_t\<close>.\<close>

definition recordExecutionTime :: "int \<Rightarrow> Counters \<Rightarrow> Counters" where
  "recordExecutionTime duration c =
     c\<lparr>totalExecutionTimeNs := totalExecutionTimeNs c + word_of_int duration\<rparr>"

definition getCounters :: "Counters \<Rightarrow> Counters" where
  "getCounters c = c"

definition rate_operands :: "64 word \<Rightarrow> Counters \<Rightarrow> (nat \<times> nat) option" where
  "rate_operands part c =
     (if totalRulesExecuted c = 0 then None
      else Some (unat part, unat (totalRulesExecuted c)))"

definition getAverageExecutionTimeMs :: "Counters \<Rightarrow> (nat \<times> nat) option" where
  "getAverageExecutionTimeMs c = rate_operands (totalExecutionTimeNs c) c"

definition getSuccessRate :: "Counters \<Rightarrow> (nat \<times> nat) option" where
  "getSuccessRate c = rate_operands (totalRulesSuccessful c) c"

definition getCacheHitRate :: "Counters \<Rightarrow> (nat \<times> nat) option" where
  "getCacheHitRate c = rate_operands (totalRulesCached c) c"

section \<open>Histories\<close>

datatype perf_event =
    ExecutionEvent bool bool bool bool bool
  | CompileEvent bool
  | TimeEvent int

fun perf_step :: "perf_event \<Rightarrow> Counters \<Rightarrow> Counters" where
  "perf_step (ExecutionEvent s sk ca ti ra) c = recordExecution s sk ca ti ra c"
| "perf_step (CompileEvent s) c = recordCompile s c"
| "perf_step (TimeEvent d) c = recordExecutionTime d c"

fun exec_flag :: "(bool \<Rightarrow> bool \<Rightarrow> bool \<Rightarrow> bool \<Rightarrow> bool \<Rightarrow> bool) \<Rightarrow> perf_event \<Rightarrow> bool" where
  "exec_flag P (ExecutionEvent s sk ca ti ra) = P s sk ca ti ra"
| "exec_flag P (CompileEvent s) = False"
| "exec_flag P (TimeEvent d) = False"

definition count_exec ::
    "(bool \<Rightarrow> bool \<Rightarrow> bool \<Rightarrow> bool \<Rightarrow> bool \<Rightarrow> bool) \<Rightarrow> perf_event list \<Rightarrow> nat" where
  "count_exec P es = length (filter (exec_flag P) es)"

fun time_of :: "perf_event \<Rightarrow> int" where
  "time_of (TimeEvent d) = d"
| "time_of (ExecutionEvent s sk ca ti ra) = 0"
| "time_of (CompileEvent s) = 0"

lemma count_exec_Cons:
  "count_exec P (e # es) = of_bool (exec_flag P e) + count_exec P es"
  by (simp add: count_exec_def)

lemma count_exec_split:
  "count_exec (\<lambda>s sk ca ti ra. True) es =
     count_exec (\<lambda>s sk ca ti ra. s) es + count_exec (\<lambda>s sk ca ti ra. \<not> s) es"
proof (induction es)
  case (Cons e es)
  then show ?case by (cases e) (simp_all add: count_exec_Cons)
qed (simp add: count_exec_def)

lemma count_exec_le: "(\<And>s sk ca ti ra. P s sk ca ti ra \<Longrightarrow> Q s sk ca ti ra) \<Longrightarrow> count_exec P es \<le> count_exec Q es"
proof (induction es)
  case (Cons e es)
  then show ?case by (cases e) (simp_all add: count_exec_Cons add_mono)
qed (simp add: count_exec_def)

lemma perf_fold:
  "totalRulesExecuted (fold perf_step es c) =
     totalRulesExecuted c + of_nat (count_exec (\<lambda>s sk ca ti ra. True) es)"
  "totalRulesSuccessful (fold perf_step es c) =
     totalRulesSuccessful c + of_nat (count_exec (\<lambda>s sk ca ti ra. s) es)"
  "totalRulesFailed (fold perf_step es c) =
     totalRulesFailed c + of_nat (count_exec (\<lambda>s sk ca ti ra. \<not> s) es)"
  "totalRulesCached (fold perf_step es c) =
     totalRulesCached c + of_nat (count_exec (\<lambda>s sk ca ti ra. ca) es)"
  "totalRulesTimedOut (fold perf_step es c) =
     totalRulesTimedOut c + of_nat (count_exec (\<lambda>s sk ca ti ra. ti) es)"
  "totalRulesRateLimited (fold perf_step es c) =
     totalRulesRateLimited c + of_nat (count_exec (\<lambda>s sk ca ti ra. ra) es)"
  "totalExecutionTimeNs (fold perf_step es c) =
     totalExecutionTimeNs c + word_of_int (sum_list (map time_of es))"
proof (induction es arbitrary: c)
  case Nil
  { case 1 show ?case by (simp add: count_exec_def) }
  { case 2 show ?case by (simp add: count_exec_def) }
  { case 3 show ?case by (simp add: count_exec_def) }
  { case 4 show ?case by (simp add: count_exec_def) }
  { case 5 show ?case by (simp add: count_exec_def) }
  { case 6 show ?case by (simp add: count_exec_def) }
  { case 7 show ?case by simp }
next
  case (Cons e es)
  note step_simps = count_exec_Cons recordExecution_def recordCompile_def recordExecutionTime_def Let_def
  { case 1 show ?case by (cases e) (simp_all add: Cons.IH step_simps) }
  { case 2 show ?case by (cases e) (simp_all add: Cons.IH step_simps) }
  { case 3 show ?case by (cases e) (simp_all add: Cons.IH step_simps) }
  { case 4 show ?case by (cases e) (simp_all add: Cons.IH step_simps) }
  { case 5 show ?case by (cases e) (simp_all add: Cons.IH step_simps) }
  { case 6 show ?case by (cases e) (simp_all add: Cons.IH step_simps) }
  { case 7 show ?case by (cases e) (simp_all add: Cons.IH step_simps) }
qed

text \<open>
  The counters are an exact account of the recorded history: after a reset and any sequence of
  fewer than \<open>2 ^ 64\<close> recorded events, the executed counter is the number of executions, the
  successful and failed counters split it without loss, and the success rate divides the number
  of successes by the number of executions. Nothing wraps, and a rate never exceeds one.
\<close>

lemma counters_exact:
  assumes "length es < 2 ^ 64"
  shows "let c' = fold perf_step es (reset_counters c);
             n = count_exec (\<lambda>s sk ca ti ra. True) es; ok = count_exec (\<lambda>s sk ca ti ra. s) es;
             hit = count_exec (\<lambda>s sk ca ti ra. ca) es
         in unat (totalRulesExecuted c') = n
          \<and> unat (totalRulesSuccessful c') + unat (totalRulesFailed c') = n
          \<and> getSuccessRate c' = (if n = 0 then None else Some (ok, n))
          \<and> getCacheHitRate c' = (if n = 0 then None else Some (hit, n))
          \<and> ok \<le> n \<and> hit \<le> n"
proof -
  let ?n = "count_exec (\<lambda>s sk ca ti ra. True) es" and ?c = "fold perf_step es (reset_counters c)"
  have le: "count_exec P es \<le> ?n" for P by (rule count_exec_le) simp
  have "?n \<le> length es" by (simp add: count_exec_def)
  with assms have n: "?n < 2 ^ 64" by simp
  have un: "unat (of_nat (count_exec P es) :: 64 word) = count_exec P es" for P
    using le_less_trans [OF le [of P] n] by (simp add: unat_of_nat)
  have "totalRulesExecuted ?c = of_nat ?n" by (simp add: perf_fold reset_counters_def)
  moreover have "(of_nat ?n :: 64 word) = 0 \<longleftrightarrow> ?n = 0"
    using un [of "\<lambda>s sk ca ti ra. True"] by (simp only: unat_eq_0 [symmetric])
  ultimately show ?thesis
    unfolding Let_def getSuccessRate_def getCacheHitRate_def rate_operands_def
    using le by (simp add: perf_fold reset_counters_def un count_exec_split [symmetric])
qed

lemma counters_exact_example:
  "let es = [ExecutionEvent True False False False False, TimeEvent 5, CompileEvent True,
             ExecutionEvent False False True False False];
       c' = fold perf_step es (reset_counters (Counters.make 9 9 9 9 9 9 9 9 9 9))
   in unat (totalRulesExecuted c') = 2 \<and> getSuccessRate c' = Some (1, 2)"
  using counters_exact [of "[ExecutionEvent True False False False False, TimeEvent 5, CompileEvent True,
             ExecutionEvent False False True False False]" "Counters.make 9 9 9 9 9 9 9 9 9 9"]
  by (simp add: Let_def count_exec_def)

end
