(* ===== verification/Rule_Core.thy ===== *)
theory Rule_Core
  imports Lua_Engine Rate_Limiter Expression_Validator Performance_Counters
begin

unbundle bit_operations_syntax

text \<open>
  \<^verbatim>\<open>Rule\<close> (include/fastrules/rule.hpp, src/rule.cpp), first part: the rule's fields, the state an
  execution threads through, the result cache and the per-engine compilation. A rule is a tree:
  \<^verbatim>\<open>shared_ptr<Rule>\<close> is the address of the rule (so that a rule reached twice shares its cache and
  its compiled references) with its fields and the rules it owns. The mutable members sit in a
  store indexed by the address. \<^verbatim>\<open>std::hash\<close>, the type names and hashes of \<^verbatim>\<open>type_info\<close>, the
  formatting of floating-point numbers and the Lua machine are the arguments \<open>fr_env\<close>.
\<close>

section \<open>Data\<close>

record RuleData =
  rule_id :: int
  rule_name :: string
  description :: string
  expression :: string
  action :: string
  priority :: int
  isActive :: bool
  timeout :: "int option"
  dependsOnRuleName :: "string option"
  cacheDuration :: "int option"
  rateLimiter :: "nat option"

datatype Rule = Rule (addr: nat) (rdata: RuleData) (childRules: "Rule list")

abbreviation rid :: "Rule \<Rightarrow> int" where "rid r \<equiv> rule_id (rdata r)"
abbreviation rname :: "Rule \<Rightarrow> string" where "rname r \<equiv> rule_name (rdata r)"

record CacheEntry =
  ce_result :: RuleResult
  ce_expiresAt :: int
  ce_generation :: int

record EngineCompilation =
  expressionRef :: "int option"
  actionRef :: "int option"
  comp_generation :: int
  sourceHash :: "64 word"

text \<open>The mutable members of a rule; the cache is listed in the iteration order of its map.\<close>

record RuleState_mut =
  cache :: "(string \<times> CacheEntry) list"
  cacheGeneration :: int
  engineCompilations :: "64 word \<rightharpoonup> EngineCompilation"
  isCompiled :: bool
  isValidated :: bool

definition init_rule_state :: RuleState_mut where
  "init_rule_state =
     \<lparr>cache = [], cacheGeneration = 0, engineCompilations = Map.empty, isCompiled = False,
      isValidated = False\<rparr>"

record 'h fr_env =
  e_vm :: "'h lua_vm"
  e_clk :: "nat \<Rightarrow> int"
  e_hash :: "string \<Rightarrow> 64 word"
  e_type_name :: "cpp_type \<Rightarrow> string"
  e_type_hash :: "cpp_type \<Rightarrow> nat"
  e_fmt_double :: "64 word \<Rightarrow> string"
  e_fmt_float :: "32 word \<Rightarrow> string"

record 'h world =
  w_engine :: "'h LuaEngine"
  w_ctx :: RuleContext
  w_store :: "nat \<Rightarrow> RuleState_mut"
  w_limiters :: "nat option \<Rightarrow> RateLimiter"
  w_counters :: Counters
  w_tick :: nat

definition now :: "'h fr_env \<Rightarrow> 'h world \<Rightarrow> int \<times> 'h world" where
  "now env w = (e_clk env (w_tick w), w\<lparr>w_tick := w_tick w + 1\<rparr>)"

definition resultKey :: "RuleData \<Rightarrow> string" where
  "resultKey d = (if rule_name d = [] then ''#'' @ std_to_string (rule_id d) else rule_name d)"

definition display_name :: "RuleData \<Rightarrow> string" where
  "display_name d = (if rule_name d \<noteq> [] then rule_name d else std_to_string (rule_id d))"

text \<open>The copy constructor: fields are copied and children copied deeply to fresh addresses; the
  copy starts with an empty cache and no compiled references. \<open>fresh\<close> supplies the addresses.\<close>

fun copy_rule :: "nat \<Rightarrow> Rule \<Rightarrow> Rule \<times> nat"
and copy_rules :: "nat \<Rightarrow> Rule list \<Rightarrow> Rule list \<times> nat" where
  "copy_rule fresh (Rule a d cs) =
     (let (cs', fresh') = copy_rules (fresh + 1) cs in (Rule fresh d cs', fresh'))"
| "copy_rules fresh [] = ([], fresh)"
| "copy_rules fresh (c # cs) =
     (let (c', f1) = copy_rule fresh c; (cs', f2) = copy_rules f1 cs in (c' # cs', f2))"

definition copied_rule_state :: "RuleState_mut \<Rightarrow> RuleState_mut" where
  "copied_rule_state other =
     init_rule_state\<lparr>isValidated := isValidated other, cacheGeneration := 0, isCompiled := False\<rparr>"

section \<open>The result cache\<close>

definition cache_value_text :: "'h fr_env \<Rightarrow> RuleParameter \<Rightarrow> string" where
  "cache_value_text env p =
     (case param_value p of
        NoValue \<Rightarrow> ''nil''
      | VInt i \<Rightarrow> std_to_string i
      | VLong i \<Rightarrow> std_to_string i
      | VLongLong i \<Rightarrow> std_to_string i
      | VDouble x \<Rightarrow> e_fmt_double env x
      | VFloat x \<Rightarrow> e_fmt_float env x
      | VBool b \<Rightarrow> (if b then ''1'' else ''0'')
      | VString s \<Rightarrow> s
      | VConstCharPtr s \<Rightarrow> c_str s
      | v \<Rightarrow> (case param_type p of Some t \<Rightarrow> e_type_name env t | None \<Rightarrow> ''unknown'')
              @ ''@'' @ std_to_string (int (e_type_hash env (any_type v))))"

definition buildCacheKey :: "'h fr_env \<Rightarrow> RuleData \<Rightarrow> RuleParameter list \<Rightarrow> string" where
  "buildCacheKey env d parameters =
     std_to_string (rule_id d) @ ''|'' @
     concat (map (\<lambda>p. param_name p @ ''='' @ cache_value_text env p @ '';'') parameters)"

definition kMaxCacheEntries :: nat where
  "kMaxCacheEntries = 1024"

definition caching :: "RuleData \<Rightarrow> bool" where
  "caching d \<longleftrightarrow> (case cacheDuration d of None \<Rightarrow> False | Some ms \<Rightarrow> ms > 0)"

text \<open>The first entry, in iteration order, that no other entry expires before.\<close>

fun oldest_entry :: "string \<times> CacheEntry \<Rightarrow> (string \<times> CacheEntry) list \<Rightarrow> string \<times> CacheEntry" where
  "oldest_entry best [] = best"
| "oldest_entry best (e # es) =
     oldest_entry (if ce_expiresAt (snd e) < ce_expiresAt (snd best) then e else best) es"

definition evict :: "int \<Rightarrow> string \<Rightarrow> (string \<times> CacheEntry) list \<Rightarrow> (string \<times> CacheEntry) list" where
  "evict t key c =
     (if length c \<ge> kMaxCacheEntries \<and> map_of c key = None then
        let live = filter (\<lambda>e. \<not> ce_expiresAt (snd e) \<le> t) c
        in if length live \<ge> kMaxCacheEntries
           then (case live of [] \<Rightarrow> [] | e # es \<Rightarrow> AList.delete (fst (oldest_entry e es)) live)
           else live
      else c)"

definition storeInCache ::
    "'h fr_env \<Rightarrow> nat \<Rightarrow> RuleData \<Rightarrow> RuleParameter list \<Rightarrow> RuleResult \<Rightarrow> 'h world \<Rightarrow> 'h world" where
  "storeInCache env a d parameters result w =
     (if caching d then
        let (t, w1) = now env w; key = buildCacheKey env d parameters; st = w_store w1 a;
            entry = \<lparr>ce_result = result, ce_expiresAt = t + ms_to_ns (the (cacheDuration d)),
                     ce_generation = cacheGeneration st\<rparr>;
            st' = st\<lparr>cache := AList.update key entry (evict t key (cache st))\<rparr>
        in w1\<lparr>w_store := (w_store w1)(a := st')\<rparr>
      else w)"

definition count_execution :: "bool \<Rightarrow> bool \<Rightarrow> bool \<Rightarrow> bool \<Rightarrow> bool \<Rightarrow> 'h world \<Rightarrow> 'h world" where
  "count_execution s sk ca ti ra w = w\<lparr>w_counters := recordExecution s sk ca ti ra (w_counters w)\<rparr>"

text \<open>The cache check at the start of \<^verbatim>\<open>execute\<close>: a live entry of the current generation is
  returned; a stale one is erased.\<close>

definition cacheLookup ::
    "'h fr_env \<Rightarrow> nat \<Rightarrow> RuleData \<Rightarrow> RuleParameter list \<Rightarrow> 'h world \<Rightarrow> RuleResult option \<times> 'h world" where
  "cacheLookup env a d parameters w =
     (if \<not> caching d then (None, w)
      else let key = buildCacheKey env d parameters; st = w_store w a
           in case map_of (cache st) key of
                None \<Rightarrow> (None, w)
              | Some e \<Rightarrow>
                  let (t, w1) = now env w
                  in if t < ce_expiresAt e \<and> ce_generation e = cacheGeneration st
                     then (Some (ce_result e),
                           count_execution (isSuccess (ce_result e)) False True False False w1)
                     else (None, w1\<lparr>w_store := (w_store w1)(a := st\<lparr>cache := AList.delete key (cache st)\<rparr>)\<rparr>))"

definition invalidateCache :: "nat \<Rightarrow> 'h world \<Rightarrow> int \<times> 'h world" where
  "invalidateCache a w =
     (let st = w_store w a; g = cacheGeneration st + 1
      in (g, w\<lparr>w_store := (w_store w)(a := st\<lparr>cacheGeneration := g, cache := []\<rparr>)\<rparr>))"

section \<open>Compilation\<close>

definition sourceFingerprint :: "'h fr_env \<Rightarrow> RuleData \<Rightarrow> 64 word" where
  "sourceFingerprint env d =
     (let h = e_hash env (expression d)
      in h XOR (e_hash env (action d) + 0x9e3779b9 + push_bit 6 h + drop_bit 2 h))"

definition lookupCompilation :: "'h fr_env \<Rightarrow> Rule \<Rightarrow> 'h world \<Rightarrow> EngineCompilation option" where
  "lookupCompilation env r w =
     (case engineCompilations (w_store w (addr r)) (instanceId (w_engine w)) of
        None \<Rightarrow> None
      | Some c \<Rightarrow>
          if comp_generation c \<noteq> generation (w_engine w) then None
          else if sourceHash c \<noteq> sourceFingerprint env (rdata r) then None
          else Some c)"

definition newline :: string where
  "newline = [CHR 0x0A]"

definition bullet_lines :: "string list \<Rightarrow> string" where
  "bullet_lines msgs = concat (map (\<lambda>m. ''    - '' @ m @ newline) msgs)"

definition rule_prefix :: "RuleData \<Rightarrow> string" where
  "rule_prefix d = ''Rule '' @ [CHR 0x27] @ std_to_string (rule_id d) @ [CHR 0x27] @ '': ''"

definition expression_invalid :: "RuleData \<Rightarrow> ValidationResult \<Rightarrow> exn" where
  "expression_invalid d v =
     StdException RuleCompilationException
       (rule_prefix d @ ''Expression validation failed'' @ newline @
        ''  Expression: '' @ expression d @ newline @ ''  Errors:'' @ newline @
        bullet_lines (errors v) @
        (if warnings v = [] then [] else ''  Warnings:'' @ newline @ bullet_lines (warnings v)))"

definition action_invalid :: "RuleData \<Rightarrow> ValidationResult \<Rightarrow> exn" where
  "action_invalid d v =
     StdException RuleCompilationException
       (rule_prefix d @ ''Action validation failed'' @ newline @
        ''  Action: '' @ action d @ newline @ ''  Errors:'' @ newline @ bullet_lines (errors v))"

definition compile_failure :: "RuleData \<Rightarrow> string \<Rightarrow> string \<Rightarrow> string \<Rightarrow> exn \<Rightarrow> exn" where
  "compile_failure d what label text e =
     StdException RuleCompilationException
       (rule_prefix d @ ''Failed to compile '' @ what @ newline @ ''  '' @ label @ '': '' @ text @
        newline @ ''  Error: '' @ exn_what e)"

definition compile_expression_part ::
    "'h fr_env \<Rightarrow> RuleData \<Rightarrow> 'h world \<Rightarrow> (exn + int option) \<times> 'h world" where
  "compile_expression_part env d w =
     (if expression d = [] then (Inr None, w)
      else let v = validate (expression d)
           in if \<not> valid v then (Inl (expression_invalid d v), w)
              else (case compileExpression (e_vm env) (expression d) (w_engine w) of
                      (Inl e, eng) \<Rightarrow> (Inl (compile_failure d ''expression'' ''Expression'' (expression d) e),
                                       w\<lparr>w_engine := eng\<rparr>)
                    | (Inr ref, eng) \<Rightarrow> (Inr ref, w\<lparr>w_engine := eng\<rparr>)))"

definition compile_action_part ::
    "'h fr_env \<Rightarrow> RuleData \<Rightarrow> 'h world \<Rightarrow> (exn + int option) \<times> 'h world" where
  "compile_action_part env d w =
     (if action d = [] then (Inr None, w)
      else let v = validate (action d)
           in if \<not> valid v then (Inl (action_invalid d v), w)
              else (case compileAction (e_vm env) (action d) (w_engine w) of
                      (Inl e, eng) \<Rightarrow> (Inl (compile_failure d ''action'' ''Action'' (action d) e),
                                       w\<lparr>w_engine := eng\<rparr>)
                    | (Inr ref, eng) \<Rightarrow> (Inr ref, w\<lparr>w_engine := eng\<rparr>)))"

definition record_compilation :: "nat \<Rightarrow> EngineCompilation \<Rightarrow> 'h world \<Rightarrow> 'h world" where
  "record_compilation a c w =
     (let st = w_store w a
      in w\<lparr>w_store := (w_store w)(a := st\<lparr>engineCompilations :=
             (engineCompilations st)(instanceId (w_engine w) \<mapsto> c), isCompiled := True\<rparr>)\<rparr>)"

text \<open>\<^verbatim>\<open>Rule::compile\<close>: the generation and the source hash are taken before anything is compiled, the
  children are compiled after the rule's own sources, and the record is stored last.\<close>

fun compile :: "'h fr_env \<Rightarrow> Rule \<Rightarrow> 'h world \<Rightarrow> (exn + unit) \<times> 'h world"
and compile_all :: "'h fr_env \<Rightarrow> Rule list \<Rightarrow> 'h world \<Rightarrow> (exn + unit) \<times> 'h world" where
  "compile env (Rule a d cs) w =
     (if lookupCompilation env (Rule a d cs) w \<noteq> None then (Inr (), w)
      else
        let gen = generation (w_engine w); h = sourceFingerprint env d
        in bindx (compile_expression_part env d w) (\<lambda>eref w1.
           bindx (compile_action_part env d w1) (\<lambda>aref w2.
           bindx (compile_all env cs w2) (\<lambda>_ w3.
             (Inr (), record_compilation a
                \<lparr>expressionRef = eref, actionRef = aref, comp_generation = gen, sourceHash = h\<rparr> w3)))))"
| "compile_all env [] w = (Inr (), w)"
| "compile_all env (c # cs) w = bindx (compile env c w) (\<lambda>_ w1. compile_all env cs w1)"

definition ensureCompiledFor :: "'h fr_env \<Rightarrow> Rule \<Rightarrow> 'h world \<Rightarrow> (exn + unit) \<times> 'h world" where
  "ensureCompiledFor env r w =
     (if lookupCompilation env r w \<noteq> None then (Inr (), w) else compile env r w)"

definition getExpressionRef :: "'h fr_env \<Rightarrow> Rule \<Rightarrow> 'h world \<Rightarrow> (exn + int) \<times> 'h world" where
  "getExpressionRef env r w =
     bindx (ensureCompiledFor env r w) (\<lambda>_ w1.
       (Inr (case lookupCompilation env r w1 of
               None \<Rightarrow> - 1
             | Some c \<Rightarrow> (case expressionRef c of None \<Rightarrow> - 1 | Some ref \<Rightarrow> ref)), w1))"

definition getActionRef :: "'h fr_env \<Rightarrow> Rule \<Rightarrow> 'h world \<Rightarrow> (exn + int) \<times> 'h world" where
  "getActionRef env r w =
     bindx (ensureCompiledFor env r w) (\<lambda>_ w1.
       (Inr (case lookupCompilation env r w1 of
               None \<Rightarrow> - 1
             | Some c \<Rightarrow> (case actionRef c of None \<Rightarrow> - 1 | Some ref \<Rightarrow> ref)), w1))"

section \<open>Properties of the cache\<close>

text \<open>No key twice, and never more entries than the bound.\<close>

definition cache_ok :: "RuleState_mut \<Rightarrow> bool" where
  "cache_ok st \<longleftrightarrow> distinct (map fst (cache st)) \<and> length (cache st) \<le> kMaxCacheEntries"

lemma oldest_entry_in: "oldest_entry b es \<in> insert b (set es)"
proof (induction es arbitrary: b)
  case (Cons e es)
  from Cons.IH [of e] Cons.IH [of b] show ?case by auto
qed simp

lemma oldest_entry_le: "x \<in> insert b (set es) \<Longrightarrow> ce_expiresAt (snd (oldest_entry b es)) \<le> ce_expiresAt (snd x)"
proof (induction es arbitrary: b x)
  case (Cons e es)
  let ?b = "if ce_expiresAt (snd e) < ce_expiresAt (snd b) then e else b"
  have "ce_expiresAt (snd (oldest_entry ?b es)) \<le> ce_expiresAt (snd ?b)" by (rule Cons.IH) simp
  moreover have "ce_expiresAt (snd ?b) \<le> ce_expiresAt (snd e)" "ce_expiresAt (snd ?b) \<le> ce_expiresAt (snd b)"
    by auto
  moreover have "ce_expiresAt (snd (oldest_entry ?b es)) \<le> ce_expiresAt (snd y)" if "y \<in> set es" for y
    using that by (intro Cons.IH) simp
  ultimately show ?case using Cons.prems by fastforce
qed simp

lemma length_delete_less:
  assumes "k \<in> fst ` set xs"
  shows "length (AList.delete k xs) < length xs"
  using assms
proof (induction xs)
  case (Cons x xs)
  show ?case
  proof (cases "fst x = k")
    case True
    then show ?thesis using length_delete_le [of k xs] by (cases x) simp
  next
    case False
    with Cons show ?thesis by (cases x) auto
  qed
qed simp

lemma length_update_le: "length (AList.update k v xs) \<le> (if map_of xs k = None then Suc (length xs) else length xs)"
proof (induction xs)
  case (Cons x xs)
  then show ?case by (cases x) (auto split: if_splits)
qed simp

lemma distinct_filter_keys: "distinct (map fst xs) \<Longrightarrow> distinct (map fst (filter P xs))"
  by (induction xs) (auto simp: image_iff)

lemma evict_bounds:
  assumes "distinct (map fst c)" "length c \<le> kMaxCacheEntries"
  shows "distinct (map fst (evict t key c))"
    "length (evict t key c) + of_bool (map_of (evict t key c) key = None) \<le> kMaxCacheEntries"
proof -
  let ?live = "filter (\<lambda>e. \<not> ce_expiresAt (snd e) \<le> t) c"
  show "distinct (map fst (evict t key c))"
  proof (cases ?live)
    case Nil
    with assms(1) show ?thesis by (simp add: evict_def Let_def)
  next
    case (Cons e es)
    have "distinct (map fst (AList.delete k ?live))" for k
      using distinct_filter_keys [OF assms(1)] by (rule distinct_delete)
    with Cons assms(1) distinct_filter_keys [OF assms(1), of "\<lambda>e. \<not> ce_expiresAt (snd e) \<le> t"] show ?thesis
      by (simp add: evict_def Let_def del: delete_simps)
  qed
  show "length (evict t key c) + of_bool (map_of (evict t key c) key = None) \<le> kMaxCacheEntries"
  proof (cases "length c \<ge> kMaxCacheEntries \<and> map_of c key = None")
    case False
    with assms(2) show ?thesis by (auto simp: evict_def)
  next
    case True
    have less: "length (AList.delete (fst (oldest_entry e es)) ?live) < length ?live" if "?live = e # es" for e es
      using oldest_entry_in [of e es] that by (intro length_delete_less) (metis imageI list.set(2))
    have le: "length ?live \<le> kMaxCacheEntries" using length_filter_le assms(2) by (rule order_trans)
    have "length (evict t key c) < kMaxCacheEntries"
    proof (cases "length ?live \<ge> kMaxCacheEntries")
      case False
      with True show ?thesis by (simp add: evict_def Let_def)
    next
      case full: True
      then obtain e es where "?live = e # es" by (cases ?live) (auto simp: kMaxCacheEntries_def)
      with less [OF this] le full True show ?thesis by (simp add: evict_def Let_def del: delete_simps)
    qed
    then show ?thesis by simp
  qed
qed

lemma cache_ok_store:
  assumes "cache_ok (w_store w a)"
  shows "cache_ok (w_store (storeInCache env a d ps r w) a)"
proof -
  let ?c = "cache (w_store w a)"
  from assms have d: "distinct (map fst ?c)" "length ?c \<le> kMaxCacheEntries" by (simp_all add: cache_ok_def)
  have "length (AList.update k v (evict t k ?c)) \<le> kMaxCacheEntries" for t k v
    using length_update_le [of k v "evict t k ?c"] evict_bounds(2) [OF d, of t k]
    by (cases "map_of (evict t k ?c) k = None") auto
  moreover have "distinct (map fst (AList.update k v (evict t k ?c)))" for t k v
    using evict_bounds(1) [OF d] by (rule distinct_update)
  ultimately show ?thesis
    using assms by (simp add: storeInCache_def now_def Let_def cache_ok_def)
qed

lemma cache_ok_lookup:
  assumes "cache_ok (w_store w a)"
  shows "cache_ok (w_store (snd (cacheLookup env a d ps w)) a)"
proof -
  have "cache_ok (st\<lparr>cache := AList.delete k (cache st)\<rparr>)" if "cache_ok st" for k st
    using that order_trans [OF length_delete_le [of k "cache st"]]
    by (simp add: cache_ok_def distinct_delete)
  with assms show ?thesis
    by (auto simp: cacheLookup_def now_def Let_def count_execution_def split: option.splits)
qed

lemma storeInCache_entry:
  assumes "caching d"
  shows "map_of (cache (w_store (storeInCache env a d ps r w) a)) (buildCacheKey env d ps) =
    Some \<lparr>ce_result = r, ce_expiresAt = e_clk env (w_tick w) + ms_to_ns (the (cacheDuration d)),
          ce_generation = cacheGeneration (w_store w a)\<rparr>"
  using assms by (simp add: storeInCache_def now_def Let_def update_conv')

datatype cache_op = CStore RuleData "RuleParameter list" RuleResult | CLookup RuleData "RuleParameter list" | CInvalidate

fun cache_step :: "'h fr_env \<Rightarrow> nat \<Rightarrow> cache_op \<Rightarrow> 'h world \<Rightarrow> 'h world" where
  "cache_step env a (CStore d ps r) w = storeInCache env a d ps r w"
| "cache_step env a (CLookup d ps) w = snd (cacheLookup env a d ps w)"
| "cache_step env a CInvalidate w = snd (invalidateCache a w)"

text \<open>A concrete environment and rule for the examples: the clock advances a millisecond with
  every reading.\<close>

definition sample_fr_env :: "unit fr_env" where
  "sample_fr_env =
     \<lparr>e_vm = sample_vm, e_clk = (\<lambda>n. int n * 1000000), e_hash = (\<lambda>s. of_nat (length s)),
      e_type_name = (\<lambda>t. ''T''), e_type_hash = (\<lambda>t. 0), e_fmt_double = (\<lambda>d. ''0.5''),
      e_fmt_float = (\<lambda>d. ''0.5'')\<rparr>"

definition sample_world :: "unit world" where
  "sample_world =
     \<lparr>w_engine = create_engine sample_vm 1, w_ctx = init_context, w_store = (\<lambda>_. init_rule_state),
      w_limiters = (\<lambda>_. Map.empty), w_counters = Counters.make 0 0 0 0 0 0 0 0 0 0, w_tick = 0\<rparr>"

definition sample_data :: "int \<Rightarrow> string \<Rightarrow> RuleData" where
  "sample_data i expr =
     \<lparr>rule_id = i, rule_name = [], description = [], expression = expr, action = [], priority = 0,
      isActive = True, timeout = None, dependsOnRuleName = None, cacheDuration = None,
      rateLimiter = None\<rparr>"



text \<open>
  C35. The cache cannot grow without bound: starting from a rule whose cache has at most 1024
  entries and no key twice, no sequence of stores, lookups and invalidations, for whatever
  parameters and at whatever times, makes it larger or stores a key twice.
\<close>

theorem cache_bounded:
  assumes "cache_ok (w_store w a)"
  shows "cache_ok (w_store (fold (cache_step env a) ops w) a)"
  using assms
proof (induction ops arbitrary: w)
  case (Cons x ops)
  have "cache_ok (w_store (cache_step env a x w) a)"
    using Cons.prems
    by (cases x) (simp_all add: cache_ok_store cache_ok_lookup, simp add: invalidateCache_def Let_def cache_ok_def)
  with Cons.IH show ?case by simp
qed simp

theorem cache_bounded_witness:
  "cache_ok (w_store (fold (cache_step sample_fr_env 3)
     [CStore ((sample_data 1 ''x'')\<lparr>cacheDuration := Some 5\<rparr>) [] init_result, CInvalidate] sample_world) 3)"
  by (rule cache_bounded) (simp add: sample_world_def cache_ok_def init_rule_state_def)

section \<open>Properties of compilation\<close>

lemma compile_parts_keep:
  assumes "engine_ok (w_engine w)"
  shows "compile_expression_part env d w = (r, w') \<Longrightarrow> op_keeps (w_engine w) (w_engine w')"
    and "compile_action_part env d w = (r', w'') \<Longrightarrow> op_keeps (w_engine w) (w_engine w'')"
proof -
  have ce: "op_keeps (w_engine w) (snd (compileExpression (e_vm env) (expression d) (w_engine w)))"
    using compileExpression_outcome [OF assms, of "e_vm env" "expression d"]
    by (metis assms compile_outcome_keeps prod.collapse)
  have ca: "op_keeps (w_engine w) (snd (compileAction (e_vm env) (action d) (w_engine w)))"
    using compileAction_outcome [OF assms, of "e_vm env" "action d"]
    by (metis assms compile_outcome_keeps prod.collapse)
  show "compile_expression_part env d w = (r, w') \<Longrightarrow> op_keeps (w_engine w) (w_engine w')"
    using ce op_keeps_refl [OF assms]
    by (auto simp: compile_expression_part_def Let_def split: if_splits prod.splits sum.splits)
  show "compile_action_part env d w = (r', w'') \<Longrightarrow> op_keeps (w_engine w) (w_engine w'')"
    using ca op_keeps_refl [OF assms]
    by (auto simp: compile_action_part_def Let_def split: if_splits prod.splits sum.splits)
qed

lemma op_keeps_ok: "op_keeps e e' \<Longrightarrow> engine_ok e'"
  by (simp add: op_keeps_def)

lemma keeps_bindx:
  assumes "op_keeps e (w_engine (snd m))"
    and "\<And>v s. m = (Inr v, s) \<Longrightarrow> op_keeps e (w_engine s) \<Longrightarrow> op_keeps e (w_engine (snd (f v s)))"
  shows "op_keeps e (w_engine (snd (bindx m f)))"
  using assms by (cases m; cases "fst m") (auto simp: bindx_def)

lemma record_compilation_engine [simp]: "w_engine (record_compilation a c w) = w_engine w"
  by (simp add: record_compilation_def Let_def)

lemma compile_all_keeps_aux:
  assumes "\<And>c w. c \<in> set cs \<Longrightarrow> engine_ok (w_engine w) \<Longrightarrow> op_keeps (w_engine w) (w_engine (snd (compile env c w)))"
    and "engine_ok (w_engine w)"
  shows "op_keeps (w_engine w) (w_engine (snd (compile_all env cs w)))"
  using assms
proof (induction cs arbitrary: w)
  case Nil
  then show ?case by (simp add: op_keeps_refl)
next
  case (Cons c cs)
  have one: "op_keeps (w_engine w) (w_engine (snd (compile env c w)))"
    using Cons.prems by simp
  show ?case unfolding compile_all.simps
  proof (rule keeps_bindx [OF one])
    fix v and s :: "'a world" assume k: "op_keeps (w_engine w) (w_engine s)"
    have "op_keeps (w_engine s) (w_engine (snd (compile_all env cs s)))"
      by (rule Cons.IH) (use Cons.prems(1) op_keeps_ok [OF k] in auto)
    with k show "op_keeps (w_engine w) (w_engine (snd (compile_all env cs s)))" by (rule op_keeps_trans)
  qed
qed

lemma compile_keeps:
  "engine_ok (w_engine w) \<Longrightarrow> op_keeps (w_engine w) (w_engine (snd (compile env r w)))"
proof (induction r arbitrary: w)
  case (Rule a d cs)
  have part1: "op_keeps (w_engine w) (w_engine (snd (compile_expression_part env d w)))"
    using compile_parts_keep(1) [OF Rule.prems] by (metis prod.collapse)
  have part2: "op_keeps (w_engine w) (w_engine (snd (compile_action_part env d w1)))"
    if "op_keeps (w_engine w) (w_engine w1)" for w1
    using op_keeps_trans [OF that] compile_parts_keep(2) [OF op_keeps_ok [OF that]] by (metis prod.collapse)
  have part3: "op_keeps (w_engine w) (w_engine (snd (compile_all env cs w2)))"
    if "op_keeps (w_engine w) (w_engine w2)" for w2
    by (rule op_keeps_trans [OF that compile_all_keeps_aux]) (use Rule.IH op_keeps_ok [OF that] in auto)
  show ?case
    using Rule.prems by (auto simp: Let_def op_keeps_refl intro!: keeps_bindx part1 part2 part3)
qed

lemma compile_all_keeps:
  "engine_ok (w_engine w) \<Longrightarrow> op_keeps (w_engine w) (w_engine (snd (compile_all env rs w)))"
  by (rule compile_all_keeps_aux) (rule compile_keeps)

text \<open>How a compilation that starts from nothing ends when it succeeds.\<close>

lemma compile_success:
  assumes "compile env (Rule a d cs) w = (Inr u, w')" and "lookupCompilation env (Rule a d cs) w = None"
  obtains eref w1 aref w2 w3 where "compile_expression_part env d w = (Inr eref, w1)"
    "compile_action_part env d w1 = (Inr aref, w2)" "compile_all env cs w2 = (Inr (), w3)"
    "w' = record_compilation a \<lparr>expressionRef = eref, actionRef = aref,
       comp_generation = generation (w_engine w), sourceHash = sourceFingerprint env d\<rparr> w3"
proof -
  from assms have "bindx (compile_expression_part env d w) (\<lambda>eref w1.
       bindx (compile_action_part env d w1) (\<lambda>aref w2.
       bindx (compile_all env cs w2) (\<lambda>_ w3. (Inr (), record_compilation a \<lparr>expressionRef = eref, actionRef = aref,
         comp_generation = generation (w_engine w), sourceHash = sourceFingerprint env d\<rparr> w3)))) = (Inr u, w')"
    by (simp add: Let_def)
  then show thesis by (auto elim!: bindx_InrE intro: that)
qed

lemma lookup_recorded:
  "lookupCompilation env (Rule a d cs) (record_compilation a c w) =
     (if comp_generation c = generation (w_engine w) \<and> sourceHash c = sourceFingerprint env d then Some c else None)"
  by (simp add: lookupCompilation_def record_compilation_def Let_def)

lemma compileExpression_None:
  "compileExpression vm code eng = (Inr None, eng') \<Longrightarrow> list_all std_isspace code"
  "compileExpression vm code eng = (Inr (Some ref), eng') \<Longrightarrow> \<not> list_all std_isspace code"
  by (auto simp: compileExpression_def Let_def split: if_splits prod.splits sum.splits)

lemma compileAction_None:
  "compileAction vm code eng = (Inr None, eng') \<Longrightarrow> code = []"
  "compileAction vm code eng = (Inr (Some ref), eng') \<Longrightarrow> code \<noteq> []"
  by (auto simp: compileAction_def Let_def split: if_splits prod.splits sum.splits)

lemma expression_part_ref:
  assumes "engine_ok (w_engine w)" "compile_expression_part env d w = (Inr eref, w1)"
  shows "eref = None \<longleftrightarrow> list_all std_isspace (expression d)"
    "eref = Some ref \<Longrightarrow> chunk_of (w_engine w1) ref = Some (c_str (''return '' @ expression d))"
proof -
  have cases: "(expression d = [] \<and> eref = None \<and> w1 = w) \<or>
      (expression d \<noteq> [] \<and> (\<exists>eng. compileExpression (e_vm env) (expression d) (w_engine w) = (Inr eref, eng) \<and>
        w_engine w1 = eng))"
    using assms(2) by (auto simp: compile_expression_part_def Let_def split: if_splits prod.splits sum.splits)
  show "eref = None \<longleftrightarrow> list_all std_isspace (expression d)"
    using cases by (cases eref) (auto dest: compileExpression_None)
  show "chunk_of (w_engine w1) ref = Some (c_str (''return '' @ expression d))" if "eref = Some ref"
    using cases that compileExpression_outcome [OF assms(1)] by (fastforce simp: compile_outcome_def)
qed

lemma action_part_ref:
  assumes "engine_ok (w_engine w)" "compile_action_part env d w = (Inr aref, w1)"
  shows "aref = None \<longleftrightarrow> action d = []"
    "aref = Some ref \<Longrightarrow> chunk_of (w_engine w1) ref = Some (c_str (action d))"
proof -
  have cases: "(action d = [] \<and> aref = None \<and> w1 = w) \<or>
      (action d \<noteq> [] \<and> (\<exists>eng. compileAction (e_vm env) (action d) (w_engine w) = (Inr aref, eng) \<and>
        w_engine w1 = eng))"
    using assms(2) by (auto simp: compile_action_part_def Let_def split: if_splits prod.splits sum.splits)
  show "aref = None \<longleftrightarrow> action d = []"
    using cases by (cases aref) (auto dest: compileAction_None)
  show "chunk_of (w_engine w1) ref = Some (c_str (action d))" if "aref = Some ref"
    using cases that compileAction_outcome [OF assms(1)] by (fastforce simp: compile_outcome_def)
qed

lemma keeps_chunk:
  "op_keeps e1 e2 \<Longrightarrow> generation e2 = generation e1 \<Longrightarrow> chunk_of e1 r = Some c \<Longrightarrow> chunk_of e2 r = Some c"
  by (simp add: op_keeps_def)

text \<open>The references of a compilation record stand for the rule's own sources.\<close>

definition refs_bound :: "'h LuaEngine \<Rightarrow> RuleData \<Rightarrow> EngineCompilation \<Rightarrow> bool" where
  "refs_bound eng d c \<longleftrightarrow>
     (expressionRef c = None \<longleftrightarrow> list_all std_isspace (expression d)) \<and>
     (\<forall>ref. expressionRef c = Some ref \<longrightarrow> chunk_of eng ref = Some (c_str (''return '' @ expression d))) \<and>
     (actionRef c = None \<longleftrightarrow> action d = []) \<and>
     (\<forall>ref. actionRef c = Some ref \<longrightarrow> chunk_of eng ref = Some (c_str (action d)))"

lemma compile_refs:
  assumes ok: "engine_ok (w_engine w)" and c: "compile env (Rule a d cs) w = (Inr u, w')"
    and none: "lookupCompilation env (Rule a d cs) w = None"
    and gen: "generation (w_engine w') = generation (w_engine w)"
  shows "\<exists>c. lookupCompilation env (Rule a d cs) w' = Some c \<and> refs_bound (w_engine w') d c"
proof -
  from compile_success [OF c none] obtain eref w1 aref w2 w3 where
    p1: "compile_expression_part env d w = (Inr eref, w1)" and
    p2: "compile_action_part env d w1 = (Inr aref, w2)" and p3: "compile_all env cs w2 = (Inr (), w3)" and
    w': "w' = record_compilation a \<lparr>expressionRef = eref, actionRef = aref,
       comp_generation = generation (w_engine w), sourceHash = sourceFingerprint env d\<rparr> w3" by blast
  have k1: "op_keeps (w_engine w) (w_engine w1)" by (rule compile_parts_keep(1) [OF ok p1])
  have k2: "op_keeps (w_engine w1) (w_engine w2)" by (rule compile_parts_keep(2) [OF op_keeps_ok [OF k1] p2])
  have k3: "op_keeps (w_engine w2) (w_engine w3)" using compile_all_keeps [OF op_keeps_ok [OF k2], of env cs] p3 by simp
  have g: "generation (w_engine w1) = generation (w_engine w)" "generation (w_engine w2) = generation (w_engine w)"
    "generation (w_engine w3) = generation (w_engine w)"
    using gen k1 k2 k3 unfolding w' op_keeps_def by auto
  note e = expression_part_ref [OF ok p1] and a = action_part_ref [OF op_keeps_ok [OF k1] p2]
  have chunk_e: "chunk_of (w_engine w3) ref = Some (c_str (''return '' @ expression d))" if "eref = Some ref" for ref
    using e(2) [OF that] k2 k3 g by (metis keeps_chunk)
  have chunk_a: "chunk_of (w_engine w3) ref = Some (c_str (action d))" if "aref = Some ref" for ref
    using a(2) [OF that] k3 g by (metis keeps_chunk)
  show ?thesis
    using e(1) a(1) chunk_e chunk_a g unfolding w' by (auto simp: lookup_recorded refs_bound_def)
qed

text \<open>
  C16. Compiling a rule binds its current sources: when \<^verbatim>\<open>compile\<close> succeeds on an engine that had no
  valid record of the rule and did not reset itself meanwhile, the rule is found compiled for that
  engine, its expression reference stands for exactly its expression (there is none just when the
  expression is blank), its action reference for exactly its action, whatever its children added
  to the engine; and compiling it again changes nothing.
\<close>

theorem compile_binds_sources:
  assumes "engine_ok (w_engine w)" and "compile env (Rule a d cs) w = (Inr (), w')"
    and "lookupCompilation env (Rule a d cs) w = None"
    and "generation (w_engine w') = generation (w_engine w)"
  shows "(\<exists>c. lookupCompilation env (Rule a d cs) w' = Some c \<and> refs_bound (w_engine w') d c) \<and>
    compile env (Rule a d cs) w' = (Inr (), w')"
  using compile_refs [OF assms] by auto

lemma validate_x: "valid (validate ''x'')"
proof -
  have "\<not> containsAtIdentifierBoundary (map std_tolower ''x'') pat"
    if "(pat, desc) \<in> set getDangerousPatterns" for pat desc
  proof -
    have "hd pat \<noteq> CHR ''x''" "pat \<noteq> []" using that by (auto simp: getDangerousPatterns_def)
    then show ?thesis unfolding boundary_search_iff by (auto simp: char_eval Cons_eq_append_conv)
  qed
  then have "findDangerousPatterns ''x'' = []"
    by (auto simp: findDangerousPatterns_def filter_empty_conv)
  then show ?thesis
    by (simp add: validate_def validate_errors_def validate_warnings_def quote_char_def str_contains_def str_find_def)
qed

theorem compile_binds_sources_witness:
  "\<exists>c. lookupCompilation sample_fr_env (Rule 0 (sample_data 7 ''x'') [])
         (snd (compile sample_fr_env (Rule 0 (sample_data 7 ''x'') []) sample_world)) = Some c"
proof -
  let ?r = "Rule 0 (sample_data 7 ''x'') []"
  obtain u w' where c: "compile sample_fr_env ?r sample_world = (u, w')" by fastforce
  have "u = Inr () \<and> generation (w_engine w') = generation (w_engine sample_world)"
    using c validate_x
    by (auto simp: sample_fr_env_def sample_world_def sample_data_def lookupCompilation_def init_rule_state_def
        compile_expression_part_def compile_action_part_def compileExpression_def autoReset_def create_engine_def
        be_compileExpression_def sample_vm_def record_compilation_def record_ref_def Let_def std_isspace_def cc_def)
  then show ?thesis
    using compile_binds_sources [of sample_world sample_fr_env 0 "sample_data 7 ''x''" "[]" w'] c
    by (auto simp: sample_world_def engine_ok_create lookupCompilation_def init_rule_state_def)
qed

text \<open>
  An engine that resets itself in the middle of a compilation disables the rule instead of
  recompiling it: the record keeps the generation from before the reset, so it is rejected at
  once, \<^verbatim>\<open>getExpressionRef\<close> answers -1 after its one compilation, and -1 is what \<^verbatim>\<open>evaluateExpression\<close>
  takes for a rule without expression.
\<close>

lemma reset_during_compile_loses_expression:
  assumes "compile env (Rule a d cs) w = (Inr (), w')"
    and "lookupCompilation env (Rule a d cs) w = None"
    and "generation (w_engine w') \<noteq> generation (w_engine w)"
  shows "getExpressionRef env (Rule a d cs) w = (Inr (- 1), w')"
proof -
  from compile_success [OF assms(1,2)] obtain c w3 where
    "w' = record_compilation a c w3" "comp_generation c = generation (w_engine w)"
    by (metis EngineCompilation.select_convs(3))
  with assms(3) have "lookupCompilation env (Rule a d cs) w' = None" by (simp add: lookup_recorded)
  with assms(1,2) show ?thesis by (simp add: getExpressionRef_def ensureCompiledFor_def)
qed

definition full_vm :: "unit lua_vm" where
  "full_vm = sample_vm\<lparr>vm_memoryKB := (\<lambda>_. 64)\<rparr>"

lemma reset_during_compile_loses_expression_example:
  "let env = sample_fr_env\<lparr>e_vm := full_vm\<rparr>;
       w = sample_world\<lparr>w_engine := (create_engine full_vm 1)\<lparr>autoResetThresholdKB := 32\<rparr>\<rparr>;
       r = Rule 0 (sample_data 7 ''x'') []
   in fst (getExpressionRef env r w) = Inr (- 1)"
proof -
  let ?env = "sample_fr_env\<lparr>e_vm := full_vm\<rparr>"
  let ?w = "sample_world\<lparr>w_engine := (create_engine full_vm 1)\<lparr>autoResetThresholdKB := 32\<rparr>\<rparr>"
  let ?r = "Rule 0 (sample_data 7 ''x'') []"
  obtain u w' where c: "compile ?env ?r ?w = (u, w')" by fastforce
  have mem: "getMemoryUsageKB full_vm e = 64" for e
    by (simp add: getMemoryUsageKB_def memoryUsageKB_def full_vm_def)
  have ld: "vm_loadstring full_vm s = None" for s by (simp add: full_vm_def sample_vm_def)
  have len: "maxExpressionLength (create_engine full_vm 1) = 0" by (simp add: create_engine_def)
  have "u = Inr () \<and> generation (w_engine w') = generation (w_engine ?w) + 1"
    using c validate_x
    by (auto simp: sample_fr_env_def sample_world_def sample_data_def lookupCompilation_def init_rule_state_def
        compile_expression_part_def compile_action_part_def compileExpression_def autoReset_def mem len
        be_compileExpression_def ld record_compilation_def record_ref_def Let_def std_isspace_def cc_def)
  with reset_during_compile_loses_expression [of ?env 0 "sample_data 7 ''x''" "[]" ?w w'] c show ?thesis
    by (auto simp: sample_world_def lookupCompilation_def init_rule_state_def Let_def)
qed

end
