(* ===== verification/Rule_Execute.thy ===== *)
theory Rule_Execute
  imports Rule_Core
begin

text \<open>
  \<^verbatim>\<open>Rule::execute\<close> (src/rule.cpp). The body of the \<^verbatim>\<open>try\<close> block is a sequence of steps on the
  world, each of which may throw; an early \<^verbatim>\<open>return\<close> inside it is the outcome \<open>Returned\<close>. The
  handlers, the metrics and the final stores follow the source line by line. Log output is left
  out.
\<close>

section \<open>Helpers of execute\<close>

definition setFailure :: "string \<Rightarrow> bool \<Rightarrow> RuleResult \<Rightarrow> 'h world \<Rightarrow> RuleResult \<times> 'h world" where
  "setFailure message wasCached result w =
     (let result' = with_exception (Some message) (with_success False result)
      in (result', if \<not> skipped result' then count_execution False False wasCached False False w
                   else count_execution False True False False False w))"

definition ctx_setResult :: "string \<Rightarrow> RuleResult \<Rightarrow> 'h world \<Rightarrow> 'h world" where
  "ctx_setResult key r w = w\<lparr>w_ctx := setResult key r (w_ctx w)\<rparr>"

definition ctx_setLastError :: "string \<Rightarrow> string \<Rightarrow> 'h world \<Rightarrow> 'h world" where
  "ctx_setLastError key msg w = w\<lparr>w_ctx := setLastError key msg (w_ctx w)\<rparr>"

text \<open>One call of \<^verbatim>\<open>isAllowed\<close>: it reads the clock once per configured key and a second time when
  the configuration is enabled.\<close>

definition limiter_reads :: "RateLimiter \<Rightarrow> string \<Rightarrow> nat" where
  "limiter_reads rl key =
     (case rl key of None \<Rightarrow> 0 | Some st \<Rightarrow> if isEnabled (rs_config st) then 2 else 1)"

definition check_key :: "'h fr_env \<Rightarrow> nat option \<Rightarrow> string \<Rightarrow> 'h world \<Rightarrow> bool \<times> 'h world" where
  "check_key env lim key w =
     (let rl = w_limiters w lim; n = w_tick w;
          (ok, rl') = isAllowed (e_clk env n) (e_clk env (n + 1)) key rl
      in (ok, w\<lparr>w_limiters := (w_limiters w)(lim := rl'), w_tick := n + limiter_reads rl key\<rparr>))"

definition rate_limited :: "RuleData \<Rightarrow> exn" where
  "rate_limited d =
     RateLimitException (''Rate limit exceeded for rule '' @ [CHR 0x27] @ display_name d @ [CHR 0x27])"

definition check_rate :: "'h fr_env \<Rightarrow> RuleData \<Rightarrow> 'h world \<Rightarrow> (exn + unit) \<times> 'h world" where
  "check_rate env d w =
     (let idKey = std_to_string (rule_id d);
          (allowed, w1) = check_key env (rateLimiter d) idKey w;
          (allowed', w2) = (if allowed \<and> rule_name d \<noteq> [] \<and> rule_name d \<noteq> idKey
                            then check_key env (rateLimiter d) (rule_name d) w1 else (allowed, w1))
      in if \<not> allowed' then (Inl (rate_limited d), w2) else (Inr (), w2))"

text \<open>\<^verbatim>\<open>Rule::evaluateExpression\<close> and \<^verbatim>\<open>Rule::executeAction\<close>.\<close>

definition rule_evaluateExpression ::
    "'h fr_env \<Rightarrow> Rule \<Rightarrow> RuleParameter list \<Rightarrow> 'h world \<Rightarrow> (exn + bool) \<times> 'h world" where
  "rule_evaluateExpression env r parameters w =
     bindx (getExpressionRef env r w) (\<lambda>ref w1.
       if ref = - 1 then (Inr True, w1)
       else let (x, eng, n) = evaluateExpression (e_vm env) (e_clk env) ref parameters (w_ctx w1)
                                (timeout (rdata r)) None (w_engine w1, w_tick w1)
            in (x, w1\<lparr>w_engine := eng, w_tick := n\<rparr>))"

definition rule_executeAction ::
    "'h fr_env \<Rightarrow> Rule \<Rightarrow> RuleParameter list \<Rightarrow> 'h world \<Rightarrow> (exn + unit) \<times> 'h world" where
  "rule_executeAction env r parameters w =
     bindx (getActionRef env r w) (\<lambda>ref w1.
       if ref = - 1 then (Inr (), w1)
       else let (x, eng, n) = executeAction (e_vm env) (e_clk env) ref parameters (w_ctx w1)
                                (timeout (rdata r)) None (w_engine w1, w_tick w1)
            in (x, w1\<lparr>w_engine := eng, w_tick := n\<rparr>))"

section \<open>The try block\<close>

text \<open>How the \<^verbatim>\<open>try\<close> block ends: an early \<^verbatim>\<open>return\<close>, its last statement, or an exception.\<close>

datatype outcome = Returned | Fell | Threw exn

definition fail_and_return ::
    "'h fr_env \<Rightarrow> Rule \<Rightarrow> RuleParameter list \<Rightarrow> string \<Rightarrow> RuleResult \<Rightarrow> 'h world \<Rightarrow> outcome \<times> RuleResult \<times> 'h world" where
  "fail_and_return env r parameters msg result w =
     (let (result', w1) = setFailure msg False result w;
          w2 = storeInCache env (addr r) (rdata r) parameters result' w1
      in (Returned, result', ctx_setResult (resultKey (rdata r)) result' w2))"

definition run_own_steps ::
    "'h fr_env \<Rightarrow> Rule \<Rightarrow> RuleParameter list \<Rightarrow> RuleResult \<Rightarrow> 'h world \<Rightarrow> outcome \<times> RuleResult \<times> 'h world" where
  "run_own_steps env r parameters result w =
     (let d = rdata r;
          (ev, w1) = (if expression d \<noteq> [] then rule_evaluateExpression env r parameters w else (Inr True, w))
      in case ev of
           Inl e \<Rightarrow> (Threw e, result, w1)
         | Inr False \<Rightarrow> fail_and_return env r parameters ''Expression evaluated to false'' result w1
         | Inr True \<Rightarrow>
             let (ac, w2) = (if action d \<noteq> [] then rule_executeAction env r parameters w1 else (Inr (), w1))
             in (case ac of
                   Inl e \<Rightarrow> (Threw e, result, w2)
                 | Inr _ \<Rightarrow> (Fell, with_success True result, count_execution True False False False False w2)))"

text \<open>The results of the children go to the context under the children's keys, in order.\<close>

definition store_child_results :: "Rule list \<Rightarrow> RuleResult list \<Rightarrow> 'h world \<Rightarrow> 'h world" where
  "store_child_results cs rs w = fold (\<lambda>(c, res). ctx_setResult (resultKey (rdata c)) res) (zip cs rs) w"

definition try_block ::
    "'h fr_env \<Rightarrow> Rule \<Rightarrow> ('h world \<Rightarrow> RuleResult list \<times> 'h world) \<Rightarrow> RuleParameter list \<Rightarrow> RuleResult
       \<Rightarrow> 'h world \<Rightarrow> outcome \<times> RuleResult \<times> 'h world" where
  "try_block env r run_children parameters result w =
     (case check_rate env (rdata r) w of
        (Inl e, w1) \<Rightarrow> (Threw e, result, w1)
      | (Inr _, w1) \<Rightarrow>
          (case validateTypes (e_type_name env) parameters of
             Inl e \<Rightarrow> (Threw e, result, w1)
           | Inr _ \<Rightarrow>
               (if childRules r \<noteq> [] then
                  let (rs, w2) = run_children w1;
                      result' = with_children rs result;
                      w3 = store_child_results (childRules r) rs w2
                  in case find (\<lambda>c. \<not> isSuccess c) rs of
                       Some c \<Rightarrow> fail_and_return env r parameters
                                   (''Child rule '' @ res_ruleName c @ '' failed'') result' w3
                     | None \<Rightarrow> run_own_steps env r parameters result' w3
                else run_own_steps env r parameters result w1)))"

text \<open>The handlers.\<close>

definition handle_exception :: "RuleData \<Rightarrow> exn \<Rightarrow> RuleResult \<Rightarrow> 'h world \<Rightarrow> RuleResult \<times> 'h world" where
  "handle_exception d e result w =
     (case e of
        RateLimitException m \<Rightarrow>
          (with_exception (Some m) (with_success False result),
           count_execution False False False False True
             (ctx_setLastError (resultKey d) (''Rate limit exceeded: '' @ m) w))
      | RuleTimeoutException m \<Rightarrow>
          (with_exception (Some m) (with_success False result),
           count_execution False False False True False
             (ctx_setLastError (resultKey d) (''Timeout: '' @ m) w))
      | UnknownException \<Rightarrow>
          let (result', w1) = setFailure ''Unknown exception during rule execution'' False result w
          in (result', ctx_setLastError (resultKey d) ''Unknown exception'' w1)
      | _ \<Rightarrow>
          let (result', w1) = setFailure (exn_what e) False result w
          in (result', ctx_setLastError (resultKey d) (exn_what e) w1))"

text \<open>Everything after the \<^verbatim>\<open>try\<close> statement.\<close>

definition finish_execution ::
    "'h fr_env \<Rightarrow> Rule \<Rightarrow> RuleParameter list \<Rightarrow> int \<Rightarrow> RuleResult \<Rightarrow> 'h world \<Rightarrow> RuleResult \<times> 'h world" where
  "finish_execution env r parameters startTime result w =
     (let (endTime, w1) = now env w;
          m = (metrics result)\<lparr>evaluationCount := 1, totalExecutionTime := endTime - startTime\<rparr>;
          m' = (if \<not> success result then m\<lparr>failureCount := 1\<rparr> else m)\<lparr>lastExecuted := endTime\<rparr>;
          result' = with_metrics m' result;
          w2 = w1\<lparr>w_counters := recordExecutionTime (endTime - startTime) (w_counters w1)\<rparr>;
          w3 = ctx_setResult (resultKey (rdata r)) result' w2
      in (result', storeInCache env (addr r) (rdata r) parameters result' w3))"

definition execute_with ::
    "'h fr_env \<Rightarrow> Rule \<Rightarrow> ('h world \<Rightarrow> RuleResult list \<times> 'h world) \<Rightarrow> RuleParameter list \<Rightarrow> 'h world
       \<Rightarrow> RuleResult \<times> 'h world" where
  "execute_with env r run_children parameters w =
     (case cacheLookup env (addr r) (rdata r) parameters w of
        (Some cached, w1) \<Rightarrow> (cached, w1)
      | (None, w1) \<Rightarrow>
          let (t0, w2) = now env w1;
              result = RuleResult (rname r) (rid r) False False None t0 0 init_metrics []
          in if \<not> isActive (rdata r) then (with_skipped True result, w2)
             else
               let (startTime, w3) = now env w2
               in (case try_block env r run_children parameters result w3 of
                     (Returned, result', w4) \<Rightarrow> (result', w4)
                   | (Fell, result', w4) \<Rightarrow> finish_execution env r parameters startTime result' w4
                   | (Threw e, result', w4) \<Rightarrow>
                       let (result'', w5) = handle_exception (rdata r) e result' w4
                       in finish_execution env r parameters startTime result'' w5))"

fun execute :: "'h fr_env \<Rightarrow> Rule \<Rightarrow> RuleParameter list \<Rightarrow> 'h world \<Rightarrow> RuleResult \<times> 'h world"
and executeChildRules :: "'h fr_env \<Rightarrow> Rule list \<Rightarrow> RuleParameter list \<Rightarrow> 'h world \<Rightarrow> RuleResult list \<times> 'h world" where
  "execute env (Rule a d cs) parameters w =
     execute_with env (Rule a d cs) (\<lambda>w'. executeChildRules env cs parameters w') parameters w"
| "executeChildRules env [] parameters w = ([], w)"
| "executeChildRules env (c # cs) parameters w =
     (let (res, w1) = execute env c parameters w; (rs, w2) = executeChildRules env cs parameters w1
      in (res # rs, w2))"

section \<open>What the steps leave unchanged\<close>

text \<open>The caches of all rules.\<close>

definition caches :: "'h world \<Rightarrow> nat \<Rightarrow> (string \<times> CacheEntry) list" where
  "caches w a = cache (w_store w a)"

lemma caches_frames [simp]:
  "caches (w\<lparr>w_engine := e\<rparr>) = caches w" "caches (w\<lparr>w_tick := n\<rparr>) = caches w"
  "caches (w\<lparr>w_ctx := x\<rparr>) = caches w" "caches (w\<lparr>w_counters := k\<rparr>) = caches w"
  "caches (w\<lparr>w_limiters := l\<rparr>) = caches w" "caches (snd (now env w)) = caches w"
  "caches (count_execution s sk ca ti ra w) = caches w" "caches (ctx_setResult key r w) = caches w"
  "caches (ctx_setLastError key msg w) = caches w" "caches (record_compilation a c w) = caches w"
  by (auto simp: caches_def now_def count_execution_def ctx_setResult_def ctx_setLastError_def
      record_compilation_def Let_def fun_eq_iff)

lemma ctx_frames [simp]:
  "w_ctx (snd (now env w)) = w_ctx w" "w_ctx (count_execution s sk ca ti ra w) = w_ctx w"
  "w_ctx (record_compilation a c w) = w_ctx w" "w_ctx (storeInCache env a d ps r w) = w_ctx w"
  "w_ctx (snd (cacheLookup env a d ps w)) = w_ctx w"
  by (auto simp: now_def count_execution_def record_compilation_def storeInCache_def cacheLookup_def
      Let_def split: option.splits)

lemma caches_bindx:
  assumes "caches (snd m) = C" "\<And>v s. m = (Inr v, s) \<Longrightarrow> caches s = C \<Longrightarrow> caches (snd (f v s)) = C"
  shows "caches (snd (bindx m f)) = C"
  using assms by (cases m; cases "fst m") (auto simp: bindx_def)

lemma ctx_bindx:
  assumes "w_ctx (snd m) = C" "\<And>v s. m = (Inr v, s) \<Longrightarrow> w_ctx s = C \<Longrightarrow> w_ctx (snd (f v s)) = C"
  shows "w_ctx (snd (bindx m f)) = C"
  using assms by (cases m; cases "fst m") (auto simp: bindx_def)

lemma compile_parts_frame [simp]:
  "caches (snd (compile_expression_part env d w)) = caches w" "caches (snd (compile_action_part env d w)) = caches w"
  "w_ctx (snd (compile_expression_part env d w)) = w_ctx w" "w_ctx (snd (compile_action_part env d w)) = w_ctx w"
  by (auto simp: compile_expression_part_def compile_action_part_def Let_def split: prod.splits sum.splits)

lemma compile_all_frame_aux:
  assumes "\<And>c w. c \<in> set cs \<Longrightarrow> caches (snd (compile env c w)) = caches w \<and> w_ctx (snd (compile env c w)) = w_ctx w"
  shows "caches (snd (compile_all env cs w)) = caches w" "w_ctx (snd (compile_all env cs w)) = w_ctx w"
  using assms by (induction cs arbitrary: w) (auto intro!: caches_bindx ctx_bindx)

lemma compile_frame: "caches (snd (compile env r w)) = caches w \<and> w_ctx (snd (compile env r w)) = w_ctx w"
proof (induction r arbitrary: w)
  case (Rule a d cs)
  have "caches (snd (compile_all env cs w')) = caches w'" "w_ctx (snd (compile_all env cs w')) = w_ctx w'" for w' :: "'a world"
    using compile_all_frame_aux [of cs env w'] Rule.IH by blast+
  then show ?case
    by (auto simp: Let_def intro!: caches_bindx ctx_bindx)
qed

lemma getRef_frame [simp]:
  "caches (snd (getExpressionRef env r w)) = caches w" "caches (snd (getActionRef env r w)) = caches w"
  "w_ctx (snd (getExpressionRef env r w)) = w_ctx w" "w_ctx (snd (getActionRef env r w)) = w_ctx w"
  using compile_frame [of env r w]
  by (auto simp: getExpressionRef_def getActionRef_def ensureCompiledFor_def intro!: caches_bindx ctx_bindx)

lemma rule_steps_frame [simp]:
  "caches (snd (rule_evaluateExpression env r ps w)) = caches w" "caches (snd (rule_executeAction env r ps w)) = caches w"
  "w_ctx (snd (rule_evaluateExpression env r ps w)) = w_ctx w" "w_ctx (snd (rule_executeAction env r ps w)) = w_ctx w"
proof -
  have "caches (w\<lparr>w_engine := e, w_tick := n\<rparr>) = caches w" for w :: "'a world" and e n
    by (auto simp: caches_def fun_eq_iff)
  then show "caches (snd (rule_evaluateExpression env r ps w)) = caches w" "caches (snd (rule_executeAction env r ps w)) = caches w"
    "w_ctx (snd (rule_evaluateExpression env r ps w)) = w_ctx w" "w_ctx (snd (rule_executeAction env r ps w)) = w_ctx w"
    unfolding rule_evaluateExpression_def rule_executeAction_def
    by (auto simp: split_beta intro!: caches_bindx ctx_bindx)
qed

lemma check_key_frame [simp]:
  "caches (snd (check_key env lim key w)) = caches w" "w_ctx (snd (check_key env lim key w)) = w_ctx w"
  by (auto simp: check_key_def caches_def Let_def split_beta fun_eq_iff)

lemma check_rate_frame [simp]:
  "caches (snd (check_rate env d w)) = caches w" "w_ctx (snd (check_rate env d w)) = w_ctx w"
  using check_key_frame [of env "rateLimiter d" "std_to_string (rule_id d)" w]
    check_key_frame [of env "rateLimiter d" "rule_name d" "snd (check_key env (rateLimiter d) (std_to_string (rule_id d)) w)"]
  by (simp_all add: check_rate_def Let_def split_beta)

lemma setFailure_simps [simp]:
  "success (fst (setFailure m b r w)) = False" "exception (fst (setFailure m b r w)) = Some m"
  "skipped (fst (setFailure m b r w)) = skipped r" "childResults (fst (setFailure m b r w)) = childResults r"
  "caches (snd (setFailure m b r w)) = caches w" "w_ctx (snd (setFailure m b r w)) = w_ctx w"
  "res_ruleName (fst (setFailure m b r w)) = res_ruleName r" "res_ruleId (fst (setFailure m b r w)) = res_ruleId r"
  by (simp_all add: setFailure_def Let_def)

lemma store_child_results_frame [simp]: "caches (store_child_results cs rs w) = caches w"
proof -
  have "caches (fold (\<lambda>(c, res). ctx_setResult (resultKey (rdata c)) res) xs w) = caches w" for xs
    by (induction xs arbitrary: w) (simp_all add: split_beta)
  then show ?thesis by (simp add: store_child_results_def)
qed

lemma handle_exception_simps [simp]:
  "caches (snd (handle_exception d e r w)) = caches w" "success (fst (handle_exception d e r w)) = False"
  "exception (fst (handle_exception d e r w)) \<noteq> None" "skipped (fst (handle_exception d e r w)) = skipped r"
  "childResults (fst (handle_exception d e r w)) = childResults r"
  by (simp_all add: handle_exception_def split_beta split: exn.split)

section \<open>The shape of results\<close>

text \<open>
  A proper result: it succeeds exactly if it carries no exception and was not skipped; a skipped
  result carries no exception; and success extends to every result below it.
\<close>

definition res_ok :: "RuleResult \<Rightarrow> bool" where
  "res_ok r \<longleftrightarrow>
     (success r \<longleftrightarrow> exception r = None \<and> \<not> skipped r) \<and> (skipped r \<longrightarrow> exception r = None) \<and>
     (success r \<longrightarrow> isFullySuccessful r)"

definition cached_ok :: "'h world \<Rightarrow> bool" where
  "cached_ok w \<longleftrightarrow> (\<forall>a. \<forall>(k, e)\<in>set (caches w a). res_ok (ce_result e) \<and> \<not> skipped (ce_result e))"

lemma isFullySuccessful_unfold:
  "isFullySuccessful r \<longleftrightarrow> isSuccess r \<and> list_all isFullySuccessful (childResults r)"
  by (cases r) (auto simp: isSuccess_def)

lemma res_ok_isSuccess: "res_ok r \<Longrightarrow> isSuccess r \<longleftrightarrow> success r"
  by (auto simp: res_ok_def isSuccess_def)

lemma res_okI_success:
  "\<lbrakk>success r; exception r = None; \<not> skipped r; \<forall>c\<in>set (childResults r). res_ok c \<and> isSuccess c\<rbrakk> \<Longrightarrow> res_ok r"
  by (auto simp: res_ok_def isFullySuccessful_unfold [of r] list_all_iff isSuccess_def)

lemma res_okI_failure: "\<lbrakk>\<not> success r; exception r \<noteq> None; \<not> skipped r\<rbrakk> \<Longrightarrow> res_ok r"
  by (simp add: res_ok_def)

lemma set_delete_subset: "set (AList.delete k xs) \<subseteq> set xs"
  by (induction xs) auto

lemma set_evict: "set (evict t k c) \<subseteq> set c"
proof -
  let ?live = "filter (\<lambda>e. \<not> ce_expiresAt (snd e) \<le> t) c"
  have "set ?live \<subseteq> set c" by auto
  then have "set (AList.delete x ?live) \<subseteq> set c" for x
    by (rule order_trans [OF set_delete_subset])
  moreover have "evict t k c = c \<or> evict t k c = ?live \<or> evict t k c = [] \<or> (\<exists>x. evict t k c = AList.delete x ?live)"
    unfolding evict_def Let_def by (metis (no_types, lifting) list.exhaust list.simps(4,5))
  ultimately show ?thesis using \<open>set ?live \<subseteq> set c\<close> by (metis empty_subsetI empty_set order_refl)
qed

lemma set_update_subset: "set (AList.update k v xs) \<subseteq> insert (k, v) (set xs)"
  by (induction xs) auto

lemma cached_ok_store:
  assumes "cached_ok w" "res_ok r" "\<not> skipped r"
  shows "cached_ok (storeInCache env a d ps r w)"
proof -
  have "\<forall>(k, e)\<in>set (caches (storeInCache env a d ps r w) b). res_ok (ce_result e) \<and> \<not> skipped (ce_result e)" for b
  proof (cases "caching d \<and> b = a")
    case False
    then show ?thesis
      using assms(1) by (auto simp: storeInCache_def now_def Let_def caches_def cached_ok_def)
  next
    case True
    let ?key = "buildCacheKey env d ps" and ?t = "e_clk env (w_tick w)"
    let ?e = "\<lparr>ce_result = r, ce_expiresAt = ?t + ms_to_ns (the (cacheDuration d)), ce_generation = cacheGeneration (w_store w a)\<rparr>"
    have "caches (storeInCache env a d ps r w) b = AList.update ?key ?e (evict ?t ?key (caches w a))"
      using True by (simp add: storeInCache_def now_def Let_def caches_def)
    then have "set (caches (storeInCache env a d ps r w) b) \<subseteq> insert (?key, ?e) (set (caches w a))"
      using set_update_subset [of ?key ?e] set_evict [of ?t ?key "caches w a"] by fastforce
    with assms show ?thesis unfolding cached_ok_def by fastforce
  qed
  then show ?thesis by (simp add: cached_ok_def)
qed

lemma cached_ok_lookup:
  assumes "cached_ok w" "cacheLookup env a d ps w = (res, w')"
  shows "cached_ok w'" "res = Some r \<Longrightarrow> res_ok r \<and> \<not> skipped r"
proof -
  show "res_ok r \<and> \<not> skipped r" if "res = Some r"
  proof -
    from assms(2) that obtain e where "map_of (cache (w_store w a)) (buildCacheKey env d ps) = Some e" "ce_result e = r"
      by (auto simp: cacheLookup_def Let_def now_def split: if_splits option.splits)
    then show ?thesis using assms(1) by (fastforce simp: cached_ok_def caches_def dest: map_of_SomeD)
  qed
  have "set (caches w' b) \<subseteq> set (caches w b)" for b
    using assms(2) set_delete_subset [of "buildCacheKey env d ps" "cache (w_store w a)"]
    by (auto simp: cacheLookup_def Let_def now_def caches_def count_execution_def split: if_splits option.splits)
  then show "cached_ok w'" using assms(1) unfolding cached_ok_def by blast
qed

lemma cached_ok_caches: "caches w' = caches w \<Longrightarrow> cached_ok w' = cached_ok w"
  by (simp add: cached_ok_def)

text \<open>The pieces of \<^verbatim>\<open>execute\<close> establish it.\<close>

definition fresh_result :: "RuleResult \<Rightarrow> bool" where
  "fresh_result r \<longleftrightarrow> \<not> success r \<and> \<not> skipped r \<and> exception r = None \<and>
     (\<forall>c\<in>set (childResults r). res_ok c \<and> isSuccess c)"

definition try_ok :: "outcome \<times> RuleResult \<times> 'h world \<Rightarrow> bool" where
  "try_ok x \<longleftrightarrow>
     (case x of (out, r, w) \<Rightarrow>
        cached_ok w \<and> \<not> skipped r \<and>
        (case out of Returned \<Rightarrow> res_ok r | Fell \<Rightarrow> res_ok r \<and> success r
                   | Threw e \<Rightarrow> \<not> success r \<and> exception r = None))"

lemma fail_and_return_ok:
  assumes "cached_ok w" "\<not> skipped r"
  shows "try_ok (fail_and_return env rule ps msg r w)"
proof -
  let ?r = "fst (setFailure msg False r w)"
  have "res_ok ?r" using assms(2) by (intro res_okI_failure) simp_all
  moreover have "cached_ok (snd (setFailure msg False r w))" using assms(1) by (simp add: cached_ok_def)
  ultimately have "cached_ok (storeInCache env (addr rule) (rdata rule) ps ?r (snd (setFailure msg False r w)))"
    using assms(2) by (intro cached_ok_store) simp_all
  with \<open>res_ok ?r\<close> assms(2) show ?thesis
    by (simp add: fail_and_return_def try_ok_def split_beta Let_def cached_ok_def)
qed

lemma run_own_steps_ok:
  assumes "cached_ok w" "fresh_result r"
  shows "try_ok (run_own_steps env rule ps r w)"
proof -
  obtain ev w1 where ev: "(if expression (rdata rule) \<noteq> [] then rule_evaluateExpression env rule ps w else (Inr True, w)) = (ev, w1)"
    by fastforce
  then have c1: "cached_ok w1"
    using assms(1) cached_ok_caches [OF rule_steps_frame(1) [of env rule ps w]] by (auto split: if_splits)
  obtain ac w2 where ac: "(if action (rdata rule) \<noteq> [] then rule_executeAction env rule ps w1 else (Inr (), w1)) = (ac, w2)"
    by fastforce
  then have c2: "cached_ok w2"
    using c1 cached_ok_caches [OF rule_steps_frame(2) [of env rule ps w1]] by (auto split: if_splits)
  have ok: "res_ok (with_success True r)"
    using assms(2) by (intro res_okI_success) (simp_all add: fresh_result_def)
  consider (exn) e where "ev = Inl e" | (false) "ev = Inr False" | (true) "ev = Inr True"
    by (cases ev) auto
  then show ?thesis
  proof cases
    case exn
    with ev c1 assms(2) show ?thesis by (simp add: run_own_steps_def try_ok_def fresh_result_def)
  next
    case false
    with ev c1 assms(2) fail_and_return_ok [OF c1] show ?thesis by (simp add: run_own_steps_def fresh_result_def)
  next
    case true
    show ?thesis
    proof (cases ac)
      case (Inl e)
      with true ev ac c2 assms(2) show ?thesis by (simp add: run_own_steps_def try_ok_def fresh_result_def)
    next
      case (Inr u)
      with true ev ac c2 assms(2) ok show ?thesis
        by (simp add: run_own_steps_def try_ok_def fresh_result_def cached_ok_def)
    qed
  qed
qed

definition children_ok :: "RuleResult list \<times> 'h world \<Rightarrow> bool" where
  "children_ok x \<longleftrightarrow> cached_ok (snd x) \<and> (\<forall>c\<in>set (fst x). res_ok c)"

lemma try_block_ok:
  assumes "cached_ok w" "fresh_result r" "\<And>w. cached_ok w \<Longrightarrow> children_ok (run w)"
  shows "try_ok (try_block env rule run ps r w)"
proof -
  obtain x w1 where x: "check_rate env (rdata rule) w = (x, w1)" by fastforce
  then have c1: "cached_ok w1"
    using assms(1) cached_ok_caches [OF check_rate_frame(1) [of env "rdata rule" w]] by simp
  obtain rs w2 where rs: "run w1 = (rs, w2)" by fastforce
  with assms(3) [OF c1] have c2: "cached_ok w2" "\<forall>c\<in>set rs. res_ok c" by (simp_all add: children_ok_def)
  then have c3: "cached_ok (store_child_results (childRules rule) rs w2)" by (simp add: cached_ok_def)
  show ?thesis
  proof (cases "find (\<lambda>c. \<not> isSuccess c) rs")
    case (Some c)
    with x rs c1 c3 assms(2) fail_and_return_ok [OF c3] run_own_steps_ok [OF c1 assms(2)] show ?thesis
      by (auto simp: try_block_def try_ok_def [of "(Threw _, _)"] fresh_result_def split: sum.splits)
  next
    case None
    then have "\<forall>c\<in>set rs. isSuccess c" by (auto simp: find_None_iff)
    with assms(2) c2 have "fresh_result (with_children rs r)" by (simp add: fresh_result_def)
    with run_own_steps_ok [OF c3 this] None x rs c1 assms(2) run_own_steps_ok [OF c1 assms(2)] show ?thesis
      by (auto simp: try_block_def try_ok_def [of "(Threw _, _)"] fresh_result_def split: sum.splits)
  qed
qed

lemma with_metrics_ok [simp]: "res_ok (with_metrics m r) = res_ok r"
  by (cases r) (simp add: res_ok_def)

lemma finish_execution_ok:
  assumes "cached_ok w" "res_ok r" "\<not> skipped r"
  shows "res_ok (fst (finish_execution env rule ps t r w)) \<and> cached_ok (snd (finish_execution env rule ps t r w))"
proof -
  obtain m w3 where f: "finish_execution env rule ps t r w =
      (with_metrics m r, storeInCache env (addr rule) (rdata rule) ps (with_metrics m r) w3)" "caches w3 = caches w"
    by (simp add: finish_execution_def now_def Let_def)
  then have "cached_ok w3" using assms(1) by (simp add: cached_ok_def)
  with assms f(1) show ?thesis by (simp add: cached_ok_store)
qed

lemma execute_with_ok:
  assumes c: "cached_ok w" and run: "\<And>w. cached_ok w \<Longrightarrow> children_ok (run w)"
  shows "res_ok (fst (execute_with env r run ps w)) \<and> cached_ok (snd (execute_with env r run ps w))"
proof -
  obtain hit w1 where l: "cacheLookup env (addr r) (rdata r) ps w = (hit, w1)" by fastforce
  note lk = cached_ok_lookup [OF c l]
  show ?thesis
  proof (cases hit)
    case (Some res)
    with l lk show ?thesis by (simp add: execute_with_def)
  next
    case None
    define w3 where "w3 = snd (now env (snd (now env w1)))"
    define res where "res = RuleResult (rname r) (rid r) False False None (fst (now env w1)) 0 init_metrics []"
    have c3: "cached_ok w3" "cached_ok (snd (now env w1))"
      using lk(1) by (simp_all add: w3_def cached_ok_caches [OF caches_frames(6)])
    have res: "fresh_result res" by (simp add: res_def fresh_result_def)
    obtain out res' w4 where t: "try_block env r run ps res w3 = (out, res', w4)" by (metis prod.exhaust)
    have "try_ok (try_block env r run ps res w3)" by (rule try_block_ok [OF c3(1) res run])
    with t have ok: "try_ok (out, res', w4)" by simp
    have ex: "execute_with env r run ps w =
        (if \<not> isActive (rdata r) then (with_skipped True res, snd (now env w1))
         else case out of Returned \<Rightarrow> (res', w4)
              | Fell \<Rightarrow> finish_execution env r ps (fst (now env (snd (now env w1)))) res' w4
              | Threw e \<Rightarrow> finish_execution env r ps (fst (now env (snd (now env w1))))
                  (fst (handle_exception (rdata r) e res' w4)) (snd (handle_exception (rdata r) e res' w4)))"
      using l None t by (simp add: execute_with_def w3_def res_def split_beta Let_def split: outcome.split)
    have sk: "res_ok (with_skipped True res)" by (simp add: res_def res_ok_def)
    show ?thesis
    proof (cases out)
      case Returned
      with ok ex sk c3 show ?thesis by (simp add: try_ok_def)
    next
      case Fell
      with ok finish_execution_ok [of w4 res'] ex sk c3 show ?thesis by (simp add: try_ok_def)
    next
      case (Threw e)
      let ?h = "handle_exception (rdata r) e res' w4"
      have "cached_ok (snd ?h)" "res_ok (fst ?h)" "\<not> skipped (fst ?h)"
        using ok Threw res_okI_failure [of "fst ?h"]
        by (simp_all add: try_ok_def cached_ok_caches [OF handle_exception_simps(1)] del: not_None_eq)
      with finish_execution_ok [of "snd ?h" "fst ?h"] Threw ex sk c3 show ?thesis by simp
    qed
  qed
qed

lemma executeChildRules_ok_aux:
  assumes "\<And>c w. c \<in> set cs \<Longrightarrow> cached_ok w \<Longrightarrow> res_ok (fst (execute env c ps w)) \<and> cached_ok (snd (execute env c ps w))"
    and "cached_ok w"
  shows "children_ok (executeChildRules env cs ps w)"
  using assms
proof (induction cs arbitrary: w)
  case (Cons c cs)
  have "res_ok (fst (execute env c ps w))" "cached_ok (snd (execute env c ps w))" using Cons.prems by auto
  moreover from this(2) have "children_ok (executeChildRules env cs ps (snd (execute env c ps w)))"
    using Cons by auto
  ultimately show ?case by (simp add: children_ok_def split_beta)
qed (simp add: children_ok_def)

lemma execute_ok:
  "cached_ok w \<Longrightarrow> res_ok (fst (execute env r ps w)) \<and> cached_ok (snd (execute env r ps w))"
proof (induction r arbitrary: w)
  case (Rule a d cs)
  have "children_ok (executeChildRules env cs ps w')" if "cached_ok w'" for w'
    using that by (intro executeChildRules_ok_aux) (auto intro: Rule.IH [THEN conjunct1] Rule.IH [THEN conjunct2])
  with Rule.prems show ?case by (simp add: execute_with_ok)
qed

lemma executeChildRules_ok: "cached_ok w \<Longrightarrow> children_ok (executeChildRules env cs ps w)"
  by (intro executeChildRules_ok_aux) (simp_all add: execute_ok)

text \<open>
  C1. Every execution ends in a proper result, whatever the rule, its children, the parameters,
  the engine, the limiter and the clock do: no exception escapes; the result succeeds exactly if
  it carries no exception and was not skipped; and a successful result is successful all the way
  down, that is, no parent succeeds with a failed or skipped child anywhere below it. Cached
  results keep this property.
\<close>

theorem execute_proper_result:
  assumes "cached_ok w" and "execute env r ps w = (res, w')"
  shows "(success res \<longleftrightarrow> exception res = None \<and> \<not> skipped res) \<and>
    (success res \<longrightarrow> (\<forall>s\<in>set (result_tree res). isSuccess s)) \<and> cached_ok w'"
  using execute_ok [OF assms(1), of env r ps] assms(2)
  by (auto simp: res_ok_def fully_successful_iff)

lemma sample_cached_ok: "cached_ok sample_world"
  by (simp add: cached_ok_def caches_def sample_world_def init_rule_state_def)

theorem execute_proper_result_witness:
  "let (res, w') = execute sample_fr_env (Rule 0 (sample_data 7 ''x'') []) [mk_param ''x'' (VBool True)] sample_world
   in (success res \<longleftrightarrow> exception res = None \<and> \<not> skipped res) \<and> cached_ok w'"
proof -
  let ?e = "execute sample_fr_env (Rule 0 (sample_data 7 ''x'') []) [mk_param ''x'' (VBool True)] sample_world"
  obtain res w' where e: "?e = (res, w')" by fastforce
  from execute_proper_result [OF sample_cached_ok e] e show ?thesis by (simp del: execute.simps)
qed

section \<open>The context\<close>

lemma fail_and_return_ctx:
  "getResult (w_ctx (snd (snd (fail_and_return env r ps msg res w)))) (resultKey (rdata r)) =
     Some (fst (snd (fail_and_return env r ps msg res w)))"
  by (simp add: fail_and_return_def split_beta Let_def ctx_setResult_def result_store.get_put_same)

lemma finish_execution_ctx:
  "getResult (w_ctx (snd (finish_execution env r ps t res w))) (resultKey (rdata r)) =
     Some (fst (finish_execution env r ps t res w))"
  by (simp add: finish_execution_def now_def Let_def ctx_setResult_def result_store.get_put_same)

lemma run_own_steps_returned:
  "run_own_steps env r ps res w = (Returned, res', w') \<Longrightarrow>
     getResult (w_ctx w') (resultKey (rdata r)) = Some res'"
  using fail_and_return_ctx [of env r ps "''Expression evaluated to false''" res]
  by (auto simp: run_own_steps_def Let_def split: prod.splits sum.splits bool.splits)
    (metis fst_conv snd_conv)

lemma try_block_returned:
  assumes "try_block env r run ps res w = (Returned, res', w')"
  shows "getResult (w_ctx w') (resultKey (rdata r)) = Some res'"
proof -
  obtain x w1 where x: "check_rate env (rdata r) w = (x, w1)" by fastforce
  obtain rs w2 where rs: "run w1 = (rs, w2)" by fastforce
  let ?w3 = "store_child_results (childRules r) rs w2"
  consider (own) "run_own_steps env r ps res w1 = (Returned, res', w')"
    | (kids) "run_own_steps env r ps (with_children rs res) ?w3 = (Returned, res', w')"
    | (fail) msg where "fail_and_return env r ps msg (with_children rs res) ?w3 = (Returned, res', w')"
    using assms x rs by (auto simp: try_block_def Let_def split: sum.splits if_splits option.splits)
  then show ?thesis
  proof cases
    case own
    then show ?thesis by (rule run_own_steps_returned)
  next
    case kids
    then show ?thesis by (rule run_own_steps_returned)
  next
    case fail
    with fail_and_return_ctx [of env r ps msg "with_children rs res" ?w3] show ?thesis by simp
  qed
qed

text \<open>The context after an execution.\<close>

lemma execute_context:
  assumes "cacheLookup env (addr r) (rdata r) ps w = (None, w1)" and "execute env r ps w = (res, w')"
  shows "if isActive (rdata r) then getResult (w_ctx w') (resultKey (rdata r)) = Some res
         else w' = w1\<lparr>w_tick := w_tick w1 + 1\<rparr> \<and> skipped res \<and> \<not> success res"
proof -
  obtain a d cs where r: "r = Rule a d cs" by (cases r)
  let ?run = "\<lambda>w'. executeChildRules env cs ps w'"
  let ?res = "RuleResult (rname r) (rid r) False False None (fst (now env w1)) 0 init_metrics []"
  obtain out res1 w4 where t: "try_block env r ?run ps ?res (snd (now env (snd (now env w1)))) = (out, res1, w4)"
    by (metis prod.exhaust)
  show ?thesis
  proof (cases "isActive d")
    case False
    with assms r show ?thesis by (auto simp: execute_with_def now_def)
  next
    case True
    have "(res, w') = (case out of Returned \<Rightarrow> (res1, w4)
        | Fell \<Rightarrow> finish_execution env r ps (fst (now env (snd (now env w1)))) res1 w4
        | Threw e \<Rightarrow> finish_execution env r ps (fst (now env (snd (now env w1))))
            (fst (handle_exception (rdata r) e res1 w4)) (snd (handle_exception (rdata r) e res1 w4)))"
      using assms True r t by (simp add: execute_with_def split_beta Let_def split: outcome.splits)
    moreover have "getResult (w_ctx w4) (resultKey (rdata r)) = Some res1" if "out = Returned"
      using try_block_returned t that by blast
    ultimately have "getResult (w_ctx w') (resultKey (rdata r)) = Some res"
      by (cases out) (metis (no_types, lifting) finish_execution_ctx fst_conv snd_conv outcome.simps(8-10))+
    with True r show ?thesis by simp
  qed
qed

text \<open>
  C3. An executed rule publishes its result: after \<^verbatim>\<open>execute\<close> of an active rule that was not served
  from its cache, the context holds exactly the returned result under the rule's key, so that
  expressions and dependent rules see the outcome that the caller got, on every path through the
  \<^verbatim>\<open>try\<close> block and its handlers. An inactive rule leaves the context alone and reads nothing but
  the clock.
\<close>

theorem execute_publishes_result:
  assumes "cacheLookup env (addr r) (rdata r) ps w = (None, w1)" and "execute env r ps w = (res, w')"
  shows "if isActive (rdata r) then getResult (w_ctx w') (resultKey (rdata r)) = Some res
         else w' = w1\<lparr>w_tick := w_tick w1 + 1\<rparr> \<and> skipped res \<and> \<not> success res"
  using execute_context [OF assms] by simp

theorem execute_publishes_result_witness:
  "let r = Rule 0 (sample_data 7 ''x'') []; (res, w') = execute sample_fr_env r [] sample_world
   in getResult (w_ctx w') ''#7'' = Some res"
proof -
  let ?r = "Rule 0 (sample_data 7 ''x'') []"
  obtain res w' where e: "execute sample_fr_env ?r [] sample_world = (res, w')" by fastforce
  have "cacheLookup sample_fr_env (addr ?r) (rdata ?r) [] sample_world = (None, sample_world)"
    by (simp add: cacheLookup_def caching_def sample_data_def)
  from execute_publishes_result [OF this e] have "getResult (w_ctx w') (resultKey (rdata ?r)) = Some res"
    by (simp add: sample_data_def)
  moreover have "resultKey (rdata ?r) = ''#7''"
    by (simp add: resultKey_def sample_data_def std_to_string_def nat_digits.simps char_of_def bit_iff_odd)
  ultimately show ?thesis using e by (simp del: execute.simps)
qed



end
