(* ===== verification/Workflow_Order.thy ===== *)
theory Workflow_Order
  imports Rule_Core "HOL-Library.Multiset"
begin

text \<open>
  Dependency resolution of \<^verbatim>\<open>Workflow\<close> (src/workflow.cpp): \<^verbatim>\<open>buildDependencyLevels\<close> (Kahn's
  algorithm with priorities inside a level), \<^verbatim>\<open>resolveExecutionOrder\<close>, the depth-first
  \<^verbatim>\<open>checkCircularDependencies\<close>, and \<^verbatim>\<open>buildCompilationLevels\<close>. A \<^verbatim>\<open>std::unordered_map\<close> is an
  association list; where its iteration order can matter, the order is an argument \<open>it\<close> that
  permutes the list. The specification is the dependency depth of a rule: the length of the chain
  of providers that starts at it.
\<close>

section \<open>Kahn's algorithm\<close>

abbreviation rdep :: "Rule \<Rightarrow> string option" where "rdep r \<equiv> dependsOnRuleName (rdata r)"
abbreviation rprio :: "Rule \<Rightarrow> int" where "rprio r \<equiv> priority (rdata r)"

type_synonym rule_map = "(int \<times> Rule) list"

definition ruleMap_of :: "Rule list \<Rightarrow> rule_map" where
  "ruleMap_of rules = fold (\<lambda>r m. AList.update (rid r) r m) rules []"

text \<open>The provider is looked up with \<^verbatim>\<open>r->name == dep.c_str()\<close>, which stops at a NUL.\<close>

definition count_dependencies :: "Rule list \<Rightarrow> rule_map \<Rightarrow> int \<Rightarrow> int" where
  "count_dependencies rules m =
     fold (\<lambda>r deg. case rdep r of
             None \<Rightarrow> deg
           | Some n \<Rightarrow> if list_ex (\<lambda>(i, q). rname q = c_str n) m
                        then deg(rid r := deg (rid r) + 1) else deg)
       rules (\<lambda>_. 0)"

definition ready :: "Rule list \<Rightarrow> rule_map \<Rightarrow> (int \<Rightarrow> int) \<Rightarrow> Rule list" where
  "ready rules m deg = filter (\<lambda>r. map_of m (rid r) \<noteq> None \<and> deg (rid r) = 0) rules"

definition sort_level :: "Rule list \<Rightarrow> Rule list" where
  "sort_level level = sort_key rprio level"

definition complete_rule :: "Rule \<Rightarrow> rule_map \<times> (int \<Rightarrow> int) \<Rightarrow> rule_map \<times> (int \<Rightarrow> int)" where
  "complete_rule r s =
     (let m = AList.delete (rid r) (fst s)
      in (m, fold (\<lambda>(i, q) deg. if rdep q = Some (rname r)
                                  then deg(rid q := deg (rid q) - 1) else deg) m (snd s)))"

definition circular_in_workflow :: exn where
  "circular_in_workflow =
     StdException RuleValidationException ''Circular dependency detected in workflow''"

lemma fst_complete_rule [simp]: "fst (complete_rule r s) = AList.delete (rid r) (fst s)"
  by (simp add: complete_rule_def Let_def)

lemma fst_fold_complete:
  "fst (fold complete_rule L s) = fold (\<lambda>r. AList.delete (rid r)) L (fst s)"
  by (induction L arbitrary: s) simp_all

lemma length_fold_delete: "length (fold (\<lambda>r. AList.delete (rid r)) L m) \<le> length m"
proof (induction L arbitrary: m)
  case (Cons r L)
  from Cons [of "AList.delete (rid r) m"] length_delete_le [of "rid r" m] show ?case by simp
qed simp

lemma complete_level_shrinks:
  assumes "L \<noteq> []" "\<forall>r\<in>set L. map_of m (rid r) \<noteq> None"
  shows "length (fst (fold complete_rule (sort_level L) (m, deg))) < length m"
proof -
  obtain r R where L: "sort_level L = r # R"
    using assms(1) by (cases "sort_level L") (auto simp: sort_level_def dest: arg_cong [of _ _ length])
  then have "r \<in> set L" by (metis list.set_intros(1) set_sort sort_level_def)
  with assms(2) have "length (AList.delete (rid r) m) < length m" by (intro length_delete_less) (metis map_of_eq_None_iff)
  with length_fold_delete [of R "AList.delete (rid r) m"] show ?thesis
    by (simp add: fst_fold_complete L)
qed

function build_levels :: "Rule list \<Rightarrow> rule_map \<Rightarrow> (int \<Rightarrow> int) \<Rightarrow> exn + Rule list list" where
  "build_levels rules m deg =
     (if m = [] then Inr []
      else let level = ready rules m deg
           in if level = [] then Inl circular_in_workflow
              else let level' = sort_level level; s = fold complete_rule level' (m, deg)
                   in map_sum id ((#) level') (build_levels rules (fst s) (snd s)))"
  by pat_completeness auto
termination build_levels
  by (relation "measure (\<lambda>(rules, m, deg). length m)")
     (simp_all add: complete_level_shrinks ready_def split_beta del: not_None_eq)

declare build_levels.simps [simp del]

definition buildDependencyLevels :: "Rule list \<Rightarrow> exn + Rule list list" where
  "buildDependencyLevels rules =
     (let m = ruleMap_of rules in build_levels rules m (count_dependencies rules m))"

definition resolveExecutionOrder :: "Rule list \<Rightarrow> exn + Rule list" where
  "resolveExecutionOrder rules = map_sum id concat (buildDependencyLevels rules)"


section \<open>Specification: dependency depth\<close>

definition provider :: "Rule list \<Rightarrow> Rule \<Rightarrow> Rule option" where
  "provider rules r =
     (case rdep r of None \<Rightarrow> None | Some n \<Rightarrow> find (\<lambda>q. rname q = n) rules)"

inductive depth :: "Rule list \<Rightarrow> Rule \<Rightarrow> nat \<Rightarrow> bool" for rules where
  depth_0: "provider rules r = None \<Longrightarrow> depth rules r 0"
| depth_Suc: "provider rules r = Some q \<Longrightarrow> depth rules q k \<Longrightarrow> depth rules r (Suc k)"

inductive_cases depth_0E: "depth rules r 0"
inductive_cases depth_SucE: "depth rules r (Suc k)"
inductive_simps depth_0_iff [simp]: "depth rules r 0"
inductive_simps depth_Suc_iff: "depth rules r (Suc k)"

definition depends_on :: "Rule list \<Rightarrow> (Rule \<times> Rule) set" where
  "depends_on rules = {(r, q). r \<in> set rules \<and> provider rules r = Some q}"

text \<open>What dependency resolution relies on: ids are distinct, a name that some rule depends on
  belongs to one rule only, and dependency names hold no NUL.\<close>

definition unambiguous :: "Rule list \<Rightarrow> bool" where
  "unambiguous rules \<longleftrightarrow>
     distinct (map rid rules) \<and>
     list_all (\<lambda>r. case rdep r of
         None \<Rightarrow> True
       | Some n \<Rightarrow> c_str n = n \<and> length (filter (\<lambda>q. rname q = n) rules) \<le> 1) rules"

lemma depth_det: "depth rules r k \<Longrightarrow> depth rules r j \<Longrightarrow> j = k"
proof (induction arbitrary: j rule: depth.induct)
  case (depth_0 r)
  then show ?case by (cases j) (auto elim: depth_SucE)
next
  case (depth_Suc r q k)
  then obtain i where "j = Suc i" "depth rules q i" by (cases j) (auto simp: depth_Suc_iff)
  with depth_Suc.IH show ?case by simp
qed

lemma provider_SomeD: "provider rules r = Some q \<Longrightarrow> q \<in> set rules \<and> rdep r = Some (rname q)"
  by (auto simp: provider_def dest: find_SomeD split: option.splits)

lemma provider_iff:
  assumes "unambiguous rules" "r \<in> set rules"
  shows "provider rules r = Some q \<longleftrightarrow> q \<in> set rules \<and> rdep r = Some (rname q)"
proof
  assume q: "q \<in> set rules \<and> rdep r = Some (rname q)"
  with assms have le: "length (filter (\<lambda>p. rname p = rname q) rules) \<le> 1"
    by (fastforce simp: unambiguous_def list_all_iff)
  from q obtain p where p: "find (\<lambda>p. rname p = rname q) rules = Some p"
    by (cases "find (\<lambda>p. rname p = rname q) rules") (auto simp: find_None_iff)
  then have "p \<in> set rules" "rname p = rname q" by (auto simp: find_Some_iff)
  with q have "{p, q} \<subseteq> set (filter (\<lambda>p. rname p = rname q) rules)" by auto
  then have "card {p, q} \<le> 1" using le by (meson List.finite_set card_length card_mono le_trans)
  then have "p = q" by (cases "p = q") auto
  with p q show "provider rules r = Some q" by (simp add: provider_def)
qed (rule provider_SomeD)

lemma unambiguous_distinct: "unambiguous rules \<Longrightarrow> distinct rules"
  by (auto simp: unambiguous_def distinct_map)

lemma rid_inj: "unambiguous rules \<Longrightarrow> r \<in> set rules \<Longrightarrow> q \<in> set rules \<Longrightarrow> rid r = rid q \<longleftrightarrow> r = q"
  unfolding unambiguous_def distinct_map by (meson inj_on_contraD)

section \<open>The loop invariant\<close>

definition pending :: "Rule list \<Rightarrow> nat \<Rightarrow> Rule \<Rightarrow> bool" where
  "pending rules k r \<longleftrightarrow> r \<in> set rules \<and> (\<forall>j<k. \<not> depth rules r j)"

definition levels_inv :: "Rule list \<Rightarrow> nat \<Rightarrow> rule_map \<Rightarrow> (int \<Rightarrow> int) \<Rightarrow> bool" where
  "levels_inv rules k m deg \<longleftrightarrow>
     (\<forall>i r. (i, r) \<in> set m \<longleftrightarrow> pending rules k r \<and> i = rid r) \<and> distinct (map fst m) \<and>
     (\<forall>r. pending rules k r \<longrightarrow>
        deg (rid r) = (case provider rules r of
            Some q \<Rightarrow> if pending rules k q then 1 else 0 | None \<Rightarrow> 0))"

lemma set_ruleMap_of_aux:
  "distinct (map rid rules) \<Longrightarrow> rid ` set rules \<inter> fst ` set m = {} \<Longrightarrow> distinct (map fst m) \<Longrightarrow>
   fold (\<lambda>r m. AList.update (rid r) r m) rules m = m @ map (\<lambda>r. (rid r, r)) rules"
proof (induction rules arbitrary: m)
  case (Cons r rules)
  have "AList.update k v m = m @ [(k, v)]" if "k \<notin> fst ` set m" for k and v :: Rule
    using that by (induction m) auto
  then have "AList.update (rid r) r m = m @ [(rid r, r)]"
    using Cons.prems by auto
  with Cons show ?case by simp
qed simp

lemma ruleMap_of_distinct:
  "distinct (map rid rules) \<Longrightarrow> ruleMap_of rules = map (\<lambda>r. (rid r, r)) rules"
  using set_ruleMap_of_aux [of rules "[]"] by (simp add: ruleMap_of_def)

lemma fold_count:
  "fold (\<lambda>r deg. if P r then deg(f r := deg (f r) + (c :: int)) else deg) xs deg i =
     deg i + c * int (length (filter (\<lambda>r. P r \<and> f r = i) xs))"
  by (induction xs arbitrary: deg) (simp_all add: algebra_simps)

lemma filter_only:
  assumes "distinct (map f xs)" "x \<in> set xs"
  shows "filter (\<lambda>y. P y \<and> f y = f x) xs = (if P x then [x] else [])"
  using assms
proof (induction xs)
  case (Cons a xs)
  show ?case
  proof (cases "x = a")
    case True
    with Cons.prems have "filter (\<lambda>y. P y \<and> f y = f a) xs = []" by (auto simp: filter_empty_conv image_iff)
    with True show ?thesis by simp
  next
    case False
    with Cons.prems have "x \<in> set xs" "f a \<noteq> f x" by (auto simp: image_iff)
    with Cons show ?thesis by simp
  qed
qed simp

lemma count_dependencies_provider:
  assumes u: "unambiguous rules" and r: "r \<in> set rules"
  shows "count_dependencies rules (ruleMap_of rules) (rid r) = (if provider rules r = None then 0 else 1)"
proof -
  let ?P = "\<lambda>r. provider rules r \<noteq> None"
  let ?m = "ruleMap_of rules"
  have d: "distinct (map rid rules)" using u by (simp add: unambiguous_def)
  have P: "(case rdep q of None \<Rightarrow> deg | Some n \<Rightarrow> if list_ex (\<lambda>(i, q). rname q = c_str n) ?m
        then deg(rid q := deg (rid q) + 1) else deg) = (if ?P q then deg(rid q := deg (rid q) + 1) else deg)"
    if "q \<in> set rules" for q and deg :: "int \<Rightarrow> int"
  proof (cases "rdep q")
    case (Some n)
    with u that have "c_str n = n" by (fastforce simp: unambiguous_def list_all_iff)
    with Some show ?thesis
      by (auto simp: ruleMap_of_distinct [OF d] list_ex_iff provider_def find_None_iff simp del: not_None_eq)
  qed (simp add: provider_def)
  have "count_dependencies rules ?m = fold (\<lambda>q deg. if ?P q then deg(rid q := deg (rid q) + 1) else deg) rules (\<lambda>_. 0)"
    unfolding count_dependencies_def by (rule fold_cong) (simp_all add: P)
  then have "count_dependencies rules ?m (rid r) = int (length (filter (\<lambda>q. ?P q \<and> rid q = rid r) rules))"
    by (simp add: fold_count del: not_None_eq)
  then show ?thesis by (simp only: filter_only [OF d r]) simp
qed

lemma levels_inv_0:
  assumes "unambiguous rules"
  shows "levels_inv rules 0 (ruleMap_of rules) (count_dependencies rules (ruleMap_of rules))"
proof -
  have d: "distinct (map rid rules)" using assms by (simp add: unambiguous_def)
  have "distinct (map fst (ruleMap_of rules))"
    using d by (simp add: ruleMap_of_distinct [OF d] o_def)
  moreover have "(i, r) \<in> set (ruleMap_of rules) \<longleftrightarrow> pending rules 0 r \<and> i = rid r" for i r
    by (auto simp: ruleMap_of_distinct [OF d] pending_def)
  ultimately show ?thesis
    using assms by (auto simp: levels_inv_def pending_def count_dependencies_provider provider_SomeD split: option.splits)
qed

lemma pending_not_depth:
  assumes "pending rules k r"
  shows "depth rules r k \<longleftrightarrow> (case provider rules r of None \<Rightarrow> True | Some q \<Rightarrow> \<not> pending rules k q)"
proof (cases "provider rules r")
  case None
  then have "depth rules r 0" by simp
  with assms None show ?thesis by (cases k) (auto simp: pending_def)
next
  case (Some q)
  have "q \<in> set rules" using Some by (simp add: provider_SomeD)
  then have "\<not> pending rules k q \<longleftrightarrow> (\<exists>j<k. depth rules q j)" by (simp add: pending_def)
  also have "\<dots> \<longleftrightarrow> depth rules r k"
  proof
    assume "\<exists>j<k. depth rules q j"
    then obtain j where j: "j < k" "depth rules q j" by blast
    then have "depth rules r (Suc j)" using Some by (simp add: depth_Suc_iff)
    with assms j show "depth rules r k" unfolding pending_def by (metis Suc_lessI)
  next
    assume "depth rules r k"
    with Some show "\<exists>j<k. depth rules q j" by (cases k) (auto simp: depth_Suc_iff)
  qed
  finally show ?thesis using Some by simp
qed

lemma levels_inv_lookup:
  assumes "unambiguous rules" "levels_inv rules k m deg" "r \<in> set rules"
  shows "map_of m (rid r) \<noteq> None \<longleftrightarrow> pending rules k r"
proof
  assume "map_of m (rid r) \<noteq> None"
  then obtain q where "(rid r, q) \<in> set m" by (auto dest: map_of_SomeD)
  with assms(2) have "pending rules k q" "rid r = rid q" by (auto simp: levels_inv_def)
  moreover from this(1) have "q \<in> set rules" by (simp add: pending_def)
  ultimately show "pending rules k r" using rid_inj [OF assms(1,3)] by auto
next
  assume "pending rules k r"
  with assms(2) have "(rid r, r) \<in> set m" by (simp add: levels_inv_def)
  then show "map_of m (rid r) \<noteq> None" by (metis map_of_eq_None_iff fst_conv image_eqI)
qed

lemma ready_depth:
  assumes "unambiguous rules" "levels_inv rules k m deg"
  shows "ready rules m deg = filter (\<lambda>r. depth rules r k) rules"
proof -
  have "map_of m (rid r) \<noteq> None \<and> deg (rid r) = 0 \<longleftrightarrow> depth rules r k" if r: "r \<in> set rules" for r
  proof (cases "pending rules k r")
    case True
    with assms(2) have "deg (rid r) = 0 \<longleftrightarrow> depth rules r k"
      by (auto simp: levels_inv_def pending_not_depth split: option.splits)
    with True levels_inv_lookup [OF assms r] show ?thesis by simp
  next
    case False
    with r obtain j where "j < k" "depth rules r j" by (auto simp: pending_def)
    then have "\<not> depth rules r k" using depth_det by blast
    with False levels_inv_lookup [OF assms r] show ?thesis by simp
  qed
  then show ?thesis unfolding ready_def by (intro filter_cong) simp_all
qed

lemma set_fold_delete:
  "set (fold (\<lambda>r. AList.delete (rid r)) L m) = {(i, q) \<in> set m. i \<notin> rid ` set L}"
  by (induction L arbitrary: m) (auto simp: AList.delete_eq)

lemma distinct_fold_delete:
  "distinct (map fst m) \<Longrightarrow> distinct (map fst (fold (\<lambda>r. AList.delete (rid r)) L m))"
  by (induction L arbitrary: m) (simp_all add: distinct_delete)

lemma complete_rule_degree:
  assumes "distinct (map fst m)" "\<forall>(i, q)\<in>set m. i = rid q" "(rid q, q) \<in> set m" "rid q \<noteq> rid r"
  shows "snd (complete_rule r (m, deg)) (rid q) = deg (rid q) - (if rdep q = Some (rname r) then 1 else 0)"
proof -
  let ?m = "AList.delete (rid r) m" and ?P = "\<lambda>x. rdep (snd x) = Some (rname r)"
  have "snd (complete_rule r (m, deg)) =
      fold (\<lambda>x deg. if ?P x then deg(rid (snd x) := deg (rid (snd x)) + - 1) else deg) ?m deg"
    unfolding complete_rule_def Let_def by (auto intro!: fold_cong)
  then have "snd (complete_rule r (m, deg)) (rid q) =
      deg (rid q) - int (length (filter (\<lambda>x. ?P x \<and> rid (snd x) = rid q) ?m))"
    by (simp only: fold_count)
  also have "filter (\<lambda>x. ?P x \<and> rid (snd x) = rid q) ?m = filter (\<lambda>x. ?P x \<and> fst x = fst (rid q, q)) ?m"
    using assms(2) by (intro filter_cong) (auto simp: AList.delete_eq)
  also have "\<dots> = (if ?P (rid q, q) then [(rid q, q)] else [])"
    using assms distinct_delete [of m "rid r"] by (intro filter_only) (auto simp: AList.delete_eq)
  finally show ?thesis by simp
qed

lemma fold_complete_degree:
  assumes "distinct (map fst m)" "\<forall>(i, q)\<in>set m. i = rid q" "(rid q, q) \<in> set m" "rid q \<notin> rid ` set L"
  shows "snd (fold complete_rule L (m, deg)) (rid q) =
    deg (rid q) - int (length (filter (\<lambda>r. rdep q = Some (rname r)) L))"
  using assms
proof (induction L arbitrary: m deg)
  case (Cons r L)
  let ?s = "complete_rule r (m, deg)"
  have s: "?s = (AList.delete (rid r) m, snd ?s)" by (metis fst_complete_rule fst_conv prod.collapse)
  have "snd (fold complete_rule L (AList.delete (rid r) m, snd ?s)) (rid q) =
      snd ?s (rid q) - int (length (filter (\<lambda>r. rdep q = Some (rname r)) L))"
    using Cons.prems distinct_delete [of m "rid r"] by (intro Cons.IH) (auto simp: AList.delete_eq)
  with s complete_rule_degree [of m q r deg] Cons.prems show ?case by simp
qed simp

lemma levels_inv_step:
  assumes u: "unambiguous rules" and inv: "levels_inv rules k m deg"
    and L: "L = sort_level (ready rules m deg)" and s: "s = fold complete_rule L (m, deg)"
  shows "levels_inv rules (Suc k) (fst s) (snd s)"
proof -
  have setL: "set L = {r \<in> set rules. depth rules r k}"
    using ready_depth [OF u inv] by (simp add: L sort_level_def)
  have pS: "pending rules (Suc k) r \<longleftrightarrow> pending rules k r \<and> r \<notin> set L" for r
    by (auto simp: pending_def setL less_Suc_eq)
  have LP: "pending rules k q" if "q \<in> set L" for q
    using that depth_det by (fastforce simp: setL pending_def)
  have keys: "\<forall>(i, q)\<in>set m. i = rid q" and dm: "distinct (map fst m)" using inv by (auto simp: levels_inv_def)
  have memb: "(i, r) \<in> set (fst s) \<longleftrightarrow> pending rules (Suc k) r \<and> i = rid r" for i r
  proof -
    have "rid r \<in> rid ` set L \<longleftrightarrow> r \<in> set L" if "r \<in> set rules"
      using that rid_inj [OF u that] by (auto simp: setL)
    then show ?thesis
      using inv pS [of r] by (auto simp: s fst_fold_complete set_fold_delete levels_inv_def pending_def [of rules k])
  qed
  have deg: "snd s (rid r) = (case provider rules r of Some q \<Rightarrow> if pending rules (Suc k) q then 1 else 0 | None \<Rightarrow> 0)"
    if r: "pending rules (Suc k) r" for r
  proof -
    have rr: "r \<in> set rules" "pending rules k r" "r \<notin> set L" using r by (auto simp: pS) (simp add: pending_def)
    then have "(rid r, r) \<in> set m" "rid r \<notin> rid ` set L"
      using inv rid_inj [OF u rr(1)] by (auto simp: levels_inv_def setL)
    with fold_complete_degree [OF dm keys] have ds: "snd s (rid r) =
        deg (rid r) - int (length (filter (\<lambda>q. rdep r = Some (rname q)) L))" by (simp add: s)
    have "filter (\<lambda>q. rdep r = Some (rname q)) L = filter (\<lambda>q. provider rules r = Some q) L"
      using provider_iff [OF u rr(1)] by (intro filter_cong) (auto simp: setL)
    moreover have "length (filter (\<lambda>q. provider rules r = Some q) L) =
        (case provider rules r of Some q \<Rightarrow> if q \<in> set L then 1 else 0 | None \<Rightarrow> 0)"
    proof (cases "provider rules r")
      case (Some q)
      have "distinct L" using unambiguous_distinct [OF u] by (simp add: L sort_level_def ready_def)
      then have "length (filter (\<lambda>x. q = x) L) = (if q \<in> set L then 1 else 0)"
        by (auto simp: distinct_length_filter)
      with Some show ?thesis by simp
    qed simp
    moreover have "deg (rid r) = (case provider rules r of Some q \<Rightarrow> if pending rules k q then 1 else 0 | None \<Rightarrow> 0)"
      using inv rr(2) by (simp add: levels_inv_def)
    ultimately show ?thesis using ds by (auto simp: pS LP split: option.splits)
  qed
  show ?thesis unfolding levels_inv_def
    using memb deg distinct_fold_delete [OF dm, of L] by (simp add: s fst_fold_complete)
qed

lemma depth_below:
  "depth rules r j \<Longrightarrow> r \<in> set rules \<Longrightarrow> k \<le> j \<Longrightarrow> \<exists>q\<in>set rules. depth rules q k"
proof (induction rule: depth.induct)
  case (depth_Suc r q j)
  show ?case
  proof (cases "k = Suc j")
    case True
    with depth_Suc show ?thesis by (meson depth.depth_Suc)
  next
    case False
    with depth_Suc show ?thesis by (simp add: provider_SomeD)
  qed
qed auto

definition level_at :: "Rule list \<Rightarrow> nat \<Rightarrow> Rule list" where
  "level_at rules k = sort_level (filter (\<lambda>r. depth rules r k) rules)"

definition all_ranked :: "Rule list \<Rightarrow> nat \<Rightarrow> nat \<Rightarrow> bool" where
  "all_ranked rules k n \<longleftrightarrow> k \<le> n \<and> (\<forall>r\<in>set rules. \<exists>j<n. depth rules r j) \<and>
     (\<forall>j. k \<le> j \<and> j < n \<longrightarrow> level_at rules j \<noteq> [])"

lemma build_levels_correct:
  assumes u: "unambiguous rules"
  shows "levels_inv rules k m deg \<Longrightarrow>
    (\<exists>n. build_levels rules m deg = Inr (map (level_at rules) [k..<n]) \<and> all_ranked rules k n) \<or>
    (build_levels rules m deg = Inl circular_in_workflow \<and> (\<exists>r\<in>set rules. \<nexists>j. depth rules r j))"
proof (induction "length m" arbitrary: k m deg rule: less_induct)
  case less
  note inv = less.prems and rd = ready_depth [OF u less.prems]
  show ?case
  proof (cases "m = []")
    case True
    with inv have "\<not> pending rules k r" for r by (auto simp: levels_inv_def)
    then have "all_ranked rules k k" by (auto simp: all_ranked_def pending_def)
    moreover have "build_levels rules m deg = Inr (map (level_at rules) [k..<k])"
      using True by (simp add: build_levels.simps)
    ultimately show ?thesis by blast
  next
    case ne: False
    show ?thesis
    proof (cases "ready rules m deg = []")
      case True
      from ne inv obtain r where r: "r \<in> set rules" "pending rules k r"
        by (cases m) (auto simp: levels_inv_def pending_def)
      have "\<nexists>j. depth rules r j"
      proof
        assume "\<exists>j. depth rules r j"
        then obtain j where "depth rules r j" by blast
        with r have "k \<le> j" unfolding pending_def using not_less by blast
        with depth_below [OF \<open>depth rules r j\<close> r(1)] True rd show False by (auto simp: filter_empty_conv)
      qed
      with r True ne show ?thesis by (auto simp: build_levels.simps Let_def)
    next
      case False
      let ?L = "sort_level (ready rules m deg)"
      let ?s = "fold complete_rule ?L (m, deg)"
      have L: "?L = level_at rules k" using rd by (simp add: level_at_def)
      have "length (fst ?s) < length m"
        using False by (intro complete_level_shrinks) (simp_all add: ready_def)
      from less.hyps [OF this levels_inv_step [OF u inv refl refl]]
      consider n where "build_levels rules (fst ?s) (snd ?s) = Inr (map (level_at rules) [Suc k..<n])" "all_ranked rules (Suc k) n"
        | "build_levels rules (fst ?s) (snd ?s) = Inl circular_in_workflow" "\<exists>r\<in>set rules. \<nexists>j. depth rules r j"
        by blast
      then show ?thesis
      proof cases
        case 1
        have "level_at rules k \<noteq> []" using False L by (auto simp: sort_level_def dest: arg_cong [of _ _ length])
        with 1 have "all_ranked rules k n"
          unfolding all_ranked_def by (metis Suc_leD Suc_leI le_neq_implies_less)
        moreover have "build_levels rules m deg = Inr (map (level_at rules) [k..<n])"
          using 1 ne False L by (simp add: build_levels.simps [of rules m] Let_def all_ranked_def upt_conv_Cons)
        ultimately show ?thesis by blast
      next
        case 2
        with ne False show ?thesis by (simp add: build_levels.simps [of rules m] Let_def)
      qed
    qed
  qed
qed

lemma buildDependencyLevels_cases:
  assumes "unambiguous rules"
  obtains (levels) n where "buildDependencyLevels rules = Inr (map (level_at rules) [0..<n])" "all_ranked rules 0 n"
  | (cycle) "buildDependencyLevels rules = Inl circular_in_workflow" "\<exists>r\<in>set rules. \<nexists>j. depth rules r j"
  using build_levels_correct [OF assms levels_inv_0 [OF assms]]
  by (auto simp: buildDependencyLevels_def Let_def)

section \<open>Cycles\<close>

lemma depth_trancl:
  "(r, q) \<in> (depends_on rules)\<^sup>+ \<Longrightarrow> depth rules r k \<Longrightarrow> \<exists>j<k. depth rules q j"
proof (induction rule: trancl_induct)
  case (base q)
  then show ?case by (cases k) (auto simp: depends_on_def depth_Suc_iff)
next
  case (step p q)
  then obtain j where "j < k" "depth rules p j" by blast
  with step.hyps(2) show ?case by (cases j) (auto simp: depends_on_def depth_Suc_iff intro: Suc_lessD)
qed

lemma finite_depends_on: "finite (depends_on rules)"
  by (rule finite_subset [of _ "set rules \<times> set rules"]) (auto simp: depends_on_def provider_SomeD)

definition cyclic :: "Rule list \<Rightarrow> bool" where
  "cyclic rules \<longleftrightarrow> (\<exists>r\<in>set rules. (r, r) \<in> (depends_on rules)\<^sup>+)"

lemma cyclic_iff_unranked: "cyclic rules \<longleftrightarrow> (\<exists>r\<in>set rules. \<nexists>k. depth rules r k)"
proof
  assume "cyclic rules"
  then obtain r where r: "r \<in> set rules" "(r, r) \<in> (depends_on rules)\<^sup>+" by (auto simp: cyclic_def)
  then have "\<not> depth rules r k" for k using depth_trancl [OF r(2)] depth_det by blast
  with r show "\<exists>r\<in>set rules. \<nexists>k. depth rules r k" by blast
next
  assume unranked: "\<exists>r\<in>set rules. \<nexists>k. depth rules r k"
  show "cyclic rules"
  proof (rule ccontr)
    assume "\<not> cyclic rules"
    then have "acyclic (depends_on rules)"
      by (auto simp: cyclic_def acyclic_def depends_on_def dest: tranclD)
    then have wf: "wf ((depends_on rules)\<inverse>)" by (intro finite_acyclic_wf_converse finite_depends_on)
    have "r \<in> set rules \<longrightarrow> (\<exists>k. depth rules r k)" for r
    proof (induction r rule: wf_induct_rule [OF wf])
      case (1 r)
      show ?case
      proof (cases "provider rules r")
        case None
        then have "depth rules r 0" by simp
        then show ?thesis by blast
      next
        case (Some q)
        with 1 show ?thesis by (auto simp: depends_on_def provider_SomeD intro: depth.depth_Suc)
      qed
    qed
    with unranked show False by blast
  qed
qed

lemma buildDependencyLevels_iff:
  assumes "unambiguous rules"
  shows "buildDependencyLevels rules = Inl circular_in_workflow \<longleftrightarrow> cyclic rules"
    and "buildDependencyLevels rules = Inl e \<Longrightarrow> e = circular_in_workflow"
  by (rule buildDependencyLevels_cases [OF assms]; force simp: cyclic_iff_unranked all_ranked_def)+

lemma mset_concat_levels:
  assumes "all_ranked rules 0 n"
  shows "mset (concat (map (level_at rules) [0..<n])) = mset rules"
proof -
  have "mset (concat (map (level_at rules) [0..<k])) = mset (filter (\<lambda>r. \<exists>j<k. depth rules r j) rules)" for k
  proof (induction k)
    case (Suc k)
    have "mset (filter (\<lambda>r. \<exists>j<Suc k. depth rules r j) xs) =
        mset (filter (\<lambda>r. \<exists>j<k. depth rules r j) xs) + mset (filter (\<lambda>r. depth rules r k) xs)" for xs
      by (induction xs) (auto simp: less_Suc_eq dest: depth_det)
    with Suc show ?case by (simp add: level_at_def sort_level_def)
  qed simp
  moreover have "filter (\<lambda>r. \<exists>j<n. depth rules r j) rules = rules"
    using assms by (simp add: all_ranked_def filter_id_conv)
  ultimately show ?thesis by (simp del: mset_filter)
qed

text \<open>
  C8. \<^verbatim>\<open>buildDependencyLevels\<close> computes exactly the dependency levels: when rule ids are distinct and
  dependency names are unambiguous and the call returns, level \<open>k\<close> holds the rules whose provider
  chain has length \<open>k\<close>, in priority order and, for equal priorities, in the order of the
  workflow; no level is empty; every rule stands in exactly one level; and a rule's provider
  stands in the level just before its own.
\<close>

theorem buildDependencyLevels_levels:
  assumes "unambiguous rules" and "buildDependencyLevels rules = Inr levels"
  shows "mset (concat levels) = mset rules \<and>
    (\<forall>k<length levels. levels ! k \<noteq> [] \<and> set (levels ! k) = {r \<in> set rules. depth rules r k} \<and>
       sorted (map rprio (levels ! k)) \<and>
       (\<forall>p. filter (\<lambda>r. rprio r = p) (levels ! k) = filter (\<lambda>r. depth rules r k \<and> rprio r = p) rules) \<and>
       (\<forall>r\<in>set (levels ! k). \<forall>q. provider rules r = Some q \<longrightarrow> k > 0 \<and> q \<in> set (levels ! (k - 1))))"
proof -
  from buildDependencyLevels_cases [OF assms(1)] assms(2)
  obtain n where n: "levels = map (level_at rules) [0..<n]" "all_ranked rules 0 n" by (metis Inl_Inr_False sum.inject(2))
  have set_level: "set (level_at rules j) = {r \<in> set rules. depth rules r j}" for j
    by (simp add: level_at_def sort_level_def)
  have "filter (\<lambda>r. rprio r = p) (level_at rules k) = filter (\<lambda>r. depth rules r k \<and> rprio r = p) rules" for p k
    by (simp add: level_at_def sort_level_def sort_key_stable conj_commute)
  moreover have "k > 0 \<and> q \<in> set (level_at rules (k - 1))"
    if "r \<in> set (level_at rules k)" "provider rules r = Some q" for k r q
    using that by (cases k) (auto simp: set_level provider_SomeD depth_Suc_iff)
  moreover have "sorted (map rprio (level_at rules k))" for k
    by (simp add: level_at_def sort_level_def)
  ultimately show ?thesis
    using n mset_concat_levels [OF n(2)] by (auto simp: all_ranked_def set_level)
qed

definition dep_rule :: "nat \<Rightarrow> string \<Rightarrow> int \<Rightarrow> string option \<Rightarrow> Rule" where
  "dep_rule a n p dep =
     Rule a ((sample_data (int a) ''x'')\<lparr>rule_name := n, priority := p, dependsOnRuleName := dep\<rparr>) []"

text \<open>A workflow with two roots of different priority and a rule that depends on one of them.\<close>

definition sample_rules :: "Rule list" where
  "sample_rules = [dep_rule 1 ''total'' 0 (Some ''tax''), dep_rule 2 ''audit'' 5 None, dep_rule 3 ''tax'' 1 None]"

lemma sample_rules_unambiguous: "unambiguous sample_rules"
  by (simp add: unambiguous_def sample_rules_def dep_rule_def sample_data_def c_str_def)

lemma sample_rules_levels: "buildDependencyLevels sample_rules =
    Inr [[dep_rule 3 ''tax'' 1 None, dep_rule 2 ''audit'' 5 None], [dep_rule 1 ''total'' 0 (Some ''tax'')]]"
  by code_simp

theorem buildDependencyLevels_levels_witness:
  "set [dep_rule 3 ''tax'' 1 None, dep_rule 2 ''audit'' 5 None] = {r \<in> set sample_rules. depth sample_rules r 0}"
  using buildDependencyLevels_levels [OF sample_rules_unambiguous sample_rules_levels, THEN conjunct2, THEN spec, of 0]
  by simp

section \<open>Detection of circular dependencies\<close>

datatype VisitState = Unvisited | Visiting | Visited

definition dependency_id :: "rule_map \<Rightarrow> int \<Rightarrow> int" where
  "dependency_id m ruleId =
     (case map_of m ruleId of
        None \<Rightarrow> -1
      | Some r \<Rightarrow> (case rdep r of
            None \<Rightarrow> -1
          | Some n \<Rightarrow> (case find (\<lambda>(i, q). rname q = n) m of None \<Rightarrow> -1 | Some (i, q) \<Rightarrow> i)))"

lemma dependency_id_key: "dependency_id m i \<noteq> -1 \<Longrightarrow> dependency_id m i \<in> fst ` set m"
  by (force simp: dependency_id_def dest: find_SomeD split: option.splits)

text \<open>The lambda \<^verbatim>\<open>dfs\<close>: whether a cycle was found, and the visit states it leaves. The map is
  listed in its iteration order.\<close>

function dfs_circular :: "rule_map \<Rightarrow> int \<Rightarrow> (int \<Rightarrow> VisitState) \<Rightarrow> bool \<times> (int \<Rightarrow> VisitState)" where
  "dfs_circular m ruleId st =
     (let st1 = st(ruleId := Visiting); depId = dependency_id m ruleId
      in if depId = -1 then (False, st1(ruleId := Visited))
         else if st1 depId = Visiting then (True, st1)
         else if st1 depId = Unvisited
         then (case dfs_circular m depId st1 of
                 (True, st2) \<Rightarrow> (True, st2)
               | (False, st2) \<Rightarrow> (False, st2(ruleId := Visited)))
         else (False, st1(ruleId := Visited)))"
  by pat_completeness auto
termination dfs_circular
proof (relation "measure (\<lambda>(m, i, st). card {j \<in> fst ` set m. st j = Unvisited \<and> j \<noteq> i})")
  fix m i and st st1 :: "int \<Rightarrow> VisitState" and d
  assume st1: "st1 = st(i := Visiting)" and d: "d = dependency_id m i" "d \<noteq> -1" "st1 d = Unvisited"
  have "d \<noteq> i" "st d = Unvisited" using st1 d(3) by (cases "d = i"; simp)+
  moreover have "d \<in> fst ` set m" using d dependency_id_key by simp
  ultimately have "{j \<in> fst ` set m. st1 j = Unvisited \<and> j \<noteq> d} \<subset> {j \<in> fst ` set m. st j = Unvisited \<and> j \<noteq> i}"
    unfolding st1 by (intro psubsetI subsetI) (simp_all split: if_splits, blast)
  then show "((m, d, st1), (m, i, st)) \<in> measure (\<lambda>(m, i, st). card {j \<in> fst ` set m. st j = Unvisited \<and> j \<noteq> i})"
    by (simp add: psubset_card_mono)
qed simp

declare dfs_circular.simps [simp del]

fun check_from :: "rule_map \<Rightarrow> int list \<Rightarrow> (int \<Rightarrow> VisitState) \<Rightarrow> exn + unit" where
  "check_from m [] st = Inr ()"
| "check_from m (i # is) st =
     (if st i = Unvisited
      then (case dfs_circular m i st of
              (True, st1) \<Rightarrow> Inl (StdException RuleValidationException ''Circular dependency detected'')
            | (False, st1) \<Rightarrow> check_from m is st1)
      else check_from m is st)"

definition checkCircularDependencies :: "(rule_map \<Rightarrow> rule_map) \<Rightarrow> Rule list \<Rightarrow> exn + unit" where
  "checkCircularDependencies it rules =
     (let m = it (ruleMap_of rules) in check_from m (map fst m) (\<lambda>_. Unvisited))"

text \<open>What \<^verbatim>\<open>ruleMap\<close> holds: the rules, each under its id, in some order.\<close>

definition lists_rules :: "rule_map \<Rightarrow> Rule list \<Rightarrow> bool" where
  "lists_rules m rules \<longleftrightarrow> unambiguous rules \<and> mset m = mset (map (\<lambda>r. (rid r, r)) rules) \<and> -1 \<notin> rid ` set rules"

lemma lists_rules_map_of:
  assumes "lists_rules m rules"
  shows "map_of m (rid r) = Some r \<longleftrightarrow> r \<in> set rules" "set m = (\<lambda>r. (rid r, r)) ` set rules"
proof -
  have m: "mset m = mset (map (\<lambda>r. (rid r, r)) rules)" using assms by (simp add: lists_rules_def)
  then show set: "set m = (\<lambda>r. (rid r, r)) ` set rules" by (metis set_map set_mset_mset)
  have "mset (map fst m) = mset (map rid rules)" using arg_cong [OF m, of "image_mset fst"]
    by (simp add: image_mset.compositionality o_def)
  then have "distinct (map fst m)" using assms by (metis lists_rules_def mset_eq_imp_distinct_iff unambiguous_def)
  with set show "map_of m (rid r) = Some r \<longleftrightarrow> r \<in> set rules" by auto
qed

lemma dependency_id_provider:
  assumes m: "lists_rules m rules" and r: "r \<in> set rules"
  shows "dependency_id m (rid r) = (case provider rules r of None \<Rightarrow> -1 | Some q \<Rightarrow> rid q)"
proof -
  note mo = lists_rules_map_of [OF m]
  have u: "unambiguous rules" using m by (simp add: lists_rules_def)
  have lk: "map_of m (rid r) = Some r" using r mo(1) by simp
  show ?thesis
  proof (cases "rdep r")
    case None
    with lk show ?thesis by (simp add: dependency_id_def provider_def)
  next
    case (Some n)
    show ?thesis
    proof (cases "find (\<lambda>(i, q). rname q = n) m")
      case None
      then have "\<forall>q\<in>set rules. rname q \<noteq> n" by (simp add: find_None_iff mo(2))
      then have "find (\<lambda>q. rname q = n) rules = None" by (simp add: find_None_iff)
      with Some lk None show ?thesis by (simp add: dependency_id_def provider_def)
    next
      case f: (Some x)
      obtain i q where x: "x = (i, q)" by (cases x)
      with find_SomeD [OF f] mo(2) have "q \<in> set rules" "i = rid q" "rname q = n" by auto
      with Some provider_iff [OF u r] have "provider rules r = Some q" by blast
      with Some lk f x \<open>i = rid q\<close> show ?thesis by (simp add: dependency_id_def)
    qed
  qed
qed

definition visited_ranked :: "Rule list \<Rightarrow> (int \<Rightarrow> VisitState) \<Rightarrow> bool" where
  "visited_ranked rules st \<longleftrightarrow> (\<forall>r\<in>set rules. st (rid r) = Visited \<longrightarrow> (\<exists>k. depth rules r k))"

definition dfs_returns :: "Rule list \<Rightarrow> Rule \<Rightarrow> (int \<Rightarrow> VisitState) \<Rightarrow> (int \<Rightarrow> VisitState) \<Rightarrow> bool" where
  "dfs_returns rules r st st' \<longleftrightarrow>
     visited_ranked rules st' \<and> st' (rid r) = Visited \<and>
     (\<forall>j. st' j = Visiting \<longrightarrow> st j = Visiting \<and> j \<noteq> rid r) \<and> (\<forall>j. st j = Visited \<longrightarrow> st' j = Visited)"

lemma dfs_finish:
  assumes "unambiguous rules" "r \<in> set rules" "visited_ranked rules st" "depth rules r k"
    "\<forall>j. st j = Visiting \<longrightarrow> st0 j = Visiting \<or> j = rid r" "\<forall>j. st0 j = Visited \<longrightarrow> st j = Visited \<or> j = rid r"
  shows "dfs_returns rules r st0 (st(rid r := Visited))"
proof -
  have "q = r" if "q \<in> set rules" "rid q = rid r" for q using rid_inj [OF assms(1) that(1) assms(2)] that(2) by simp
  then have "\<exists>j. depth rules q j" if "q \<in> set rules" "rid q = rid r" for q using that assms(4) by blast
  with assms(3,5,6) show ?thesis by (auto simp: dfs_returns_def visited_ranked_def)
qed

lemma dfs_circular_correct:
  "lists_rules m rules \<Longrightarrow> dfs_circular m i st = (b, st') \<Longrightarrow> r \<in> set rules \<Longrightarrow> i = rid r \<Longrightarrow>
    visited_ranked rules st \<Longrightarrow>
    \<forall>p\<in>set rules. st (rid p) = Visiting \<longrightarrow> (p, r) \<in> (depends_on rules)\<^sup>+ \<Longrightarrow>
    (if b then cyclic rules else dfs_returns rules r st st')"
proof (induction m i st arbitrary: b st' r rule: dfs_circular.induct)
  case (1 m i st)
  note m = "1.prems"(1) and r = "1.prems"(3) and i = "1.prems"(4) and vr = "1.prems"(5) and onpath = "1.prems"(6)
  have u: "unambiguous rules" using m by (simp add: lists_rules_def)
  let ?st1 = "st(rid r := Visiting)"
  have vr1: "visited_ranked rules ?st1" using vr by (simp add: visited_ranked_def)
  note dep = dependency_id_provider [OF m r] and d = "1.prems"(2) [unfolded i dfs_circular.simps [of m "rid r" st]]
  show ?case
  proof (cases "provider rules r")
    case None
    then have "depth rules r 0" by simp
    then have "dfs_returns rules r st (?st1(rid r := Visited))" by (intro dfs_finish [OF u r vr1, of 0]) auto
    with d None dep show ?thesis by (auto simp: Let_def)
  next
    case (Some q)
    then have q: "q \<in> set rules" and e: "(r, q) \<in> depends_on rules" using r by (simp_all add: provider_SomeD depends_on_def)
    have q1: "rid q \<noteq> -1" using m imageI [OF q, of rid] unfolding lists_rules_def by force
    have dq: "dependency_id m (rid r) = rid q" using dep Some by simp
    show ?thesis
    proof (cases "?st1 (rid q)")
      case Visiting
      have "(q, q) \<in> (depends_on rules)\<^sup>+"
      proof (cases "rid q = rid r")
        case True
        with rid_inj [OF u q r] e show ?thesis by auto
      next
        case False
        with Visiting onpath q e show ?thesis by (auto intro: trancl_into_trancl)
      qed
      with q have "cyclic rules" by (auto simp: cyclic_def)
      with d dq q1 Visiting show ?thesis by (simp add: Let_def split: if_splits)
    next
      case Visited
      with vr1 q obtain k where "depth rules q k" by (auto simp: visited_ranked_def)
      with Some have "depth rules r (Suc k)" by (simp add: depth_Suc_iff)
      then have "dfs_returns rules r st (?st1(rid r := Visited))" by (intro dfs_finish [OF u r vr1]) auto
      with d dq q1 Visited show ?thesis by (simp add: Let_def split: if_splits)
    next
      case Unvisited
      obtain b2 st2 where rec: "dfs_circular m (rid q) ?st1 = (b2, st2)" by fastforce
      have path: "\<forall>p\<in>set rules. ?st1 (rid p) = Visiting \<longrightarrow> (p, q) \<in> (depends_on rules)\<^sup>+"
      proof (intro ballI impI)
        fix p assume p: "p \<in> set rules" "?st1 (rid p) = Visiting"
        show "(p, q) \<in> (depends_on rules)\<^sup>+"
        proof (cases "rid p = rid r")
          case True
          with rid_inj [OF u p(1) r] e show ?thesis by auto
        next
          case False
          with p onpath e show ?thesis by (auto intro: trancl_into_trancl)
        qed
      qed
      have ih: "if b2 then cyclic rules else dfs_returns rules q ?st1 st2"
      proof (rule "1.IH" [of ?st1 "rid q" b2 st2 q])
        show "?st1 = st(i := Visiting)" "rid q = dependency_id m i" "rid q \<noteq> -1" "?st1 (rid q) \<noteq> Visiting"
          "?st1 (rid q) = Unvisited" "dfs_circular m (rid q) ?st1 = (b2, st2)"
          using i dq q1 Unvisited rec by simp_all
      qed (fact m q refl vr1 path)+
      show ?thesis
      proof (cases b2)
        case True
        with ih rec d dq q1 Unvisited show ?thesis by (simp add: Let_def)
      next
        case False
        with ih have ret: "dfs_returns rules q ?st1 st2" by simp
        then obtain k where "depth rules q k" using q by (auto simp: dfs_returns_def visited_ranked_def)
        with Some have "depth rules r (Suc k)" by (simp add: depth_Suc_iff)
        then have "dfs_returns rules r st (st2(rid r := Visited))"
          using ret by (intro dfs_finish [OF u r]) (auto simp: dfs_returns_def)
        with False rec d dq q1 Unvisited show ?thesis by (simp add: Let_def)
      qed
    qed
  qed
qed

lemma check_from_correct:
  assumes "lists_rules m rules" "set is \<subseteq> rid ` set rules" "visited_ranked rules st" "\<forall>j. st j \<noteq> Visiting"
  shows "case check_from m is st of Inl e \<Rightarrow> cyclic rules
    | Inr _ \<Rightarrow> (\<forall>r\<in>set rules. rid r \<in> set is \<longrightarrow> (\<exists>k. depth rules r k))"
  using assms
proof (induction "is" arbitrary: st)
  case (Cons i "is")
  have u: "unambiguous rules" using Cons.prems by (simp add: lists_rules_def)
  from Cons.prems obtain r where r: "r \<in> set rules" "i = rid r" by auto
  obtain b st1 where dfs: "dfs_circular m (rid r) st = (b, st1)" by fastforce
  have ok: "if b then cyclic rules else dfs_returns rules r st st1"
    using dfs_circular_correct [OF Cons.prems(1) dfs r(1) refl Cons.prems(3)] Cons.prems(4) by simp
  have ranked: "\<exists>k. depth rules q k" if "q \<in> set rules" "rid q = i" "visited_ranked rules s" "s i = Visited" for q s
    using that by (auto simp: visited_ranked_def)
  show ?case
  proof (cases "st i = Unvisited")
    case True
    show ?thesis
    proof (cases b)
      case True
      with \<open>st i = Unvisited\<close> r dfs ok show ?thesis by simp
    next
      case False
      with ok have ret: "visited_ranked rules st1" "st1 i = Visited" "\<forall>j. st1 j \<noteq> Visiting"
        using Cons.prems(4) r by (auto simp: dfs_returns_def)
      from Cons.IH [OF Cons.prems(1) _ ret(1,3)] Cons.prems(2) ranked [OF _ _ ret(1,2)] True False r dfs
      show ?thesis by (auto split: sum.splits)
    qed
  next
    case False
    then have "st i = Visited" using Cons.prems(4) by (cases "st i") auto
    from Cons.IH [OF Cons.prems(1) _ Cons.prems(3,4)] Cons.prems(2) ranked [OF _ _ Cons.prems(3) this] False
    show ?thesis by (auto split: sum.splits)
  qed
qed simp

lemma checkCircularDependencies_cases:
  assumes "unambiguous rules" "-1 \<notin> rid ` set rules" "\<forall>m. mset (it m) = mset m"
  shows "case checkCircularDependencies it rules of Inl e \<Rightarrow> cyclic rules | Inr _ \<Rightarrow> \<not> cyclic rules"
proof -
  have d: "distinct (map rid rules)" using assms(1) by (simp add: unambiguous_def)
  let ?m = "it (ruleMap_of rules)"
  have m: "lists_rules ?m rules" using assms by (simp add: lists_rules_def ruleMap_of_distinct [OF d])
  have keys: "set (map fst ?m) = rid ` set rules" using lists_rules_map_of(2) [OF m] by force
  from check_from_correct [OF m, of "map fst ?m" "\<lambda>_. Unvisited"] keys show ?thesis
    by (auto simp: checkCircularDependencies_def Let_def visited_ranked_def cyclic_iff_unranked split: sum.splits)
qed

text \<open>
  C9. The two independent cycle checks agree with each other and with the dependency graph: the
  depth-first check made at validation throws exactly if some rule depends on itself through a
  chain of providers, and then, and only then, the level construction at execution throws. So a
  workflow that passed the check never fails with a circular dependency when it is executed, in
  whatever order the hash map iterates. (The id -1 is excluded: the check uses it to say that no
  provider was found.)
\<close>

theorem circular_checks_agree:
  assumes "unambiguous rules" and "-1 \<notin> rid ` set rules" and "\<forall>m. mset (it m) = mset m"
  shows "(checkCircularDependencies it rules = Inr () \<longleftrightarrow> \<not> cyclic rules) \<and>
    (cyclic rules \<longleftrightarrow> (\<exists>e. buildDependencyLevels rules = Inl e)) \<and>
    (checkCircularDependencies it rules = Inr () \<longleftrightarrow> (\<exists>order. resolveExecutionOrder rules = Inr order))"
proof -
  have a: "checkCircularDependencies it rules = Inr () \<longleftrightarrow> \<not> cyclic rules"
    using checkCircularDependencies_cases [OF assms] by (cases "checkCircularDependencies it rules") auto
  have b: "cyclic rules \<longleftrightarrow> (\<exists>e. buildDependencyLevels rules = Inl e)"
    using buildDependencyLevels_iff [OF assms(1)] by blast
  have c: "(\<exists>order. resolveExecutionOrder rules = Inr order) \<longleftrightarrow> \<not> cyclic rules"
    using b by (cases "buildDependencyLevels rules") (auto simp: resolveExecutionOrder_def)
  from a b c show ?thesis by blast
qed

theorem circular_checks_agree_witness:
  "checkCircularDependencies rev sample_rules = Inr () \<and> \<not> cyclic sample_rules"
proof -
  have ids: "-1 \<notin> rid ` set sample_rules" by (simp add: sample_rules_def dep_rule_def sample_data_def)
  have perm: "\<forall>m. mset (rev m) = mset (m :: rule_map)" by simp
  from circular_checks_agree [OF sample_rules_unambiguous ids perm] sample_rules_levels show ?thesis by simp
qed

text \<open>The order of execution is sorted by depth and then priority.\<close>

definition before :: "Rule list \<Rightarrow> Rule \<Rightarrow> Rule \<Rightarrow> bool" where
  "before rules a b \<longleftrightarrow> (\<forall>k l. depth rules a k \<longrightarrow> depth rules b l \<longrightarrow> k < l \<or> k = l \<and> rprio a \<le> rprio b)"

lemma sorted_order: "sorted_wrt (before rules) (concat (map (level_at rules) [0..<n]))"
proof (induction n)
  case (Suc n)
  have "sorted_wrt (\<lambda>a b. rprio a \<le> rprio b) (level_at rules n)"
    by (metis level_at_def sort_level_def sorted_map sorted_sort_key)
  then have "sorted_wrt (before rules) (level_at rules n)"
    by (rule sorted_wrt_mono_rel [rotated])
       (auto simp: before_def level_at_def sort_level_def dest: depth_det)
  moreover have "before rules a b" if "a \<in> set (concat (map (level_at rules) [0..<n]))" "b \<in> set (level_at rules n)" for a b
    using that by (fastforce simp: before_def level_at_def sort_level_def dest: depth_det)
  ultimately show ?case using Suc by (simp add: sorted_wrt_append)
qed simp

text \<open>
  C10. Execution order: the order that \<^verbatim>\<open>resolveExecutionOrder\<close> returns is a permutation of the
  workflow's rules in which the provider of every rule stands before it; and a rule stands before
  another whenever its dependency depth is smaller, or is the same and its priority value is
  smaller.
\<close>

theorem resolveExecutionOrder_sound:
  assumes "unambiguous rules" and "resolveExecutionOrder rules = Inr order"
  shows "mset order = mset rules \<and>
    (\<forall>i<length order. \<forall>q. provider rules (order ! i) = Some q \<longrightarrow> q \<in> set (take i order)) \<and>
    (\<forall>i<length order. \<forall>j<length order. \<forall>k l. depth rules (order ! i) k \<and> depth rules (order ! j) l \<and>
       (k < l \<or> k = l \<and> rprio (order ! i) < rprio (order ! j)) \<longrightarrow> i < j)"
proof -
  from assms(2) obtain levels where lv: "buildDependencyLevels rules = Inr levels" "order = concat levels"
    by (cases "buildDependencyLevels rules") (auto simp: resolveExecutionOrder_def)
  from buildDependencyLevels_cases [OF assms(1)] lv obtain n
    where n: "order = concat (map (level_at rules) [0..<n])" "all_ranked rules 0 n"
    by (metis Inl_Inr_False sum.inject(2))
  have perm: "mset order = mset rules" using mset_concat_levels [OF n(2)] n(1) by simp
  then have setO: "set order = set rules" by (metis set_mset_mset)
  have srt: "before rules (order ! j) (order ! i)" if "j < i" "i < length order" for i j
    using sorted_order [of rules n] that by (simp add: n(1) sorted_wrt_iff_nth_less)
  have lt: "i < j" if ij: "i < length order" "j < length order" and d: "depth rules (order ! i) k" "depth rules (order ! j) l"
    and kl: "k < l \<or> k = l \<and> rprio (order ! i) < rprio (order ! j)" for i j k l
  proof (rule ccontr)
    assume "\<not> i < j"
    then consider "j = i" | "j < i" by linarith
    then show False
    proof cases
      case 1
      with d depth_det have "k = l" by blast
      with 1 kl show False by simp
    next
      case 2
      from srt [OF 2 ij(1)] d have "l < k \<or> l = k \<and> rprio (order ! j) \<le> rprio (order ! i)"
        unfolding before_def by blast
      with kl show False by linarith
    qed
  qed
  have prov: "q \<in> set (take i order)" if i: "i < length order" "provider rules (order ! i) = Some q" for i q
  proof -
    have "order ! i \<in> set rules" using i(1) setO nth_mem by blast
    with n(2) obtain l where l: "depth rules (order ! i) l" by (auto simp: all_ranked_def)
    with i(2) obtain k where k: "depth rules q k" "k < l" by (cases l) (auto simp: depth_Suc_iff)
    have "q \<in> set order" using i(2) setO by (simp add: provider_SomeD)
    then obtain j where j: "j < length order" "order ! j = q" by (auto simp: in_set_conv_nth)
    with lt [of j i k l] i k l have "j < i" by simp
    with j i show ?thesis by (auto simp: in_set_conv_nth)
  qed
  from perm prov lt show ?thesis by blast
qed

lemma sample_rules_order: "resolveExecutionOrder sample_rules =
    Inr [dep_rule 3 ''tax'' 1 None, dep_rule 2 ''audit'' 5 None, dep_rule 1 ''total'' 0 (Some ''tax'')]"
  by (simp add: resolveExecutionOrder_def sample_rules_levels)

theorem resolveExecutionOrder_sound_witness:
  "mset [dep_rule 3 ''tax'' 1 None, dep_rule 2 ''audit'' 5 None, dep_rule 1 ''total'' 0 (Some ''tax'')] = mset sample_rules"
  using resolveExecutionOrder_sound [OF sample_rules_unambiguous sample_rules_order] by blast

text \<open>
  Rule names have to be unique for this: two active rules that share a name on which a third
  rule depends make \<^verbatim>\<open>buildDependencyLevels\<close> report a circular dependency although the dependency
  graph has none and \<^verbatim>\<open>checkCircularDependencies\<close> passes. The in-degree is counted once per
  dependent rule but decremented once per rule with that name, so it becomes negative.
\<close>

definition twin_rules :: "Rule list" where
  "twin_rules = [dep_rule 1 ''base'' 0 None, dep_rule 2 ''base'' 0 None, dep_rule 3 ''top'' 0 (Some ''base'')]"

lemma duplicate_names_block_execution:
  "checkCircularDependencies id twin_rules = Inr () \<and>
   resolveExecutionOrder twin_rules = Inl circular_in_workflow \<and> \<not> cyclic twin_rules"
proof -
  have "checkCircularDependencies id twin_rules = Inr ()" by code_simp
  moreover have "resolveExecutionOrder twin_rules = Inl circular_in_workflow" by code_simp
  moreover have "\<exists>k. depth twin_rules r k" if "r \<in> set twin_rules" for r
  proof -
    have base: "depth twin_rules (dep_rule 1 ''base'' 0 None) 0" by (simp add: provider_def dep_rule_def)
    have "provider twin_rules (dep_rule 3 ''top'' 0 (Some ''base'')) = Some (dep_rule 1 ''base'' 0 None)"
      by (simp add: provider_def twin_rules_def dep_rule_def)
    with base have "depth twin_rules (dep_rule 3 ''top'' 0 (Some ''base'')) (Suc 0)" by (rule depth.depth_Suc [rotated])
    moreover have "depth twin_rules (dep_rule 2 ''base'' 0 None) 0" by (simp add: provider_def dep_rule_def)
    moreover have "r \<in> {dep_rule 1 ''base'' 0 None, dep_rule 2 ''base'' 0 None, dep_rule 3 ''top'' 0 (Some ''base'')}"
      using that by (simp add: twin_rules_def)
    ultimately show ?thesis using base by blast
  qed
  ultimately show ?thesis by (auto simp: cyclic_iff_unranked)
qed

end
