(* ===== verification/Rule_Dependencies.thy ===== *)
theory Rule_Dependencies
  imports Workflow_Order
begin

text \<open>
  The dependency checks that a rule makes itself (include/fastrules/rule.hpp, src/rule.cpp):
  \<^verbatim>\<open>Rule::validate\<close> with its three-colour depth-first search, \<^verbatim>\<open>hasCircularDependency\<close>,
  \<^verbatim>\<open>getDependencyChain\<close> and the checked \<^verbatim>\<open>Builder::dependsOn\<close>; and the builder and the factories
  that make rules. The loops that follow a dependency chain end because the set of visited ids
  grows inside the finite set of known ids.
\<close>

section \<open>Building rules\<close>

definition default_rule_data :: RuleData where
  "default_rule_data =
     \<lparr>rule_id = 0, rule_name = [], description = [], expression = [], action = [], priority = 0,
      isActive = True, timeout = None, dependsOnRuleName = None, cacheDuration = None,
      rateLimiter = None\<rparr>"

text \<open>The builder owns one rule; its address is chosen by the allocator.\<close>

definition Builder :: "nat \<Rightarrow> int \<Rightarrow> Rule" where
  "Builder a i = Rule a (default_rule_data\<lparr>rule_id := i\<rparr>) []"

primrec update_data :: "(RuleData \<Rightarrow> RuleData) \<Rightarrow> Rule \<Rightarrow> Rule" where
  "update_data f (Rule a d cs) = Rule a (f d) cs"

definition withName :: "string \<Rightarrow> Rule \<Rightarrow> Rule" where
  "withName n = update_data (\<lambda>d. d\<lparr>rule_name := n\<rparr>)"

definition withDescription :: "string \<Rightarrow> Rule \<Rightarrow> Rule" where
  "withDescription s = update_data (\<lambda>d. d\<lparr>description := s\<rparr>)"

definition withExpression :: "string \<Rightarrow> Rule \<Rightarrow> Rule" where
  "withExpression e = update_data (\<lambda>d. d\<lparr>expression := e\<rparr>)"

definition withAction :: "string \<Rightarrow> Rule \<Rightarrow> Rule" where
  "withAction s = update_data (\<lambda>d. d\<lparr>action := s\<rparr>)"

definition withPriority :: "int \<Rightarrow> Rule \<Rightarrow> Rule" where
  "withPriority p = update_data (\<lambda>d. d\<lparr>priority := p\<rparr>)"

definition builder_active :: "bool \<Rightarrow> Rule \<Rightarrow> Rule" where
  "builder_active b = update_data (\<lambda>d. d\<lparr>isActive := b\<rparr>)"

definition withCache :: "int \<Rightarrow> Rule \<Rightarrow> Rule" where
  "withCache ms = update_data (\<lambda>d. d\<lparr>cacheDuration := Some ms\<rparr>)"

definition withTimeout :: "int \<Rightarrow> Rule \<Rightarrow> Rule" where
  "withTimeout ms = update_data (\<lambda>d. d\<lparr>timeout := Some ms\<rparr>)"

definition dependsOn :: "string \<Rightarrow> Rule \<Rightarrow> Rule" where
  "dependsOn n = update_data (\<lambda>d. d\<lparr>dependsOnRuleName := Some n\<rparr>)"

primrec withChild :: "Rule \<Rightarrow> Rule \<Rightarrow> Rule" where
  "withChild c (Rule a d cs) = Rule a d (cs @ [c])"

definition withRateLimiter :: "nat \<Rightarrow> Rule \<Rightarrow> Rule" where
  "withRateLimiter l = update_data (\<lambda>d. d\<lparr>rateLimiter := Some l\<rparr>)"

definition create_rule :: "nat \<Rightarrow> int \<Rightarrow> string \<Rightarrow> bool \<Rightarrow> Rule" where
  "create_rule a i e act = builder_active act (withExpression e (Builder a i))"

definition setTimeout :: "int \<Rightarrow> RuleData \<Rightarrow> exn + RuleData" where
  "setTimeout to d =
     (if to \<le> 0 then Inl (StdException RuleValidationException ''Timeout must be greater than zero'')
      else Inr (d\<lparr>timeout := Some to\<rparr>))"

definition or_default :: "string \<Rightarrow> string \<Rightarrow> string" where
  "or_default desc def = (if desc = [] then def else desc)"

definition quoted :: "string \<Rightarrow> string" where
  "quoted s = [CHR 0x22] @ s @ [CHR 0x22]"

definition rule_isNotNull :: "string \<Rightarrow> string \<Rightarrow> RuleData" where
  "rule_isNotNull p desc =
     default_rule_data\<lparr>description := or_default desc (p @ '' is not null''),
       expression := ''isNotNull('' @ p @ '')''\<rparr>"

definition rule_greaterThan :: "'h fr_env \<Rightarrow> string \<Rightarrow> 64 word \<Rightarrow> string \<Rightarrow> RuleData" where
  "rule_greaterThan env p v desc =
     default_rule_data\<lparr>description := or_default desc (p @ '' > '' @ e_fmt_double env v),
       expression := p @ '' > '' @ e_fmt_double env v\<rparr>"

definition rule_lessThan :: "'h fr_env \<Rightarrow> string \<Rightarrow> 64 word \<Rightarrow> string \<Rightarrow> RuleData" where
  "rule_lessThan env p v desc =
     default_rule_data\<lparr>description := or_default desc (p @ '' < '' @ e_fmt_double env v),
       expression := p @ '' < '' @ e_fmt_double env v\<rparr>"

definition rule_equals :: "string \<Rightarrow> string \<Rightarrow> string \<Rightarrow> RuleData" where
  "rule_equals p v desc =
     default_rule_data\<lparr>description := or_default desc (p @ '' == '' @ v),
       expression := p @ '' == '' @ quoted v\<rparr>"

definition rule_matchesRegex :: "string \<Rightarrow> string \<Rightarrow> string \<Rightarrow> RuleData" where
  "rule_matchesRegex p pat desc =
     default_rule_data\<lparr>description := or_default desc (p @ '' matches '' @ pat),
       expression := ''matchesRegex('' @ p @ '', '' @ quoted pat @ '')''\<rparr>"

definition rule_contains :: "string \<Rightarrow> string \<Rightarrow> string \<Rightarrow> RuleData" where
  "rule_contains p sub desc =
     default_rule_data\<lparr>description := or_default desc (p @ '' contains '' @ sub),
       expression := ''string.find('' @ p @ '', '' @ quoted sub @ '') ~= nil''\<rparr>"

section \<open>Following a dependency chain\<close>

text \<open>\<^verbatim>\<open>nameToId\<close>: named rules only, a later rule of the same name wins.\<close>

definition nameToId_of :: "Rule list \<Rightarrow> (string \<times> int) list" where
  "nameToId_of rules =
     fold (\<lambda>r m. if rname r \<noteq> [] then AList.update (rname r) (rid r) m else m) rules []"

definition lookup_name :: "(string \<times> int) list \<Rightarrow> string option \<Rightarrow> int option" where
  "lookup_name names dep = (case dep of None \<Rightarrow> None | Some n \<Rightarrow> map_of names n)"

definition next_id :: "rule_map \<Rightarrow> (string \<times> int) list \<Rightarrow> int \<Rightarrow> int option" where
  "next_id m names current =
     (case map_of m current of None \<Rightarrow> None | Some r \<Rightarrow> lookup_name names (rdep r))"

lemma lookup_name_range: "lookup_name names dep = Some i \<Longrightarrow> i \<in> snd ` set names"
  by (auto simp: lookup_name_def image_iff dest!: map_of_SomeD split: option.splits) force

lemma next_id_range: "next_id m names i = Some j \<Longrightarrow> j \<in> snd ` set names"
  by (auto simp: next_id_def intro: lookup_name_range split: option.splits)

lemma unvisited_shrinks:
  assumes "i \<in> K" "i \<notin> V" "finite K"
  shows "card (K - insert i V) < card (K - V)"
  using assms by (intro psubset_card_mono) auto

function circular_loop :: "rule_map \<Rightarrow> (string \<times> int) list \<Rightarrow> int \<Rightarrow> int set \<Rightarrow> int \<Rightarrow> bool" where
  "circular_loop m names self visited current =
     (if current = 0 then False
      else if current = self then True
      else if current \<in> visited then True
      else case next_id m names current of
             None \<Rightarrow> False
           | Some n \<Rightarrow> circular_loop m names self (insert current visited) n)"
  by pat_completeness auto
termination circular_loop
proof (relation "measure (\<lambda>(m, names, self, V, c). card (insert c (snd ` set names) - V))")
  fix m names and self :: int and V c n
  assume "next_id m names c = Some n" "c \<notin> V"
  then have "insert n (snd ` set names) \<subseteq> insert c (snd ` set names)"
    using next_id_range by blast
  then have "card (insert n (snd ` set names) - insert c V) \<le> card (insert c (snd ` set names) - insert c V)"
    by (intro card_mono) auto
  also have "\<dots> < card (insert c (snd ` set names) - V)"
    using \<open>c \<notin> V\<close> by (intro unvisited_shrinks) auto
  finally show "((m, names, self, insert c V, n), (m, names, self, V, c)) \<in>
      measure (\<lambda>(m, names, self, V, c). card (insert c (snd ` set names) - V))" by simp
qed simp

declare circular_loop.simps [simp del]

definition hasCircularDependency :: "Rule \<Rightarrow> Rule list \<Rightarrow> bool" where
  "hasCircularDependency r allRules =
     (let m = ruleMap_of allRules; names = nameToId_of allRules
      in case lookup_name names (rdep r) of
           None \<Rightarrow> False
         | Some i \<Rightarrow> circular_loop m names (rid r) {} i)"

function chain_loop :: "rule_map \<Rightarrow> (string \<times> int) list \<Rightarrow> int set \<Rightarrow> int \<Rightarrow> int list" where
  "chain_loop m names visited current =
     (if current = 0 then []
      else current #
        (if current \<in> visited then []
         else case next_id m names current of
                None \<Rightarrow> []
              | Some n \<Rightarrow> chain_loop m names (insert current visited) n))"
  by pat_completeness auto
termination chain_loop
proof (relation "measure (\<lambda>(m, names, V, c). card (insert c (snd ` set names) - V))")
  fix m names V c n
  assume "next_id m names c = Some n" "c \<notin> V"
  then have "insert n (snd ` set names) \<subseteq> insert c (snd ` set names)"
    using next_id_range by blast
  then have "card (insert n (snd ` set names) - insert c V) \<le> card (insert c (snd ` set names) - insert c V)"
    by (intro card_mono) auto
  also have "\<dots> < card (insert c (snd ` set names) - V)"
    using \<open>c \<notin> V\<close> by (intro unvisited_shrinks) auto
  finally show "((m, names, insert c V, n), (m, names, V, c)) \<in>
      measure (\<lambda>(m, names, V, c). card (insert c (snd ` set names) - V))" by simp
qed simp

declare chain_loop.simps [simp del]

definition getDependencyChain :: "Rule \<Rightarrow> Rule list \<Rightarrow> int list" where
  "getDependencyChain r allRules =
     rid r #
       (case lookup_name (nameToId_of allRules) (rdep r) of
          None \<Rightarrow> []
        | Some i \<Rightarrow> chain_loop (ruleMap_of allRules) (nameToId_of allRules) {} i)"

text \<open>The checked \<^verbatim>\<open>Builder::dependsOn\<close>: whether the chain from \<open>current\<close> returns to the rule that
  is being built.\<close>

function builds_cycle :: "rule_map \<Rightarrow> (string \<times> int) list \<Rightarrow> int \<Rightarrow> int set \<Rightarrow> int \<Rightarrow> bool" where
  "builds_cycle m names self visited current =
     (if current = 0 then False
      else case next_id m names current of
             None \<Rightarrow> False
           | Some n \<Rightarrow> if n = self then True
                       else if n \<in> visited then False
                       else builds_cycle m names self (insert n visited) n)"
  by pat_completeness auto
termination builds_cycle
proof (relation "measure (\<lambda>(m, names, self, V, c). card (snd ` set names - V))")
  fix m names and self :: int and V c n
  assume "next_id m names c = Some n" "n \<notin> V"
  then have "card (snd ` set names - insert n V) < card (snd ` set names - V)"
    using next_id_range by (intro unvisited_shrinks) auto
  then show "((m, names, self, insert n V, n), (m, names, self, V, c)) \<in>
      measure (\<lambda>(m, names, self, V, c). card (snd ` set names - V))" by simp
qed simp

declare builds_cycle.simps [simp del]

definition dependsOn_checked :: "string \<Rightarrow> Rule list \<Rightarrow> Rule \<Rightarrow> exn + Rule" where
  "dependsOn_checked n dependentRules r =
     (let r' = dependsOn n r; m = ruleMap_of dependentRules; names = nameToId_of dependentRules
      in case map_of names n of
           None \<Rightarrow> Inr r'
         | Some i \<Rightarrow>
             if i = rid r
             then Inl (StdException RuleValidationException
                         (''Circular dependency detected: rule '' @ std_to_string (rid r) @ '' depends on itself''))
             else if builds_cycle m names (rid r) {} i
             then Inl (StdException RuleValidationException ''Circular dependency detected'')
             else Inr r')"

section \<open>Validation\<close>

datatype Color = White | Gray | Black

record dep_graph =
  adjacency :: "int \<Rightarrow> int list"
  ruleById :: "int list"
  ruleByName :: "string \<rightharpoonup> int"

definition add_key :: "int \<Rightarrow> int list \<Rightarrow> int list" where
  "add_key i ks = (if i \<in> set ks then ks else ks @ [i])"

definition add_edge :: "int \<Rightarrow> int \<Rightarrow> dep_graph \<Rightarrow> dep_graph" where
  "add_edge i j g = g\<lparr>adjacency := (adjacency g)(i := adjacency g i @ [j])\<rparr>"

text \<open>One round of the loop that builds the graph: a rule sees the names of the rules before it
  and its own.\<close>

definition add_rule :: "Rule \<Rightarrow> dep_graph \<Rightarrow> dep_graph" where
  "add_rule r g =
     (let g1 = g\<lparr>ruleById := add_key (rid r) (ruleById g),
                 ruleByName := (if rname r \<noteq> [] then (ruleByName g)(rname r \<mapsto> rid r)
                                else ruleByName g)\<rparr>;
          g2 = (case rdep r of
                  None \<Rightarrow> g1
                | Some n \<Rightarrow> (case ruleByName g1 n of None \<Rightarrow> g1 | Some i \<Rightarrow> add_edge (rid r) i g1))
      in fold (\<lambda>c g. if rid c \<noteq> 0
                       then (add_edge (rid r) (rid c) g)\<lparr>ruleById := add_key (rid c) (ruleById g)\<rparr>
                       else g) (childRules r) g2)"

definition dependency_graph :: "Rule list \<Rightarrow> dep_graph" where
  "dependency_graph allRules =
     fold add_rule allRules \<lparr>adjacency = (\<lambda>_. []), ruleById = [], ruleByName = Map.empty\<rparr>"

fun arrows :: "int list \<Rightarrow> string" where
  "arrows [] = []"
| "arrows [i] = std_to_string i"
| "arrows (i # is) = std_to_string i @ '' -> '' @ arrows is"

definition cycle_found :: "int list \<Rightarrow> int \<Rightarrow> exn" where
  "cycle_found stack n =
     StdException RuleValidationException
       (''Circular dependency detected: '' @ arrows (dropWhile (\<lambda>i. i \<noteq> n) stack) @ '' -> '' @ std_to_string n)"

type_synonym coloring = "(int \<times> Color) list"

definition whites :: "coloring \<Rightarrow> int set" where
  "whites color = {n. map_of color n = Some White}"

lemma finite_whites [simp]: "finite (whites color)"
  by (rule finite_subset [of _ "dom (map_of color)"]) (auto simp: whites_def finite_dom_map_of)

lemma whites_update: "c \<noteq> White \<Longrightarrow> whites (AList.update n c color) = whites color - {n}"
  by (auto simp: whites_def update_conv')

text \<open>The lambda \<^verbatim>\<open>dfs\<close>, over the neighbours that are left at the node on top of the stack.\<close>

function dfs_edges :: "(int \<Rightarrow> int list) \<Rightarrow> coloring \<Rightarrow> int list \<Rightarrow> int list \<Rightarrow> exn + coloring" where
  "dfs_edges adj color stack [] = Inr color"
| "dfs_edges adj color stack (n # ns) =
     (case map_of color n of
        None \<Rightarrow> dfs_edges adj color stack ns
      | Some Gray \<Rightarrow> Inl (cycle_found stack n)
      | Some White \<Rightarrow>
          (case dfs_edges adj (AList.update n Gray color) (stack @ [n]) (adj n) of
             Inl e \<Rightarrow> Inl e
           | Inr color' \<Rightarrow> dfs_edges adj (AList.update n Black color') stack ns)
      | Some Black \<Rightarrow> dfs_edges adj color stack ns)"
  by pat_completeness auto
termination dfs_edges
proof -
  let ?R = "inv_image (less_than <*lex*> less_than) (\<lambda>(adj, color, stack, ns). (card (whites color), length ns))"
  have sub: "whites c \<subseteq> whites color" if "dfs_edges_dom (adj, color, stack, ns)" "dfs_edges adj color stack ns = Inr c"
    for adj color stack ns c
    using that
  proof (induction arbitrary: c rule: dfs_edges.pinduct)
    case (1 adj color stack)
    then show ?case by (simp add: dfs_edges.psimps)
  next
    case (2 adj color stack n ns)
    note d = 2(6) [unfolded dfs_edges.psimps(2) [OF 2(1)]]
    show ?case
    proof (cases "map_of color n")
      case None
      with d 2(2) show ?thesis by simp
    next
      case (Some k)
      show ?thesis
      proof (cases k)
        case White
        with Some d obtain c' where c': "dfs_edges adj (AList.update n Gray color) (stack @ [n]) (adj n) = Inr c'"
          "dfs_edges adj (AList.update n Black c') stack ns = Inr c" by (auto split: sum.splits)
        with 2(3) [OF Some White c'(1)] 2(4) [OF Some White c'(1) c'(2)] show ?thesis
          by (auto simp: whites_update)
      next
        case Gray
        with Some d show ?thesis by simp
      next
        case Black
        with Some d 2(5) show ?thesis by simp
      qed
    qed
  qed
  show ?thesis
  proof (relation ?R)
    show "wf ?R" by auto
  next
    fix adj :: "int \<Rightarrow> int list" and color :: coloring and stack n ns k
    assume "map_of color n = Some k" "k = White"
    then have "n \<in> whites color" by (simp add: whites_def)
    then have "card (whites (AList.update n Gray color)) < card (whites color)"
      by (intro psubset_card_mono) (auto simp: whites_update)
    then show "((adj, AList.update n Gray color, stack @ [n], adj n), (adj, color, stack, n # ns)) \<in> ?R" by simp
  next
    fix adj :: "int \<Rightarrow> int list" and color :: coloring and stack n ns k c'
    assume k: "map_of color n = Some k" "k = White"
      and c: "dfs_edges adj (AList.update n Gray color) (stack @ [n]) (adj n) = Inr c'"
        "dfs_edges_dom (adj, AList.update n Gray color, stack @ [n], adj n)"
    have "whites (AList.update n Black c') \<subseteq> whites color - {n}"
      using sub [OF c(2,1)] by (auto simp: whites_update)
    moreover have "n \<in> whites color" using k by (simp add: whites_def)
    ultimately have "card (whites (AList.update n Black c')) < card (whites color)"
      by (intro psubset_card_mono) auto
    then show "((adj, AList.update n Black c', stack, ns), (adj, color, stack, n # ns)) \<in> ?R" by simp
  qed auto
qed

fun dfs_from :: "(int \<Rightarrow> int list) \<Rightarrow> coloring \<Rightarrow> int list \<Rightarrow> exn + coloring" where
  "dfs_from adj color [] = Inr color"
| "dfs_from adj color (n # ns) =
     (if map_of color n = Some White
      then (case dfs_edges adj (AList.update n Gray color) [n] (adj n) of
              Inl e \<Rightarrow> Inl e
            | Inr color' \<Rightarrow> dfs_from adj (AList.update n Black color') ns)
      else dfs_from adj color ns)"

text \<open>\<open>it\<close> is the iteration order of the hash map \<^verbatim>\<open>ruleById\<close>.\<close>

definition check_graph :: "(int list \<Rightarrow> int list) \<Rightarrow> Rule list \<Rightarrow> exn + unit" where
  "check_graph it allRules =
     (let g = dependency_graph allRules; ids = it (ruleById g)
      in map_sum id (\<lambda>_. ()) (dfs_from (adjacency g) (map (\<lambda>i. (i, White)) ids) ids))"

fun check_duplicates :: "int set \<Rightarrow> Rule list \<Rightarrow> exn + unit" where
  "check_duplicates seen [] = Inr ()"
| "check_duplicates seen (r # rs) =
     (if rid r \<in> seen
      then Inl (StdException RuleValidationException (''Duplicate rule ID: '' @ std_to_string (rid r)))
      else check_duplicates (insert (rid r) seen) rs)"

definition check_rule :: "(int list \<Rightarrow> int list) \<Rightarrow> Rule \<Rightarrow> Rule list \<Rightarrow> exn + unit" where
  "check_rule it r allRules =
     (case check_graph it allRules of
        Inl e \<Rightarrow> Inl e
      | Inr _ \<Rightarrow>
          if list_ex (\<lambda>q. rid q = 0) allRules
          then Inl (StdException RuleValidationException ''Rule has zero ID'')
          else (case check_duplicates {} allRules of
                  Inl e \<Rightarrow> Inl e
                | Inr _ \<Rightarrow>
                    (case rdep r of
                       None \<Rightarrow> Inr ()
                     | Some n \<Rightarrow>
                         if list_ex (\<lambda>q. rname q = n) allRules then Inr ()
                         else Inl (StdException RuleValidationException
                                     (''Rule depends on non-existent rule: '' @ n)))))"

definition rule_validate ::
    "(int list \<Rightarrow> int list) \<Rightarrow> Rule \<Rightarrow> Rule list \<Rightarrow> 'h world \<Rightarrow> (exn + unit) \<times> 'h world" where
  "rule_validate it r allRules w =
     (let st = w_store w (addr r)
      in if isValidated st then (Inr (), w)
         else (case check_rule it r allRules of
                 Inl e \<Rightarrow> (Inl e, w)
               | Inr _ \<Rightarrow> (Inr (), w\<lparr>w_store := (w_store w)(addr r := st\<lparr>isValidated := True\<rparr>)\<rparr>)))"

section \<open>Correctness of the depth-first search\<close>

definition edges :: "(int \<Rightarrow> int list) \<Rightarrow> coloring \<Rightarrow> (int \<times> int) set" where
  "edges adj color = {(i, j). i \<in> dom (map_of color) \<and> j \<in> dom (map_of color) \<and> j \<in> set (adj i)}"

definition grays :: "coloring \<Rightarrow> int set" where
  "grays color = {n. map_of color n = Some Gray}"

definition blacks :: "coloring \<Rightarrow> int set" where
  "blacks color = {n. map_of color n = Some Black}"

text \<open>Finished nodes lead to finished nodes only, and no cycle goes through them.\<close>

definition blacks_done :: "(int \<times> int) set \<Rightarrow> coloring \<Rightarrow> bool" where
  "blacks_done E color \<longleftrightarrow>
     E `` blacks color \<subseteq> blacks color \<and> (\<forall>b\<in>blacks color. (b, b) \<notin> E\<^sup>+)"

lemma dom_update_color: "n \<in> dom (map_of color) \<Longrightarrow> dom (map_of (AList.update n c color)) = dom (map_of color)"
  by (auto simp: update_conv')

lemma blacks_closed:
  assumes "(i, j) \<in> E\<^sup>+" "E `` B \<subseteq> B" "i \<in> B"
  shows "j \<in> B"
  using assms by (induction rule: trancl_induct) auto

lemma blacken:
  assumes "blacks_done E color" "n \<notin> blacks color" "E `` {n} \<subseteq> blacks color"
  shows "E `` insert n (blacks color) \<subseteq> insert n (blacks color)" "\<forall>b\<in>insert n (blacks color). (b, b) \<notin> E\<^sup>+"
proof -
  show "E `` insert n (blacks color) \<subseteq> insert n (blacks color)" using assms by (auto simp: blacks_done_def)
  have "(n, n) \<notin> E\<^sup>+"
  proof
    assume "(n, n) \<in> E\<^sup>+"
    then obtain m where "(n, m) \<in> E" "(m, n) \<in> E\<^sup>*" by (meson tranclD)
    moreover from this(1) assms(3) have "m \<in> blacks color" by auto
    ultimately have "n \<in> blacks color"
      using assms(1) blacks_closed [of m n E "blacks color"] by (auto simp: blacks_done_def rtrancl_eq_or_trancl)
    with assms(2) show False by contradiction
  qed
  with assms(1) show "\<forall>b\<in>insert n (blacks color). (b, b) \<notin> E\<^sup>+" by (auto simp: blacks_done_def)
qed

definition dfs_post :: "(int \<times> int) set \<Rightarrow> coloring \<Rightarrow> int list \<Rightarrow> coloring \<Rightarrow> bool" where
  "dfs_post E color ns c \<longleftrightarrow>
     blacks_done E c \<and> dom (map_of c) = dom (map_of color) \<and> grays c = grays color \<and>
     blacks color \<subseteq> blacks c \<and> set ns \<inter> dom (map_of color) \<subseteq> blacks c"

text \<open>The search at the node on top of the stack: it fails only if a cycle is found, and
  otherwise finishes every neighbour that is a node.\<close>

lemma dfs_edges_correct:
  assumes "E = edges adj color" "blacks_done E color" "set ns \<subseteq> set (adj u)" "u \<in> grays color"
    "\<forall>g\<in>grays color. (g, u) \<in> E\<^sup>*"
  shows "case dfs_edges adj color stack ns of Inl e \<Rightarrow> \<exists>i. (i, i) \<in> E\<^sup>+ | Inr c \<Rightarrow> dfs_post E color ns c"
  using assms
proof (induction adj color stack ns arbitrary: u rule: dfs_edges.induct)
  case (1 adj color stack)
  then show ?case by (simp add: dfs_post_def)
next
  case (2 adj color stack n ns)
  have u: "u \<in> dom (map_of color)" using 2(8) by (auto simp: grays_def)
  show ?case
  proof (cases "map_of color n")
    case None
    with 2(1) [OF None 2(5,6) _ 2(8,9)] 2(7) show ?thesis
      by (auto simp: dfs_post_def domIff split: sum.splits)
  next
    case (Some k)
    have e: "(u, n) \<in> E" using 2(5,7) u Some by (auto simp: edges_def)
    show ?thesis
    proof (cases k)
      case Gray
      with Some 2(9) have "(n, u) \<in> E\<^sup>*" by (auto simp: grays_def)
      with e have "(n, n) \<in> E\<^sup>+" by (rule rtrancl_into_trancl1 [rotated])
      with Some Gray show ?thesis by auto
    next
      case Black
      with 2(4) [OF Some Black 2(5,6) _ 2(8,9)] 2(7) Some show ?thesis
        by (auto simp: dfs_post_def blacks_def split: sum.splits)
    next
      case White
      let ?c1 = "AList.update n Gray color"
      have n: "n \<in> dom (map_of color)" using Some by auto
      have E1: "E = edges adj ?c1" using 2(5) by (simp add: edges_def dom_update_color [OF n])
      have g1: "grays ?c1 = insert n (grays color)" and b1: "blacks ?c1 = blacks color"
        using Some White by (auto simp: grays_def blacks_def update_conv' split: if_splits)
      have path: "\<forall>g\<in>grays ?c1. (g, n) \<in> E\<^sup>*"
        using 2(9) e by (auto simp: g1 intro: rtrancl.rtrancl_into_rtrancl)
      have d1: "blacks_done E ?c1" using 2(6) by (simp add: blacks_done_def b1)
      note ih1 = 2(2) [OF Some White E1 d1 subset_refl _ path]
      show ?thesis
      proof (cases "dfs_edges adj ?c1 (stack @ [n]) (adj n)")
        case (Inl x)
        with ih1 Some White show ?thesis by (simp add: g1)
      next
        case (Inr c)
        with ih1 have p: "dfs_post E ?c1 (adj n) c" by (simp add: g1)
        let ?c2 = "AList.update n Black c"
        have dc: "dom (map_of c) = dom (map_of color)" using p by (simp add: dfs_post_def dom_update_color [OF n])
        have "n \<in> grays c" using p by (simp add: dfs_post_def g1)
        then have nb: "n \<notin> blacks c" by (simp add: grays_def blacks_def)
        have "E `` {n} \<subseteq> blacks c" using p by (auto simp: dfs_post_def E1 edges_def)
        note bl = blacken [OF _ nb this]
        have b2: "blacks ?c2 = insert n (blacks c)" and g2: "grays ?c2 = grays color"
          using p Some White by (auto simp: blacks_def grays_def dfs_post_def update_conv' g1 [unfolded grays_def] split: if_splits)
        have E2: "E = edges adj ?c2" using 2(5) n dc by (simp add: edges_def dom_update_color)
        have d2: "blacks_done E ?c2" using bl p by (simp add: blacks_done_def b2 dfs_post_def)
        have "case dfs_edges adj ?c2 stack ns of Inl e \<Rightarrow> \<exists>i. (i, i) \<in> E\<^sup>+ | Inr c' \<Rightarrow> dfs_post E ?c2 ns c'"
          using 2(3) [OF Some White Inr E2 d2, of u] 2(7,8,9) by (simp add: g2)
        moreover have "dfs_post E color (n # ns) c'" if "dfs_post E ?c2 ns c'" for c'
          using that p n dc by (auto simp: dfs_post_def b2 g2 b1 dom_update_color)
        ultimately show ?thesis using Some White Inr by (auto split: sum.splits)
      qed
    qed
  qed
qed

lemma dfs_from_correct:
  assumes "E = edges adj color" "blacks_done E color" "grays color = {}"
  shows "case dfs_from adj color ns of Inl e \<Rightarrow> \<exists>i. (i, i) \<in> E\<^sup>+
    | Inr c \<Rightarrow> blacks_done E c \<and> blacks color \<subseteq> blacks c \<and> set ns \<inter> dom (map_of color) \<subseteq> blacks c"
  using assms
proof (induction ns arbitrary: color)
  case (Cons n ns)
  show ?case
  proof (cases "map_of color n = Some White")
    case True
    let ?c1 = "AList.update n Gray color"
    have n: "n \<in> dom (map_of color)" using True by auto
    have E1: "E = edges adj ?c1" using Cons.prems(1) by (simp add: edges_def dom_update_color [OF n])
    have g1: "grays ?c1 = {n}" using Cons.prems(3) by (auto simp: grays_def update_conv')
    have b1: "blacks ?c1 = blacks color" using True by (auto simp: blacks_def update_conv')
    have d1: "blacks_done E ?c1" using Cons.prems(2) by (simp add: blacks_done_def b1)
    note ih1 = dfs_edges_correct [OF E1 d1 subset_refl, of n "[n]"]
    show ?thesis
    proof (cases "dfs_edges adj ?c1 [n] (adj n)")
      case (Inl x)
      with ih1 True show ?thesis by (simp add: g1)
    next
      case (Inr c)
      with ih1 have p: "dfs_post E ?c1 (adj n) c" by (simp add: g1)
      let ?c2 = "AList.update n Black c"
      have dc: "dom (map_of c) = dom (map_of color)" using p by (simp add: dfs_post_def dom_update_color [OF n])
      have gc: "grays c = {n}" using p by (simp add: dfs_post_def g1)
      then have "n \<in> grays c" by simp
      then have nb: "n \<notin> blacks c" by (simp add: grays_def blacks_def)
      have "E `` {n} \<subseteq> blacks c" using p by (auto simp: dfs_post_def E1 edges_def)
      note bl = blacken [OF _ nb this]
      have b2: "blacks ?c2 = insert n (blacks c)" by (auto simp: blacks_def update_conv')
      have g2: "grays ?c2 = {}" using gc by (auto simp: grays_def update_conv' split: if_splits)
      have E2: "E = edges adj ?c2" using Cons.prems(1) n dc by (simp add: edges_def dom_update_color)
      have d2: "blacks_done E ?c2" using bl p by (simp add: blacks_done_def b2 dfs_post_def)
      from Cons.IH [OF E2 d2 g2] True Inr p n dc show ?thesis
        by (auto simp: b2 b1 dfs_post_def dom_update_color split: sum.splits)
    qed
  next
    case False
    then have "n \<in> dom (map_of color) \<Longrightarrow> n \<in> blacks color"
      using Cons.prems(3) by (auto simp: blacks_def grays_def) (metis Color.exhaust)
    with False Cons.IH [OF Cons.prems] show ?thesis by (auto split: sum.splits)
  qed
qed simp

text \<open>The dependency graph that \<^verbatim>\<open>Rule::validate\<close> examines.\<close>

definition graph_edges :: "Rule list \<Rightarrow> (int \<times> int) set" where
  "graph_edges rules =
     (let g = dependency_graph rules
      in {(i, j). i \<in> set (ruleById g) \<and> j \<in> set (ruleById g) \<and> j \<in> set (adjacency g i)})"

lemma map_of_map_keys: "map_of (map (\<lambda>i. (i, f i)) ks) = (Some \<circ> f) |` set ks"
  by (rule map_of_map_restrict)

lemma check_graph_acyclic:
  assumes "\<And>ks. set (it ks) = set ks"
  shows "check_graph it rules = Inr () \<longleftrightarrow> acyclic (graph_edges rules)"
proof -
  let ?g = "dependency_graph rules"
  let ?ids = "it (ruleById ?g)" and ?E = "graph_edges rules"
  let ?c = "map (\<lambda>i. (i, White)) ?ids"
  have m: "map_of ?c i = (if i \<in> set (ruleById ?g) then Some White else None)" for i
    by (simp add: map_of_map_keys restrict_map_def assms)
  have E: "?E = edges (adjacency ?g) ?c" by (auto simp: graph_edges_def edges_def Let_def m dom_def split: if_splits)
  have b: "blacks ?c = {}" "grays ?c = {}" by (auto simp: blacks_def grays_def m split: if_splits)
  have "case dfs_from (adjacency ?g) ?c ?ids of Inl e \<Rightarrow> \<exists>i. (i, i) \<in> ?E\<^sup>+
      | Inr c \<Rightarrow> blacks_done ?E c \<and> set (ruleById ?g) \<subseteq> blacks c"
  proof -
    have "dom (map_of ?c) = set (ruleById ?g)" by (auto simp: m split: if_splits)
    with dfs_from_correct [OF E _ b(2), of ?ids] show ?thesis
      by (simp add: blacks_done_def b assms split: sum.splits)
  qed
  moreover have "i \<in> set (ruleById ?g)" if "(i, i) \<in> ?E\<^sup>+" for i
    using that by (auto simp: graph_edges_def Let_def dest: tranclD)
  ultimately show ?thesis
    by (cases "dfs_from (adjacency ?g) ?c ?ids") (auto simp: check_graph_def Let_def acyclic_def blacks_done_def, blast)
qed

lemma check_duplicates_iff:
  "check_duplicates seen rules = Inr () \<longleftrightarrow> distinct (map rid rules) \<and> seen \<inter> rid ` set rules = {}"
  by (induction rules arbitrary: seen) auto


definition mutual_rules :: "Rule list" where
  "mutual_rules = [dep_rule 1 ''a'' 0 (Some ''b''), dep_rule 2 ''b'' 0 (Some ''a'')]"


text \<open>
  What \<^verbatim>\<open>Rule::validate\<close> does not see: it resolves a dependency only among the rules listed up
  to the rule itself, so two rules that depend on each other both pass, and only the check of the
  whole workflow reports the cycle.
\<close>

lemma validate_misses_forward_cycle:
  "check_rule id (mutual_rules ! 0) mutual_rules = Inr () \<and>
   check_rule id (mutual_rules ! 1) mutual_rules = Inr () \<and>
   checkCircularDependencies id mutual_rules = Inl (StdException RuleValidationException ''Circular dependency detected'')"
proof (intro conjI)
  show "check_rule id (mutual_rules ! 0) mutual_rules = Inr ()" by code_simp
  show "check_rule id (mutual_rules ! 1) mutual_rules = Inr ()" by code_simp
  show "checkCircularDependencies id mutual_rules = Inl (StdException RuleValidationException ''Circular dependency detected'')"
    by code_simp
qed

section \<open>Correctness of the chain loops\<close>

lemma nameToId_lookup:
  "n \<noteq> [] \<Longrightarrow> map_of (nameToId_of rules) n = map_option rid (find (\<lambda>q. rname q = n) (rev rules))"
  unfolding nameToId_of_def by (induction rules rule: rev_induct) (auto simp: update_conv')

text \<open>What the chain loops rely on besides unambiguous names: ids are not zero, which ends a
  chain, and no dependency is the empty name, which is not entered into \<^verbatim>\<open>nameToId\<close>.\<close>

definition chain_ready :: "Rule list \<Rightarrow> bool" where
  "chain_ready rules \<longleftrightarrow> unambiguous rules \<and> 0 \<notin> rid ` set rules \<and> Some [] \<notin> rdep ` set rules"

lemma lookup_provider:
  assumes "chain_ready rules" "q \<in> set rules"
  shows "lookup_name (nameToId_of rules) (rdep q) = map_option rid (provider rules q)"
proof (cases "rdep q")
  case None
  then show ?thesis by (simp add: lookup_name_def provider_def)
next
  case (Some n)
  have u: "unambiguous rules" using assms by (simp add: chain_ready_def)
  have "n \<noteq> []" using assms Some by (metis chain_ready_def image_eqI)
  then have l: "lookup_name (nameToId_of rules) (rdep q) = map_option rid (find (\<lambda>q. rname q = n) (rev rules))"
    by (simp add: lookup_name_def nameToId_lookup Some)
  show ?thesis
  proof (cases "find (\<lambda>q. rname q = n) (rev rules)")
    case None
    then have "find (\<lambda>q. rname q = n) rules = None" by (simp add: find_None_iff)
    with None l Some show ?thesis by (simp add: provider_def)
  next
    case f: (Some p)
    then have "p \<in> set rules" "rname p = n" by (auto dest: find_SomeD)
    with Some provider_iff [OF u assms(2)] have "provider rules q = Some p" by blast
    with f l show ?thesis by simp
  qed
qed

lemma next_provider:
  assumes "chain_ready rules" "q \<in> set rules"
  shows "next_id (ruleMap_of rules) (nameToId_of rules) (rid q) = map_option rid (provider rules q)"
proof -
  have "distinct (map rid rules)" using assms by (simp add: chain_ready_def unambiguous_def)
  then have "map_of (ruleMap_of rules) (rid q) = Some q"
    using assms(2) by (simp add: ruleMap_of_distinct o_def)
  with lookup_provider [OF assms] show ?thesis by (simp add: next_id_def)
qed

definition ranked :: "Rule list \<Rightarrow> Rule \<Rightarrow> bool" where
  "ranked rules r \<longleftrightarrow> (\<exists>k. depth rules r k)"

lemma ranked_provider: "provider rules r = Some q \<Longrightarrow> ranked rules r \<longleftrightarrow> ranked rules q"
  unfolding ranked_def by (metis depth.cases depth_Suc option.distinct(1) option.inject)

lemma cycle_unranked: "(r, r) \<in> (depends_on rules)\<^sup>+ \<Longrightarrow> \<not> ranked rules r"
  unfolding ranked_def using depth_trancl depth_det by blast

lemma circular_loop_iff:
  assumes ok: "chain_ready rules"
  shows "q \<in> set rules \<Longrightarrow> c = rid q \<Longrightarrow> m = ruleMap_of rules \<Longrightarrow> names = nameToId_of rules \<Longrightarrow>
    self = rid r \<Longrightarrow> r \<in> set rules \<Longrightarrow> (r, q) \<in> (depends_on rules)\<^sup>+ \<Longrightarrow>
    \<forall>p\<in>set rules. rid p \<in> V \<longrightarrow> (p, q) \<in> (depends_on rules)\<^sup>+ \<Longrightarrow>
    circular_loop m names self V c \<longleftrightarrow> \<not> ranked rules q"
proof (induction m names self V c arbitrary: q rule: circular_loop.induct)
  case (1 m names self V c)
  have u: "unambiguous rules" using ok by (simp add: chain_ready_def)
  have c0: "c \<noteq> 0" using ok 1(2,3) unfolding chain_ready_def by force
  have nx: "next_id m names c = map_option rid (provider rules q)"
    using next_provider [OF ok 1(2)] 1(3-5) by simp
  show ?case
  proof (cases "c = self \<or> c \<in> V")
    case True
    then have "(q, q) \<in> (depends_on rules)\<^sup>+"
      using 1(2,3,6-9) rid_inj [OF u 1(2) 1(7)] by auto
    then have "\<not> ranked rules q" by (rule cycle_unranked)
    with True c0 show ?thesis by (auto simp: circular_loop.simps [of m names self V c])
  next
    case False
    show ?thesis
    proof (cases "provider rules q")
      case None
      then have "depth rules q 0" by simp
      then have "ranked rules q" unfolding ranked_def by blast
      with None False c0 nx show ?thesis by (simp add: circular_loop.simps [of m names self V c])
    next
      case (Some p)
      have e: "(q, p) \<in> depends_on rules" and p: "p \<in> set rules"
        using Some 1(2) by (simp_all add: depends_on_def provider_SomeD)
      have vis: "\<forall>x\<in>set rules. rid x \<in> insert c V \<longrightarrow> (x, p) \<in> (depends_on rules)\<^sup>+"
      proof (intro ballI impI)
        fix x assume x: "x \<in> set rules" "rid x \<in> insert c V"
        show "(x, p) \<in> (depends_on rules)\<^sup>+"
        proof (cases "rid x = c")
          case True
          with 1(3) rid_inj [OF u x(1) 1(2)] e show ?thesis by auto
        next
          case False
          with x 1(9) e show ?thesis by (auto intro: trancl_into_trancl)
        qed
      qed
      have "circular_loop m names self (insert c V) (rid p) \<longleftrightarrow> \<not> ranked rules p"
        using False c0 nx Some 1(8) e
        by (intro "1.IH" [OF _ _ _ _ p refl 1(4-7) _ vis]) (auto intro: trancl_into_trancl)
      with False c0 nx Some ranked_provider [OF Some] show ?thesis
        by (simp add: circular_loop.simps [of m names self V c])
    qed
  qed
qed

text \<open>The providers of a rule, up to \<open>k\<close> of them.\<close>

fun provider_chain :: "Rule list \<Rightarrow> nat \<Rightarrow> Rule \<Rightarrow> Rule list" where
  "provider_chain rules 0 r = [r]"
| "provider_chain rules (Suc k) r =
     (case provider rules r of None \<Rightarrow> [r] | Some q \<Rightarrow> r # provider_chain rules k q)"

lemma length_provider_chain: "depth rules r k \<Longrightarrow> length (provider_chain rules k r) = Suc k"
  by (induction k arbitrary: r) (auto simp: depth_Suc_iff)

lemma chain_loop_providers:
  assumes ok: "chain_ready rules"
  shows "depth rules q k \<Longrightarrow> q \<in> set rules \<Longrightarrow>
    \<forall>p\<in>set rules. rid p \<in> V \<longrightarrow> (p, q) \<in> (depends_on rules)\<^sup>+ \<Longrightarrow>
    chain_loop (ruleMap_of rules) (nameToId_of rules) V (rid q) = map rid (provider_chain rules k q)"
proof (induction k arbitrary: q V)
  case 0
  have "rid q \<noteq> 0" using ok 0(2) unfolding chain_ready_def by force
  with 0 next_provider [OF ok 0(2)] show ?case
    by (simp add: chain_loop.simps [of "ruleMap_of rules"])
next
  case (Suc k)
  have u: "unambiguous rules" using ok by (simp add: chain_ready_def)
  have c0: "rid q \<noteq> 0" using ok Suc(3) unfolding chain_ready_def by force
  from Suc(2) obtain p where p: "provider rules q = Some p" "depth rules p k" by (auto simp: depth_Suc_iff)
  have e: "(q, p) \<in> depends_on rules" and ps: "p \<in> set rules"
    using p(1) Suc(3) by (simp_all add: depends_on_def provider_SomeD)
  have "rid q \<notin> V"
  proof
    assume "rid q \<in> V"
    with Suc(3,4) have "(q, q) \<in> (depends_on rules)\<^sup>+" by blast
    then show False using Suc(2) cycle_unranked unfolding ranked_def by blast
  qed
  moreover have "\<forall>x\<in>set rules. rid x \<in> insert (rid q) V \<longrightarrow> (x, p) \<in> (depends_on rules)\<^sup>+"
    using Suc(4) e rid_inj [OF u _ Suc(3)] by (auto intro: trancl_into_trancl)
  ultimately show ?case
    using Suc.IH [OF p(2) ps] next_provider [OF ok Suc(3)] p(1) c0
    by (simp add: chain_loop.simps [of "ruleMap_of rules" _ V])
qed

text \<open>
  The chain queries of a rule agree with the dependency graph: for a rule of the list,
  \<^verbatim>\<open>hasCircularDependency\<close> answers true exactly if its chain of providers runs into a cycle, and
  otherwise \<^verbatim>\<open>getDependencyChain\<close> is the rule's id followed by the ids of all its providers, one
  after the other, up to a rule that depends on nothing.
\<close>

lemma dependency_chain_exact:
  assumes "chain_ready rules" and "r \<in> set rules"
  shows "(hasCircularDependency r rules \<longleftrightarrow> (\<nexists>k. depth rules r k)) \<and>
    (\<forall>k. depth rules r k \<longrightarrow> getDependencyChain r rules = map rid (provider_chain rules k r) \<and>
       length (getDependencyChain r rules) = Suc k)"
proof (intro conjI allI impI)
  have start: "(r, q) \<in> (depends_on rules)\<^sup>+" "q \<in> set rules" if "provider rules r = Some q" for q
    using that assms(2) by (auto simp: depends_on_def provider_SomeD)
  show "hasCircularDependency r rules \<longleftrightarrow> (\<nexists>k. depth rules r k)"
  proof (cases "provider rules r")
    case None
    then have "ranked rules r" unfolding ranked_def by (metis depth_0)
    with None lookup_provider [OF assms] show ?thesis by (simp add: hasCircularDependency_def Let_def ranked_def)
  next
    case (Some q)
    with lookup_provider [OF assms] have "hasCircularDependency r rules =
        circular_loop (ruleMap_of rules) (nameToId_of rules) (rid r) {} (rid q)"
      by (simp add: hasCircularDependency_def Let_def)
    also have "\<dots> \<longleftrightarrow> \<not> ranked rules q"
      using start [OF Some] assms by (intro circular_loop_iff) auto
    finally show ?thesis using ranked_provider [OF Some] by (simp add: ranked_def)
  qed
  fix k assume d: "depth rules r k"
  show chain: "getDependencyChain r rules = map rid (provider_chain rules k r)"
  proof (cases k)
    case 0
    with d lookup_provider [OF assms] show ?thesis by (simp add: getDependencyChain_def)
  next
    case (Suc j)
    with d obtain q where q: "provider rules r = Some q" "depth rules q j" by (auto simp: depth_Suc_iff)
    have "chain_loop (ruleMap_of rules) (nameToId_of rules) {} (rid q) = map rid (provider_chain rules j q)"
      using start [OF q(1)] q(2) by (intro chain_loop_providers [OF assms(1)]) auto
    with q Suc lookup_provider [OF assms] show ?thesis by (simp add: getDependencyChain_def)
  qed
  show "length (getDependencyChain r rules) = Suc k" by (simp add: chain length_provider_chain [OF d])
qed

lemma dependency_chain_exact_example:
  "getDependencyChain (dep_rule 1 ''total'' 0 (Some ''tax'')) sample_rules = [1, 3]"
proof -
  let ?r = "dep_rule 1 ''total'' 0 (Some ''tax'')" and ?q = "dep_rule 3 ''tax'' 1 None"
  have ok: "chain_ready sample_rules"
    using sample_rules_unambiguous by (simp add: chain_ready_def sample_rules_def dep_rule_def sample_data_def)
  have r: "?r \<in> set sample_rules" by (simp add: sample_rules_def)
  have p: "provider sample_rules ?r = Some ?q" by (simp add: provider_def sample_rules_def dep_rule_def)
  moreover have "depth sample_rules ?q 0" by (simp add: provider_def dep_rule_def)
  ultimately have "depth sample_rules ?r (Suc 0)" by (rule depth.depth_Suc)
  with dependency_chain_exact [OF ok r] p show ?thesis by (simp add: dep_rule_def sample_data_def)
qed

text \<open>
  The cycle check of \<^verbatim>\<open>Builder::dependsOn\<close> cannot find a cycle through the rule that is being
  built unless the supplied list already holds a rule with its id: the rule under construction is
  not part of the graph that the check follows, so with a list of the other rules every
  dependency is accepted.
\<close>

lemma dependsOn_check_needs_itself:
  assumes "rid r \<notin> rid ` set rules"
  shows "dependsOn_checked n rules r = Inr (dependsOn n r)"
proof -
  have names: "snd ` set (nameToId_of rules) \<subseteq> rid ` set rules"
  proof -
    have "snd ` set (AList.update k v m) \<subseteq> insert v (snd ` set m)" for k and v :: int and m :: "(string \<times> int) list"
      by (induction m) auto
    then have upd: "snd ` set (AList.update k v m) \<subseteq> A" if "snd ` set m \<subseteq> A" "v \<in> A"
      for k and v :: int and m :: "(string \<times> int) list" and A
      using that by blast
    have "snd ` set (fold (\<lambda>r m. if rname r \<noteq> [] then AList.update (rname r) (rid r) m else m) qs m) \<subseteq> rid ` set rules"
      if "set qs \<subseteq> set rules" "snd ` set m \<subseteq> rid ` set rules" for qs m
      using that by (induction qs arbitrary: m) (simp_all add: upd)
    then show ?thesis unfolding nameToId_of_def by simp
  qed
  have "\<not> builds_cycle m (nameToId_of rules) (rid r) V c" for m V c
  proof (induction m "nameToId_of rules" "rid r" V c rule: builds_cycle.induct)
    case (1 m V c)
    have "n \<noteq> rid r" if "next_id m (nameToId_of rules) c = Some n" for n
      using next_id_range [OF that] names assms by auto
    with 1 show ?case by (subst builds_cycle.simps) (auto split: option.splits)
  qed
  moreover have "i \<noteq> rid r" if "map_of (nameToId_of rules) n = Some i" for i
    using that names assms by (force dest: map_of_SomeD)
  ultimately show ?thesis by (simp add: dependsOn_checked_def Let_def split: option.splits)
qed

lemma dependsOn_check_needs_itself_example:
  "dependsOn_checked ''b'' [dep_rule 2 ''b'' 0 (Some ''a'')] (dep_rule 1 ''a'' 0 None) = Inr (dep_rule 1 ''a'' 0 (Some ''b''))"
  using dependsOn_check_needs_itself [of "dep_rule 1 ''a'' 0 None" "[dep_rule 2 ''b'' 0 (Some ''a'')]" "''b''"]
  by (simp add: dep_rule_def sample_data_def dependsOn_def)

end
