(* ===== verification/Execution_Tracer.thy ===== *)
theory Execution_Tracer
  imports FR_Prelude
begin

text \<open>
  \<^verbatim>\<open>ExecutionTracer\<close> and \<^verbatim>\<open>ExecutionTrace\<close> (include/fastrules/execution_tracer.hpp,
  src/execution_tracer.cpp): a recorder of steps that is active between \<^verbatim>\<open>start\<close> and \<^verbatim>\<open>finish\<close>,
  and the queries on the finished trace. Clock readings are arguments.
\<close>

record ExecutionTraceStep =
  ts_ruleName :: string
  ts_stage :: string
  ts_success :: bool
  ts_startedAt :: int
  ts_endedAt :: int
  ts_message :: "string option"
  ts_dependencyId :: "int option"
  ts_expression :: "string option"
  ts_action :: "string option"

definition init_step :: ExecutionTraceStep where
  "init_step =
     \<lparr>ts_ruleName = [], ts_stage = [], ts_success = True, ts_startedAt = 0, ts_endedAt = 0,
      ts_message = None, ts_dependencyId = None, ts_expression = None, ts_action = None\<rparr>"

definition step_duration :: "ExecutionTraceStep \<Rightarrow> int" where
  "step_duration s = ts_endedAt s - ts_startedAt s"

record ExecutionTrace =
  tr_workflowId :: int
  tr_startedAt :: int
  tr_endedAt :: int
  tr_steps :: "ExecutionTraceStep list"
  tr_overallSuccess :: bool

record ExecutionTracer =
  tracer_trace :: ExecutionTrace
  tracer_active :: bool

definition create_tracer :: "int \<Rightarrow> ExecutionTracer" where
  "create_tracer wid =
     \<lparr>tracer_trace = \<lparr>tr_workflowId = wid, tr_startedAt = 0, tr_endedAt = 0, tr_steps = [],
                      tr_overallSuccess = False\<rparr>, tracer_active = False\<rparr>"

definition tracer_start :: "int \<Rightarrow> ExecutionTracer \<Rightarrow> ExecutionTracer" where
  "tracer_start t tr =
     tr\<lparr>tracer_trace := (tracer_trace tr)\<lparr>tr_startedAt := t\<rparr>, tracer_active := True\<rparr>"

definition addStep :: "ExecutionTraceStep \<Rightarrow> ExecutionTracer \<Rightarrow> ExecutionTracer" where
  "addStep step tr =
     (if tracer_active tr
      then tr\<lparr>tracer_trace := (tracer_trace tr)\<lparr>tr_steps := tr_steps (tracer_trace tr) @ [step]\<rparr>\<rparr>
      else tr)"

definition record_step ::
    "int \<Rightarrow> string \<Rightarrow> string \<Rightarrow> bool \<Rightarrow> string option \<Rightarrow> int option \<Rightarrow> ExecutionTracer \<Rightarrow> ExecutionTracer" where
  "record_step t ruleName stage ok message depId tr =
     (if \<not> tracer_active tr then tr
      else let step = init_step\<lparr>ts_ruleName := ruleName, ts_stage := stage, ts_success := ok,
                        ts_startedAt := t, ts_endedAt := t, ts_message := message,
                        ts_dependencyId := depId\<rparr>
           in tr\<lparr>tracer_trace := (tracer_trace tr)\<lparr>tr_steps := tr_steps (tracer_trace tr) @ [step]\<rparr>\<rparr>)"

definition tracer_finish :: "int \<Rightarrow> bool \<Rightarrow> ExecutionTracer \<Rightarrow> ExecutionTracer" where
  "tracer_finish t ok tr =
     tr\<lparr>tracer_trace := (tracer_trace tr)\<lparr>tr_endedAt := t, tr_overallSuccess := ok\<rparr>,
        tracer_active := False\<rparr>"

definition totalDuration :: "ExecutionTrace \<Rightarrow> int" where
  "totalDuration tr = tr_endedAt tr - tr_startedAt tr"

definition getStepsForRule :: "ExecutionTrace \<Rightarrow> string \<Rightarrow> ExecutionTraceStep list" where
  "getStepsForRule tr name = filter (\<lambda>s. ts_ruleName s = name) (tr_steps tr)"

fun total_in_stage :: "string \<Rightarrow> int \<Rightarrow> ExecutionTraceStep list \<Rightarrow> int" where
  "total_in_stage stage acc [] = acc"
| "total_in_stage stage acc (s # ss) =
     total_in_stage stage (if ts_stage s = stage then acc + step_duration s else acc) ss"

definition getTotalTimeInStage :: "ExecutionTrace \<Rightarrow> string \<Rightarrow> int" where
  "getTotalTimeInStage tr stage = total_in_stage stage 0 (tr_steps tr)"

text \<open>\<^verbatim>\<open>std::max_element\<close>: the first step that no later one exceeds.\<close>

fun max_element :: "ExecutionTraceStep \<Rightarrow> ExecutionTraceStep list \<Rightarrow> ExecutionTraceStep" where
  "max_element best [] = best"
| "max_element best (s # ss) =
     max_element (if step_duration best < step_duration s then s else best) ss"

definition getSlowestStep :: "ExecutionTrace \<Rightarrow> ExecutionTraceStep option" where
  "getSlowestStep tr =
     (case tr_steps tr of [] \<Rightarrow> None | s # ss \<Rightarrow> Some (max_element s ss))"

lemma addStep_steps:
  "tracer_active tr \<Longrightarrow> tr_steps (tracer_trace (addStep s tr)) = tr_steps (tracer_trace tr) @ [s]"
  "tracer_active (addStep s tr) = tracer_active tr"
  by (simp_all add: addStep_def)

lemma total_in_stage_sum:
  "total_in_stage stage n ss = n + sum_list (map step_duration (filter (\<lambda>s. ts_stage s = stage) ss))"
  by (induction ss arbitrary: n) simp_all

lemma max_element_in: "max_element b ss \<in> insert b (set ss)"
proof (induction ss arbitrary: b)
  case (Cons s ss)
  from Cons [of s] Cons [of b] show ?case by auto
qed simp

lemma max_element_max: "s \<in> insert b (set ss) \<Longrightarrow> step_duration s \<le> step_duration (max_element b ss)"
proof (induction ss arbitrary: b s)
  case (Cons x ss)
  let ?b = "if step_duration b < step_duration x then x else b"
  have "step_duration s \<le> step_duration ?b \<or> s \<in> set ss" using Cons.prems by auto
  moreover have "step_duration ?b \<le> step_duration (max_element ?b ss)" by (rule Cons.IH) simp
  moreover have "step_duration s \<le> step_duration (max_element ?b ss)" if "s \<in> set ss"
    using that by (intro Cons.IH) simp
  ultimately have "step_duration s \<le> step_duration (max_element ?b ss)" by linarith
  then show ?case by simp
qed simp

end
