(* ===== verification/Workflow.thy ===== *)
theory Workflow
  imports Rule_Execute Rule_Dependencies Execution_Tracer
begin

text \<open>
  \<^verbatim>\<open>Workflow\<close> (include/fastrules/workflow.hpp, src/workflow.cpp): validation, compilation into the
  caller's engine and into a pool of clones, and the execution modes. The state of a call is the
  workflow, the world of rule execution (whose engine is the one the caller passes) and the
  process-wide counter of engine instances. A pool engine is an index into the storage of clones;
  the pool is the stack of free indices. Arguments: \<open>it\<close> and \<open>its\<close>, iteration orders of hash
  maps; \<open>hw\<close>, the hardware concurrency; \<open>sched\<close>, the order in which the tasks of a parallel batch
  run. Tasks of a batch run one after the other in that order.
\<close>

record 'h Workflow =
  wf_id :: int
  wf_name :: string
  wf_description :: string
  wf_rules :: "Rule list"
  wf_isActive :: bool
  validated :: bool
  wf_compiled :: bool
  useEnginePool :: bool
  enginePool :: "nat list"
  enginePoolStorage :: "'h LuaEngine list"
  adaptiveThreshold :: "64 word"
  autoDetectThreshold :: bool
  sequentialAvgTime :: "64 word"
  parallelAvgTime :: "64 word"
  sequentialRuns :: nat
  parallelRuns :: nat

record 'h wf_state =
  s_wf :: "'h Workflow"
  s_w :: "'h world"
  s_instances :: "64 word"

section \<open>Builder and collected actions\<close>

definition default_workflow :: "'h Workflow" where
  "default_workflow =
     \<lparr>wf_id = 0, wf_name = [], wf_description = [], wf_rules = [], wf_isActive = True,
      validated = False, wf_compiled = False, useEnginePool = False, enginePool = [],
      enginePoolStorage = [], adaptiveThreshold = 4, autoDetectThreshold = False,
      sequentialAvgTime = 0, parallelAvgTime = 0, sequentialRuns = 0, parallelRuns = 0\<rparr>"

definition wf_Builder :: "int \<Rightarrow> 'h Workflow" where
  "wf_Builder workflowId = default_workflow\<lparr>wf_id := workflowId\<rparr>"

definition wf_withDescription :: "string \<Rightarrow> 'h Workflow \<Rightarrow> 'h Workflow" where
  "wf_withDescription desc wk = wk\<lparr>wf_description := desc\<rparr>"

definition wf_addRule :: "Rule \<Rightarrow> 'h Workflow \<Rightarrow> 'h Workflow" where
  "wf_addRule r wk = wk\<lparr>wf_rules := wf_rules wk @ [r]\<rparr>"

definition wf_active :: "bool \<Rightarrow> 'h Workflow \<Rightarrow> 'h Workflow" where
  "wf_active b wk = wk\<lparr>wf_isActive := b\<rparr>"

fun rule_actions :: "Rule \<Rightarrow> string list" where
  "rule_actions (Rule a d cs) =
     (if action d \<noteq> [] then [action d] else []) @ concat (map rule_actions cs)"

definition collectActions :: "Rule list \<Rightarrow> string list" where
  "collectActions ruleList = concat (map rule_actions ruleList)"

definition getAllActions :: "'h Workflow \<Rightarrow> string list" where
  "getAllActions wk = collectActions (wf_rules wk)"

section \<open>Validation\<close>

fun wf_check_duplicates :: "int set \<Rightarrow> Rule list \<Rightarrow> exn + unit" where
  "wf_check_duplicates seen [] = Inr ()"
| "wf_check_duplicates seen (r # rs) =
     (if rid r = 0 then wf_check_duplicates seen rs
      else if rid r \<in> seen
      then Inl (StdException RuleValidationException
                  (''Duplicate rule ID detected: '' @ std_to_string (rid r)))
      else wf_check_duplicates (insert (rid r) seen) rs)"

fun validate_rules ::
    "(int list \<Rightarrow> int list) \<Rightarrow> Rule list \<Rightarrow> Rule list \<Rightarrow> 'h world \<Rightarrow> (exn + unit) \<times> 'h world" where
  "validate_rules its allRules [] w = (Inr (), w)"
| "validate_rules its allRules (r # rs) w =
     bindx (rule_validate its r allRules w) (\<lambda>_ w1. validate_rules its allRules rs w1)"

definition wf_validate ::
    "(rule_map \<Rightarrow> rule_map) \<Rightarrow> (int list \<Rightarrow> int list) \<Rightarrow> 'h wf_state \<Rightarrow> (exn + unit) \<times> 'h wf_state" where
  "wf_validate it its s =
     (let wk = s_wf s; rules = wf_rules wk
      in if validated wk then (Inr (), s)
         else (case wf_check_duplicates {} rules of
                 Inl e \<Rightarrow> (Inl e, s)
               | Inr _ \<Rightarrow>
                   (case validate_rules its rules rules (s_w s) of
                      (Inl e, w1) \<Rightarrow> (Inl e, s\<lparr>s_w := w1\<rparr>)
                    | (Inr _, w1) \<Rightarrow>
                        (case checkCircularDependencies it rules of
                           Inl e \<Rightarrow> (Inl e, s\<lparr>s_w := w1\<rparr>)
                         | Inr _ \<Rightarrow> (Inr (), s\<lparr>s_w := w1, s_wf := wk\<lparr>validated := True\<rparr>\<rparr>)))))"

section \<open>Compilation\<close>

text \<open>The clones of the pool: each is a fresh engine into which every rule is compiled.\<close>

fun build_pool ::
    "'h fr_env \<Rightarrow> nat \<Rightarrow> 'h wf_state \<Rightarrow> (exn + unit) \<times> 'h wf_state" where
  "build_pool env 0 s = (Inr (), s)"
| "build_pool env (Suc n) s =
     (let (iid, counter) = nextInstanceId (s_instances s); w = s_w s;
          clone = clone_engine (e_vm env) iid (w_engine w)
      in case compile_all env (wf_rules (s_wf s)) (w\<lparr>w_engine := clone\<rparr>) of
           (Inl e, w1) \<Rightarrow> (Inl e, s\<lparr>s_w := w1\<lparr>w_engine := w_engine w\<rparr>, s_instances := counter\<rparr>)
         | (Inr _, w1) \<Rightarrow>
             build_pool env n
               (s\<lparr>s_w := w1\<lparr>w_engine := w_engine w\<rparr>, s_instances := counter,
                  s_wf := (s_wf s)\<lparr>enginePoolStorage := enginePoolStorage (s_wf s) @ [w_engine w1]\<rparr>\<rparr>))"

text \<open>Pushing the engines in order leaves the last one on top of the stack.\<close>

definition fill_pool :: "'h Workflow \<Rightarrow> 'h Workflow" where
  "fill_pool wk =
     wk\<lparr>enginePool := rev [0..<length (enginePoolStorage wk)], useEnginePool := True,
        wf_compiled := True\<rparr>"

text \<open>Before compiling, the engine gets the registered callbacks and a stub for every callback that an
  action mentions. Registered types, which \<^verbatim>\<open>bindTypesToState\<close> binds, are not modelled.\<close>

definition bind_engine :: "'h Workflow \<Rightarrow> 'h LuaEngine \<Rightarrow> 'h LuaEngine" where
  "bind_engine wk eng =
     (let eng1 = bindActionsToState eng; actions = getAllActions wk
      in if actions \<noteq> [] then discoverCallbacks actions eng1 else eng1)"

definition wf_compile ::
    "'h fr_env \<Rightarrow> (rule_map \<Rightarrow> rule_map) \<Rightarrow> (int list \<Rightarrow> int list) \<Rightarrow> nat \<Rightarrow> 'h wf_state
       \<Rightarrow> (exn + unit) \<times> 'h wf_state" where
  "wf_compile env it its hw s =
     (if wf_compiled (s_wf s) then (Inr (), s)
      else
        bindx (if validated (s_wf s) then (Inr (), s) else wf_validate it its s) (\<lambda>_ s1.
          let w1 = (s_w s1)\<lparr>w_engine := bind_engine (s_wf s1) (w_engine (s_w s1))\<rparr>
          in case compile_all env (wf_rules (s_wf s1)) w1 of
               (Inl e, w2) \<Rightarrow> (Inl e, s1\<lparr>s_w := w2\<rparr>)
             | (Inr _, w2) \<Rightarrow>
                 bindx (build_pool env (max hw 2)
                          (s1\<lparr>s_w := w2, s_wf := (s_wf s1)\<lparr>enginePoolStorage := []\<rparr>\<rparr>))
                   (\<lambda>_ s3. (Inr (), s3\<lparr>s_wf := fill_pool (s_wf s3)\<rparr>))))"

section \<open>Sequential execution\<close>

text \<open>Whether the dependency of a rule has not succeeded in the context.\<close>

definition dep_blocked :: "RuleContext \<Rightarrow> Rule \<Rightarrow> bool" where
  "dep_blocked ctx r =
     (case rdep r of
        None \<Rightarrow> False
      | Some n \<Rightarrow> (case getResult ctx n of None \<Rightarrow> True | Some res \<Rightarrow> \<not> isSuccess res))"

fun run_rules ::
    "'h fr_env \<Rightarrow> RuleParameter list \<Rightarrow> Rule list \<Rightarrow> 'h world \<Rightarrow> RuleResult list \<times> 'h world" where
  "run_rules env ps [] w = ([], w)"
| "run_rules env ps (r # rs) w =
     (if \<not> isActive (rdata r) then run_rules env ps rs w
      else if dep_blocked (w_ctx w) r then run_rules env ps rs w
      else let (res, w1) = execute env r ps w; (rest, w2) = run_rules env ps rs w1
           in (if skipped res then rest else res # rest, w2))"

text \<open>A call runs in a context of its own.\<close>

definition in_new_context :: "('h world \<Rightarrow> 'a \<times> 'h world) \<Rightarrow> 'h world \<Rightarrow> 'a \<times> 'h world" where
  "in_new_context f w =
     (let (x, w1) = f (w\<lparr>w_ctx := init_context\<rparr>) in (x, w1\<lparr>w_ctx := w_ctx w\<rparr>))"

definition ensure_compiled ::
    "'h fr_env \<Rightarrow> (rule_map \<Rightarrow> rule_map) \<Rightarrow> (int list \<Rightarrow> int list) \<Rightarrow> nat \<Rightarrow> 'h wf_state
       \<Rightarrow> (exn + unit) \<times> 'h wf_state" where
  "ensure_compiled env it its hw s =
     (if wf_compiled (s_wf s) then (Inr (), s) else wf_compile env it its hw s)"

definition wf_execute ::
    "'h fr_env \<Rightarrow> (rule_map \<Rightarrow> rule_map) \<Rightarrow> (int list \<Rightarrow> int list) \<Rightarrow> nat \<Rightarrow> RuleParameter list
       \<Rightarrow> 'h wf_state \<Rightarrow> (exn + RuleResult list) \<times> 'h wf_state" where
  "wf_execute env it its hw ps s =
     bindx (ensure_compiled env it its hw s) (\<lambda>_ s1.
       case resolveExecutionOrder (wf_rules (s_wf s1)) of
         Inl e \<Rightarrow> (Inl e, s1)
       | Inr order \<Rightarrow>
           (let (results, w) = in_new_context (run_rules env ps order) (s_w s1)
            in (Inr results, s1\<lparr>s_w := w\<rparr>)))"

section \<open>Traced execution\<close>

definition dependency_step :: "Rule \<Rightarrow> string \<Rightarrow> int \<Rightarrow> int \<Rightarrow> bool \<Rightarrow> ExecutionTraceStep" where
  "dependency_step r n t1 t2 ok =
     init_step\<lparr>ts_ruleName := rname r, ts_stage := ''dependency_check'', ts_dependencyId := Some (- 1),
       ts_startedAt := t1, ts_endedAt := t2, ts_success := ok,
       ts_message := Some (''Dependency '' @ [CHR 0x27] @ n @ [CHR 0x27] @
         (if ok then '' satisfied'' else '' failed or not found''))\<rparr>"

definition execute_step :: "Rule \<Rightarrow> RuleResult \<Rightarrow> int \<Rightarrow> int \<Rightarrow> ExecutionTraceStep" where
  "execute_step r res t1 t2 =
     init_step\<lparr>ts_ruleName := rname r, ts_stage := ''execute'', ts_expression := Some (expression (rdata r)),
       ts_action := Some (action (rdata r)), ts_startedAt := t1, ts_endedAt := t2,
       ts_success := isSuccess res,
       ts_message := Some (case exception res of
           Some msg \<Rightarrow> msg
         | None \<Rightarrow> if skipped res then ''Rule was skipped''
                   else if success res then ''Rule evaluated to true'' else ''Rule evaluated to false'')\<rparr>"

text \<open>The dependency check of a traced rule: two clock readings around the lookup.\<close>

definition traced_dep_check ::
    "'h fr_env \<Rightarrow> Rule \<Rightarrow> 'h world \<Rightarrow> ExecutionTracer \<Rightarrow> bool \<times> 'h world \<times> ExecutionTracer" where
  "traced_dep_check env r w tr =
     (case rdep r of
        None \<Rightarrow> (True, w, tr)
      | Some n \<Rightarrow>
          (let (t1, w1) = now env w; ok = \<not> dep_blocked (w_ctx w) r; (t2, w2) = now env w1
           in (ok, w2, addStep (dependency_step r n t1 t2 ok) tr)))"

fun run_traced ::
    "'h fr_env \<Rightarrow> RuleParameter list \<Rightarrow> Rule list \<Rightarrow> 'h world \<Rightarrow> ExecutionTracer
       \<Rightarrow> RuleResult list \<times> 'h world \<times> ExecutionTracer" where
  "run_traced env ps [] w tr = ([], w, tr)"
| "run_traced env ps (r # rs) w tr =
     (if \<not> isActive (rdata r) then
        (let (t, w1) = (if tracer_active tr then now env w else (0, w))
         in run_traced env ps rs w1 (record_step t (rname r) ''skip'' True (Some ''Rule is inactive'') None tr))
      else
        (let (ok, w1, tr1) = traced_dep_check env r w tr
         in if \<not> ok then run_traced env ps rs w1 tr1
            else
              let (t1, w2) = now env w1; (res, w3) = execute env r ps w2; (t2, w4) = now env w3;
                  tr2 = addStep (execute_step r res t1 t2) tr1;
                  w5 = ctx_setResult (resultKey (rdata r)) res w4;
                  (rest, w6, tr3) = run_traced env ps rs w5 tr2
              in (if skipped res then rest else res # rest, w6, tr3)))"

definition wf_executeWithTrace ::
    "'h fr_env \<Rightarrow> (rule_map \<Rightarrow> rule_map) \<Rightarrow> (int list \<Rightarrow> int list) \<Rightarrow> nat \<Rightarrow> RuleParameter list
       \<Rightarrow> ExecutionTracer \<Rightarrow> 'h wf_state \<Rightarrow> (exn + RuleResult list) \<times> ExecutionTracer \<times> 'h wf_state" where
  "wf_executeWithTrace env it its hw ps tr s =
     (case ensure_compiled env it its hw s of
        (Inl e, s1) \<Rightarrow> (Inl e, tr, s1)
      | (Inr _, s1) \<Rightarrow>
          (let (t, w1) = now env (s_w s1); tr1 = tracer_start t tr
           in case resolveExecutionOrder (wf_rules (s_wf s1)) of
                Inl e \<Rightarrow> (Inl e, tr1, s1\<lparr>s_w := w1\<rparr>)
              | Inr order \<Rightarrow>
                  (let (results, w2, tr2) = run_traced env ps order (w1\<lparr>w_ctx := init_context\<rparr>) tr1;
                       ok = (results \<noteq> [] \<and> list_all isSuccess results); (t2, w3) = now env w2
                   in (Inr results, tracer_finish t2 ok tr2, s1\<lparr>s_w := w3\<lparr>w_ctx := w_ctx w1\<rparr>\<rparr>))))"

section \<open>Streaming execution\<close>

text \<open>The generator owns the rules that are left and its context.\<close>

record stream_state =
  str_order :: "Rule list"
  str_ctx :: RuleContext

fun stream_next ::
    "'h fr_env \<Rightarrow> RuleParameter list \<Rightarrow> Rule list \<Rightarrow> 'h world \<Rightarrow> RuleResult option \<times> Rule list \<times> 'h world" where
  "stream_next env ps [] w = (None, [], w)"
| "stream_next env ps (r # rs) w =
     (if \<not> isActive (rdata r) then stream_next env ps rs w
      else if dep_blocked (w_ctx w) r then stream_next env ps rs w
      else let (res, w1) = execute env r ps w; w2 = ctx_setResult (resultKey (rdata r)) res w1
           in if \<not> skipped res then (Some res, rs, w2) else stream_next env ps rs w2)"

definition generate ::
    "'h fr_env \<Rightarrow> RuleParameter list \<Rightarrow> stream_state \<Rightarrow> 'h world \<Rightarrow> RuleResult option \<times> stream_state \<times> 'h world" where
  "generate env ps st w =
     (let (res, rs, w1) = stream_next env ps (str_order st) (w\<lparr>w_ctx := str_ctx st\<rparr>)
      in (res, \<lparr>str_order = rs, str_ctx = w_ctx w1\<rparr>, w1\<lparr>w_ctx := w_ctx w\<rparr>))"

definition wf_executeStreaming ::
    "'h fr_env \<Rightarrow> (rule_map \<Rightarrow> rule_map) \<Rightarrow> (int list \<Rightarrow> int list) \<Rightarrow> nat
       \<Rightarrow> 'h wf_state \<Rightarrow> (exn + stream_state) \<times> 'h wf_state" where
  "wf_executeStreaming env it its hw s =
     bindx (ensure_compiled env it its hw s) (\<lambda>_ s1.
       (map_sum id (\<lambda>order. \<lparr>str_order = order, str_ctx = init_context\<rparr>)
          (resolveExecutionOrder (wf_rules (s_wf s1))), s1))"

lemma stream_next_shorter:
  "stream_next env ps rs w = (Some res, rs', w') \<Longrightarrow> length rs' < length rs"
proof (induction rs arbitrary: w)
  case (Cons r rs)
  from Cons.prems show ?case
    by (auto simp: split_beta Let_def split: if_splits dest!: Cons.IH intro: less_SucI)
qed simp

lemma generate_shorter:
  "(Some res, st', w') = generate env ps st w \<Longrightarrow> length (str_order st') < length (str_order st)"
  by (auto simp: generate_def Let_def split: prod.splits intro: stream_next_shorter)

text \<open>The range-based loop over a stream that is not paused: it takes results until there is none.\<close>

function drain ::
    "'h fr_env \<Rightarrow> RuleParameter list \<Rightarrow> stream_state \<Rightarrow> 'h world \<Rightarrow> RuleResult list \<times> 'h world" where
  "drain env ps st w =
     (case generate env ps st w of
        (None, st1, w1) \<Rightarrow> ([], w1)
      | (Some res, st1, w1) \<Rightarrow> (let (rest, w2) = drain env ps st1 w1 in (res # rest, w2)))"
  by pat_completeness auto
termination drain
  by (relation "measure (\<lambda>(env, ps, st, w). length (str_order st))") (auto simp: generate_shorter)

declare drain.simps [simp del]

section \<open>Parallel execution\<close>

text \<open>\<^verbatim>\<open>acquireEngine\<close> pops a free engine; without one it gives up after its timeout.
  \<^verbatim>\<open>releaseEngine\<close> pushes it back.\<close>

definition acquireEngine :: "'h Workflow \<Rightarrow> nat option \<times> 'h Workflow" where
  "acquireEngine wk =
     (if useEnginePool wk
      then (case enginePool wk of [] \<Rightarrow> (None, wk) | i # is \<Rightarrow> (Some i, wk\<lparr>enginePool := is\<rparr>))
      else (None, wk))"

definition releaseEngine :: "nat \<Rightarrow> 'h Workflow \<Rightarrow> 'h Workflow" where
  "releaseEngine i wk = (if useEnginePool wk then wk\<lparr>enginePool := i # enginePool wk\<rparr> else wk)"

text \<open>A step that runs on engine \<open>i\<close> of the storage instead of the caller's.\<close>

definition on_engine :: "nat \<Rightarrow> ('h world \<Rightarrow> 'a \<times> 'h world) \<Rightarrow> 'h wf_state \<Rightarrow> 'a \<times> 'h wf_state" where
  "on_engine i f s =
     (let (x, w1) = f ((s_w s)\<lparr>w_engine := enginePoolStorage (s_wf s) ! i\<rparr>)
      in (x, s\<lparr>s_w := w1\<lparr>w_engine := w_engine (s_w s)\<rparr>,
               s_wf := (s_wf s)\<lparr>enginePoolStorage := (enginePoolStorage (s_wf s))[i := w_engine w1]\<rparr>\<rparr>))"

definition task_failure :: "Rule \<Rightarrow> string \<Rightarrow> RuleResult" where
  "task_failure r msg = RuleResult (rname r) (rid r) False False (Some msg) 0 0 init_metrics []"

definition run_task ::
    "'h fr_env \<Rightarrow> RuleParameter list \<Rightarrow> Rule \<Rightarrow> 'h wf_state \<Rightarrow> RuleResult \<times> 'h wf_state" where
  "run_task env ps r s =
     (case acquireEngine (s_wf s) of
        (None, wk) \<Rightarrow>
          (task_failure r ''Failed to acquire engine from pool - timeout or pool empty'', s\<lparr>s_wf := wk\<rparr>)
      | (Some i, wk) \<Rightarrow>
          (let s1 = s\<lparr>s_wf := wk\<rparr>
           in if dep_blocked (w_ctx (s_w s1)) r
              then (task_failure r (''Dependency failed: '' @ the (rdep r)),
                    s1\<lparr>s_wf := releaseEngine i (s_wf s1)\<rparr>)
              else let (res, s2) = on_engine i (execute env r ps) s1
                   in (res, s2\<lparr>s_wf := releaseEngine i (s_wf s2)\<rparr>)))"

fun run_tasks ::
    "'h fr_env \<Rightarrow> RuleParameter list \<Rightarrow> (nat \<times> Rule) list \<Rightarrow> 'h wf_state
       \<Rightarrow> (nat \<times> RuleResult) list \<times> 'h wf_state" where
  "run_tasks env ps [] s = ([], s)"
| "run_tasks env ps ((i, r) # ts) s =
     (let (res, s1) = run_task env ps r s; (rest, s2) = run_tasks env ps ts s1
      in ((i, res) # rest, s2))"

text \<open>The results of a batch are collected in the order of its futures; each is put into the
  context under its rule's key.\<close>

definition run_batch ::
    "'h fr_env \<Rightarrow> ((nat \<times> Rule) list \<Rightarrow> (nat \<times> Rule) list) \<Rightarrow> RuleParameter list \<Rightarrow> Rule list
       \<Rightarrow> 'h wf_state \<Rightarrow> RuleResult list \<times> 'h wf_state" where
  "run_batch env sched ps batch s =
     (let (outs, s1) = run_tasks env ps (sched (enumerate 0 batch)) s;
          results = map (\<lambda>(i, r). the (map_of outs i)) (enumerate 0 batch)
      in (results, s1\<lparr>s_w := fold (\<lambda>(r, res). ctx_setResult (resultKey (rdata r)) res)
                               (zip batch results) (s_w s1)\<rparr>))"

function run_pending ::
    "'h fr_env \<Rightarrow> ((nat \<times> Rule) list \<Rightarrow> (nat \<times> Rule) list) \<Rightarrow> RuleParameter list \<Rightarrow> nat \<Rightarrow> Rule list
       \<Rightarrow> 'h wf_state \<Rightarrow> RuleResult list \<times> 'h wf_state" where
  "run_pending env sched ps conc todo s =
     (if todo = [] \<or> conc = 0 then ([], s)
      else let (results, s1) = run_batch env sched ps (take conc todo) s;
               (rest, s2) = run_pending env sched ps conc (drop conc todo) s1
           in (results @ rest, s2))"
  by pat_completeness auto
termination run_pending
  by (relation "measure (\<lambda>(env, sched, ps, conc, todo, s). length todo)") auto

declare run_pending.simps [simp del]

fun run_levels ::
    "'h fr_env \<Rightarrow> ((nat \<times> Rule) list \<Rightarrow> (nat \<times> Rule) list) \<Rightarrow> RuleParameter list \<Rightarrow> nat \<Rightarrow> Rule list list
       \<Rightarrow> 'h wf_state \<Rightarrow> RuleResult list \<times> 'h wf_state" where
  "run_levels env sched ps conc [] s = ([], s)"
| "run_levels env sched ps conc (level # ls) s =
     (let (results, s1) = run_pending env sched ps conc (filter (\<lambda>r. isActive (rdata r)) level) s;
          (rest, s2) = run_levels env sched ps conc ls s1
      in (results @ rest, s2))"

definition wf_executeParallel ::
    "'h fr_env \<Rightarrow> (rule_map \<Rightarrow> rule_map) \<Rightarrow> (int list \<Rightarrow> int list) \<Rightarrow> nat
       \<Rightarrow> ((nat \<times> Rule) list \<Rightarrow> (nat \<times> Rule) list) \<Rightarrow> RuleParameter list
       \<Rightarrow> 'h wf_state \<Rightarrow> (exn + RuleResult list) \<times> 'h wf_state" where
  "wf_executeParallel env it its hw sched ps s =
     bindx (ensure_compiled env it its hw s) (\<lambda>_ s1.
       case buildDependencyLevels (wf_rules (s_wf s1)) of
         Inl e \<Rightarrow> (Inl e, s1)
       | Inr levels \<Rightarrow>
           (let (results, s2) = run_levels env sched ps (max (length (enginePoolStorage (s_wf s1))) 1) levels
                                  (s1\<lparr>s_w := (s_w s1)\<lparr>w_ctx := init_context\<rparr>\<rparr>)
            in (Inr results, s2\<lparr>s_w := (s_w s2)\<lparr>w_ctx := w_ctx (s_w s1)\<rparr>\<rparr>)))"

section \<open>Asynchronous and adaptive execution\<close>

text \<open>The task of \<^verbatim>\<open>executeAsync\<close>: it runs \<^verbatim>\<open>execute\<close> on an engine of the pool. The engine is a copy
  of the storage slot that is written back at the end, also when \<^verbatim>\<open>execute\<close> throws.\<close>

definition wf_executeAsync ::
    "'h fr_env \<Rightarrow> (rule_map \<Rightarrow> rule_map) \<Rightarrow> (int list \<Rightarrow> int list) \<Rightarrow> nat \<Rightarrow> RuleParameter list
       \<Rightarrow> 'h wf_state \<Rightarrow> (exn + RuleResult list) \<times> 'h wf_state" where
  "wf_executeAsync env it its hw ps s =
     (case acquireEngine (s_wf s) of
        (None, wk) \<Rightarrow>
          (Inr [RuleResult (wf_name wk) 0 False False
                  (Some ''Failed to acquire engine from pool for async execution'') 0 0 init_metrics []],
           s\<lparr>s_wf := wk\<rparr>)
      | (Some i, wk) \<Rightarrow>
          (let caller = w_engine (s_w s);
               s1 = s\<lparr>s_wf := wk, s_w := (s_w s)\<lparr>w_engine := enginePoolStorage wk ! i\<rparr>\<rparr>;
               (res, s2) = wf_execute env it its hw ps s1;
               wk2 = (s_wf s2)\<lparr>enginePoolStorage :=
                         (enginePoolStorage (s_wf s2))[i := w_engine (s_w s2)]\<rparr>
           in (res, s2\<lparr>s_wf := releaseEngine i wk2, s_w := (s_w s2)\<lparr>w_engine := caller\<rparr>\<rparr>)))"

text \<open>Floating-point averages are opaque: \<open>avg a n t\<close> is the rolling average of \<open>n\<close> samples with mean
  \<open>a\<close> and a new sample \<open>t\<close> microseconds, \<open>faster a b\<close> is the test \<^verbatim>\<open>a < b * 0.8\<close>.\<close>

record fp_ops =
  fp_avg :: "64 word \<Rightarrow> nat \<Rightarrow> int \<Rightarrow> 64 word"
  fp_faster :: "64 word \<Rightarrow> 64 word \<Rightarrow> bool"

definition setAdaptiveThreshold :: "64 word \<Rightarrow> 'h Workflow \<Rightarrow> 'h Workflow" where
  "setAdaptiveThreshold n wk = wk\<lparr>adaptiveThreshold := n\<rparr>"

definition enableAutoDetection :: "bool \<Rightarrow> 'h Workflow \<Rightarrow> 'h Workflow" where
  "enableAutoDetection b wk = wk\<lparr>autoDetectThreshold := b\<rparr>"

definition adjust_threshold :: "fp_ops \<Rightarrow> 'h Workflow \<Rightarrow> 'h Workflow" where
  "adjust_threshold fp wk =
     (if fp_faster fp (sequentialAvgTime wk) (parallelAvgTime wk)
      then wk\<lparr>adaptiveThreshold := min (adaptiveThreshold wk + 1) 20\<rparr>
      else if fp_faster fp (parallelAvgTime wk) (sequentialAvgTime wk)
      then wk\<lparr>adaptiveThreshold := max (adaptiveThreshold wk - 1) 2\<rparr>
      else wk)"

definition record_sequential :: "fp_ops \<Rightarrow> int \<Rightarrow> 'h Workflow \<Rightarrow> 'h Workflow" where
  "record_sequential fp t wk =
     wk\<lparr>sequentialAvgTime := fp_avg fp (sequentialAvgTime wk) (sequentialRuns wk) t,
        sequentialRuns := sequentialRuns wk + 1\<rparr>"

definition record_parallel :: "fp_ops \<Rightarrow> int \<Rightarrow> 'h Workflow \<Rightarrow> 'h Workflow" where
  "record_parallel fp t wk =
     wk\<lparr>parallelAvgTime := fp_avg fp (parallelAvgTime wk) (parallelRuns wk) t,
        parallelRuns := parallelRuns wk + 1\<rparr>"

definition micros :: "int \<Rightarrow> int" where
  "micros ns = (if ns \<ge> 0 then ns div 1000 else - ((- ns) div 1000))"

definition wf_now :: "'h fr_env \<Rightarrow> 'h wf_state \<Rightarrow> int \<times> 'h wf_state" where
  "wf_now env s = (let (t, w) = now env (s_w s) in (t, s\<lparr>s_w := w\<rparr>))"

text \<open>The comparison of both strategies that runs every hundredth time.\<close>

definition compare_strategies ::
    "'h fr_env \<Rightarrow> fp_ops \<Rightarrow> (rule_map \<Rightarrow> rule_map) \<Rightarrow> (int list \<Rightarrow> int list) \<Rightarrow> nat
       \<Rightarrow> ((nat \<times> Rule) list \<Rightarrow> (nat \<times> Rule) list) \<Rightarrow> RuleParameter list
       \<Rightarrow> 'h wf_state \<Rightarrow> (exn + RuleResult list) \<times> 'h wf_state" where
  "compare_strategies env fp it its hw sched ps s =
     (let (t0, s0) = wf_now env s
      in bindx (wf_execute env it its hw ps s0) (\<lambda>seqResults s1.
           let (t1, s2) = wf_now env s1; seqTime = micros (t1 - t0);
               s3 = s2\<lparr>s_wf := record_sequential fp seqTime (s_wf s2)\<rparr>; (t2, s4) = wf_now env s3
           in bindx (wf_executeParallel env it its hw sched ps s4) (\<lambda>parResults s5.
                let (t3, s6) = wf_now env s5; parTime = micros (t3 - t2);
                    s7 = s6\<lparr>s_wf := adjust_threshold fp (record_parallel fp parTime (s_wf s6))\<rparr>
                in (Inr (if seqTime < parTime then seqResults else parResults), s7))))"

text \<open>\<open>checkCounter\<close> is the thread-local call counter; it is counted only with auto-detection.\<close>

definition wf_executeAdaptive ::
    "'h fr_env \<Rightarrow> fp_ops \<Rightarrow> (rule_map \<Rightarrow> rule_map) \<Rightarrow> (int list \<Rightarrow> int list) \<Rightarrow> nat
       \<Rightarrow> ((nat \<times> Rule) list \<Rightarrow> (nat \<times> Rule) list) \<Rightarrow> RuleParameter list
       \<Rightarrow> nat \<times> 'h wf_state \<Rightarrow> (exn + RuleResult list) \<times> nat \<times> 'h wf_state" where
  "wf_executeAdaptive env fp it its hw sched ps cs =
     (let (checkCounter, s) = cs
      in case ensure_compiled env it its hw s of
           (Inl e, s1) \<Rightarrow> (Inl e, checkCounter, s1)
         | (Inr _, s1) \<Rightarrow>
             (let wk = s_wf s1; detecting = (autoDetectThreshold wk \<and> length (wf_rules wk) > 2);
                  counter = (if detecting then checkCounter + 1 else checkCounter);
                  (res, s2) =
                    (if detecting \<and> counter mod 100 = 0
                     then compare_strategies env fp it its hw sched ps s1
                     else if length (wf_rules wk) \<le> unat (adaptiveThreshold wk)
                     then wf_execute env it its hw ps s1
                     else wf_executeParallel env it its hw sched ps s1)
              in (res, counter, s2)))"

section \<open>Whose result it is\<close>

definition res_head :: "RuleResult \<Rightarrow> string \<times> int \<times> bool" where
  "res_head res = (res_ruleName res, res_ruleId res, skipped res)"

lemma res_head_simps [simp]:
  "res_head (with_success b res) = res_head res" "res_head (with_exception x res) = res_head res"
  "res_head (with_children cs res) = res_head res" "res_head (with_metrics m res) = res_head res"
  "res_head (fst (setFailure msg b res w)) = res_head res"
  by (simp_all add: res_head_def)

lemma handle_exception_head [simp]: "res_head (fst (handle_exception d e res w)) = res_head res"
  by (cases e) (simp_all add: handle_exception_def split_beta)

lemma finish_execution_head [simp]: "res_head (fst (finish_execution env r ps t res w)) = res_head res"
  by (simp add: finish_execution_def split_beta Let_def)

lemma fail_and_return_head [simp]: "res_head (fst (snd (fail_and_return env r ps msg res w))) = res_head res"
  by (simp add: fail_and_return_def split_beta Let_def)

lemma run_own_steps_head [simp]: "res_head (fst (snd (run_own_steps env r ps res w))) = res_head res"
  by (simp add: run_own_steps_def split_beta Let_def split: sum.split bool.split)

lemma try_block_head [simp]: "res_head (fst (snd (try_block env r run ps res w))) = res_head res"
  by (simp add: try_block_def split_beta Let_def split: sum.split option.split prod.split)

lemma execute_head:
  assumes "cacheLookup env (addr r) (rdata r) ps w = (None, w1)" "isActive (rdata r)"
  shows "res_head (fst (execute env r ps w)) = (rname r, rid r, False)"
proof (cases r)
  case (Rule a d cs)
  let ?run = "\<lambda>w'. executeChildRules env cs ps w'"
  let ?res = "RuleResult (rname r) (rid r) False False None (fst (now env w1)) 0 init_metrics []"
  obtain out res1 w4 where t: "try_block env r ?run ps ?res (snd (now env (snd (now env w1)))) = (out, res1, w4)"
    by (metis prod.exhaust)
  have "res_head res1 = (rname r, rid r, False)"
    using try_block_head [of env r ?run ps ?res "snd (now env (snd (now env w1)))"] t by (simp add: res_head_def)
  with assms Rule t show ?thesis
    by (simp add: execute_with_def split_beta Let_def split: outcome.split)
qed

section \<open>Streaming and sequential execution agree\<close>

lemma uncached_lookup: "\<not> caching d \<Longrightarrow> cacheLookup env a d ps w = (None, w)"
  by (simp add: cacheLookup_def)

lemma setResult_same: "getResult c k = Some res \<Longrightarrow> setResult k res c = c"
  by (simp add: getResult_def setResult_def fun_upd_idem)

lemma ctx_setResult_same: "getResult (w_ctx w) k = Some res \<Longrightarrow> ctx_setResult k res w = w"
  by (simp add: ctx_setResult_def setResult_same)

text \<open>Without a cache the generator's own update of the context changes nothing.\<close>

lemma republish_uncached:
  assumes "\<not> caching (rdata r)" "isActive (rdata r)" "execute env r ps w = (res, w')"
  shows "ctx_setResult (resultKey (rdata r)) res w' = w'"
  using execute_context [OF uncached_lookup [OF assms(1)] assms(3)] assms(2)
  by (simp add: ctx_setResult_same)

lemma in_context_collapse [simp]: "w\<lparr>w_ctx := c, w_ctx := c'\<rparr> = w\<lparr>w_ctx := c'\<rparr>"
  by simp

lemma drain_run_rules:
  assumes "\<forall>r\<in>set rs. \<not> caching (rdata r)"
  shows "drain env ps \<lparr>str_order = rs, str_ctx = c\<rparr> w =
    (let (x, w1) = run_rules env ps rs (w\<lparr>w_ctx := c\<rparr>) in (x, w1\<lparr>w_ctx := w_ctx w\<rparr>))"
  using assms
proof (induction rs arbitrary: c w)
  case Nil
  then show ?case by (simp add: drain.simps generate_def)
next
  case (Cons r rs)
  let ?w0 = "w\<lparr>w_ctx := c\<rparr>"
  obtain res w1 where e: "execute env r ps ?w0 = (res, w1)" by fastforce
  consider (skip) "\<not> isActive (rdata r) \<or> dep_blocked c r"
    | (run) "isActive (rdata r)" "\<not> dep_blocked c r" by blast
  then show ?case
  proof cases
    case skip
    then have "generate env ps \<lparr>str_order = r # rs, str_ctx = c\<rparr> w = generate env ps \<lparr>str_order = rs, str_ctx = c\<rparr> w"
      by (auto simp: generate_def)
    then have "drain env ps \<lparr>str_order = r # rs, str_ctx = c\<rparr> w = drain env ps \<lparr>str_order = rs, str_ctx = c\<rparr> w"
      by (simp add: drain.simps [of env ps _ w])
    with Cons skip show ?thesis by auto
  next
    case run
    have set: "ctx_setResult (resultKey (rdata r)) res w1 = w1"
      using republish_uncached [OF _ run(1) e] Cons.prems by simp
    have "\<not> skipped res"
      using execute_head [OF uncached_lookup, of r env ps ?w0] Cons.prems run(1) e
      by (simp add: res_head_def del: execute.simps)
    with run e set have "generate env ps \<lparr>str_order = r # rs, str_ctx = c\<rparr> w =
        (Some res, \<lparr>str_order = rs, str_ctx = w_ctx w1\<rparr>, w1\<lparr>w_ctx := w_ctx w\<rparr>)"
      by (simp add: generate_def Let_def del: execute.simps)
    then have "drain env ps \<lparr>str_order = r # rs, str_ctx = c\<rparr> w =
        (let (rest, w2) = drain env ps \<lparr>str_order = rs, str_ctx = w_ctx w1\<rparr> (w1\<lparr>w_ctx := w_ctx w\<rparr>) in (res # rest, w2))"
      by (simp add: drain.simps [of env ps "\<lparr>str_order = r # rs, str_ctx = c\<rparr>" w])
    with Cons run e \<open>\<not> skipped res\<close> show ?thesis by (simp add: split_beta Let_def del: execute.simps)
  qed
qed

text \<open>Compilation and validation keep the rules; the order only lists rules of the workflow.\<close>

lemma wf_validate_rules: "wf_rules (s_wf (snd (wf_validate it its s))) = wf_rules (s_wf s)"
  by (simp add: wf_validate_def Let_def split: sum.split prod.split)

lemma build_pool_rules: "wf_rules (s_wf (snd (build_pool env n s))) = wf_rules (s_wf s)"
  by (induction n arbitrary: s) (simp_all add: Let_def split: sum.split prod.split)

lemma ensure_compiled_rules: "wf_rules (s_wf (snd (ensure_compiled env it its hw s))) = wf_rules (s_wf s)"
proof -
  have step: "wf_rules (s_wf (snd (bindx m f))) = R"
    if "wf_rules (s_wf (snd m)) = R" "\<And>v s'. wf_rules (s_wf s') = R \<Longrightarrow> wf_rules (s_wf (snd (f v s'))) = R"
    for m :: "(exn + unit) \<times> 'a wf_state" and f :: "unit \<Rightarrow> 'a wf_state \<Rightarrow> (exn + unit) \<times> 'a wf_state" and R
    using that by (cases m; cases "fst m") auto
  have "wf_rules (s_wf (snd (wf_compile env it its hw s))) = wf_rules (s_wf s)"
    unfolding wf_compile_def Let_def
    by (auto intro!: step simp: wf_validate_rules build_pool_rules fill_pool_def split: sum.split prod.split)
  then show ?thesis by (simp add: ensure_compiled_def)
qed

lemma build_levels_subset:
  "build_levels rules m deg = Inr levels \<Longrightarrow> set (concat levels) \<subseteq> set rules"
proof (induction rules m deg arbitrary: levels rule: build_levels.induct)
  case (1 rules m deg)
  show ?case
  proof (cases "m = [] \<or> ready rules m deg = []")
    case True
    with "1.prems" show ?thesis by (auto simp: build_levels.simps [of rules m deg] Let_def split: if_splits)
  next
    case False
    let ?l = "sort_level (ready rules m deg)"
    let ?s = "fold complete_rule ?l (m, deg)"
    from "1.prems" False obtain ls where ls: "build_levels rules (fst ?s) (snd ?s) = Inr ls" "levels = ?l # ls"
      by (cases "build_levels rules (fst ?s) (snd ?s)") (auto simp: build_levels.simps [of rules m deg] Let_def)
    have "set (concat ls) \<subseteq> set rules" using "1.IH" [OF _ refl _ refl refl ls(1)] False by auto
    moreover have "set ?l \<subseteq> set rules" by (auto simp: sort_level_def ready_def)
    ultimately show ?thesis using ls(2) by simp
  qed
qed

lemma resolveExecutionOrder_subset: "resolveExecutionOrder rules = Inr order \<Longrightarrow> set order \<subseteq> set rules"
  by (cases "buildDependencyLevels rules")
    (auto simp: resolveExecutionOrder_def buildDependencyLevels_def Let_def dest!: build_levels_subset)

end
