(* ===== verification/Workflow_Runs.thy ===== *)
theory Workflow_Runs
  imports Workflow
begin

text \<open>
  Which rules of a workflow run. The client of \<^verbatim>\<open>Rule::execute\<close> in the execution modes relies on
  three things, stated as the locale \<open>rule_executor\<close>: an execution publishes its result under the
  rule's key, touches no key outside the rule's tree, and returns a result that carries the rule's
  name and id and is not skipped. From these follow the dependency properties of the sequential
  and of the parallel mode.
\<close>

section \<open>Keys of a rule tree\<close>

fun rule_keys :: "Rule \<Rightarrow> string list" where
  "rule_keys (Rule a d cs) = resultKey d # concat (map rule_keys cs)"

lemma resultKey_in_rule_keys [simp]: "resultKey (rdata r) \<in> set (rule_keys r)"
  by (cases r) simp

lemma keeps_result_ctx [simp]:
  "k \<noteq> key \<Longrightarrow> getResult (w_ctx (ctx_setResult key res w)) k = getResult (w_ctx w) k"
  "getResult (w_ctx (ctx_setLastError key msg w)) k = getResult (w_ctx w) k"
  "getResult (w_ctx (w\<lparr>w_counters := cn\<rparr>)) k = getResult (w_ctx w) k"
  by (simp_all add: ctx_setResult_def ctx_setLastError_def getResult_def setResult_def setLastError_def)

lemma handle_exception_keeps [simp]:
  "getResult (w_ctx (snd (handle_exception d e res w))) k = getResult (w_ctx w) k"
  by (cases e) (simp_all add: handle_exception_def split_beta)

lemma finish_execution_keeps [simp]:
  "k \<noteq> resultKey (rdata r) \<Longrightarrow> getResult (w_ctx (snd (finish_execution env r ps t res w))) k = getResult (w_ctx w) k"
  by (simp add: finish_execution_def split_beta Let_def)

lemma fail_and_return_keeps [simp]:
  "k \<noteq> resultKey (rdata r) \<Longrightarrow>
     getResult (w_ctx (snd (snd (fail_and_return env r ps msg res w)))) k = getResult (w_ctx w) k"
  by (simp add: fail_and_return_def split_beta Let_def)

lemma run_own_steps_keeps [simp]:
  "k \<noteq> resultKey (rdata r) \<Longrightarrow>
     getResult (w_ctx (snd (snd (run_own_steps env r ps res w)))) k = getResult (w_ctx w) k"
  by (simp add: run_own_steps_def split_beta Let_def split: sum.split bool.split)

lemma store_child_results_keeps:
  assumes "\<forall>c\<in>set cs. k \<noteq> resultKey (rdata c)"
  shows "getResult (w_ctx (store_child_results cs rs w)) k = getResult (w_ctx w) k"
proof -
  have "getResult (w_ctx (fold (\<lambda>(c, res). ctx_setResult (resultKey (rdata c)) res) xs w)) k = getResult (w_ctx w) k"
    if "\<forall>x\<in>set xs. k \<noteq> resultKey (rdata (fst x))" for xs
    using that by (induction xs arbitrary: w) (simp_all add: split_beta)
  from this [of "zip cs rs"] assms show ?thesis by (fastforce simp: store_child_results_def dest: set_zip_leftD)
qed

lemma try_block_keeps:
  assumes "k \<notin> set (rule_keys r)" "\<And>w. getResult (w_ctx (snd (run w))) k = getResult (w_ctx w) k"
  shows "getResult (w_ctx (snd (snd (try_block env r run ps res w)))) k = getResult (w_ctx w) k"
proof -
  have "k \<noteq> resultKey (rdata r)" "\<forall>c\<in>set (childRules r). k \<noteq> resultKey (rdata c)"
    using assms(1) by (cases r; force)+
  with assms(2) check_rate_frame(2) [of env "rdata r" w] show ?thesis
    by (auto simp: try_block_def Let_def store_child_results_keeps split_beta simp del: check_rate_frame(2)
        split: sum.split option.split prod.split)
qed

lemma execute_with_keeps:
  assumes "k \<notin> set (rule_keys r)" "\<And>w. getResult (w_ctx (snd (run w))) k = getResult (w_ctx w) k"
  shows "getResult (w_ctx (snd (execute_with env r run ps w))) k = getResult (w_ctx w) k"
proof -
  have k: "k \<noteq> resultKey (rdata r)" using assms(1) by (cases r) auto
  obtain hit w1 where l: "cacheLookup env (addr r) (rdata r) ps w = (hit, w1)" by fastforce
  then have "w_ctx w1 = w_ctx w" using ctx_frames(5) [of env "addr r" "rdata r" ps w] by simp
  let ?res = "RuleResult (rname r) (rid r) False False None (fst (now env w1)) 0 init_metrics []"
  obtain out res1 w4 where t: "try_block env r run ps ?res (snd (now env (snd (now env w1)))) = (out, res1, w4)"
    by (metis prod.exhaust)
  with try_block_keeps [OF assms, of env ps ?res "snd (now env (snd (now env w1)))"] \<open>w_ctx w1 = w_ctx w\<close>
  have "getResult (w_ctx w4) k = getResult (w_ctx w) k" by simp
  with l t k \<open>w_ctx w1 = w_ctx w\<close> show ?thesis
    by (simp add: execute_with_def split_beta Let_def split: outcome.split option.split)
qed

lemma executeChildRules_keeps_aux:
  assumes "\<And>c w. c \<in> set cs \<Longrightarrow> getResult (w_ctx (snd (execute env c ps w))) k = getResult (w_ctx w) k"
  shows "getResult (w_ctx (snd (executeChildRules env cs ps w))) k = getResult (w_ctx w) k"
  using assms by (induction cs arbitrary: w) (simp_all add: split_beta del: execute.simps)

text \<open>An execution touches no key outside the rule's tree.\<close>

lemma execute_keeps:
  "k \<notin> set (rule_keys r) \<Longrightarrow> getResult (w_ctx (snd (execute env r ps w))) k = getResult (w_ctx w) k"
proof (induction r arbitrary: w)
  case (Rule a d cs)
  have "getResult (w_ctx (snd (executeChildRules env cs ps w'))) k = getResult (w_ctx w') k" for w'
    using Rule by (intro executeChildRules_keeps_aux) auto
  with Rule.prems show ?case by (simp add: execute_with_keeps)
qed

section \<open>The contract of rule execution\<close>

text \<open>What the execution modes rely on, for the rules that they call it with.\<close>

locale rule_executor =
  fixes exec :: "Rule \<Rightarrow> 'w \<Rightarrow> RuleResult \<times> 'w" and ctx :: "'w \<Rightarrow> RuleContext" and good :: "Rule \<Rightarrow> bool"
  assumes publishes: "good r \<Longrightarrow> getResult (ctx (snd (exec r w))) (resultKey (rdata r)) = Some (fst (exec r w))"
    and own_keys: "k \<notin> set (rule_keys r) \<Longrightarrow> getResult (ctx (snd (exec r w))) k = getResult (ctx w) k"
    and identity: "good r \<Longrightarrow> res_head (fst (exec r w)) = (rname r, rid r, False)"

text \<open>The first result of a rule in a list of results, and when a rule may run given results so
  far: it has no dependency, or its provider has succeeded.\<close>

definition result_of :: "RuleResult list \<Rightarrow> Rule \<Rightarrow> RuleResult option" where
  "result_of R q = find (\<lambda>res. res_ruleId res = rid q) R"

definition may_run :: "Rule list \<Rightarrow> RuleResult list \<Rightarrow> Rule \<Rightarrow> bool" where
  "may_run rules R r \<longleftrightarrow>
     rdep r = None \<or> (\<exists>q res. provider rules r = Some q \<and> result_of R q = Some res \<and> isSuccess res)"

text \<open>The trees of different rules have no key in common, and a dependency that is the key of some
  rule is the name of a top-level rule.\<close>

definition keys_apart :: "Rule list \<Rightarrow> bool" where
  "keys_apart rules \<longleftrightarrow>
     (\<forall>r\<in>set rules. \<forall>q\<in>set rules. r \<noteq> q \<longrightarrow> set (rule_keys r) \<inter> set (rule_keys q) = {}) \<and>
     (\<forall>r\<in>set rules. \<forall>n. rdep r = Some n \<longrightarrow> n \<noteq> [] \<and>
        ((\<exists>q\<in>set rules. n \<in> set (rule_keys q)) \<longrightarrow> (\<exists>q\<in>set rules. rname q = n)))"

text \<open>The context holds the results so far of the rules in \<open>S\<close>, and nothing under foreign keys.\<close>

definition tracks :: "Rule list \<Rightarrow> Rule set \<Rightarrow> RuleContext \<Rightarrow> RuleResult list \<Rightarrow> bool" where
  "tracks rules S c R \<longleftrightarrow>
     (\<forall>q\<in>S. getResult c (resultKey (rdata q)) = result_of R q) \<and>
     (\<forall>k. (\<forall>q\<in>set rules. k \<notin> set (rule_keys q)) \<longrightarrow> getResult c k = None)"

lemma tracks_dep_blocked:
  assumes u: "unambiguous rules" and k: "keys_apart rules" and r: "r \<in> set rules" and t: "tracks rules S c R"
    and S: "\<And>q. provider rules r = Some q \<Longrightarrow> q \<in> S"
  shows "dep_blocked c r \<longleftrightarrow> \<not> may_run rules R r"
proof (cases "rdep r")
  case None
  then show ?thesis by (simp add: dep_blocked_def may_run_def)
next
  case (Some n)
  then have n: "n \<noteq> []" using k r by (auto simp: keys_apart_def)
  show ?thesis
  proof (cases "provider rules r")
    case None
    with provider_iff [OF u r] Some have "\<forall>q\<in>set rules. rname q \<noteq> n" by auto
    with k r Some have "\<forall>q\<in>set rules. n \<notin> set (rule_keys q)" unfolding keys_apart_def by blast
    with t have "getResult c n = None" by (simp add: tracks_def)
    with Some None show ?thesis by (simp add: dep_blocked_def may_run_def)
  next
    case p: (Some q)
    with provider_SomeD [of rules r q] Some have "rname q = n" "q \<in> set rules" by auto
    with n have "resultKey (rdata q) = n" by (simp add: resultKey_def)
    with t S [OF p] have "getResult c n = result_of R q" by (auto simp: tracks_def)
    with Some p show ?thesis by (auto simp: dep_blocked_def may_run_def split: option.split)
  qed
qed

lemma result_of_append: "result_of (R @ Q) q = (case result_of R q of None \<Rightarrow> result_of Q q | Some x \<Rightarrow> Some x)"
  by (induction R) (auto simp: result_of_def)

lemma result_of_None: "result_of R q = None \<longleftrightarrow> rid q \<notin> res_ruleId ` set R"
  by (auto simp: result_of_def find_None_iff image_iff)

lemma may_run_append:
  assumes "\<And>q. provider rules r = Some q \<Longrightarrow> rid q \<notin> res_ruleId ` set Q"
  shows "may_run rules (R @ Q) r \<longleftrightarrow> may_run rules R r"
  using assms by (auto simp: may_run_def result_of_append result_of_None [symmetric] split: option.splits)

context rule_executor
begin

lemma tracks_exec:
  assumes u: "unambiguous rules" and k: "keys_apart rules" and r: "r \<in> set rules" "good r"
    and t: "tracks rules (set rules) (ctx w) R" and new: "rid r \<notin> res_ruleId ` set R"
  shows "tracks rules (set rules) (ctx (snd (exec r w))) (R @ [fst (exec r w)])"
proof -
  have id: "res_ruleId (fst (exec r w)) = rid r" using identity [OF r(2), of w] by (simp add: res_head_def)
  have "getResult (ctx (snd (exec r w))) (resultKey (rdata q)) = result_of (R @ [fst (exec r w)]) q"
    if q: "q \<in> set rules" for q
  proof (cases "q = r")
    case True
    with new id publishes [OF r(2), of w] show ?thesis
      by (simp add: result_of_append result_of_None [symmetric] result_of_def [of "[_]"])
  next
    case False
    with k q r(1) have "resultKey (rdata q) \<notin> set (rule_keys r)"
      by (metis IntI emptyE keys_apart_def resultKey_in_rule_keys)
    moreover have "rid q \<noteq> rid r" using rid_inj [OF u q r(1)] False by simp
    ultimately show ?thesis
      using t q id by (auto simp: own_keys tracks_def result_of_append result_of_def [of "[_]"] split: option.split)
  qed
  moreover have "getResult (ctx (snd (exec r w))) x = None" if "\<forall>q\<in>set rules. x \<notin> set (rule_keys q)" for x
    using that t r(1) by (simp add: own_keys tracks_def)
  ultimately show ?thesis by (simp add: tracks_def)
qed

end

interpretation sequential: rule_executor "\<lambda>r. execute env r ps" w_ctx "\<lambda>r. isActive (rdata r) \<and> \<not> caching (rdata r)" for env ps
proof
  fix r and w :: "'a world"
  assume good: "isActive (rdata r) \<and> \<not> caching (rdata r)"
  then have l: "cacheLookup env (addr r) (rdata r) ps w = (None, w)" by (simp add: uncached_lookup)
  show "getResult (w_ctx (snd (execute env r ps w))) (resultKey (rdata r)) = Some (fst (execute env r ps w))"
    using execute_context [OF l] good by (metis prod.collapse)
  show "res_head (fst (execute env r ps w)) = (rname r, rid r, False)"
    using execute_head [OF l] good by simp
qed (simp add: execute_keeps del: execute.simps)

section \<open>Streaming is sequential execution\<close>

text \<open>
  C6. A stream that is read to its end is the sequential execution: when no top-level rule keeps
  a cache, draining the generator of \<^verbatim>\<open>executeStreaming\<close> gives the results of \<^verbatim>\<open>execute\<close> in the same
  order and leaves the engine, the counters, the caches and the clock exactly as \<^verbatim>\<open>execute\<close> does;
  both throw the same exception in the same state.
\<close>

theorem streaming_equals_sequential:
  assumes "\<forall>r\<in>set (wf_rules (s_wf s)). \<not> caching (rdata r)"
  shows "wf_execute env it its hw ps s =
    bindx (wf_executeStreaming env it its hw s) (\<lambda>st s1.
      let (results, w) = drain env ps st (s_w s1) in (Inr results, s1\<lparr>s_w := w\<rparr>))"
proof (cases "ensure_compiled env it its hw s")
  case (Pair x s1)
  have rules: "wf_rules (s_wf s1) = wf_rules (s_wf s)" using ensure_compiled_rules [of env it its hw s] Pair by simp
  show ?thesis
  proof (cases "resolveExecutionOrder (wf_rules (s_wf s1))")
    case (Inr order)
    with resolveExecutionOrder_subset rules assms have "\<forall>r\<in>set order. \<not> caching (rdata r)" by auto
    from drain_run_rules [OF this, of env ps init_context "s_w s1"] Pair Inr show ?thesis
      by (cases x) (simp_all add: wf_execute_def wf_executeStreaming_def in_new_context_def Let_def split_beta)
  qed (use Pair in \<open>cases x; simp add: wf_execute_def wf_executeStreaming_def\<close>)
qed

section \<open>Sequential execution respects dependencies\<close>

lemma order_provider_before:
  assumes "unambiguous rules" "resolveExecutionOrder rules = Inr order"
  shows "mset order = mset rules" "order = pre @ r # rs \<Longrightarrow> provider rules r = Some q \<Longrightarrow> q \<in> set pre"
proof -
  from assms(2) obtain levels where "buildDependencyLevels rules = Inr levels" "order = concat levels"
    by (cases "buildDependencyLevels rules") (auto simp: resolveExecutionOrder_def)
  with buildDependencyLevels_cases [OF assms(1)] obtain n
    where n: "order = concat (map (level_at rules) [0..<n])" "all_ranked rules 0 n"
    by (metis Inl_Inr_False sum.inject(2))
  then show perm: "mset order = mset rules" using mset_concat_levels by simp
  assume o: "order = pre @ r # rs" and q: "provider rules r = Some q"
  have "r \<in> set rules" "q \<in> set order" using perm o provider_SomeD [OF q] by (metis in_set_conv_decomp set_mset_mset)+
  with n(2) obtain l k where d: "depth rules r l" "depth rules q k" "k < l"
    using q by (metis all_ranked_def depth_SucE depth_0E not0_implies_Suc lessI option.distinct(1) option.inject)
  have "sorted_wrt (before rules) (pre @ r # rs)" using sorted_order [of rules n] n(1) o by simp
  then have "q \<notin> set rs" using d by (auto simp: sorted_wrt_append before_def) fastforce
  moreover have "q \<noteq> r" using d depth_det by blast
  ultimately show "q \<in> set pre" using \<open>q \<in> set order\<close> o by auto
qed

lemma filtered_ids: "map f xs = map g (filter P ys) \<Longrightarrow> f ` set xs \<subseteq> g ` set ys"
  by (metis filter_is_subset image_mono list.set_map)

text \<open>The results of the rules that are left, given the results \<open>R\<close> of the rules before them.\<close>

lemma run_rules_runs:
  assumes "unambiguous rules" "keys_apart rules" "resolveExecutionOrder rules = Inr order"
    and "\<forall>r\<in>set rules. \<not> caching (rdata r)"
    and "order = pre @ rs" "tracks rules (set rules) (w_ctx w) R" "res_ruleId ` set R \<subseteq> rid ` set pre"
    and "run_rules env ps rs w = (outs, w')"
  shows "map res_ruleId outs = map rid (filter (\<lambda>r. isActive (rdata r) \<and> may_run rules (R @ outs) r) rs)"
  using assms(5-8)
proof (induction rs arbitrary: pre w R outs w')
  case (Cons r rs)
  note perm = order_provider_before(1) [OF assms(1,3)]
  have ord: "order = (pre @ [r]) @ rs" using Cons.prems(1) by simp
  have r: "r \<in> set rules" using perm Cons.prems(1) by (metis in_set_conv_decomp set_mset_mset)
  have dist: "distinct (map rid order)" using assms(1) perm
    by (metis mset_eq_imp_distinct_iff mset_map unambiguous_def)
  have prov: "rid q \<in> rid ` set pre \<and> q \<in> set rules" if "provider rules r = Some q" for q
    using order_provider_before(2) [OF assms(1,3) Cons.prems(1) that] provider_SomeD [OF that] by blast
  have blocked: "dep_blocked (w_ctx w) r \<longleftrightarrow> \<not> may_run rules R r"
    using tracks_dep_blocked [OF assms(1,2) r Cons.prems(2)] prov by blast
  have later: "may_run rules (R @ Q) r \<longleftrightarrow> may_run rules R r" if "res_ruleId ` set Q \<subseteq> rid ` set (r # rs)" for Q
  proof (rule may_run_append)
    fix q assume "provider rules r = Some q"
    with prov have "rid q \<in> rid ` set pre" by blast
    moreover have "rid ` set pre \<inter> rid ` set (r # rs) = {}" using dist Cons.prems(1) by simp
    ultimately show "rid q \<notin> res_ruleId ` set Q" using that by blast
  qed
  have new: "rid r \<notin> res_ruleId ` set R" using dist Cons.prems(1,3) by auto
  show ?case
  proof (cases "isActive (rdata r) \<and> may_run rules R r")
    case False
    then have run: "run_rules env ps rs w = (outs, w')" using Cons.prems(4) blocked by (auto split: if_splits)
    have eq: "map res_ruleId outs = map rid (filter (\<lambda>r. isActive (rdata r) \<and> may_run rules (R @ outs) r) rs)"
      using Cons.IH [OF ord Cons.prems(2) _ run] Cons.prems(3) by auto
    then have "res_ruleId ` set outs \<subseteq> rid ` set (r # rs)" using filtered_ids by fastforce
    with eq later [of outs] False show ?thesis by auto
  next
    case True
    obtain res w1 where e: "execute env r ps w = (res, w1)" by fastforce
    obtain rest w2 where rest: "run_rules env ps rs w1 = (rest, w2)" by fastforce
    have good: "isActive (rdata r) \<and> \<not> caching (rdata r)" using True assms(4) r by blast
    have head: "res_ruleId res = rid r" "\<not> skipped res"
      using sequential.identity [OF good, of env ps w] e by (simp_all add: res_head_def)
    then have res: "outs = res # rest" using Cons.prems(4) True blocked e rest by (simp add: Let_def del: execute.simps)
    have "tracks rules (set rules) (w_ctx w1) (R @ [res])"
      using sequential.tracks_exec [OF assms(1,2) r good Cons.prems(2) new, of env ps] e by simp
    from Cons.IH [OF ord this _ rest] head Cons.prems(3)
    have eq: "map res_ruleId rest = map rid (filter (\<lambda>r. isActive (rdata r) \<and> may_run rules (R @ outs) r) rs)"
      by (auto simp: res)
    then have "res_ruleId ` set rest \<subseteq> rid ` set rs" by (rule filtered_ids)
    with head res have "res_ruleId ` set outs \<subseteq> rid ` set (r # rs)" by auto
    with eq later [of outs] True head res show ?thesis by auto
  qed
qed simp


section \<open>A cached provider\<close>

lemma drain_Nil: "drain env ps \<lparr>str_order = [], str_ctx = c\<rparr> w = ([], w)"
  by (simp add: drain.simps [of env ps _ w] generate_def)

lemma execute_cached:
  "cacheLookup env (addr r) (rdata r) ps w = (Some res, w1) \<Longrightarrow> execute env r ps w = (res, w1)"
  by (cases r) (simp add: execute_with_def)

text \<open>
  A provider that is served from its cache blocks its dependents in the sequential mode: the
  cached result is returned without being published in the context of the call, so a rule that
  depends on it is left out although its provider has succeeded; the streaming mode, which
  publishes every result itself, runs the same rule.
\<close>

lemma cached_provider_blocks_dependent:
  assumes "isActive (rdata q)" and "rdep q = None" and "isActive (rdata r)" and "rdep r = Some (resultKey (rdata q))"
    and "\<not> caching (rdata r)" and "cacheLookup env (addr q) (rdata q) ps w = (Some res, w1)" and "isSuccess res"
    and "getResult (w_ctx w) (resultKey (rdata q)) = None"
  shows "run_rules env ps [q, r] w = ([res], w1) \<and>
    (\<exists>res' w'. drain env ps \<lparr>str_order = [q, r], str_ctx = w_ctx w\<rparr> w = ([res, res'], w') \<and> res_ruleId res' = rid r)"
proof
  have ctx: "w_ctx w1 = w_ctx w" using ctx_frames(5) [of env "addr q" "rdata q" ps w] assms(6) by simp
  have q: "execute env q ps w = (res, w1)" by (rule execute_cached [OF assms(6)])
  have sk: "\<not> skipped res" using assms(7) by (simp add: isSuccess_def)
  have "\<not> dep_blocked (w_ctx w) q" "dep_blocked (w_ctx w1) r"
    using assms(2,4,8) by (simp_all add: dep_blocked_def ctx)
  with assms(1,3) q sk show "run_rules env ps [q, r] w = ([res], w1)" by (simp del: execute.simps)
  let ?w2 = "ctx_setResult (resultKey (rdata q)) res w1"
  obtain res' w3 where r: "execute env r ps ?w2 = (res', w3)" by fastforce
  have good: "isActive (rdata r) \<and> \<not> caching (rdata r)" using assms(3,5) by simp
  have head: "res_ruleId res' = rid r" "\<not> skipped res'"
    using sequential.identity [OF good, of env ps ?w2] r by (simp_all add: res_head_def)
  have ok: "\<not> dep_blocked (w_ctx ?w2) r"
    using assms(4,7) by (simp add: dep_blocked_def ctx_setResult_def result_store.get_put_same)
  have same: "w1\<lparr>w_ctx := w_ctx w, w_ctx := w_ctx ?w2\<rparr> = ?w2" by (simp add: ctx_setResult_def)
  have g1: "generate env ps \<lparr>str_order = [q, r], str_ctx = w_ctx w\<rparr> w =
      (Some res, \<lparr>str_order = [r], str_ctx = w_ctx ?w2\<rparr>, w1\<lparr>w_ctx := w_ctx w\<rparr>)"
    using assms(1) \<open>\<not> dep_blocked (w_ctx w) q\<close> q sk by (simp add: generate_def ctx_setResult_def Let_def del: execute.simps)
  have g2: "generate env ps \<lparr>str_order = [r], str_ctx = w_ctx ?w2\<rparr> (w1\<lparr>w_ctx := w_ctx w\<rparr>) =
      (Some res', \<lparr>str_order = [], str_ctx = w_ctx (ctx_setResult (resultKey (rdata r)) res' w3)\<rparr>,
       (ctx_setResult (resultKey (rdata r)) res' w3)\<lparr>w_ctx := w_ctx w\<rparr>)"
    using assms(3) ok r head(2) same by (simp add: generate_def Let_def del: execute.simps)
  show "\<exists>res' w'. drain env ps \<lparr>str_order = [q, r], str_ctx = w_ctx w\<rparr> w = ([res, res'], w') \<and> res_ruleId res' = rid r"
    using g1 g2 head(1) by (simp add: drain.simps [of env ps "\<lparr>str_order = _ # _, str_ctx = _\<rparr>"] drain_Nil)
qed

section \<open>Parallel execution\<close>

text \<open>What the result of a rule is in the parallel mode, given the results \<open>R\<close>: when the rule may run,
  that of some execution; otherwise the failure that names the dependency.\<close>

definition task_outcome ::
    "'h fr_env \<Rightarrow> RuleParameter list \<Rightarrow> Rule list \<Rightarrow> RuleResult list \<Rightarrow> Rule \<Rightarrow> RuleResult \<Rightarrow> bool" where
  "task_outcome env ps rules R r res \<longleftrightarrow>
     (if may_run rules R r then \<exists>w. res = fst (execute env r ps w)
      else res = task_failure r (''Dependency failed: '' @ the (rdep r)))"

lemma task_outcome_head:
  assumes "task_outcome env ps rules R r res" "isActive (rdata r)" "\<not> caching (rdata r)"
  shows "res_ruleId res = rid r" "\<not> skipped res"
  using assms sequential.identity [of r env ps]
  by (auto simp: task_outcome_def task_failure_def res_head_def split: if_splits)

definition pool_view :: "'h wf_state \<Rightarrow> bool \<times> nat list \<times> nat \<times> Rule list" where
  "pool_view s = (useEnginePool (s_wf s), enginePool (s_wf s), length (enginePoolStorage (s_wf s)), wf_rules (s_wf s))"

lemma run_task_spec:
  assumes "useEnginePool (s_wf s)" "enginePool (s_wf s) \<noteq> []" "run_task env ps r s = (res, s')"
  shows "pool_view s' = pool_view s" "\<not> dep_blocked (w_ctx (s_w s)) r \<Longrightarrow> \<exists>w. res = fst (execute env r ps w)"
    "dep_blocked (w_ctx (s_w s)) r \<Longrightarrow> res = task_failure r (''Dependency failed: '' @ the (rdep r))"
    "k \<notin> set (rule_keys r) \<Longrightarrow> getResult (w_ctx (s_w s')) k = getResult (w_ctx (s_w s)) k"
proof -
  obtain i rest where p: "enginePool (s_wf s) = i # rest" using assms(2) by (cases "enginePool (s_wf s)") auto
  let ?w = "(s_w s)\<lparr>w_engine := enginePoolStorage (s_wf s) ! i\<rparr>"
  have keep: "getResult (w_ctx (snd (execute env r ps ?w))) k = getResult (w_ctx (s_w s)) k" if "k \<notin> set (rule_keys r)"
    using execute_keeps [OF that, of env ps ?w] by simp
  show "pool_view s' = pool_view s" "\<not> dep_blocked (w_ctx (s_w s)) r \<Longrightarrow> \<exists>w. res = fst (execute env r ps w)"
    "dep_blocked (w_ctx (s_w s)) r \<Longrightarrow> res = task_failure r (''Dependency failed: '' @ the (rdep r))"
    "k \<notin> set (rule_keys r) \<Longrightarrow> getResult (w_ctx (s_w s')) k = getResult (w_ctx (s_w s)) k"
    using assms(1,3) p keep
    by (auto simp: run_task_def acquireEngine_def releaseEngine_def on_engine_def pool_view_def Let_def split_beta
        simp del: execute.simps split: if_splits)
qed

text \<open>The tasks of a batch: they leave the pool as it was and the context of the rules outside the
  batch alone, and each has its outcome.\<close>

definition outside :: "Rule list \<Rightarrow> Rule list \<Rightarrow> Rule set" where
  "outside rules batch = set rules - set batch"

lemma run_tasks_spec:
  assumes "unambiguous rules" "keys_apart rules" "snd ` set ts \<subseteq> set batch" "set batch \<subseteq> set rules"
    and "\<And>r q. r \<in> set batch \<Longrightarrow> provider rules r = Some q \<Longrightarrow> q \<in> outside rules batch"
    and "tracks rules (outside rules batch) (w_ctx (s_w s)) R" "useEnginePool (s_wf s)" "enginePool (s_wf s) \<noteq> []"
    and "run_tasks env ps ts s = (outs, s')"
  shows "list_all2 (\<lambda>(i, r) (j, res). i = j \<and> task_outcome env ps rules R r res) ts outs \<and>
     tracks rules (outside rules batch) (w_ctx (s_w s')) R \<and> pool_view s' = pool_view s"
  using assms(3,6-9)
proof (induction ts arbitrary: s outs s')
  case (Cons t ts)
  obtain i r where t: "t = (i, r)" by fastforce
  obtain res s1 where task: "run_task env ps r s = (res, s1)" by fastforce
  obtain rest s2 where rest: "run_tasks env ps ts s1 = (rest, s2)" by fastforce
  have r: "r \<in> set batch" "r \<in> set rules" using Cons.prems(1) assms(4) t by auto
  note spec = run_task_spec [OF Cons.prems(3,4) task]
  have "dep_blocked (w_ctx (s_w s)) r \<longleftrightarrow> \<not> may_run rules R r"
    using tracks_dep_blocked [OF assms(1,2) r(2) Cons.prems(2)] assms(5) [OF r(1)] by blast
  with spec(2,3) have out: "task_outcome env ps rules R r res" by (auto simp: task_outcome_def)
  have "resultKey (rdata q) \<notin> set (rule_keys r)" if "q \<in> outside rules batch" for q
    using that r assms(2) unfolding outside_def keys_apart_def by (metis DiffD1 DiffD2 IntI emptyE resultKey_in_rule_keys)
  then have tr: "tracks rules (outside rules batch) (w_ctx (s_w s1)) R"
    using Cons.prems(2) r(2) by (simp add: tracks_def spec(4))
  have pool: "useEnginePool (s_wf s1)" "enginePool (s_wf s1) \<noteq> []"
    using spec(1) Cons.prems(3,4) by (simp_all add: pool_view_def)
  have "list_all2 (\<lambda>(i, r) (j, res). i = j \<and> task_outcome env ps rules R r res) ts rest \<and>
     tracks rules (outside rules batch) (w_ctx (s_w s2)) R \<and> pool_view s2 = pool_view s1"
    using Cons.IH [OF _ tr pool rest] Cons.prems(1) by simp
  moreover have "outs = (i, res) # rest" "s' = s2" using Cons.prems(5) t task rest by auto
  ultimately show ?case using out spec(1) t by simp
qed (simp add: pool_view_def)

text \<open>Collecting the results of a batch: they go to the context under the keys of their rules.\<close>

definition collect :: "Rule list \<Rightarrow> RuleResult list \<Rightarrow> 'h world \<Rightarrow> 'h world" where
  "collect batch res w = fold (\<lambda>(r, x). ctx_setResult (resultKey (rdata r)) x) (zip batch res) w"

lemma collect_other:
  "\<forall>r\<in>set batch. k \<noteq> resultKey (rdata r) \<Longrightarrow> getResult (w_ctx (collect batch res w)) k = getResult (w_ctx w) k"
proof (induction batch arbitrary: res w)
  case (Cons r batch)
  then show ?case by (cases res) (auto simp: collect_def)
qed (simp add: collect_def)

lemma collect_own:
  assumes "length res = length batch" "map res_ruleId res = map rid batch" "distinct (map rid batch)"
    and "\<And>r q. r \<in> set batch \<Longrightarrow> q \<in> set batch \<Longrightarrow> resultKey (rdata r) = resultKey (rdata q) \<Longrightarrow> r = q" "q \<in> set batch"
  shows "getResult (w_ctx (collect batch res w)) (resultKey (rdata q)) = result_of res q"
  using assms
proof (induction batch res arbitrary: w rule: list_induct2')
  case (4 r batch x res)
  let ?w = "ctx_setResult (resultKey (rdata r)) x w"
  have c: "collect (r # batch) (x # res) w = collect batch res ?w" by (simp add: collect_def)
  show ?case
  proof (cases "q = r")
    case True
    have "\<forall>p\<in>set batch. resultKey (rdata r) \<noteq> resultKey (rdata p)"
      using "4.prems"(3,4) by (metis distinct.simps(2) imageI list.set_intros(1,2) list.set_map list.simps(9))
    then have "getResult (w_ctx (collect batch res ?w)) (resultKey (rdata r)) = Some x"
      by (simp add: collect_other ctx_setResult_def result_store.get_put_same)
    with True c "4.prems"(2) show ?thesis by (simp add: result_of_def)
  next
    case False
    with "4.prems" have q: "q \<in> set batch" by simp
    then have "rid q \<noteq> rid r" using "4.prems"(3) by (auto simp: image_iff)
    moreover have "getResult (w_ctx (collect batch res ?w)) (resultKey (rdata q)) = result_of res q"
      using "4.prems" by (intro "4.IH" [OF _ _ _ _ q]) auto
    ultimately show ?thesis using c "4.prems"(2) by (simp add: result_of_def)
  qed
qed simp_all

lemma scheduled_outcomes:
  assumes "mset (sched (enumerate 0 batch)) = mset (enumerate 0 batch)"
    and "list_all2 (\<lambda>(i, r) (j, res). i = j \<and> P r res) (sched (enumerate 0 batch)) outs"
  shows "list_all2 P batch (map (\<lambda>(i, r). the (map_of outs i)) (enumerate 0 batch))"
proof -
  let ?ts = "sched (enumerate 0 batch)"
  have fsts: "map fst outs = map fst ?ts"
    using assms(2) by (intro list_eq_iff_nth_eq [THEN iffD2]) (auto simp: list_all2_conv_all_nth split_beta)
  have "distinct (map fst ?ts)"
    using assms(1) by (metis distinct_enumerate distinct_upt map_fst_enumerate mset_eq_imp_distinct_iff mset_map)
  then have d: "distinct (map fst outs)" using fsts by simp
  have "P (batch ! n) (the (map_of outs n))" if n: "n < length batch" for n
  proof -
    have "(n, batch ! n) \<in> set (enumerate 0 batch)" using n by (auto simp: in_set_enumerate_eq)
    then have "(n, batch ! n) \<in> set ?ts" using assms(1) by (metis set_mset_mset)
    then obtain m where m: "m < length ?ts" "?ts ! m = (n, batch ! n)" by (auto simp: in_set_conv_nth)
    with assms(2) obtain res where res: "m < length outs" "outs ! m = (n, res)" "P (batch ! n) res"
      by (cases "outs ! m") (fastforce simp: list_all2_conv_all_nth)
    then have "map_of outs n = Some res" using d by (metis map_of_is_SomeI nth_mem)
    with res show ?thesis by simp
  qed
  then show ?thesis by (simp add: list_all2_conv_all_nth nth_enumerate_eq)
qed

definition schedule :: "((nat \<times> Rule) list \<Rightarrow> (nat \<times> Rule) list) \<Rightarrow> bool" where
  "schedule sched \<longleftrightarrow> (\<forall>ts. mset (sched ts) = mset ts)"

lemma run_batch_spec:
  assumes "unambiguous rules" "keys_apart rules" "schedule sched" "set batch \<subseteq> set rules" "distinct batch"
    and "\<forall>r\<in>set batch. isActive (rdata r) \<and> \<not> caching (rdata r) \<and> rid r \<notin> res_ruleId ` set R"
    and "\<And>r q. r \<in> set batch \<Longrightarrow> provider rules r = Some q \<Longrightarrow> q \<in> outside rules batch"
    and "tracks rules (set rules) (w_ctx (s_w s)) R" "useEnginePool (s_wf s)" "enginePool (s_wf s) \<noteq> []"
    and "run_batch env sched ps batch s = (res, s')"
  shows "list_all2 (task_outcome env ps rules R) batch res" "map res_ruleId res = map rid batch"
    "tracks rules (set rules) (w_ctx (s_w s')) (R @ res)" "pool_view s' = pool_view s"
proof -
  let ?ts = "sched (enumerate 0 batch)"
  have perm: "mset ?ts = mset (enumerate 0 batch)" using assms(3) by (simp add: schedule_def)
  then have ts: "snd ` set ?ts \<subseteq> set batch" by (metis list.set_map map_snd_enumerate order_refl set_mset_mset)
  have tr: "tracks rules (outside rules batch) (w_ctx (s_w s)) R"
    using assms(8) by (simp add: tracks_def outside_def)
  obtain outs s1 where run: "run_tasks env ps ?ts s = (outs, s1)" by fastforce
  have tasks: "list_all2 (\<lambda>(i, r) (j, res). i = j \<and> task_outcome env ps rules R r res) ?ts outs"
      "tracks rules (outside rules batch) (w_ctx (s_w s1)) R" "pool_view s1 = pool_view s"
    using run_tasks_spec [OF assms(1,2) ts assms(4,7) tr assms(9,10) run] by simp_all
  have res: "res = map (\<lambda>(i, r). the (map_of outs i)) (enumerate 0 batch)" and s': "s' = s1\<lparr>s_w := collect batch res (s_w s1)\<rparr>"
    using assms(11) run by (auto simp: run_batch_def collect_def Let_def)
  have sw: "s_w s' = collect batch res (s_w s1)" by (simp add: s')
  show out: "list_all2 (task_outcome env ps rules R) batch res"
    unfolding res by (rule scheduled_outcomes [where sched = sched, OF perm tasks(1)])
  then show ids: "map res_ruleId res = map rid batch"
    using assms(6) by (induction rule: list_all2_induct) (auto dest: task_outcome_head)
  show "pool_view s' = pool_view s" using tasks(3) s' by (simp add: pool_view_def)
  have key: "resultKey (rdata q) \<noteq> resultKey (rdata r)" if "q \<in> set rules" "r \<in> set rules" "q \<noteq> r" for q r
    using that assms(2) unfolding keys_apart_def by (metis IntI emptyE resultKey_in_rule_keys)
  have dist: "distinct (map rid batch)"
    using assms(4,5) inj_on_subset [OF _ assms(4), of rid] assms(1) by (simp add: distinct_map unambiguous_def)
  have "getResult (w_ctx (s_w s')) (resultKey (rdata q)) = result_of (R @ res) q" if q: "q \<in> set rules" for q
  proof (cases "q \<in> set batch")
    case True
    have "getResult (w_ctx (s_w s')) (resultKey (rdata q)) = result_of res q"
      unfolding sw
    proof (rule collect_own [OF _ ids dist _ True])
      show "length res = length batch" using ids by (rule map_eq_imp_length_eq)
      show "r = q'" if "r \<in> set batch" "q' \<in> set batch" "resultKey (rdata r) = resultKey (rdata q')" for r q'
        using that key assms(4) by blast
    qed
    moreover have "result_of R q = None" using assms(6) True by (simp add: result_of_None)
    ultimately show ?thesis by (simp add: result_of_append)
  next
    case False
    then have "rid q \<notin> rid ` set batch" using rid_inj [OF assms(1) q] assms(4) by fastforce
    then have "result_of res q = None" using ids by (metis list.set_map result_of_None)
    moreover have "getResult (w_ctx (s_w s')) (resultKey (rdata q)) = getResult (w_ctx (s_w s1)) (resultKey (rdata q))"
      using key [OF q] assms(4) False by (auto simp: s' intro!: collect_other)
    ultimately show ?thesis using tasks(2) q False by (simp add: tracks_def outside_def result_of_append split: option.split)
  qed
  moreover have "getResult (w_ctx (s_w s')) k = None" if k: "\<forall>q\<in>set rules. k \<notin> set (rule_keys q)" for k
  proof -
    have "getResult (w_ctx (s_w s')) k = getResult (w_ctx (s_w s1)) k"
      unfolding sw using k assms(4) by (intro collect_other) (metis resultKey_in_rule_keys subsetD)
    with tasks(2) k show ?thesis by (simp add: tracks_def)
  qed
  ultimately show "tracks rules (set rules) (w_ctx (s_w s')) (R @ res)" by (simp add: tracks_def)
qed

text \<open>A level of rules whose providers have all been dealt with.\<close>

lemma run_pending_spec:
  assumes "unambiguous rules" "keys_apart rules" "schedule sched" "conc > 0"
    and "set todo \<subseteq> set rules" "distinct todo"
    and "\<forall>r\<in>set todo. isActive (rdata r) \<and> \<not> caching (rdata r) \<and> rid r \<notin> res_ruleId ` set R"
    and "\<forall>r\<in>set todo. \<forall>q. provider rules r = Some q \<longrightarrow> q \<in> outside rules todo"
    and "tracks rules (set rules) (w_ctx (s_w s)) R" "useEnginePool (s_wf s)" "enginePool (s_wf s) \<noteq> []"
    and "run_pending env sched ps conc todo s = (res, s')"
  shows "list_all2 (task_outcome env ps rules R) todo res \<and> map res_ruleId res = map rid todo \<and>
    tracks rules (set rules) (w_ctx (s_w s')) (R @ res) \<and> pool_view s' = pool_view s"
  using assms(5-12)
proof (induction todo arbitrary: R s res s' rule: measure_induct_rule [where f = length])
  case (less todo)
  show ?case
  proof (cases "todo = []")
    case True
    with less.prems(5,8) show ?thesis by (simp add: run_pending.simps)
  next
    case False
    let ?b = "take conc todo" and ?d = "drop conc todo"
    obtain res1 s1 where b: "run_batch env sched ps ?b s = (res1, s1)" by fastforce
    obtain res2 s2 where d: "run_pending env sched ps conc ?d s1 = (res2, s2)" by fastforce
    have eq: "res = res1 @ res2" "s' = s2"
      using less.prems(8) b d False assms(4) by (simp_all add: run_pending.simps [of env sched ps conc todo])
    have sub: "set ?b \<subseteq> set todo" "set ?d \<subseteq> set todo" by (rule set_take_subset set_drop_subset)+
    have out: "q \<in> outside rules ?b" "q \<in> outside rules ?d" if "q \<in> outside rules todo" for q
      using that sub by (auto simp: outside_def)
    have apart: "set ?b \<inter> set ?d = {}" using less.prems(2) by (metis append_take_drop_id distinct_append)
    have batch: "list_all2 (task_outcome env ps rules R) ?b res1" "map res_ruleId res1 = map rid ?b"
        "tracks rules (set rules) (w_ctx (s_w s1)) (R @ res1)" "pool_view s1 = pool_view s"
      using run_batch_spec [OF assms(1-3) _ _ _ _ less.prems(5-7) b] less.prems(1-4) sub out
      by (metis (no_types, lifting) distinct_take subset_eq)+
    have ids: "rid r \<notin> res_ruleId ` set res1" if r: "r \<in> set rules" "r \<notin> set ?b" for r
    proof -
      have "res_ruleId ` set res1 = rid ` set ?b" using batch(2) by (metis list.set_map)
      moreover have "r' = r" if "r' \<in> set ?b" "rid r' = rid r" for r'
        using that rid_inj [OF assms(1), of r' r] r(1) sub(1) less.prems(1) by blast
      ultimately show ?thesis using r(2) by (metis (no_types, lifting) imageE)
    qed
    have shorter: "length ?d < length todo" using False assms(4) by simp
    have rest: "list_all2 (task_outcome env ps rules (R @ res1)) ?d res2 \<and> map res_ruleId res2 = map rid ?d \<and>
        tracks rules (set rules) (w_ctx (s_w s2)) ((R @ res1) @ res2) \<and> pool_view s2 = pool_view s1"
    proof (rule less.IH [OF shorter])
      show "useEnginePool (s_wf s1)" "enginePool (s_wf s1) \<noteq> []"
        using batch(4) less.prems(6,7) by (simp_all add: pool_view_def)
      show "\<forall>r\<in>set ?d. isActive (rdata r) \<and> \<not> caching (rdata r) \<and> rid r \<notin> res_ruleId ` set (R @ res1)"
        unfolding set_append image_Un using less.prems(1,3) sub(2) apart ids by blast
    qed (use less.prems(1,2,4) sub(2) out(2) batch(3) d in \<open>auto\<close>)
    have stable: "task_outcome env ps rules R r x" if "r \<in> set ?d" "task_outcome env ps rules (R @ res1) r x" for r x
    proof -
      have "may_run rules (R @ res1) r \<longleftrightarrow> may_run rules R r"
        using that(1) less.prems(4) sub out by (intro may_run_append ids) (auto simp: outside_def)
      with that(2) show ?thesis by (simp add: task_outcome_def)
    qed
    have "list_all2 (task_outcome env ps rules R) ?d res2"
      by (rule list.rel_mono_strong [OF conjunct1 [OF rest]]) (rule stable)
    with batch(1) have "list_all2 (task_outcome env ps rules R) (?b @ ?d) (res1 @ res2)" by (rule list_all2_appendI)
    moreover have "map res_ruleId (res1 @ res2) = map rid (?b @ ?d)"
      unfolding map_append using batch(2) rest by simp
    ultimately show ?thesis using eq rest batch(4) by simp
  qed
qed

fun layered :: "Rule list \<Rightarrow> Rule list \<Rightarrow> Rule list list \<Rightarrow> bool" where
  "layered rules pre [] = True"
| "layered rules pre (l # ls) =
     ((\<forall>r\<in>set l. \<forall>q. provider rules r = Some q \<longrightarrow> q \<in> set pre) \<and> layered rules (pre @ l) ls)"

lemma layered_levels:
  assumes "k \<le> n"
  shows "layered rules (concat (map (level_at rules) [0..<k])) (map (level_at rules) [k..<n])"
  using assms
proof (induction rule: inc_induct)
  case (step k)
  have "q \<in> set (concat (map (level_at rules) [0..<k]))"
    if r: "r \<in> set (level_at rules k)" "provider rules r = Some q" for r q
  proof -
    obtain j where "k = Suc j" "depth rules q j"
      using r by (cases k) (auto simp: level_at_def sort_level_def depth_Suc_iff)
    with provider_SomeD [OF r(2)] show ?thesis by (auto simp: level_at_def sort_level_def)
  qed
  with step show ?case by (simp add: upt_conv_Cons)
qed simp

lemma run_levels_spec:
  assumes "unambiguous rules" "keys_apart rules" "schedule sched" "conc > 0" "\<forall>r\<in>set rules. \<not> caching (rdata r)"
    and "mset (pre @ concat ls) = mset rules" "layered rules pre ls" "res_ruleId ` set R \<subseteq> rid ` set pre"
    and "tracks rules (set rules) (w_ctx (s_w s)) R" "useEnginePool (s_wf s)" "enginePool (s_wf s) \<noteq> []"
    and "run_levels env sched ps conc ls s = (res, s')"
  shows "list_all2 (task_outcome env ps rules (R @ res)) (filter (\<lambda>r. isActive (rdata r)) (concat ls)) res \<and>
    map res_ruleId res = map rid (filter (\<lambda>r. isActive (rdata r)) (concat ls)) \<and> pool_view s' = pool_view s"
  using assms(6-12)
proof (induction ls arbitrary: pre R s res s')
  case (Cons l ls)
  let ?t = "filter (\<lambda>r. isActive (rdata r)) l"
  obtain res1 s1 where b: "run_pending env sched ps conc ?t s = (res1, s1)" by fastforce
  obtain res2 s2 where d: "run_levels env sched ps conc ls s1 = (res2, s2)" by fastforce
  have eq: "res = res1 @ res2" "s' = s2" using Cons.prems(7) b d by simp_all
  have all: "set pre \<union> set l \<union> set (concat ls) = set rules" using Cons.prems(1) by (metis concat.simps(2) set_append set_mset_mset sup_assoc)
  have dist: "distinct (map rid (pre @ l @ concat ls))"
    using assms(1) Cons.prems(1) by (metis concat.simps(2) mset_eq_imp_distinct_iff mset_map unambiguous_def)
  have pend: "list_all2 (task_outcome env ps rules R) ?t res1 \<and> map res_ruleId res1 = map rid ?t \<and>
      tracks rules (set rules) (w_ctx (s_w s1)) (R @ res1) \<and> pool_view s1 = pool_view s"
  proof (rule run_pending_spec [OF assms(1-4) _ _ _ _ Cons.prems(4-6) b])
    show "set ?t \<subseteq> set rules" "distinct ?t" using all dist by (auto simp: distinct_map)
    have "rid ` set pre \<inter> rid ` set l = {}" using dist by (simp add: Int_Un_distrib image_Un)
    then have "rid r \<notin> res_ruleId ` set R" "r \<notin> set pre" if "r \<in> set l" for r using Cons.prems(3) that by blast+
    then show "\<forall>r\<in>set ?t. isActive (rdata r) \<and> \<not> caching (rdata r) \<and> rid r \<notin> res_ruleId ` set R"
      and "\<forall>r\<in>set ?t. \<forall>q. provider rules r = Some q \<longrightarrow> q \<in> outside rules ?t"
      using Cons.prems(2) all assms(5) by (auto simp: outside_def)
  qed
  have ids1: "res_ruleId ` set res1 \<subseteq> rid ` set l" using filtered_ids pend by blast
  have rest: "list_all2 (task_outcome env ps rules ((R @ res1) @ res2)) (filter (\<lambda>r. isActive (rdata r)) (concat ls)) res2 \<and>
      map res_ruleId res2 = map rid (filter (\<lambda>r. isActive (rdata r)) (concat ls)) \<and> pool_view s2 = pool_view s1"
  proof (rule Cons.IH [OF _ _ _ _ _ _ d])
    show "mset ((pre @ l) @ concat ls) = mset rules" "layered rules (pre @ l) ls" using Cons.prems(1,2) by simp_all
    show "res_ruleId ` set (R @ res1) \<subseteq> rid ` set (pre @ l)" using ids1 Cons.prems(3) by auto
    show "tracks rules (set rules) (w_ctx (s_w s1)) (R @ res1)" using pend by simp
    show "useEnginePool (s_wf s1)" "enginePool (s_wf s1) \<noteq> []" using pend Cons.prems(5,6) by (simp_all add: pool_view_def)
  qed
  have ids2: "res_ruleId ` set res2 \<subseteq> rid ` set (concat ls)" using filtered_ids rest by blast
  have stable: "task_outcome env ps rules (R @ res) r x" if "r \<in> set ?t" "task_outcome env ps rules R r x" for r x
  proof -
    have "may_run rules (R @ res) r \<longleftrightarrow> may_run rules R r"
    proof (rule may_run_append)
      fix q assume "provider rules r = Some q"
      then have "rid q \<in> rid ` set pre" using Cons.prems(2) that(1) by auto
      moreover have "rid ` set pre \<inter> (rid ` set l \<union> rid ` set (concat ls)) = {}"
        using dist by (simp add: Int_Un_distrib image_Un)
      moreover have "res_ruleId ` set res \<subseteq> rid ` set l \<union> rid ` set (concat ls)"
        using Un_mono [OF ids1 ids2] by (simp only: eq set_append image_Un)
      ultimately show "rid q \<notin> res_ruleId ` set res" by (meson disjoint_iff subsetD)
    qed
    with that(2) show ?thesis by (simp add: task_outcome_def)
  qed
  have "list_all2 (task_outcome env ps rules (R @ res)) ?t res1"
    by (rule list.rel_mono_strong [OF conjunct1 [OF pend]]) (rule stable)
  with rest pend eq show ?case by (simp add: list_all2_appendI)
qed simp

text \<open>A compiled workflow has a pool of free engines; compilation sets it up.\<close>

definition pool_ready :: "'h Workflow \<Rightarrow> bool" where
  "pool_ready wk \<longleftrightarrow> useEnginePool wk \<and> enginePool wk \<noteq> []"

lemma build_pool_storage:
  "build_pool env n s = (Inr (), s') \<Longrightarrow>
     length (enginePoolStorage (s_wf s')) = length (enginePoolStorage (s_wf s)) + n"
  by (induction n arbitrary: s) (fastforce simp: Let_def split: prod.splits sum.splits)+

lemma wf_compile_pool:
  assumes "wf_compile env it its hw s = (Inr (), s')" "\<not> wf_compiled (s_wf s)"
  shows "useEnginePool (s_wf s') \<and> wf_compiled (s_wf s') \<and> enginePool (s_wf s') = rev [0..<max hw 2] \<and>
     length (enginePoolStorage (s_wf s')) = max hw 2"
  using assms
  by (auto simp: wf_compile_def fill_pool_def Let_def elim!: bindx_InrE split: prod.splits sum.splits
      dest!: build_pool_storage)

lemma ensure_compiled_pool:
  assumes "ensure_compiled env it its hw s = (Inr (), s')" "wf_compiled (s_wf s) \<Longrightarrow> pool_ready (s_wf s)"
  shows "pool_ready (s_wf s')"
proof (cases "wf_compiled (s_wf s)")
  case False
  with assms wf_compile_pool [of env it its hw s s'] show ?thesis
    by (auto simp: ensure_compiled_def pool_ready_def)
qed (use assms in \<open>simp add: ensure_compiled_def\<close>)


section \<open>Adaptive execution\<close>

text \<open>Nothing but the adjustment changes the threshold.\<close>

abbreviation threshold :: "'h wf_state \<Rightarrow> 64 word" where
  "threshold s \<equiv> adaptiveThreshold (s_wf s)"

lemma threshold_bindx:
  assumes "P (threshold (snd m))" "\<And>v s. P (threshold s) \<Longrightarrow> P (threshold (snd (f v s)))"
  shows "P (threshold (snd (bindx m f)))"
  using assms by (cases m; cases "fst m") auto

lemma build_pool_threshold: "threshold (snd (build_pool env n s)) = threshold s"
  by (induction n arbitrary: s) (simp_all add: Let_def split: sum.split prod.split)

lemma ensure_compiled_threshold: "threshold (snd (ensure_compiled env it its hw s)) = threshold s"
proof -
  have "threshold (snd (wf_validate it its s')) = threshold s'" for s' :: "'a wf_state"
    by (simp add: wf_validate_def Let_def split: sum.split prod.split)
  then have "threshold (snd (wf_compile env it its hw s)) = threshold s"
    unfolding wf_compile_def Let_def
    by (auto intro!: threshold_bindx [where P = "\<lambda>t. t = threshold s"] simp: build_pool_threshold fill_pool_def split: sum.split prod.split)
  then show ?thesis by (simp add: ensure_compiled_def)
qed

lemma run_tasks_threshold: "threshold (snd (run_tasks env ps ts s)) = threshold s"
proof (induction ts arbitrary: s)
  case (Cons t ts)
  have "threshold (snd (run_task env ps r s)) = threshold s" for r and s :: "'a wf_state"
    by (auto simp: run_task_def acquireEngine_def releaseEngine_def on_engine_def Let_def split_beta
        simp del: execute.simps split: list.splits if_splits)
  with Cons show ?case by (cases t) (simp add: split_beta)
qed simp

lemma run_pending_threshold: "threshold (snd (run_pending env sched ps conc todo s)) = threshold s"
proof (induction env sched ps conc todo s rule: run_pending.induct)
  case (1 env sched ps conc todo s)
  have "threshold (snd (run_batch env sched ps b s)) = threshold s" for b and s :: "'a wf_state"
    by (simp add: run_batch_def run_tasks_threshold Let_def split_beta)
  moreover have "threshold (snd (run_pending env sched ps conc (drop conc todo) (snd (run_batch env sched ps (take conc todo) s)))) =
      threshold (snd (run_batch env sched ps (take conc todo) s))" if "\<not> (todo = [] \<or> conc = 0)"
    using 1 [OF that refl prod.collapse] .
  ultimately show ?case by (simp add: run_pending.simps [of env sched ps conc todo s] split_beta Let_def)
qed

lemma run_levels_threshold: "threshold (snd (run_levels env sched ps conc ls s)) = threshold s"
  by (induction ls arbitrary: s) (simp_all add: run_pending_threshold split_beta)

lemma executions_threshold:
  "threshold (snd (wf_execute env it its hw ps s)) = threshold s"
  "threshold (snd (wf_executeParallel env it its hw sched ps s)) = threshold s"
  unfolding wf_execute_def wf_executeParallel_def
  by (auto intro!: threshold_bindx [where P = "\<lambda>t. t = threshold s"] simp: ensure_compiled_threshold in_new_context_def Let_def split_beta
      run_levels_threshold split: sum.split)

lemma compare_strategies_threshold:
  fixes s :: "'h wf_state"
  assumes "\<And>wk :: 'h Workflow. P (adaptiveThreshold wk) \<Longrightarrow> P (adaptiveThreshold (adjust_threshold fp wk))" "P (threshold s)"
  shows "P (threshold (snd (compare_strategies env fp it its hw sched ps s)))"
proof -
  have now: "threshold (snd (wf_now env s')) = threshold s'" for s' :: "'h wf_state"
    by (simp add: wf_now_def split_beta)
  show ?thesis
    unfolding compare_strategies_def Let_def split_beta
  proof (rule threshold_bindx [where P = P])
    show "P (threshold (snd (wf_execute env it its hw ps (snd (wf_now env s)))))"
      using assms(2) by (simp add: executions_threshold now)
    fix v and s1 :: "'h wf_state"
    assume s1: "P (threshold s1)"
    let ?t = "micros (fst (wf_now env s1) - fst (wf_now env s))"
    let ?s4 = "(snd (wf_now env s1))\<lparr>s_wf := record_sequential fp ?t (s_wf (snd (wf_now env s1)))\<rparr>"
    have "threshold (snd (wf_now env ?s4)) = threshold s1" by (simp add: now) (simp add: record_sequential_def now)
    with s1 show "P (threshold (snd (bindx (wf_executeParallel env it its hw sched ps (snd (wf_now env ?s4)))
        (\<lambda>parResults s5. (Inr (if ?t < micros (fst (wf_now env s5) - fst (wf_now env ?s4)) then v else parResults),
           (snd (wf_now env s5))\<lparr>s_wf := adjust_threshold fp (record_parallel fp
              (micros (fst (wf_now env s5) - fst (wf_now env ?s4))) (s_wf (snd (wf_now env s5))))\<rparr>)))))"
      by (intro threshold_bindx [where P = P]) (simp_all add: executions_threshold assms(1) record_parallel_def now)
  qed
qed

text \<open>Outside of the range 2 to 20 the arithmetic of the adjustment wraps around: lowering the
  threshold 0 makes it the largest 64-bit number, and raising the largest one makes it 0, which
  flips \<^verbatim>\<open>executeAdaptive\<close> from one mode to the other for every workflow.\<close>

lemma adjust_threshold_wraps:
  "fp_faster fp (sequentialAvgTime wk) (parallelAvgTime wk) \<Longrightarrow>
     adaptiveThreshold (adjust_threshold fp (setAdaptiveThreshold (- 1) wk)) = 0"
  "\<not> fp_faster fp (sequentialAvgTime wk) (parallelAvgTime wk) \<Longrightarrow>
     fp_faster fp (parallelAvgTime wk) (sequentialAvgTime wk) \<Longrightarrow>
     unat (adaptiveThreshold (adjust_threshold fp (setAdaptiveThreshold 0 wk))) = 2 ^ 64 - 1"
  by (simp_all add: adjust_threshold_def setAdaptiveThreshold_def max_def word_le_nat_alt unsigned_minus_1_eq_mask mask_eq_exp_minus_1)

text \<open>
  The adaptive threshold stays in its range: once it lies between 2 and 20, every adaptive
  execution, whether it compares both strategies or not and whether it throws or not, keeps it
  there.
\<close>

lemma adaptive_threshold_range:
  assumes "2 \<le> threshold s" and "threshold s \<le> 20"
    and "wf_executeAdaptive env fp it its hw sched ps (n, s) = (x, m, s')"
  shows "2 \<le> threshold s' \<and> threshold s' \<le> 20"
proof -
  let ?P = "\<lambda>t :: 64 word. 2 \<le> t \<and> t \<le> 20"
  have adj: "?P (adaptiveThreshold (adjust_threshold fp wk))" if "?P (adaptiveThreshold wk)" for wk :: "'a Workflow"
  proof -
    have t: "2 \<le> unat (adaptiveThreshold wk)" "unat (adaptiveThreshold wk) \<le> 20"
      using that by (simp_all add: word_le_nat_alt)
    then have "unat (adaptiveThreshold wk + 1) = unat (adaptiveThreshold wk) + 1"
      "unat (adaptiveThreshold wk - 1) = unat (adaptiveThreshold wk) - 1"
      by (simp_all add: unatSuc unat_sub word_le_nat_alt unat_word_ariths)
    with t show ?thesis by (auto simp: adjust_threshold_def min_def max_def word_le_nat_alt)
  qed
  have P1: "?P (threshold (snd (ensure_compiled env it its hw s)))"
    using assms(1,2) by (simp add: ensure_compiled_threshold)
  note cmp = compare_strategies_threshold [where P = ?P, OF adj P1, of env it its hw sched ps]
  show ?thesis
    using assms(3) P1 cmp [simplified]
    by (cases "ensure_compiled env it its hw s"; cases "fst (ensure_compiled env it its hw s)")
      (auto simp: wf_executeAdaptive_def Let_def split_beta executions_threshold split: if_splits)
qed

section \<open>Examples\<close>

definition sample_workflow :: "unit Workflow" where
  "sample_workflow =
     (wf_Builder 1)\<lparr>wf_rules := sample_rules, validated := True, wf_compiled := True, useEnginePool := True,
        enginePoolStorage := [create_engine sample_vm 2, create_engine sample_vm 3], enginePool := [1, 0]\<rparr>"

definition sample_state :: "unit wf_state" where
  "sample_state = \<lparr>s_wf = sample_workflow, s_w = sample_world, s_instances = 3\<rparr>"

lemma sample_state_simps [simp]:
  "wf_rules (s_wf sample_state) = sample_rules" "wf_compiled (s_wf sample_state)" "pool_ready (s_wf sample_state)"
  "ensure_compiled env it its hw sample_state = (Inr (), sample_state)" "threshold sample_state = 4"
  by (simp_all add: sample_state_def sample_workflow_def pool_ready_def ensure_compiled_def wf_Builder_def default_workflow_def)

lemma sample_rules_uncached: "\<forall>r\<in>set sample_rules. \<not> caching (rdata r)"
  by (simp add: sample_rules_def dep_rule_def sample_data_def caching_def)

lemma sample_rules_apart: "keys_apart sample_rules"
  by (auto simp: keys_apart_def sample_rules_def dep_rule_def sample_data_def resultKey_def)

theorem streaming_equals_sequential_witness:
  "wf_execute sample_fr_env id id 2 [] sample_state =
    bindx (wf_executeStreaming sample_fr_env id id 2 sample_state) (\<lambda>st s1.
      let (xs, w) = drain sample_fr_env [] st (s_w s1) in (Inr xs, s1\<lparr>s_w := w\<rparr>))"
  by (rule streaming_equals_sequential) (use sample_rules_uncached in simp)



lemma adaptive_threshold_range_example:
  "2 \<le> threshold (snd (snd (wf_executeAdaptive sample_fr_env \<lparr>fp_avg = (\<lambda>a n t. 0), fp_faster = (\<lambda>a b. a < b)\<rparr> id id 2 rev [] (0, sample_state))))"
proof -
  obtain x m s' where e: "wf_executeAdaptive sample_fr_env \<lparr>fp_avg = (\<lambda>a n t. 0), fp_faster = (\<lambda>a b. a < b)\<rparr> id id 2 rev [] (0, sample_state) = (x, m, s')"
    by (metis prod.exhaust)
  from adaptive_threshold_range [OF _ _ this] e show ?thesis by simp
qed

definition cached_rule :: Rule where
  "cached_rule = (case dep_rule 3 ''tax'' 1 None of Rule a d cs \<Rightarrow> Rule a (d\<lparr>cacheDuration := Some 30\<rparr>) cs)"

definition cached_world :: "unit world" where
  "cached_world =
     storeInCache sample_fr_env 3 (rdata cached_rule) [] (with_success True init_result) sample_world"

lemma cached_provider_blocks_dependent_example:
  "\<exists>w1. run_rules sample_fr_env [] [cached_rule, dep_rule 1 ''total'' 0 (Some ''tax'')] cached_world =
     ([with_success True init_result], w1)"
proof -
  let ?d = "rdata cached_rule"
  have d: "addr cached_rule = 3" "isActive ?d" "rdep cached_rule = None" "resultKey ?d = ''tax''" "caching ?d"
    "cacheDuration ?d = Some 30"
    by (simp_all add: cached_rule_def dep_rule_def sample_data_def resultKey_def caching_def)
  have ctx: "getResult (w_ctx cached_world) ''tax'' = None"
    by (simp add: cached_world_def sample_world_def init_context_def getResult_def)
  have "map_of (cache (w_store cached_world 3)) (buildCacheKey sample_fr_env ?d []) =
      Some \<lparr>ce_result = with_success True init_result, ce_expiresAt = e_clk sample_fr_env (w_tick sample_world) +
        ms_to_ns (the (cacheDuration ?d)), ce_generation = cacheGeneration (w_store sample_world 3)\<rparr>"
    unfolding cached_world_def by (rule storeInCache_entry [OF d(5)])
  moreover have "w_tick cached_world = 1" "cacheGeneration (w_store cached_world 3) = cacheGeneration (w_store sample_world 3)"
    using d(5) by (simp_all add: cached_world_def storeInCache_def now_def Let_def sample_world_def)
  ultimately obtain w1 where l: "cacheLookup sample_fr_env 3 ?d [] cached_world = (Some (with_success True init_result), w1)"
    using d by (simp add: cacheLookup_def now_def Let_def sample_fr_env_def sample_world_def ms_to_ns_def)
  have "isSuccess (with_success True init_result)" by (simp add: isSuccess_def)
  with cached_provider_blocks_dependent [OF d(2,3), of "dep_rule 1 ''total'' 0 (Some ''tax'')" sample_fr_env "[]" cached_world] d l ctx
  show ?thesis by (auto simp: dep_rule_def sample_data_def caching_def)
qed

end
