(* ===== verification/Engine_Pool.thy ===== *)
theory Engine_Pool
  imports FR_Prelude "HOL-Library.Multiset"
begin

text \<open>
  \<^verbatim>\<open>EnginePool\<close> (include/fastrules/engine_pool.hpp): a stack of engines whose head is an atomic shared
  pointer, used by many threads at once. A node is an address in a heap; the reference counts of
  the shared pointers keep a node alive while a thread holds its address, so an address is never
  given out twice. The state machine has one step per atomic access: the load of the head and each
  attempt to compare and exchange it, which may also fail for no reason. A thread's program
  counter says where in \<^verbatim>\<open>push\<close>, \<^verbatim>\<open>pop\<close> or \<^verbatim>\<open>tryPop\<close> it is. A thread gives back only engines that it holds.
\<close>

section \<open>State\<close>

record 'e EngineNode =
  en_engine :: 'e
  en_next :: "nat option"

text \<open>\<open>PushLoop n c\<close>: the thread owns the fresh node \<open>n\<close> and has read the head \<open>c\<close>.
  \<open>PopLoop c\<close>: it has read the head \<open>c\<close>. \<open>TryLoop d\<close>: it is at the start of the loop of \<^verbatim>\<open>tryPop\<close> with
  deadline \<open>d\<close>, \<open>TryRead d c\<close>: it has read the head there.\<close>

datatype pc = Idle | PushLoop nat "nat option" | PopLoop "nat option" | TryLoop int | TryRead int "nat option"

record 'e pool_state =
  p_heap :: "nat \<Rightarrow> 'e EngineNode option"
  p_head :: "nat option"
  p_fresh :: nat
  p_pc :: "nat \<Rightarrow> pc"
  p_held :: "nat \<Rightarrow> 'e multiset"
  p_clock :: int

text \<open>A successful exchange in \<^verbatim>\<open>pop\<close> and \<^verbatim>\<open>tryPop\<close>.\<close>

definition take_head :: "nat \<Rightarrow> 'e EngineNode \<Rightarrow> 'e pool_state \<Rightarrow> 'e pool_state" where
  "take_head t nd s =
     s\<lparr>p_head := en_next nd, p_pc := (p_pc s)(t := Idle),
       p_held := (p_held s)(t := add_mset (en_engine nd) (p_held s t))\<rparr>"

text \<open>The steps of thread \<open>t\<close>.\<close>

inductive pool_step :: "nat \<Rightarrow> 'e pool_state \<Rightarrow> 'e pool_state \<Rightarrow> bool" for t where
  push_start:
    "p_pc s t = Idle \<Longrightarrow> e \<in># p_held s t \<Longrightarrow> n = p_fresh s \<Longrightarrow>
     pool_step t s
       (s\<lparr>p_heap := (p_heap s)(n \<mapsto> \<lparr>en_engine = e, en_next = p_head s\<rparr>), p_fresh := Suc n,
          p_pc := (p_pc s)(t := PushLoop n (p_head s)), p_held := (p_held s)(t := p_held s t - {#e#})\<rparr>)"
| push_done:
    "p_pc s t = PushLoop n c \<Longrightarrow> p_head s = c \<Longrightarrow>
     pool_step t s (s\<lparr>p_head := Some n, p_pc := (p_pc s)(t := Idle)\<rparr>)"
| push_retry:
    "p_pc s t = PushLoop n c \<Longrightarrow> p_heap s n = Some nd \<Longrightarrow>
     pool_step t s
       (s\<lparr>p_heap := (p_heap s)(n \<mapsto> nd\<lparr>en_next := p_head s\<rparr>), p_pc := (p_pc s)(t := PushLoop n (p_head s))\<rparr>)"
| pop_start:
    "p_pc s t = Idle \<Longrightarrow> pool_step t s (s\<lparr>p_pc := (p_pc s)(t := PopLoop (p_head s))\<rparr>)"
| pop_empty:
    "p_pc s t = PopLoop None \<Longrightarrow> pool_step t s (s\<lparr>p_pc := (p_pc s)(t := Idle)\<rparr>)"
| pop_done:
    "p_pc s t = PopLoop (Some n) \<Longrightarrow> p_head s = Some n \<Longrightarrow> p_heap s n = Some nd \<Longrightarrow>
     pool_step t s (take_head t nd s)"
| pop_retry:
    "p_pc s t = PopLoop (Some n) \<Longrightarrow> pool_step t s (s\<lparr>p_pc := (p_pc s)(t := PopLoop (p_head s))\<rparr>)"
| try_start:
    "p_pc s t = Idle \<Longrightarrow> pool_step t s (s\<lparr>p_pc := (p_pc s)(t := TryLoop (p_clock s + timeout_ms * 1000000))\<rparr>)"
| try_load:
    "p_pc s t = TryLoop d \<Longrightarrow> pool_step t s (s\<lparr>p_pc := (p_pc s)(t := TryRead d (p_head s))\<rparr>)"
| try_done:
    "p_pc s t = TryRead d (Some n) \<Longrightarrow> p_head s = Some n \<Longrightarrow> p_heap s n = Some nd \<Longrightarrow>
     pool_step t s (take_head t nd s)"
| try_retry:
    "p_pc s t = TryRead d (Some n) \<Longrightarrow> pool_step t s (s\<lparr>p_pc := (p_pc s)(t := TryLoop d)\<rparr>)"
| try_timeout:
    "p_pc s t = TryRead d None \<Longrightarrow> p_clock s \<ge> d \<Longrightarrow> pool_step t s (s\<lparr>p_pc := (p_pc s)(t := Idle)\<rparr>)"
| try_wait:
    "p_pc s t = TryRead d None \<Longrightarrow> p_clock s < d \<Longrightarrow> pool_step t s (s\<lparr>p_pc := (p_pc s)(t := TryLoop d)\<rparr>)"

text \<open>Any of the threads below \<open>N\<close> moves, or time passes.\<close>

inductive pool_reach :: "nat \<Rightarrow> 'e pool_state \<Rightarrow> 'e pool_state \<Rightarrow> bool" for N s0 where
  reach_start: "pool_reach N s0 s0"
| reach_step: "pool_reach N s0 s \<Longrightarrow> t < N \<Longrightarrow> pool_step t s s' \<Longrightarrow> pool_reach N s0 s'"
| reach_tick: "pool_reach N s0 s \<Longrightarrow> p_clock s \<le> c \<Longrightarrow> pool_reach N s0 (s\<lparr>p_clock := c\<rparr>)"

section \<open>The abstract stack\<close>

text \<open>The nodes from an address on, as a list of addresses.\<close>

inductive chain :: "(nat \<Rightarrow> 'e EngineNode option) \<Rightarrow> nat option \<Rightarrow> nat list \<Rightarrow> bool" for h where
  chain_Nil: "chain h None []"
| chain_Cons: "h n = Some nd \<Longrightarrow> chain h (en_next nd) ns \<Longrightarrow> chain h (Some n) (n # ns)"

inductive_simps chain_None [simp]: "chain h None ns"
inductive_cases chain_SomeE: "chain h (Some n) ns"

definition engines_at :: "(nat \<Rightarrow> 'e EngineNode option) \<Rightarrow> nat list \<Rightarrow> 'e list" where
  "engines_at h ns = map (\<lambda>n. en_engine (the (h n))) ns"

text \<open>The engine that a thread is about to push.\<close>

definition in_flight :: "'e pool_state \<Rightarrow> nat \<Rightarrow> 'e multiset" where
  "in_flight s t = (case p_pc s t of PushLoop n c \<Rightarrow> {#en_engine (the (p_heap s n))#} | _ \<Rightarrow> {#})"

definition owned :: "'e pool_state \<Rightarrow> nat \<Rightarrow> 'e multiset" where
  "owned s t = p_held s t + in_flight s t"

text \<open>The abstract pool: a stack, and what each thread owns.\<close>

inductive spec_step :: "nat \<Rightarrow> 'e list \<times> (nat \<Rightarrow> 'e multiset) \<Rightarrow> 'e list \<times> (nat \<Rightarrow> 'e multiset) \<Rightarrow> bool" for t where
  spec_push: "e \<in># own t \<Longrightarrow> spec_step t (es, own) (e # es, own(t := own t - {#e#}))"
| spec_pop: "spec_step t (e # es, own) (es, own(t := add_mset e (own t)))"

definition pool_abs :: "'e pool_state \<Rightarrow> 'e list \<times> (nat \<Rightarrow> 'e multiset) \<Rightarrow> bool" where
  "pool_abs s a \<longleftrightarrow> (\<exists>ns. chain (p_heap s) (p_head s) ns \<and> a = (engines_at (p_heap s) ns, owned s))"

text \<open>Addresses in use are below the fresh one, and a node that is being pushed is not in the stack,
  links to the head that was read, and belongs to one thread.\<close>

definition inv_at :: "nat list \<Rightarrow> 'e pool_state \<Rightarrow> bool" where
  "inv_at ns s \<longleftrightarrow>
     (\<forall>n. p_heap s n \<noteq> None \<longrightarrow> n < p_fresh s) \<and> chain (p_heap s) (p_head s) ns \<and>
     (\<forall>t n c. p_pc s t = PushLoop n c \<longrightarrow>
        n \<notin> set ns \<and> (\<exists>e. p_heap s n = Some \<lparr>en_engine = e, en_next = c\<rparr>) \<and>
        (\<forall>t' c'. p_pc s t' = PushLoop n c' \<longrightarrow> t' = t))"

lemma chain_det: "chain h p ns \<Longrightarrow> chain h p ms \<Longrightarrow> ms = ns"
proof (induction arbitrary: ms rule: chain.induct)
  case (chain_Cons n nd ns)
  from chain_Cons.prems obtain md ks where "h n = Some md" "chain h (en_next md) ks" "ms = n # ks"
    by (rule chain_SomeE)
  with chain_Cons show ?case by simp
qed simp

lemma chain_upd: "chain h p ns \<Longrightarrow> n \<notin> set ns \<Longrightarrow> chain (h(n := x)) p ns"
  by (induction rule: chain.induct) (auto intro: chain.intros)

lemma chain_alloc: "chain h p ns \<Longrightarrow> m \<in> set ns \<Longrightarrow> h m \<noteq> None"
  by (induction rule: chain.induct) auto

lemma engines_upd: "n \<notin> set ns \<Longrightarrow> engines_at (h(n := x)) ns = engines_at h ns"
  by (auto simp: engines_at_def)

lemma pool_absI: "chain (p_heap s) (p_head s) ns \<Longrightarrow> pool_abs s (engines_at (p_heap s) ns, owned s)"
  by (auto simp: pool_abs_def)

text \<open>A step that only moves the program counter, outside of the push loop.\<close>

definition quiet :: "pc \<Rightarrow> bool" where
  "quiet p \<longleftrightarrow> (\<forall>n c. p \<noteq> PushLoop n c)"

lemma quiet_simps [simp]:
  "quiet Idle" "quiet (PopLoop c)" "quiet (TryLoop d)" "quiet (TryRead d c)" "\<not> quiet (PushLoop n c)"
  by (simp_all add: quiet_def)

lemma quiet_upd: "quiet p \<Longrightarrow> (f(t := p)) t' = PushLoop n c \<longleftrightarrow> t' \<noteq> t \<and> f t' = PushLoop n c"
  by (auto simp: quiet_def)

lemma in_flight_quiet: "quiet (p_pc s t) \<Longrightarrow> in_flight s t = {#}"
  by (cases "p_pc s t") (simp_all add: in_flight_def quiet_def)

lemma in_flight_cong:
  "p_pc s' t = p_pc s t \<Longrightarrow> (\<And>n c. p_pc s t = PushLoop n c \<Longrightarrow> en_engine (the (p_heap s' n)) = en_engine (the (p_heap s n))) \<Longrightarrow>
     in_flight s' t = in_flight s t"
  by (simp add: in_flight_def split: pc.split)

lemma quiet_step:
  assumes "inv_at ns s" "quiet (p_pc s t)" "quiet p"
  shows "inv_at ns (s\<lparr>p_pc := (p_pc s)(t := p)\<rparr>)" "owned (s\<lparr>p_pc := (p_pc s)(t := p)\<rparr>) = owned s"
proof -
  show "inv_at ns (s\<lparr>p_pc := (p_pc s)(t := p)\<rparr>)"
    using assms(1) unfolding inv_at_def by (simp add: quiet_upd [OF assms(3)] del: fun_upd_apply) blast
  have "in_flight (s\<lparr>p_pc := (p_pc s)(t := p)\<rparr>) t' = in_flight s t'" for t'
    using in_flight_quiet [OF assms(2)] in_flight_quiet [of "s\<lparr>p_pc := (p_pc s)(t := p)\<rparr>" t] assms(3)
    by (cases "t' = t") (simp, intro in_flight_cong, simp_all)
  then show "owned (s\<lparr>p_pc := (p_pc s)(t := p)\<rparr>) = owned s" by (simp add: owned_def fun_eq_iff)
qed

lemma quiet_noop:
  assumes "inv_at ns s" "s' = s\<lparr>p_pc := (p_pc s)(t := p)\<rparr>" "quiet (p_pc s t)" "quiet p"
  shows "\<exists>ms. inv_at ms s' \<and>
    ((engines_at (p_heap s') ms, owned s') = (engines_at (p_heap s) ns, owned s) \<or>
     spec_step t (engines_at (p_heap s) ns, owned s) (engines_at (p_heap s') ms, owned s'))"
  using quiet_step [OF assms(1,3,4)] assms(2) by (intro exI [of _ ns]) simp

text \<open>A successful exchange that takes the head.\<close>

lemma take_head_step:
  assumes i: "inv_at ns s" and q: "quiet (p_pc s t)" and h: "p_head s = Some n" "p_heap s n = Some nd"
  shows "\<exists>ms. inv_at ms (take_head t nd s) \<and>
    spec_step t (engines_at (p_heap s) ns, owned s)
      (engines_at (p_heap (take_head t nd s)) ms, owned (take_head t nd s))"
proof -
  from i h obtain ms where ns: "ns = n # ms" "chain (p_heap s) (en_next nd) ms"
    by (auto simp: inv_at_def elim!: chain_SomeE)
  have inv: "inv_at ms (take_head t nd s)"
    using i ns unfolding inv_at_def take_head_def by (simp add: quiet_upd del: fun_upd_apply) blast
  have "in_flight (take_head t nd s) t' = in_flight s t'" for t'
    using in_flight_quiet [OF q] by (cases "t' = t") (auto simp: in_flight_def take_head_def split: pc.split)
  then have own: "owned (take_head t nd s) = (owned s)(t := add_mset (en_engine nd) (owned s t))"
    by (auto simp: owned_def take_head_def)
  have "engines_at (p_heap s) ns = en_engine nd # engines_at (p_heap s) ms"
    using ns h by (simp add: engines_at_def)
  moreover have "p_heap (take_head t nd s) = p_heap s" by (simp add: take_head_def)
  ultimately show ?thesis using inv own spec_pop by metis
qed

lemma push_start_step:
  assumes i: "inv_at ns s" and q: "p_pc s t = Idle" and e: "e \<in># p_held s t"
    and s': "s' = s\<lparr>p_heap := (p_heap s)(p_fresh s \<mapsto> \<lparr>en_engine = e, en_next = p_head s\<rparr>), p_fresh := Suc (p_fresh s),
          p_pc := (p_pc s)(t := PushLoop (p_fresh s) (p_head s)), p_held := (p_held s)(t := p_held s t - {#e#})\<rparr>"
  shows "inv_at ns s' \<and> engines_at (p_heap s') ns = engines_at (p_heap s) ns \<and> owned s' = owned s"
proof -
  have fresh: "p_heap s (p_fresh s) = None" using i unfolding inv_at_def by blast
  have c: "chain (p_heap s) (p_head s) ns" using i by (simp add: inv_at_def)
  with fresh have notin: "p_fresh s \<notin> set ns" using chain_alloc by metis
  have other: "m \<noteq> p_fresh s" if "p_pc s t' = PushLoop m d" for t' m d
    using i that fresh by (force simp: inv_at_def)
  have "inv_at ns s'"
    using i notin c other by (auto simp: inv_at_def s' chain_upd less_Suc_eq split: if_splits)
  moreover have "owned s' t' = owned s t'" for t'
  proof (cases "t' = t")
    case True
    with e q show ?thesis by (simp add: owned_def in_flight_def s')
  next
    case False
    with other have "in_flight s' t' = in_flight s t'" by (intro in_flight_cong) (auto simp: s')
    with False show ?thesis by (simp add: owned_def s')
  qed
  ultimately show ?thesis using notin by (auto simp: s' engines_upd fun_eq_iff)
qed

lemma push_done_step:
  assumes i: "inv_at ns s" and q: "p_pc s t = PushLoop n c" "p_head s = c"
    and s': "s' = s\<lparr>p_head := Some n, p_pc := (p_pc s)(t := Idle)\<rparr>"
  shows "inv_at (n # ns) s' \<and>
    spec_step t (engines_at (p_heap s) ns, owned s) (engines_at (p_heap s') (n # ns), owned s')"
proof -
  from i q obtain e where e: "p_heap s n = Some \<lparr>en_engine = e, en_next = c\<rparr>"
    and solo: "\<And>t' c'. p_pc s t' = PushLoop n c' \<Longrightarrow> t' = t" and c: "chain (p_heap s) c ns"
    unfolding inv_at_def by metis
  have "inv_at (n # ns) s'"
    using i q e c solo by (auto simp: inv_at_def s' quiet_upd intro: chain_Cons simp del: fun_upd_apply)
  moreover have "owned s' t' = ((owned s)(t := owned s t - {#e#})) t'" for t'
    using q e by (cases "t' = t") (simp_all add: owned_def in_flight_def s' split: pc.split)
  then have "owned s' = (owned s)(t := owned s t - {#e#})" by blast
  moreover have "e \<in># owned s t" using q e by (simp add: owned_def in_flight_def)
  moreover have "engines_at (p_heap s') (n # ns) = e # engines_at (p_heap s) ns" using e by (simp add: engines_at_def s')
  ultimately show ?thesis using spec_push by metis
qed

lemma push_retry_step:
  assumes i: "inv_at ns s" and q: "p_pc s t = PushLoop n c" "p_heap s n = Some nd"
    and s': "s' = s\<lparr>p_heap := (p_heap s)(n \<mapsto> nd\<lparr>en_next := p_head s\<rparr>), p_pc := (p_pc s)(t := PushLoop n (p_head s))\<rparr>"
  shows "inv_at ns s' \<and> engines_at (p_heap s') ns = engines_at (p_heap s) ns \<and> owned s' = owned s"
proof -
  from i q obtain e where nd: "nd = \<lparr>en_engine = e, en_next = c\<rparr>" and solo: "\<And>t' c'. p_pc s t' = PushLoop n c' \<Longrightarrow> t' = t"
    and notin: "n \<notin> set ns" unfolding inv_at_def by (metis option.inject)
  then have other: "p_pc s t' \<noteq> PushLoop n c'" if "t' \<noteq> t" for t' c' using that by blast
  have "m \<notin> set ns \<and> (\<exists>e. p_heap s' m = Some \<lparr>en_engine = e, en_next = d\<rparr>) \<and> (\<forall>t'' d'. p_pc s' t'' = PushLoop m d' \<longrightarrow> t'' = t')"
    if pc: "p_pc s' t' = PushLoop m d" for t' m d
  proof (cases "t' = t")
    case True
    with pc have "m = n" "d = p_head s" by (simp_all add: s')
    with True nd notin other show ?thesis by (auto simp: s')
  next
    case False
    with pc have m: "p_pc s t' = PushLoop m d" by (simp add: s')
    with other [OF False] have "m \<noteq> n" by metis
    with i m show ?thesis unfolding inv_at_def s' by simp
  qed
  moreover have "chain (p_heap s') (p_head s') ns" "p_heap s' m \<noteq> None \<Longrightarrow> m < p_fresh s'" for m
    using i q notin by (auto simp: inv_at_def s' chain_upd split: if_splits)
  ultimately have "inv_at ns s'" unfolding inv_at_def by blast
  moreover have "owned s' t' = owned s t'" for t'
  proof (cases "t' = t")
    case False
    then have "in_flight s' t' = in_flight s t'" using other by (intro in_flight_cong) (auto simp: s')
    with False show ?thesis by (simp add: owned_def s')
  qed (use q nd in \<open>simp add: owned_def s' in_flight_def\<close>)
  ultimately show ?thesis using notin by (auto simp: s' engines_upd fun_eq_iff)
qed

text \<open>Every step keeps the invariant and is a step of the abstract stack or leaves it unchanged.\<close>

lemma pool_step_refines:
  assumes "pool_step t s s'" "inv_at ns s"
  shows "\<exists>ms. inv_at ms s' \<and>
    ((engines_at (p_heap s') ms, owned s') = (engines_at (p_heap s) ns, owned s) \<or>
     spec_step t (engines_at (p_heap s) ns, owned s) (engines_at (p_heap s') ms, owned s'))"
  using assms
proof (cases rule: pool_step.cases)
  case (push_start e n)
  then show ?thesis using push_start_step [OF assms(2)] by blast
next
  case (push_done n c)
  then show ?thesis using push_done_step [OF assms(2)] by blast
next
  case (push_retry n c nd)
  then show ?thesis using push_retry_step [OF assms(2)] by blast
next
  case (pop_done n nd)
  then show ?thesis using take_head_step [OF assms(2)] by (metis quiet_simps(2))
next
  case (try_done d n nd)
  then show ?thesis using take_head_step [OF assms(2)] by (metis quiet_simps(4))
qed (erule quiet_noop [OF assms(2)]; simp)+

section \<open>The pool of a workflow\<close>

text \<open>The empty pool; thread 0, which compiles the workflow, has all engines.\<close>

definition fresh_pool :: "'e list \<Rightarrow> 'e pool_state" where
  "fresh_pool engines =
     \<lparr>p_heap = (\<lambda>_. None), p_head = None, p_fresh = 0, p_pc = (\<lambda>_. Idle),
      p_held = (\<lambda>t. if t = 0 then mset engines else {#}), p_clock = 0\<rparr>"

definition all_owned :: "nat \<Rightarrow> (nat \<Rightarrow> 'e multiset) \<Rightarrow> 'e multiset" where
  "all_owned N own = sum own {..<N}"

lemma all_owned_upd: "t < N \<Longrightarrow> all_owned N (own(t := m)) + own t = all_owned N own + m"
  by (simp add: all_owned_def sum.remove [of "{..<N}" t] ac_simps)

lemma spec_step_total:
  assumes "spec_step t (es, own) (es', own')" "t < N"
  shows "mset es' + all_owned N own' = mset es + all_owned N own"
  using assms(1)
proof (cases rule: spec_step.cases)
  case (spec_push e)
  then obtain r where r: "own t = add_mset e r" by (metis insert_DiffM)
  with all_owned_upd [OF assms(2), of own r] have "add_mset e (all_owned N (own(t := r))) + r = all_owned N own + r" by simp
  then have "all_owned N own = add_mset e (all_owned N (own(t := r)))" by (simp only: union_right_cancel)
  with spec_push r show ?thesis by simp
next
  case (spec_pop e)
  from all_owned_upd [OF assms(2), of own "add_mset e (own t)"]
  have "all_owned N (own(t := add_mset e (own t))) + own t = add_mset e (all_owned N own) + own t" by simp
  with spec_pop show ?thesis by simp
qed

lemma reach_inv:
  assumes "pool_reach N (fresh_pool engines) s" "0 < N"
  shows "\<exists>ns. inv_at ns s \<and> mset (engines_at (p_heap s) ns) + all_owned N (owned s) = mset engines"
  using assms(1)
proof induction
  case reach_start
  have own: "owned (fresh_pool engines) = (\<lambda>_. {#})(0 := mset engines)"
    by (auto simp: owned_def in_flight_def fresh_pool_def)
  have "all_owned N (owned (fresh_pool engines)) = mset engines"
    using all_owned_upd [OF assms(2), of "\<lambda>_. {#}" "mset engines"] by (simp add: own) (simp add: all_owned_def)
  then show ?case
    by (intro exI [of _ "[]"]) (simp add: inv_at_def engines_at_def, simp add: fresh_pool_def)
next
  case (reach_step s t s')
  then obtain ns where ns: "inv_at ns s" "mset (engines_at (p_heap s) ns) + all_owned N (owned s) = mset engines" by blast
  from pool_step_refines [OF reach_step.hyps(3) ns(1)] obtain ms where "inv_at ms s'"
    "(engines_at (p_heap s') ms, owned s') = (engines_at (p_heap s) ns, owned s) \<or>
     spec_step t (engines_at (p_heap s) ns, owned s) (engines_at (p_heap s') ms, owned s')" by blast
  with ns(2) spec_step_total [OF _ reach_step.hyps(2)] show ?case by (metis prod.inject)
next
  case (reach_tick s c)
  then obtain ns where "inv_at ns s" "mset (engines_at (p_heap s) ns) + all_owned N (owned s) = mset engines" by blast
  moreover have "owned (s\<lparr>p_clock := c\<rparr>) = owned s"
    by (rule ext) (simp add: owned_def in_flight_def split: pc.split)
  ultimately show ?case by (auto simp: inv_at_def intro!: exI [of _ ns])
qed

text \<open>
  C14. The lock-free pool is a stack: in every state that any number of threads can reach, by any
  interleaving of their loads and of successful, failed and spuriously failed exchanges, the
  nodes from the head on form a finite list, and each step of a thread either leaves this list and
  what the threads own as they are, or is one push or one pop of an atomic stack by that thread.
\<close>

theorem engine_pool_linearizable:
  assumes "0 < N" and "pool_reach N (fresh_pool engines) s" and "pool_step t s s'"
  shows "\<exists>a a'. pool_abs s a \<and> pool_abs s' a' \<and> (a' = a \<or> spec_step t a a')"
proof -
  from reach_inv [OF assms(2,1)] obtain ns where ns: "inv_at ns s" by blast
  from pool_step_refines [OF assms(3) ns] obtain ms where "inv_at ms s'"
    "(engines_at (p_heap s') ms, owned s') = (engines_at (p_heap s) ns, owned s) \<or>
     spec_step t (engines_at (p_heap s) ns, owned s) (engines_at (p_heap s') ms, owned s')" by blast
  with ns pool_absI show ?thesis unfolding inv_at_def by metis
qed

text \<open>
  C7. No engine is lost, duplicated or shared: when the pool was filled with distinct engines,
  then in every reachable state each of them is either in the stack or owned by exactly one
  thread. So no two threads ever run the same Lua state, and an engine that is given back can be
  acquired again.
\<close>

theorem engine_pool_exclusive:
  assumes "0 < N" and "distinct engines" and "pool_reach N (fresh_pool engines) s"
  shows "\<exists>es. pool_abs s (es, owned s) \<and> mset es + all_owned N (owned s) = mset engines \<and> distinct es \<and>
    (\<forall>t<N. \<forall>u<N. t \<noteq> u \<longrightarrow> set_mset (owned s t) \<inter> set_mset (owned s u) = {}) \<and>
    (\<forall>t<N. set es \<inter> set_mset (owned s t) = {})"
proof -
  from reach_inv [OF assms(3,1)] obtain ns where "inv_at ns s"
    and total: "mset (engines_at (p_heap s) ns) + all_owned N (owned s) = mset engines" by blast
  then have abs: "pool_abs s (engines_at (p_heap s) ns, owned s)" by (simp add: inv_at_def pool_absI)
  let ?es = "engines_at (p_heap s) ns"
  have one: "count (mset ?es) e + count (all_owned N (owned s)) e \<le> 1" for e
    using arg_cong [OF total, of "\<lambda>m. count m e"] assms(2) by (simp add: distinct_count_atmost_1 del: count_mset)
  have le: "count (owned s t) e + count (owned s u) e \<le> count (all_owned N (owned s)) e" if "t < N" "u < N" "t \<noteq> u" for t u e
  proof -
    have "(\<Sum>i\<in>{t, u}. count (owned s i) e) \<le> (\<Sum>i<N. count (owned s i) e)"
      using that by (intro sum_mono2) auto
    with that show ?thesis by (simp add: all_owned_def count_sum)
  qed
  have le1: "count (owned s t) e \<le> count (all_owned N (owned s)) e" if "t < N" for t e
    using mset_subset_eq_count [of "owned s t" "all_owned N (owned s)" e] that
    by (simp add: all_owned_def sum.remove [of "{..<N}" t])
  have "count (mset ?es) e = 1" if "e \<in> set ?es" for e
  proof -
    have "count (mset ?es) e \<noteq> 0" using that by (metis count_mset_0_iff)
    with one [of e] show ?thesis by linarith
  qed
  then have "distinct ?es" by (simp add: distinct_count_atmost_1 not_in_iff del: count_mset)
  moreover have "set_mset (owned s t) \<inter> set_mset (owned s u) = {}" if "t < N" "u < N" "t \<noteq> u" for t u
  proof (rule ccontr)
    assume "set_mset (owned s t) \<inter> set_mset (owned s u) \<noteq> {}"
    then obtain e where "e \<in># owned s t" "e \<in># owned s u" by blast
    then have "count (owned s t) e \<ge> 1" "count (owned s u) e \<ge> 1" by (simp_all add: Suc_le_eq)
    with le [OF that, of e] one [of e] show False by linarith
  qed
  moreover have "set ?es \<inter> set_mset (owned s t) = {}" if "t < N" for t
  proof (rule ccontr)
    assume "set ?es \<inter> set_mset (owned s t) \<noteq> {}"
    then obtain e where "e \<in># mset ?es" "e \<in># owned s t" by auto
    then have "count (mset ?es) e \<ge> 1" "count (owned s t) e \<ge> 1" by (simp_all add: Suc_le_eq)
    with le1 [OF that, of e] one [of e] show False by linarith
  qed
  ultimately show ?thesis using abs total by blast
qed

text \<open>Thread 0 pushes an engine, thread 1 takes it.\<close>

definition pool_example :: "nat pool_state list" where
  "pool_example =
     (let s0 = fresh_pool [7, 9];
          s1 = s0\<lparr>p_heap := (p_heap s0)(0 \<mapsto> \<lparr>en_engine = 7, en_next = None\<rparr>), p_fresh := Suc 0,
                  p_pc := (p_pc s0)(0 := PushLoop 0 None), p_held := (p_held s0)(0 := {#9#})\<rparr>;
          s2 = s1\<lparr>p_head := Some 0, p_pc := (p_pc s1)(0 := Idle)\<rparr>;
          s3 = s2\<lparr>p_pc := (p_pc s2)(1 := PopLoop (Some 0))\<rparr>
      in [s0, s1, s2, s3, take_head 1 \<lparr>en_engine = 7, en_next = None\<rparr> s3])"

lemma pool_example_steps:
  "pool_step 0 (pool_example ! 0) (pool_example ! 1)" "pool_step 0 (pool_example ! 1) (pool_example ! 2)"
  "pool_step 1 (pool_example ! 2) (pool_example ! 3)" "pool_step 1 (pool_example ! 3) (pool_example ! 4)"
proof -
  show "pool_step 0 (pool_example ! 0) (pool_example ! 1)"
    using pool_step.push_start [of "fresh_pool [7, 9]" 0 7 0] by (simp add: pool_example_def Let_def fresh_pool_def)
  show "pool_step 0 (pool_example ! 1) (pool_example ! 2)"
    using pool_step.push_done [of "pool_example ! 1" 0 0 None] by (simp add: pool_example_def Let_def fresh_pool_def)
  show "pool_step 1 (pool_example ! 2) (pool_example ! 3)"
    using pool_step.pop_start [of "pool_example ! 2" 1] by (simp add: pool_example_def Let_def fresh_pool_def)
  show "pool_step 1 (pool_example ! 3) (pool_example ! 4)"
    using pool_step.pop_done [of "pool_example ! 3" 1 0] by (simp add: pool_example_def Let_def fresh_pool_def)
qed

lemma pool_example_reach: "pool_reach 2 (fresh_pool [7, 9]) (pool_example ! 3)" "pool_reach 2 (fresh_pool [7, 9]) (pool_example ! 4)"
proof -
  have "pool_example ! 0 = fresh_pool [7, 9]" by (simp add: pool_example_def Let_def)
  then have "pool_reach 2 (fresh_pool [7, 9]) (pool_example ! 0)" by (simp add: reach_start)
  from reach_step [OF this _ pool_example_steps(1)] have "pool_reach 2 (fresh_pool [7, 9]) (pool_example ! 1)" by simp
  from reach_step [OF this _ pool_example_steps(2)] have "pool_reach 2 (fresh_pool [7, 9]) (pool_example ! 2)" by simp
  from reach_step [OF this _ pool_example_steps(3)] show r: "pool_reach 2 (fresh_pool [7, 9]) (pool_example ! 3)" by simp
  then show "pool_reach 2 (fresh_pool [7, 9]) (pool_example ! 4)" 
    using reach_step [OF _ _ pool_example_steps(4)] by simp
qed

theorem engine_pool_linearizable_witness:
  "\<exists>a a'. pool_abs (pool_example ! 3) a \<and> pool_abs (pool_example ! 4) a' \<and> (a' = a \<or> spec_step 1 a a')"
  by (rule engine_pool_linearizable [OF _ pool_example_reach(1) pool_example_steps(4)]) simp

theorem engine_pool_exclusive_witness:
  "set_mset (owned (pool_example ! 4) 0) \<inter> set_mset (owned (pool_example ! 4) 1) = {} \<and> 7 \<in># owned (pool_example ! 4) 1"
proof
  have "owned (pool_example ! 4) 1 = {#7#}"
    by (simp add: pool_example_def Let_def take_head_def owned_def in_flight_def fresh_pool_def)
  then show "7 \<in># owned (pool_example ! 4) 1" by simp
  have "\<forall>t<2. \<forall>u<2. t \<noteq> u \<longrightarrow> set_mset (owned (pool_example ! 4) t) \<inter> set_mset (owned (pool_example ! 4) u) = {}"
    using engine_pool_exclusive [OF _ _ pool_example_reach(2)] by fastforce
  from this [rule_format, of 0 1] show "set_mset (owned (pool_example ! 4) 0) \<inter> set_mset (owned (pool_example ! 4) 1) = {}" by simp
qed

end
