(* ===== verification/Work_Queues.thy ===== *)
theory Work_Queues
  imports FR_Prelude "HOL-Library.Multiset"
begin

text \<open>
  The two work-stealing queues: \<^verbatim>\<open>SimpleWorkStealingQueue\<close> (simple_work_stealing_queue.hpp), a deque
  behind a mutex, and \<^verbatim>\<open>WorkStealingQueue\<close> (work_stealing_queue.hpp), a ring buffer with a power of
  two of slots. The interface is the locale \<open>steal_queue\<close>: the owner pushes and pops at the back,
  thieves take from the front. The ring buffer is modelled for calls that do not overlap, in
  which its exchanges of \<^verbatim>\<open>head_\<close> always succeed; the indices are natural numbers, since they count
  operations and do not reach \<open>2^64\<close>. The default element \<open>dflt\<close> is the \<^verbatim>\<open>T{}\<close> that fills new slots.
\<close>

unbundle bit_operations_syntax

section \<open>The interface\<close>

locale steal_queue =
  fixes contents :: "'q \<Rightarrow> 'a list" and qinv :: "'q \<Rightarrow> bool"
    and enq :: "'a \<Rightarrow> 'q \<Rightarrow> 'q" and deq :: "'q \<Rightarrow> 'a option \<times> 'q" and thief :: "'q \<Rightarrow> 'a option \<times> 'q"
  assumes enq_inv: "qinv q \<Longrightarrow> qinv (enq x q)" and deq_inv: "qinv q \<Longrightarrow> qinv (snd (deq q))"
    and thief_inv: "qinv q \<Longrightarrow> qinv (snd (thief q))"
    and enq_contents: "qinv q \<Longrightarrow> contents (enq x q) = contents q @ [x]"
    and deq_contents: "qinv q \<Longrightarrow>
      fst (deq q) = (if contents q = [] then None else Some (last (contents q))) \<and>
      contents (snd (deq q)) = butlast (contents q)"
    and thief_contents: "qinv q \<Longrightarrow>
      fst (thief q) = (if contents q = [] then None else Some (hd (contents q))) \<and>
      contents (snd (thief q)) = tl (contents q)"

datatype 'a qop = Push 'a | Pop | Steal

text \<open>A sequence of calls and what the calls that take an element return.\<close>

fun run_queue ::
    "('a \<Rightarrow> 'q \<Rightarrow> 'q) \<Rightarrow> ('q \<Rightarrow> 'a option \<times> 'q) \<Rightarrow> ('q \<Rightarrow> 'a option \<times> 'q) \<Rightarrow> 'a qop list \<Rightarrow> 'q
       \<Rightarrow> 'a option list \<times> 'q" where
  "run_queue enq deq thief [] q = ([], q)"
| "run_queue enq deq thief (Push x # ops) q = run_queue enq deq thief ops (enq x q)"
| "run_queue enq deq thief (Pop # ops) q =
     (let (r, q1) = deq q; (rs, q2) = run_queue enq deq thief ops q1 in (r # rs, q2))"
| "run_queue enq deq thief (Steal # ops) q =
     (let (r, q1) = thief q; (rs, q2) = run_queue enq deq thief ops q1 in (r # rs, q2))"

definition pushed :: "'a qop list \<Rightarrow> 'a list" where
  "pushed ops = concat (map (\<lambda>x. case x of Push a \<Rightarrow> [a] | _ \<Rightarrow> []) ops)"

definition taken :: "'a option list \<Rightarrow> 'a list" where
  "taken rs = concat (map (\<lambda>r. case r of None \<Rightarrow> [] | Some a \<Rightarrow> [a]) rs)"

lemma pushed_simps [simp]:
  "pushed [] = []" "pushed (Push a # ops) = a # pushed ops" "pushed (Pop # ops) = pushed ops" "pushed (Steal # ops) = pushed ops"
  by (simp_all add: pushed_def)

lemma taken_simps [simp]: "taken [] = []" "taken (Some a # rs) = a # taken rs" "taken (None # rs) = taken rs"
  by (simp_all add: taken_def)

context steal_queue
begin

lemma run_conserves:
  "qinv q \<Longrightarrow> run_queue enq deq thief ops q = (rs, q') \<Longrightarrow>
     qinv q' \<and> mset (taken rs) + mset (contents q') = mset (contents q) + mset (pushed ops)"
proof (induction ops arbitrary: q rs q')
  case (Cons x ops)
  show ?case
  proof (cases x)
    case (Push a)
    with Cons.IH [OF enq_inv [OF Cons.prems(1)], of a rs q'] Cons.prems show ?thesis by (simp add: enq_contents)
  next
    case Pop
    obtain r q1 where q1: "deq q = (r, q1)" by fastforce
    obtain rs' q2 where q2: "run_queue enq deq thief ops q1 = (rs', q2)" by fastforce
    have c: "r = (if contents q = [] then None else Some (last (contents q)))" "contents q1 = butlast (contents q)" "qinv q1"
      using deq_contents [OF Cons.prems(1)] deq_inv [OF Cons.prems(1)] q1 by simp_all
    have "mset (contents q) = (case r of None \<Rightarrow> {#} | Some a \<Rightarrow> {#a#}) + mset (contents q1)"
      using c(1,2) by (cases "contents q" rule: rev_cases) simp_all
    with Cons.IH [OF c(3) q2] Cons.prems(2) Pop q1 q2 show ?thesis by (cases r) auto
  next
    case Steal
    obtain r q1 where q1: "thief q = (r, q1)" by fastforce
    obtain rs' q2 where q2: "run_queue enq deq thief ops q1 = (rs', q2)" by fastforce
    have c: "r = (if contents q = [] then None else Some (hd (contents q)))" "contents q1 = tl (contents q)" "qinv q1"
      using thief_contents [OF Cons.prems(1)] thief_inv [OF Cons.prems(1)] q1 by simp_all
    have "mset (contents q) = (case r of None \<Rightarrow> {#} | Some a \<Rightarrow> {#a#}) + mset (contents q1)"
      using c(1,2) by (cases "contents q") simp_all
    with Cons.IH [OF c(3) q2] Cons.prems(2) Steal q1 q2 show ?thesis by (cases r) auto
  qed
qed simp

end

section \<open>The queue of the thread pool\<close>

type_synonym 'a SimpleWorkStealingQueue = "'a list"

definition simple_push :: "'a \<Rightarrow> 'a SimpleWorkStealingQueue \<Rightarrow> 'a SimpleWorkStealingQueue" where
  "simple_push x q = q @ [x]"

definition simple_pop :: "'a SimpleWorkStealingQueue \<Rightarrow> 'a option \<times> 'a SimpleWorkStealingQueue" where
  "simple_pop q = (if q = [] then (None, q) else (Some (last q), butlast q))"

definition simple_steal :: "'a SimpleWorkStealingQueue \<Rightarrow> 'a option \<times> 'a SimpleWorkStealingQueue" where
  "simple_steal q = (case q of [] \<Rightarrow> (None, q) | x # xs \<Rightarrow> (Some x, xs))"

interpretation simple_queue: steal_queue "\<lambda>q. q" "\<lambda>_. True" simple_push simple_pop simple_steal
  by unfold_locales (auto simp: simple_push_def simple_pop_def simple_steal_def split: list.split)

section \<open>The ring buffer\<close>

record 'a WorkStealingQueue =
  buffer :: "'a list"
  q_head :: nat
  q_tail :: nat
  q_mask :: nat

definition kInitialSize :: nat where
  "kInitialSize = 1024"

definition ring_empty :: "'a \<Rightarrow> 'a WorkStealingQueue" where
  "ring_empty dflt =
     \<lparr>buffer = replicate kInitialSize dflt, q_head = 0, q_tail = 0, q_mask = kInitialSize - 1\<rparr>"

definition ring_resize :: "'a \<Rightarrow> 'a WorkStealingQueue \<Rightarrow> 'a WorkStealingQueue" where
  "ring_resize dflt q =
     (let old_size = length (buffer q); new_size = old_size * 2;
          new_buffer = fold (\<lambda>i b. b[i AND (new_size - 1) := buffer q ! (i AND (old_size - 1))])
                         [q_head q..<q_tail q] (replicate new_size dflt)
      in q\<lparr>buffer := new_buffer, q_mask := new_size - 1\<rparr>)"

definition ring_push :: "'a \<Rightarrow> 'a \<Rightarrow> 'a WorkStealingQueue \<Rightarrow> 'a WorkStealingQueue" where
  "ring_push dflt x q =
     (let q1 = (if q_tail q - q_head q \<ge> length (buffer q) - 1 then ring_resize dflt q else q)
      in q1\<lparr>buffer := (buffer q1)[q_tail q AND q_mask q1 := x], q_tail := q_tail q + 1\<rparr>)"

definition ring_pop :: "'a WorkStealingQueue \<Rightarrow> 'a option \<times> 'a WorkStealingQueue" where
  "ring_pop q =
     (let tl = q_tail q
      in if tl = 0 then (None, q)
         else
           let item = buffer q ! ((tl - 1) AND q_mask q)
           in if tl - 1 > q_head q then (Some item, q\<lparr>q_tail := tl - 1\<rparr>)
              else if tl - 1 = q_head q then (Some item, q\<lparr>q_head := tl, q_tail := tl\<rparr>)
              else (None, q\<lparr>q_tail := tl\<rparr>))"

definition ring_steal :: "'a WorkStealingQueue \<Rightarrow> 'a option \<times> 'a WorkStealingQueue" where
  "ring_steal q =
     (if q_tail q \<le> q_head q then (None, q)
      else (Some (buffer q ! (q_head q AND q_mask q)), q\<lparr>q_head := q_head q + 1\<rparr>))"

definition ring_is_empty :: "'a WorkStealingQueue \<Rightarrow> bool" where
  "ring_is_empty q \<longleftrightarrow> q_head q \<ge> q_tail q"

definition ring_size :: "'a WorkStealingQueue \<Rightarrow> nat" where
  "ring_size q = (if q_tail q > q_head q then q_tail q - q_head q else 0)"

text \<open>The buffer has a power of two of slots, at least one of them free.\<close>

definition ring_inv :: "'a WorkStealingQueue \<Rightarrow> bool" where
  "ring_inv q \<longleftrightarrow>
     (\<exists>k. length (buffer q) = 2 ^ k) \<and> q_mask q = length (buffer q) - 1 \<and>
     q_head q \<le> q_tail q \<and> q_tail q - q_head q < length (buffer q)"

definition ring_contents :: "'a WorkStealingQueue \<Rightarrow> 'a list" where
  "ring_contents q = map (\<lambda>i. buffer q ! (i AND q_mask q)) [q_head q..<q_tail q]"

lemma and_mask_mod: "n = 2 ^ k \<Longrightarrow> i AND (n - 1) = i mod (n :: nat)"
  by (metis mask_eq_exp_minus_1 take_bit_eq_mask take_bit_eq_mod)

lemma ring_slot: "ring_inv q \<Longrightarrow> i AND q_mask q = i mod length (buffer q)"
  unfolding ring_inv_def by (metis and_mask_mod)

lemma slots_differ:
  assumes "j < (i :: nat)" "i - j < n"
  shows "j mod n \<noteq> i mod n"
proof
  assume "j mod n = i mod n"
  then have "n dvd i - j" using assms(1) by (metis less_imp_le mod_eq_dvd_iff_nat)
  with assms show False by (simp add: nat_dvd_not_less)
qed

lemma copied_slots:
  assumes "t - h \<le> n" "h \<le> i" "i < t" "length b = n" "n > 0"
  shows "fold (\<lambda>i b. b[i mod n := f i]) [h..<t] b ! (i mod n) = f i"
  using assms
proof (induction t)
  case (Suc t)
  have len: "length (fold (\<lambda>i b. b[i mod n := f i]) xs b) = n" for xs
    using assms(4) by (induction xs rule: rev_induct) simp_all
  show ?case
  proof (cases "i = t")
    case True
    with Suc.prems len show ?thesis by simp
  next
    case False
    with Suc.prems slots_differ [of i t n] have "t mod n \<noteq> i mod n" by force
    with Suc False show ?thesis by simp
  qed
qed simp

lemma ring_resize_inv:
  assumes "ring_inv q"
  shows "ring_inv (ring_resize dflt q) \<and> ring_contents (ring_resize dflt q) = ring_contents q \<and>
    length (buffer (ring_resize dflt q)) = 2 * length (buffer q) \<and>
    q_head (ring_resize dflt q) = q_head q \<and> q_tail (ring_resize dflt q) = q_tail q"
proof -
  from assms obtain k where k: "length (buffer q) = 2 ^ k" by (auto simp: ring_inv_def)
  let ?n = "length (buffer q)"
  have n2: "?n * 2 = 2 ^ Suc k" using k by simp
  let ?b = "fold (\<lambda>i b. b[i mod (?n * 2) := buffer q ! (i mod ?n)]) [q_head q..<q_tail q] (replicate (?n * 2) dflt)"
  have r: "ring_resize dflt q = q\<lparr>buffer := ?b, q_mask := ?n * 2 - 1\<rparr>"
    by (simp only: ring_resize_def Let_def and_mask_mod [OF n2] and_mask_mod [OF k])
  have len: "length ?b = ?n * 2"
    by (rule fold_invariant [where Q = "\<lambda>_. True" and P = "\<lambda>b. length b = ?n * 2"]) simp_all
  have "?b ! (i mod (?n * 2)) = buffer q ! (i mod ?n)" if "q_head q \<le> i" "i < q_tail q" for i
    using that assms k by (intro copied_slots) (auto simp: ring_inv_def)
  then have slots: "map (\<lambda>i. ?b ! (i mod length ?b)) [q_head q..<q_tail q] = map (\<lambda>i. buffer q ! (i mod ?n)) [q_head q..<q_tail q]"
    by (simp add: len)
  have inv: "ring_inv (ring_resize dflt q)"
    using assms n2 len unfolding ring_inv_def r by (simp del: power_Suc)
  have "buffer (ring_resize dflt q) = ?b" "q_head (ring_resize dflt q) = q_head q" "q_tail (ring_resize dflt q) = q_tail q"
    by (simp_all add: r)
  then have "ring_contents (ring_resize dflt q) = ring_contents q"
    using slots by (simp only: ring_contents_def ring_slot [OF inv] ring_slot [OF assms])
  with inv show ?thesis using r len by simp
qed

lemma ring_push_spec:
  assumes "ring_inv q"
  shows "ring_inv (ring_push dflt x q) \<and> ring_contents (ring_push dflt x q) = ring_contents q @ [x]"
proof -
  define q1 where "q1 = (if q_tail q - q_head q \<ge> length (buffer q) - 1 then ring_resize dflt q else q)"
  have q1: "ring_inv q1" "ring_contents q1 = ring_contents q" "q_head q1 = q_head q" "q_tail q1 = q_tail q"
    "Suc (q_tail q - q_head q) < length (buffer q1)"
    using assms ring_resize_inv [OF assms, of dflt] by (auto simp: q1_def ring_inv_def)
  let ?n = "length (buffer q1)"
  have p: "ring_push dflt x q = q1\<lparr>buffer := (buffer q1)[q_tail q mod ?n := x], q_tail := q_tail q + 1\<rparr>"
    unfolding ring_push_def Let_def q1_def [symmetric] by (simp only: ring_slot [OF q1(1)])
  have inv: "ring_inv (ring_push dflt x q)" using q1 unfolding p by (auto simp: ring_inv_def)
  have "(buffer q1)[q_tail q mod ?n := x] ! (i mod ?n) = buffer q1 ! (i mod ?n)" if "q_head q \<le> i" "i < q_tail q" for i
  proof -
    have "q_tail q - i < ?n" using that q1(5) by linarith
    with slots_differ [of i "q_tail q" ?n] that show ?thesis by (metis nth_list_update_neq)
  qed
  moreover have "q_tail q mod ?n < ?n" using q1(5) by (intro mod_less_divisor) linarith
  ultimately have "ring_contents (ring_push dflt x q) = ring_contents q1 @ [x]"
    using q1(1,3,4) by (simp add: ring_contents_def ring_slot [OF inv] ring_slot [OF q1(1)]) (simp add: p ring_inv_def)
  with inv q1(2) show ?thesis by simp
qed

lemma ring_pop_spec:
  assumes "ring_inv q"
  shows "ring_inv (snd (ring_pop q)) \<and>
    fst (ring_pop q) = (if ring_contents q = [] then None else Some (last (ring_contents q))) \<and>
    ring_contents (snd (ring_pop q)) = butlast (ring_contents q)"
proof (cases "q_head q < q_tail q")
  case False
  with assms show ?thesis by (auto simp: ring_pop_def Let_def ring_contents_def ring_inv_def)
next
  case True
  then obtain t where t: "q_tail q = Suc t" "q_head q \<le> t" by (cases "q_tail q") auto
  then have c: "ring_contents q = map (\<lambda>i. buffer q ! (i AND q_mask q)) [q_head q..<t] @ [buffer q ! (t AND q_mask q)]"
    by (simp add: ring_contents_def)
  show ?thesis
  proof (cases "q_head q < t")
    case True
    with t have "ring_pop q = (Some (buffer q ! (t AND q_mask q)), q\<lparr>q_tail := t\<rparr>)" by (simp add: ring_pop_def)
    with assms t c show ?thesis by (auto simp: ring_inv_def) (simp add: ring_contents_def)
  next
    case False
    with t have "ring_pop q = (Some (buffer q ! (t AND q_mask q)), q\<lparr>q_head := Suc t, q_tail := Suc t\<rparr>)" by (simp add: ring_pop_def)
    with assms t c False show ?thesis by (auto simp: ring_inv_def) (simp_all add: ring_contents_def)
  qed
qed

lemma ring_steal_spec:
  assumes "ring_inv q"
  shows "ring_inv (snd (ring_steal q)) \<and>
    fst (ring_steal q) = (if ring_contents q = [] then None else Some (hd (ring_contents q))) \<and>
    ring_contents (snd (ring_steal q)) = tl (ring_contents q)"
proof (cases "q_head q < q_tail q")
  case False
  with assms show ?thesis by (auto simp: ring_steal_def ring_contents_def ring_inv_def)
next
  case True
  with assms show ?thesis
    by (auto simp: ring_steal_def ring_inv_def ring_contents_def upt_conv_Cons [of "q_head q"])
qed

interpretation ring: steal_queue ring_contents ring_inv "ring_push dflt" ring_pop ring_steal for dflt
  by unfold_locales (simp_all add: ring_push_spec ring_pop_spec ring_steal_spec)

lemma ring_empty_inv: "ring_inv (ring_empty dflt)" "ring_contents (ring_empty dflt) = []"
  by (auto simp: ring_inv_def ring_empty_def ring_contents_def kInitialSize_def intro: exI [of _ 10])

section \<open>The queues are interchangeable\<close>

lemma ring_simulates_simple:
  "ring_inv q \<Longrightarrow>
     fst (run_queue (ring_push dflt) ring_pop ring_steal ops q) =
     fst (run_queue simple_push simple_pop simple_steal ops (ring_contents q)) \<and>
     ring_contents (snd (run_queue (ring_push dflt) ring_pop ring_steal ops q)) =
     snd (run_queue simple_push simple_pop simple_steal ops (ring_contents q))"
proof (induction ops arbitrary: q)
  case (Cons x ops)
  have pop: "simple_pop (ring_contents q) = (fst (ring_pop q), ring_contents (snd (ring_pop q)))"
    using ring_pop_spec [OF Cons.prems] by (auto simp: simple_pop_def)
  have steal: "simple_steal (ring_contents q) = (fst (ring_steal q), ring_contents (snd (ring_steal q)))"
    using ring_steal_spec [OF Cons.prems] by (auto simp: simple_steal_def split: list.split)
  show ?case
    using Cons ring.enq_contents [OF Cons.prems] ring.enq_inv [OF Cons.prems] ring.deq_inv [OF Cons.prems] ring.thief_inv [OF Cons.prems]
    by (cases x) (simp_all add: pop steal simple_push_def split_beta)
qed simp

text \<open>
  C33. The ring buffer behaves as the simple queue: for every sequence of pushes, pops and steals
  that do not overlap, starting from empty queues, both return the same elements in the same
  order, however often the buffer wraps around and grows; what was pushed is what was taken
  and what is left, each element once; and the reported size is the number of elements left.
\<close>

theorem work_queues_equivalent:
  assumes "run_queue (ring_push dflt) ring_pop ring_steal ops (ring_empty dflt) = (rs, q)"
  shows "run_queue simple_push simple_pop simple_steal ops [] = (rs, ring_contents q) \<and>
    mset (pushed ops) = mset (taken rs) + mset (ring_contents q) \<and> ring_size q = length (ring_contents q) \<and>
    (ring_is_empty q \<longleftrightarrow> ring_contents q = [])"
proof -
  have "run_queue simple_push simple_pop simple_steal ops [] = (rs, ring_contents q)"
    using ring_simulates_simple [OF ring_empty_inv(1), of dflt ops dflt] assms by (simp add: ring_empty_inv prod_eq_iff)
  moreover have "mset (pushed ops) = mset (taken rs) + mset (ring_contents q)"
    using ring.run_conserves [OF ring_empty_inv(1) assms] by (simp add: ring_empty_inv)
  ultimately show ?thesis by (simp add: ring_size_def ring_contents_def ring_is_empty_def)
qed

theorem work_queues_equivalent_witness:
  "run_queue simple_push simple_pop simple_steal [Push 1, Push 2, Push 3, Steal, Pop, Pop, Pop] [] =
     ([Some 1, Some 3, Some (2 :: nat), None], [])"
proof -
  let ?ops = "[Push 1, Push 2, Push 3, Steal, Pop, Pop, Pop] :: nat qop list"
  obtain rs q where r: "run_queue (ring_push 0) ring_pop ring_steal ?ops (ring_empty 0) = (rs, q)" by fastforce
  from work_queues_equivalent [OF r] have "rs = [Some 1, Some 3, Some 2, None] \<and> ring_contents q = []"
    by (auto simp: simple_push_def simple_pop_def simple_steal_def)
  with work_queues_equivalent [OF r] show ?thesis by simp
qed

end
