(* ===== verification/Thread_Pool.thy ===== *)
theory Thread_Pool
  imports Work_Queues
begin

text \<open>
  \<^verbatim>\<open>WorkStealingThreadPool\<close> (work_stealing_thread_pool.hpp and .cpp) as a state machine. Each queue
  operation is one step, since it runs under the queue's mutex; the random choices of queue and
  victim are left open. A call of \<^verbatim>\<open>enqueue\<close> is two steps, the test of \<^verbatim>\<open>stop_\<close> and the push, and
  between them other threads may move. Tasks do not themselves enqueue. The argument \<open>orderly\<close>
  says whether the destructor may start while a call of \<^verbatim>\<open>enqueue\<close> is between its two steps.
\<close>

section \<open>Workers\<close>

text \<open>Where a worker is in its loop; the flag is the local variable \<^verbatim>\<open>stopping\<close>.\<close>

datatype 't worker =
    AtTop
  | AtPop bool
  | Stealing bool nat
  | Running 't
  | Checking nat
  | Exited

record 't thread_pool =
  localQueues :: "'t SimpleWorkStealingQueue list"
  workers :: "'t worker list"
  stop_flag :: bool
  submitted :: "'t multiset"
  accepted :: "'t multiset"
  executed :: "'t multiset"

definition create_pool :: "nat \<Rightarrow> 't thread_pool" where
  "create_pool numThreads =
     (let n = (if numThreads = 0 then 1 else numThreads)
      in \<lparr>localQueues = replicate n [], workers = replicate n AtTop, stop_flag = False,
          submitted = {#}, accepted = {#}, executed = {#}\<rparr>)"

text \<open>Worker \<open>i\<close> takes a task that a queue operation returned, or moves on.\<close>

definition after_pop :: "nat \<Rightarrow> bool \<Rightarrow> 't option \<times> 't SimpleWorkStealingQueue \<Rightarrow> 't thread_pool \<Rightarrow> 't thread_pool" where
  "after_pop i b r p =
     (let w = (case fst r of Some t \<Rightarrow> Running t | None \<Rightarrow> Stealing b 0)
      in p\<lparr>localQueues := (localQueues p)[i := snd r], workers := (workers p)[i := w]\<rparr>)"

definition after_steal :: "nat \<Rightarrow> bool \<Rightarrow> nat \<Rightarrow> nat \<Rightarrow> 't option \<times> 't SimpleWorkStealingQueue \<Rightarrow> 't thread_pool \<Rightarrow> 't thread_pool" where
  "after_steal i b k victim r p =
     (let w = (case fst r of Some t \<Rightarrow> Running t | None \<Rightarrow> Stealing b (Suc k))
      in p\<lparr>localQueues := (localQueues p)[victim := snd r], workers := (workers p)[i := w]\<rparr>)"

inductive worker_step :: "nat \<Rightarrow> 't thread_pool \<Rightarrow> 't thread_pool \<Rightarrow> bool" for i where
  load_stop:
    "workers p ! i = AtTop \<Longrightarrow> worker_step i p (p\<lparr>workers := (workers p)[i := AtPop (stop_flag p)]\<rparr>)"
| pop_own:
    "workers p ! i = AtPop b \<Longrightarrow> worker_step i p (after_pop i b (simple_pop (localQueues p ! i)) p)"
| steal_other:
    "workers p ! i = Stealing b k \<Longrightarrow> k < 2 * length (localQueues p) \<Longrightarrow> victim < length (localQueues p) \<Longrightarrow> victim \<noteq> i \<Longrightarrow>
     worker_step i p (after_steal i b k victim (simple_steal (localQueues p ! victim)) p)"
| steal_self:
    "workers p ! i = Stealing b k \<Longrightarrow> k < 2 * length (localQueues p) \<Longrightarrow>
     worker_step i p (p\<lparr>workers := (workers p)[i := Stealing b (Suc k)]\<rparr>)"
| give_up:
    "workers p ! i = Stealing b k \<Longrightarrow> k \<ge> 2 * length (localQueues p) \<Longrightarrow>
     worker_step i p (p\<lparr>workers := (workers p)[i := (if b then Checking 0 else AtTop)]\<rparr>)"
| check_queue:
    "workers p ! i = Checking k \<Longrightarrow> k < length (localQueues p) \<Longrightarrow>
     worker_step i p (p\<lparr>workers := (workers p)[i := (if localQueues p ! k = [] then Checking (Suc k) else AtTop)]\<rparr>)"
| leave:
    "workers p ! i = Checking k \<Longrightarrow> k \<ge> length (localQueues p) \<Longrightarrow>
     worker_step i p (p\<lparr>workers := (workers p)[i := Exited]\<rparr>)"
| run_task:
    "workers p ! i = Running t \<Longrightarrow>
     worker_step i p (p\<lparr>workers := (workers p)[i := AtTop], executed := add_mset t (executed p)\<rparr>)"

text \<open>The callers: \<open>submitted\<close> are the tasks whose call has passed the test of \<^verbatim>\<open>stop_\<close> and has not pushed
  yet; \<open>accepted\<close> are all tasks whose call has passed it.\<close>

inductive tp_step :: "bool \<Rightarrow> 't thread_pool \<Rightarrow> 't thread_pool \<Rightarrow> bool" for orderly where
  enqueue_test:
    "\<not> stop_flag p \<Longrightarrow>
     tp_step orderly p (p\<lparr>submitted := add_mset t (submitted p), accepted := add_mset t (accepted p)\<rparr>)"
| enqueue_push:
    "t \<in># submitted p \<Longrightarrow> j < length (localQueues p) \<Longrightarrow>
     tp_step orderly p
       (p\<lparr>submitted := submitted p - {#t#}, localQueues := (localQueues p)[j := simple_push t (localQueues p ! j)]\<rparr>)"
| shutdown:
    "(orderly \<Longrightarrow> submitted p = {#}) \<Longrightarrow> tp_step orderly p (p\<lparr>stop_flag := True\<rparr>)"
| work:
    "i < length (workers p) \<Longrightarrow> worker_step i p p' \<Longrightarrow> tp_step orderly p p'"

definition tp_reach :: "bool \<Rightarrow> nat \<Rightarrow> 't thread_pool \<Rightarrow> bool" where
  "tp_reach orderly n p \<longleftrightarrow> (tp_step orderly)\<^sup>*\<^sup>* (create_pool n) p"

inductive_cases worker_stepE: "worker_step i p p'"

section \<open>Conservation of tasks\<close>

definition running_task :: "'t worker \<Rightarrow> 't multiset" where
  "running_task w = (case w of Running t \<Rightarrow> {#t#} | _ \<Rightarrow> {#})"

definition queued :: "'t thread_pool \<Rightarrow> 't multiset" where
  "queued p = sum_list (map mset (localQueues p))"

definition running :: "'t thread_pool \<Rightarrow> 't multiset" where
  "running p = sum_list (map running_task (workers p))"

lemma sum_list_upd:
  "i < length xs \<Longrightarrow> sum_list (map f (xs[i := x])) + f (xs ! i) = sum_list (map f xs) + (f x :: 't multiset)"
  by (induction xs arbitrary: i) (auto simp: ac_simps split: nat.split)

definition tp_conserved :: "'t thread_pool \<Rightarrow> bool" where
  "tp_conserved p \<longleftrightarrow> accepted p = submitted p + queued p + running p + executed p"

definition tp_shape :: "'t thread_pool \<Rightarrow> bool" where
  "tp_shape p \<longleftrightarrow> length (workers p) = length (localQueues p) \<and> localQueues p \<noteq> []"

text \<open>After an orderly shutdown nothing is about to be pushed; a worker that is checking, or has left,
  has seen the flag, and the queues it has found empty are still empty.\<close>

definition seen_empty :: "'t thread_pool \<Rightarrow> 't worker \<Rightarrow> bool" where
  "seen_empty p w \<longleftrightarrow>
     (case w of
        Checking k \<Rightarrow> stop_flag p \<and> (\<forall>j<k. j < length (localQueues p) \<longrightarrow> localQueues p ! j = [])
      | Exited \<Rightarrow> stop_flag p \<and> (\<forall>j<length (localQueues p). localQueues p ! j = [])
      | AtPop b \<Rightarrow> b \<longrightarrow> stop_flag p
      | Stealing b k \<Rightarrow> b \<longrightarrow> stop_flag p
      | _ \<Rightarrow> True)"

definition tp_orderly :: "'t thread_pool \<Rightarrow> bool" where
  "tp_orderly p \<longleftrightarrow> (stop_flag p \<longrightarrow> submitted p = {#}) \<and> (\<forall>w\<in>set (workers p). seen_empty p w)"

text \<open>A worker's step on its own record and at most one queue, where \<open>extra\<close> is what it executes.\<close>

lemma mset_balance:
  assumes "A + a = S + q" "B + b = T + r" "a + b = q + r + x" "acc = sub + S + T + ex"
  shows "acc = sub + A + B + (ex + x :: 't multiset)"
proof (rule multiset_eqI)
  fix e
  have "count A e + count a e = count S e + count q e" "count B e + count b e = count T e + count r e"
    "count a e + count b e = count q e + count r e + count x e"
    using arg_cong [OF assms(1), of "\<lambda>m. count m e"] arg_cong [OF assms(2), of "\<lambda>m. count m e"]
      arg_cong [OF assms(3), of "\<lambda>m. count m e"] by simp_all
  with assms(4) show "count acc e = count (sub + A + B + (ex + x)) e" by simp
qed

lemma conserved_update:
  assumes "tp_conserved p" "i < length (workers p)" "j < length (localQueues p)"
    and "mset (localQueues p ! j) + running_task (workers p ! i) = mset q + running_task w + extra"
  shows "tp_conserved (p\<lparr>localQueues := (localQueues p)[j := q], workers := (workers p)[i := w], executed := executed p + extra\<rparr>)"
  using mset_balance [OF sum_list_upd [OF assms(3), of mset q] sum_list_upd [OF assms(2), of running_task w] assms(4),
      of "accepted p" "submitted p" "executed p"] assms(1)
  by (simp add: tp_conserved_def queued_def running_def)

lemma conserved_worker:
  assumes "tp_conserved p" "i < length (workers p)" "localQueues p \<noteq> []"
    and "running_task (workers p ! i) = running_task w + extra"
  shows "tp_conserved (p\<lparr>workers := (workers p)[i := w], executed := executed p + extra\<rparr>)"
  using conserved_update [OF assms(1,2), of 0 "localQueues p ! 0" w extra] assms(3,4) by (simp add: ac_simps)

lemma worker_step_conserves:
  assumes "worker_step i p p'" "tp_conserved p" "tp_shape p" "i < length (workers p)"
  shows "tp_conserved p' \<and> tp_shape p'"
proof -
  have q: "localQueues p \<noteq> []" and i: "i < length (localQueues p)" using assms(3,4) by (simp_all add: tp_shape_def)
  note upd = conserved_worker [OF assms(2,4) q, where extra = "{#}", simplified]
  from assms(1) show ?thesis
  proof cases
    case (pop_own b)
    have "mset (localQueues p ! i) + running_task (workers p ! i) =
        mset (snd (simple_pop (localQueues p ! i))) +
        running_task (case fst (simple_pop (localQueues p ! i)) of Some t \<Rightarrow> Running t | None \<Rightarrow> Stealing b 0) + {#}"
      using pop_own(2) by (cases "localQueues p ! i" rule: rev_cases) (auto simp: running_task_def simple_pop_def)
    from conserved_update [OF assms(2,4) i this] pop_own(1) assms(3) show ?thesis
      by (simp add: after_pop_def Let_def tp_shape_def)
  next
    case (steal_other b k victim)
    have "mset (localQueues p ! victim) + running_task (workers p ! i) =
        mset (snd (simple_steal (localQueues p ! victim))) +
        running_task (case fst (simple_steal (localQueues p ! victim)) of Some t \<Rightarrow> Running t | None \<Rightarrow> Stealing b (Suc k)) + {#}"
      using steal_other(2) by (cases "localQueues p ! victim") (auto simp: running_task_def simple_steal_def)
    from conserved_update [OF assms(2,4) steal_other(4) this] steal_other(1) assms(3) show ?thesis
      by (simp add: after_steal_def Let_def tp_shape_def)
  next
    case (run_task t)
    with conserved_worker [OF assms(2,4) q, of AtTop "{#t#}"] assms(3) show ?thesis
      by (simp add: running_task_def tp_shape_def)
  qed (use assms(3) in \<open>auto simp: running_task_def tp_shape_def intro!: upd\<close>)
qed

lemma tp_step_conserves:
  assumes "tp_step orderly p p'" "tp_conserved p" "tp_shape p"
  shows "tp_conserved p' \<and> tp_shape p'"
  using assms(1)
proof cases
  case (enqueue_push t j)
  have "sum_list (map mset ((localQueues p)[j := localQueues p ! j @ [t]])) + mset (localQueues p ! j) =
      sum_list (map mset (localQueues p)) + mset (localQueues p ! j @ [t])"
    by (rule sum_list_upd [OF enqueue_push(3)])
  then have "sum_list (map mset ((localQueues p)[j := localQueues p ! j @ [t]])) = add_mset t (queued p)"
    by (simp add: queued_def)
  with enqueue_push assms(2,3) show ?thesis
    by (auto simp: tp_conserved_def tp_shape_def simple_push_def running_def queued_def)
next
  case (work i)
  with worker_step_conserves assms(2,3) show ?thesis by blast
qed (use assms(2,3) in \<open>auto simp: tp_conserved_def tp_shape_def running_def queued_def\<close>)

lemma sum_list_no_tasks: "sum_list (replicate m {#}) = {#}"
  by (induction m) simp_all

lemma tp_reach_conserves:
  assumes "tp_reach orderly n p"
  shows "tp_conserved p \<and> tp_shape p"
  using assms unfolding tp_reach_def
proof (induction rule: rtranclp_induct)
  case base
  show ?case
    by (simp add: tp_conserved_def tp_shape_def create_pool_def queued_def running_def Let_def running_task_def
        sum_list_no_tasks)
next
  case (step p p')
  with tp_step_conserves show ?case by blast
qed

section \<open>Shutdown\<close>

lemma seen_empty_shrink:
  assumes "seen_empty p w" "stop_flag p \<longrightarrow> stop_flag p'" "length (localQueues p') = length (localQueues p)"
    and "\<And>j. j < length (localQueues p) \<Longrightarrow> localQueues p ! j = [] \<Longrightarrow> localQueues p' ! j = []"
  shows "seen_empty p' w"
  using assms by (cases w) (auto simp: seen_empty_def)

lemma orderly_update:
  assumes "tp_orderly p" "stop_flag p' = stop_flag p" "submitted p' = submitted p" "workers p' = (workers p)[i := w]"
    and "length (localQueues p') = length (localQueues p)"
    and "\<And>j. j < length (localQueues p) \<Longrightarrow> localQueues p ! j = [] \<Longrightarrow> localQueues p' ! j = []" "seen_empty p' w"
  shows "tp_orderly p'"
proof -
  have "seen_empty p' v" if "v \<in> set (workers p')" for v
  proof -
    from that assms(4) consider "v = w" | "v \<in> set (workers p)" 
      using set_update_subset_insert [of "workers p" i w] by auto
    then show ?thesis
    proof cases
      case 2
      with assms(1) have "seen_empty p v" by (simp add: tp_orderly_def)
      then show ?thesis by (rule seen_empty_shrink [OF _ _ assms(5,6)]) (simp add: assms(2))
    qed (simp add: assms(7))
  qed
  with assms(1,2,3) show ?thesis by (simp add: tp_orderly_def)
qed

lemma worker_step_orderly:
  assumes "worker_step i p p'" "tp_orderly p" "tp_shape p" "i < length (workers p)"
  shows "tp_orderly p'"
proof -
  have i: "i < length (localQueues p)" using assms(3,4) by (simp add: tp_shape_def)
  have seen: "seen_empty p (workers p ! i)" using assms(2,4) by (simp add: tp_orderly_def)
  from assms(1) show ?thesis
  proof cases
    case (pop_own b)
    then show ?thesis using seen i
      by (intro orderly_update [OF assms(2), where i = i and w = "case fst (simple_pop (localQueues p ! i)) of Some t \<Rightarrow> Running t | None \<Rightarrow> Stealing b 0"])
        (auto simp: after_pop_def Let_def simple_pop_def nth_list_update seen_empty_def)
  next
    case (steal_other b k victim)
    then show ?thesis using seen
      by (intro orderly_update [OF assms(2), where i = i and w = "case fst (simple_steal (localQueues p ! victim)) of Some t \<Rightarrow> Running t | None \<Rightarrow> Stealing b (Suc k)"])
        (auto simp: after_steal_def Let_def simple_steal_def nth_list_update seen_empty_def split: list.splits)
  next
    case (give_up b k)
    then show ?thesis using seen
      by (intro orderly_update [OF assms(2), where i = i and w = "if b then Checking 0 else AtTop"]) (auto simp: seen_empty_def)
  next
    case (check_queue k)
    then show ?thesis using seen
      by (intro orderly_update [OF assms(2), where i = i and w = "if localQueues p ! k = [] then Checking (Suc k) else AtTop"])
        (auto simp: seen_empty_def less_Suc_eq)
  qed (use seen in \<open>auto simp: seen_empty_def intro!: orderly_update [OF assms(2), where i = i]\<close>)
qed

lemma tp_step_orderly:
  assumes "tp_step True p p'" "tp_orderly p" "tp_shape p"
  shows "tp_orderly p'"
  using assms(1)
proof cases
  case (enqueue_test t)
  with assms(2) have "seen_empty p' w" if "w \<in> set (workers p)" for w
    using that seen_empty_shrink [of p w p'] by (auto simp: tp_orderly_def)
  with enqueue_test show ?thesis by (simp add: tp_orderly_def)
next
  case (enqueue_push t j)
  then have run: "\<not> stop_flag p" using assms(2) by (auto simp: tp_orderly_def)
  have "seen_empty p' w" if w: "w \<in> set (workers p)" for w
  proof -
    have "seen_empty p w" using assms(2) w by (simp add: tp_orderly_def)
    with run enqueue_push(1) show ?thesis by (cases w) (simp_all add: seen_empty_def)
  qed
  with run enqueue_push(1) show ?thesis by (simp add: tp_orderly_def)
next
  case shutdown
  with assms(2) have "seen_empty p' w" if "w \<in> set (workers p)" for w
    using that seen_empty_shrink [of p w p'] by (auto simp: tp_orderly_def)
  with shutdown show ?thesis by (simp add: tp_orderly_def)
next
  case (work i)
  with worker_step_orderly assms(2,3) show ?thesis by blast
qed

lemma tp_reach_orderly:
  assumes "tp_reach True n p"
  shows "tp_orderly p"
proof -
  from assms have "tp_orderly p \<and> tp_conserved p \<and> tp_shape p"
    unfolding tp_reach_def
  proof (induction rule: rtranclp_induct)
    case base
    have "tp_reach True n (create_pool n)" by (simp add: tp_reach_def)
    from tp_reach_conserves [OF this] show ?case
      by (simp add: tp_orderly_def create_pool_def Let_def seen_empty_def)
  next
    case (step p p')
    with tp_step_orderly tp_step_conserves show ?case by blast
  qed
  then show ?thesis ..
qed

text \<open>
  C23. The thread pool neither loses nor repeats a task: in every reachable state of any number of
  workers and callers, each task whose \<^verbatim>\<open>enqueue\<close> was let in is about to be pushed, in one queue, being run by
  one worker, or done, and in exactly one of these. When the destructor does not overtake a
  call of \<^verbatim>\<open>enqueue\<close>, then once a single worker has left its loop all queues are empty, and once all
  have left, exactly the tasks that were let in have been executed, each once.
\<close>

theorem thread_pool_runs_every_task:
  assumes "tp_reach orderly n p"
  shows "accepted p = submitted p + queued p + running p + executed p \<and>
    (orderly \<and> Exited \<in> set (workers p) \<longrightarrow> submitted p = {#} \<and> queued p = {#}) \<and>
    (orderly \<and> set (workers p) = {Exited} \<longrightarrow> executed p = accepted p)"
proof -
  note c = tp_reach_conserves [OF assms]
  have drained: "submitted p = {#} \<and> queued p = {#}" if "orderly" "Exited \<in> set (workers p)"
  proof -
    have "tp_orderly p" using tp_reach_orderly assms that(1) by simp
    with that(2) have "seen_empty p Exited" "submitted p = {#}" by (auto simp: tp_orderly_def seen_empty_def)
    then have "\<forall>q\<in>set (localQueues p). q = []" by (auto simp: seen_empty_def in_set_conv_nth)
    then have "map mset (localQueues p) = replicate (length (localQueues p)) {#}" 
      by (intro replicate_eqI) auto
    with \<open>submitted p = {#}\<close> show ?thesis by (simp add: queued_def sum_list_no_tasks)
  qed
  have idle: "running p = {#}" if "set (workers p) = {Exited}"
  proof -
    have "map running_task (workers p) = replicate (length (workers p)) {#}"
      using that by (intro replicate_eqI) (auto simp: running_task_def)
    then show ?thesis by (simp add: running_def sum_list_no_tasks)
  qed
  show ?thesis using c drained idle by (auto simp: tp_conserved_def)
qed

text \<open>One worker, from its wait for work to its exit, after the flag was set.\<close>

lemma worker_leaves:
  assumes "workers p = [AtTop]" "localQueues p = [[]]" "stop_flag p"
  shows "(tp_step orderly)\<^sup>*\<^sup>* p (p\<lparr>workers := [Exited]\<rparr>)"
proof -
  let ?w = "\<lambda>w. p\<lparr>workers := [w]\<rparr>"
  have step: "tp_step orderly (?w w) (?w w')" if "worker_step 0 (?w w) (?w w')" for w w'
    using that by (intro work [of 0]) simp_all
  have 0: "p = ?w AtTop" using assms(1) by simp
  have 1: "worker_step 0 (?w AtTop) (?w (AtPop True))" using load_stop [of "?w AtTop" 0] assms(3) by simp
  have "after_pop 0 True (simple_pop (localQueues (?w (AtPop True)) ! 0)) (?w (AtPop True)) = ?w (Stealing True 0)"
    using assms(2) by (cases p) (simp add: after_pop_def simple_pop_def)
  then have 2: "worker_step 0 (?w (AtPop True)) (?w (Stealing True 0))"
    using pop_own [of "?w (AtPop True)" 0 True] by (metis (no_types, lifting) nth_Cons_0 thread_pool.select_convs(2) thread_pool.surjective thread_pool.update_convs(2))
  have 3: "worker_step 0 (?w (Stealing True 0)) (?w (Stealing True 1))" "worker_step 0 (?w (Stealing True 1)) (?w (Stealing True 2))"
    using steal_self [of "?w (Stealing True 0)" 0 True 0] steal_self [of "?w (Stealing True 1)" 0 True 1] assms(2)
    by (simp_all add: numeral_2_eq_2)
  have 4: "worker_step 0 (?w (Stealing True 2)) (?w (Checking 0))"
    using give_up [of "?w (Stealing True 2)" 0 True 2] assms(2) by simp
  have 5: "worker_step 0 (?w (Checking 0)) (?w (Checking 1))" "worker_step 0 (?w (Checking 1)) (?w Exited)"
    using check_queue [of "?w (Checking 0)" 0 0] leave [of "?w (Checking 1)" 0 1] assms(2) by simp_all
  from step [OF 1] step [OF 2] step [OF 3(1)] step [OF 3(2)] step [OF 4] step [OF 5(1)] step [OF 5(2)] 0
  show ?thesis by (metis (no_types, lifting) converse_rtranclp_into_rtranclp rtranclp.rtrancl_refl)
qed

theorem thread_pool_runs_every_task_witness:
  "\<exists>p :: nat thread_pool. tp_reach True 1 p \<and> set (workers p) = {Exited} \<and> executed p = accepted p"
proof -
  let ?p0 = "create_pool 1 :: nat thread_pool"
  let ?p1 = "?p0\<lparr>stop_flag := True\<rparr>"
  have "tp_step True ?p0 ?p1" by (rule shutdown) (simp add: create_pool_def)
  moreover have "(tp_step True)\<^sup>*\<^sup>* ?p1 (?p1\<lparr>workers := [Exited]\<rparr>)"
    by (rule worker_leaves) (simp_all add: create_pool_def)
  ultimately have r: "tp_reach True 1 (?p1\<lparr>workers := [Exited]\<rparr>)"
    unfolding tp_reach_def by (metis converse_rtranclp_into_rtranclp)
  from thread_pool_runs_every_task [OF r] r show ?thesis by auto
qed

text \<open>
  A task can be accepted and never run: when the destructor starts between the test and the push of a
  call of \<^verbatim>\<open>enqueue\<close>, all workers can leave before the push. The test of \<^verbatim>\<open>stop_\<close> alone does not
  guarantee what its comment claims, and the caller's future is never made ready.
\<close>

lemma late_enqueue_is_lost:
  "\<exists>p :: nat thread_pool. tp_reach False 1 p \<and> set (workers p) = {Exited} \<and> submitted p = {#} \<and>
     accepted p = {#7#} \<and> queued p = {#7#} \<and> executed p = {#}"
proof -
  let ?p0 = "create_pool 1 :: nat thread_pool"
  let ?p1 = "?p0\<lparr>submitted := add_mset 7 (submitted ?p0), accepted := add_mset 7 (accepted ?p0)\<rparr>"
  let ?p2 = "?p1\<lparr>stop_flag := True\<rparr>"
  let ?p3 = "?p2\<lparr>workers := [Exited]\<rparr>"
  let ?p4 = "?p3\<lparr>submitted := submitted ?p3 - {#7#}, localQueues := (localQueues ?p3)[0 := simple_push 7 (localQueues ?p3 ! 0)]\<rparr>"
  have "tp_step False ?p0 ?p1" by (rule enqueue_test) (simp add: create_pool_def)
  moreover have "tp_step False ?p1 ?p2" by (rule shutdown) simp
  moreover have "(tp_step False)\<^sup>*\<^sup>* ?p2 ?p3" by (rule worker_leaves) (simp_all add: create_pool_def)
  moreover have "tp_step False ?p3 ?p4" by (rule enqueue_push) (simp_all add: create_pool_def)
  ultimately have "tp_reach False 1 ?p4"
    unfolding tp_reach_def by (meson converse_rtranclp_into_rtranclp rtranclp.rtrancl_into_rtrancl)
  moreover have "set (workers ?p4) = {Exited} \<and> submitted ?p4 = {#} \<and> accepted ?p4 = {#7#} \<and> queued ?p4 = {#7#} \<and> executed ?p4 = {#}"
    by (simp add: create_pool_def queued_def simple_push_def)
  ultimately show ?thesis by blast
qed

end
