(* ===== verification/Memory_Pool.thy ===== *)
theory Memory_Pool
  imports Rule_Context
begin

text \<open>
  \<^verbatim>\<open>MemoryPool\<close>, \<^verbatim>\<open>VectorPool\<close> and \<^verbatim>\<open>MemoryManager\<close> (memory_pool.hpp, memory_pool.cpp). A pool is a first-in
  first-out queue of objects that are free, with counters; every operation runs under the pool's
  mutex. The capacity of a vector is not modelled. \<open>new\<close> is the default-constructed object.
\<close>

section \<open>MemoryPool\<close>

record 'a MemoryPool =
  pool_free :: "'a list"
  pool_maxSize :: nat
  allocatedCount :: nat
  releasedCount :: nat

definition create_memory_pool :: "nat \<Rightarrow> 'a MemoryPool" where
  "create_memory_pool maxSize = \<lparr>pool_free = [], pool_maxSize = maxSize, allocatedCount = 0, releasedCount = 0\<rparr>"

definition decrementAllocated :: "'a MemoryPool \<Rightarrow> 'a MemoryPool" where
  "decrementAllocated p =
     (if allocatedCount p > 0 then p\<lparr>allocatedCount := allocatedCount p - 1\<rparr> else p)"

definition pool_acquire :: "'a \<Rightarrow> 'a MemoryPool \<Rightarrow> 'a \<times> 'a MemoryPool" where
  "pool_acquire new p =
     (case pool_free p of
        x # xs \<Rightarrow> (x, p\<lparr>pool_free := xs\<rparr>)
      | [] \<Rightarrow> (new, p\<lparr>allocatedCount := allocatedCount p + 1\<rparr>))"

definition pool_release :: "'a option \<Rightarrow> 'a MemoryPool \<Rightarrow> 'a MemoryPool" where
  "pool_release obj p =
     (case obj of
        None \<Rightarrow> p
      | Some x \<Rightarrow>
          (let p1 = (if length (pool_free p) < pool_maxSize p then p\<lparr>pool_free := pool_free p @ [x]\<rparr>
                     else decrementAllocated p)
           in p1\<lparr>releasedCount := releasedCount p1 + 1\<rparr>))"

fun pool_preallocate :: "'a \<Rightarrow> nat \<Rightarrow> 'a MemoryPool \<Rightarrow> 'a MemoryPool" where
  "pool_preallocate new 0 p = p"
| "pool_preallocate new (Suc n) p =
     (if length (pool_free p) < pool_maxSize p
      then pool_preallocate new n (p\<lparr>pool_free := pool_free p @ [new], allocatedCount := allocatedCount p + 1\<rparr>)
      else p)"

definition pool_getStats :: "'a MemoryPool \<Rightarrow> nat \<times> nat" where
  "pool_getStats p = (length (pool_free p), allocatedCount p)"

function pool_clear :: "'a MemoryPool \<Rightarrow> 'a MemoryPool" where
  "pool_clear p =
     (case pool_free p of [] \<Rightarrow> p | x # xs \<Rightarrow> pool_clear (decrementAllocated (p\<lparr>pool_free := xs\<rparr>)))"
  by pat_completeness auto
termination pool_clear
  by (relation "measure (\<lambda>p. length (pool_free p))") (auto simp: decrementAllocated_def)

declare pool_clear.simps [simp del]

section \<open>VectorPool\<close>

text \<open>The same pool of vectors; they are emptied when they are acquired and when they are released.\<close>

definition vector_acquire :: "'b list MemoryPool \<Rightarrow> 'b list \<times> 'b list MemoryPool" where
  "vector_acquire p =
     (case pool_free p of
        v # vs \<Rightarrow> ([], p\<lparr>pool_free := vs\<rparr>)
      | [] \<Rightarrow> ([], p\<lparr>allocatedCount := allocatedCount p + 1\<rparr>))"

definition vector_release :: "'b list option \<Rightarrow> 'b list MemoryPool \<Rightarrow> 'b list MemoryPool" where
  "vector_release vec p =
     (case vec of
        None \<Rightarrow> p
      | Some v \<Rightarrow>
          (let p1 = (if length (pool_free p) < pool_maxSize p then p\<lparr>pool_free := pool_free p @ [[]]\<rparr>
                     else decrementAllocated p)
           in p1\<lparr>releasedCount := releasedCount p1 + 1\<rparr>))"

section \<open>MemoryManager\<close>

record MemoryManager =
  contextPool :: "RuleContext MemoryPool"
  resultVectorPool :: "RuleResult list MemoryPool"

definition create_manager :: MemoryManager where
  "create_manager = \<lparr>contextPool = create_memory_pool 1000, resultVectorPool = create_memory_pool 1000\<rparr>"

definition acquireContext :: "MemoryManager \<Rightarrow> RuleContext \<times> MemoryManager" where
  "acquireContext m = (let (c, p) = pool_acquire init_context (contextPool m) in (c, m\<lparr>contextPool := p\<rparr>))"

definition releaseContext :: "RuleContext option \<Rightarrow> MemoryManager \<Rightarrow> MemoryManager" where
  "releaseContext ctx m =
     (case ctx of
        None \<Rightarrow> m
      | Some c \<Rightarrow> m\<lparr>contextPool := pool_release (Some (clear_context c)) (contextPool m)\<rparr>)"

definition acquireResultVector :: "MemoryManager \<Rightarrow> RuleResult list \<times> MemoryManager" where
  "acquireResultVector m =
     (let (v, p) = vector_acquire (resultVectorPool m) in (v, m\<lparr>resultVectorPool := p\<rparr>))"

definition releaseResultVector :: "RuleResult list option \<Rightarrow> MemoryManager \<Rightarrow> MemoryManager" where
  "releaseResultVector v m = m\<lparr>resultVectorPool := vector_release v (resultVectorPool m)\<rparr>"

definition manager_preallocate :: "MemoryManager \<Rightarrow> MemoryManager" where
  "manager_preallocate m =
     m\<lparr>contextPool := pool_preallocate init_context 100 (contextPool m),
       resultVectorPool := pool_preallocate [] 100 (resultVectorPool m)\<rparr>"

definition manager_getStats :: "MemoryManager \<Rightarrow> (nat \<times> nat) \<times> (nat \<times> nat)" where
  "manager_getStats m = (pool_getStats (contextPool m), pool_getStats (resultVectorPool m))"

section \<open>Accounting\<close>

datatype 'a pool_op = Acquire | Release 'a | Preallocate nat | Clear

text \<open>A sequence of calls, with the number of objects that are out; only such objects are released.\<close>

fun run_pool :: "'a \<Rightarrow> 'a pool_op list \<Rightarrow> 'a MemoryPool \<times> nat \<Rightarrow> ('a MemoryPool \<times> nat) option" where
  "run_pool new [] s = Some s"
| "run_pool new (Acquire # ops) (p, k) = run_pool new ops (snd (pool_acquire new p), Suc k)"
| "run_pool new (Release x # ops) (p, k) =
     (if k = 0 then None else run_pool new ops (pool_release (Some x) p, k - 1))"
| "run_pool new (Preallocate n # ops) (p, k) = run_pool new ops (pool_preallocate new n p, k)"
| "run_pool new (Clear # ops) (p, k) = run_pool new ops (pool_clear p, k)"

definition pool_ok :: "'a MemoryPool \<Rightarrow> nat \<Rightarrow> bool" where
  "pool_ok p k \<longleftrightarrow> allocatedCount p = length (pool_free p) + k \<and> length (pool_free p) \<le> pool_maxSize p"

lemma preallocate_ok: "pool_ok p k \<Longrightarrow> pool_ok (pool_preallocate new n p) k \<and> pool_maxSize (pool_preallocate new n p) = pool_maxSize p"
proof (induction n arbitrary: p)
  case (Suc n)
  let ?p = "p\<lparr>pool_free := pool_free p @ [new], allocatedCount := allocatedCount p + 1\<rparr>"
  have "pool_ok ?p k" if "length (pool_free p) < pool_maxSize p" using Suc.prems that by (simp add: pool_ok_def)
  with Suc.IH [of ?p] Suc.prems show ?case by simp
qed simp

lemma clear_ok: "pool_ok p k \<Longrightarrow> pool_ok (pool_clear p) k \<and> pool_free (pool_clear p) = [] \<and> pool_maxSize (pool_clear p) = pool_maxSize p"
proof (induction p rule: pool_clear.induct)
  case (1 p)
  show ?case
  proof (cases "pool_free p")
    case Nil
    with 1 show ?thesis by (simp add: pool_clear.simps [of p])
  next
    case (Cons x xs)
    with 1 have "pool_ok (decrementAllocated (p\<lparr>pool_free := xs\<rparr>)) k" by (simp add: pool_ok_def decrementAllocated_def)
    with 1 Cons show ?thesis by (simp add: pool_clear.simps [of p]) (simp add: decrementAllocated_def)
  qed
qed

lemma run_pool_ok:
  "run_pool new ops (p, k) = Some (p', k') \<Longrightarrow> pool_ok p k \<Longrightarrow> pool_ok p' k' \<and> pool_maxSize p' = pool_maxSize p"
proof (induction new ops "(p, k)" arbitrary: p k rule: run_pool.induct)
  case (2 new ops p k)
  have "pool_ok (snd (pool_acquire new p)) (Suc k)" "pool_maxSize (snd (pool_acquire new p)) = pool_maxSize p"
    using 2(3) by (auto simp: pool_acquire_def pool_ok_def split: list.split)
  with 2 show ?case by simp
next
  case (3 new x ops p k)
  then have "k > 0" by (auto split: if_splits)
  with 3(3) have "pool_ok (pool_release (Some x) p) (k - 1)" "pool_maxSize (pool_release (Some x) p) = pool_maxSize p"
    by (auto simp: pool_release_def pool_ok_def decrementAllocated_def Let_def)
  with 3 \<open>k > 0\<close> show ?case by simp
next
  case (4 new n ops p k)
  with preallocate_ok [of p k new n] show ?case by simp
next
  case (5 new ops p k)
  with clear_ok [of p k] show ?case by simp
qed simp

text \<open>
  Pool accounting: after any sequence of acquisitions, releases of acquired objects, preallocations
  and clearings of a new pool, the allocation count is exactly the number of free objects plus the
  number of objects that are out, so the saturating decrement never cuts anything off, and the pool never
  holds more than its maximum.
\<close>

lemma memory_pool_accounting:
  assumes "run_pool new ops (create_memory_pool n, 0) = Some (p, k)"
  shows "allocatedCount p = length (pool_free p) + k \<and> length (pool_free p) \<le> n \<and>
    pool_getStats p = (length (pool_free p), length (pool_free p) + k)"
proof -
  have "pool_ok (create_memory_pool n) 0" by (simp add: pool_ok_def create_memory_pool_def)
  from run_pool_ok [OF assms this] show ?thesis
    by (simp add: pool_ok_def pool_getStats_def create_memory_pool_def)
qed

lemma memory_pool_accounting_example:
  "\<exists>p. run_pool (0 :: nat) [Preallocate 5, Acquire, Acquire, Acquire, Release 7, Clear] (create_memory_pool 2, 0) = Some (p, 2) \<and>
     allocatedCount p = 2"
proof -
  let ?ops = "[Preallocate 5, Acquire, Acquire, Acquire, Release 7, Clear] :: nat pool_op list"
  obtain p where r: "run_pool 0 ?ops (create_memory_pool 2, 0) = Some (p, 2)" "pool_free p = []"
    by (simp add: create_memory_pool_def pool_acquire_def pool_release_def pool_clear.simps decrementAllocated_def
        numeral_eq_Suc)
  from memory_pool_accounting [OF r(1)] r show ?thesis by auto
qed

section \<open>Recycled objects\<close>

text \<open>
  A recycled context is not fresh: a context that goes through the manager's pool comes back with
  no results and no variables but still reports the error of its last use, because \<^verbatim>\<open>clear\<close> does not
  reset it; only a context whose last use left no error comes back as new. Recycled vectors are
  always empty.
\<close>

lemma recycled_context_keeps_error:
  assumes "pool_free (contextPool m) = []" and "pool_maxSize (contextPool m) > 0"
    and "acquireContext (releaseContext (Some c) m) = (c', m')"
  shows "getResult c' = Map.empty \<and> getVariable c' = Map.empty \<and> getLastError c' = getLastError c \<and>
    (c' = init_context \<longleftrightarrow> getLastError c = None) \<and> fst (acquireResultVector m) = []"
proof -
  have "c' = clear_context c"
    using assms by (simp add: acquireContext_def releaseContext_def pool_release_def pool_acquire_def Let_def)
  moreover have "fst (acquireResultVector m) = []"
    by (simp add: acquireResultVector_def vector_acquire_def split: list.split)
  ultimately show ?thesis
    by (cases c) (auto simp: clear_context_def getResult_def getVariable_def getLastError_def init_context_def)
qed

lemma recycled_context_keeps_error_example:
  "getLastError (fst (acquireContext (releaseContext (Some (setLastError ''tax'' ''boom'' init_context)) create_manager))) =
     Some (''tax'', ''boom'')"
proof -
  let ?c = "setLastError ''tax'' ''boom'' init_context"
  obtain c' m' where a: "acquireContext (releaseContext (Some ?c) create_manager) = (c', m')" by fastforce
  have "pool_free (contextPool create_manager) = []" "pool_maxSize (contextPool create_manager) > 0"
    by (simp_all add: create_manager_def create_memory_pool_def)
  from recycled_context_keeps_error [OF this a] a show ?thesis by (simp add: getLastError_def setLastError_def)
qed

end
