(* ===== verification/Rule_Versioning.thy ===== *)
theory Rule_Versioning
  imports Workflow
begin

text \<open>
  \<^verbatim>\<open>RuleVersion\<close>, \<^verbatim>\<open>RuleVersionHistory\<close> and \<^verbatim>\<open>RuleVersionManager\<close> (rule_versioning.hpp,
  rule_versioning.cpp). The histories are listed in the order in which their keys were first used;
  where the map is iterated, the order is the argument \<open>it\<close>. The state also holds the process-wide
  version counter and the number of clock readings. \<open>fmt\<close> is the formatting of a time as
  \<^verbatim>\<open>%Y%m%d-%H%M%S\<close> in UTC. Every operation holds the manager's mutex, so operations do not overlap.
\<close>

section \<open>Histories\<close>

record RuleVersion =
  v_versionId :: string
  v_ruleName :: string
  v_expression :: string
  v_action :: string
  v_priority :: int
  v_isActive :: bool
  v_createdAt :: int
  v_author :: string
  v_changeSummary :: string
  v_parentVersionId :: string

record RuleVersionHistory =
  h_ruleName :: string
  h_versions :: "RuleVersion list"

definition empty_history :: RuleVersionHistory where
  "empty_history = \<lparr>h_ruleName = [], h_versions = []\<rparr>"

definition addVersion :: "RuleVersion \<Rightarrow> RuleVersionHistory \<Rightarrow> RuleVersionHistory" where
  "addVersion v h = h\<lparr>h_versions := h_versions h @ [v]\<rparr>"

definition getLatest :: "RuleVersionHistory \<Rightarrow> RuleVersion option" where
  "getLatest h = (if h_versions h = [] then None else Some (last (h_versions h)))"

definition getVersion :: "RuleVersionHistory \<Rightarrow> string \<Rightarrow> RuleVersion option" where
  "getVersion h versionId = find (\<lambda>v. v_versionId v = versionId) (h_versions h)"

fun best_version :: "int \<Rightarrow> RuleVersion option \<Rightarrow> RuleVersion list \<Rightarrow> RuleVersion option" where
  "best_version t best [] = best"
| "best_version t best (v # vs) =
     best_version t
       (if v_createdAt v \<le> t \<and> (case best of None \<Rightarrow> True | Some b \<Rightarrow> v_createdAt v > v_createdAt b)
        then Some v else best) vs"

definition getVersionAt :: "RuleVersionHistory \<Rightarrow> int \<Rightarrow> RuleVersion option" where
  "getVersionAt h timestamp = best_version timestamp None (h_versions h)"

definition listVersions :: "RuleVersionHistory \<Rightarrow> RuleVersion list" where
  "listVersions h = rev (h_versions h)"

definition quoted :: "string \<Rightarrow> string" where
  "quoted s = [CHR 0x27] @ s @ [CHR 0x27]"

definition rollbackTo :: "nat \<Rightarrow> RuleVersionHistory \<Rightarrow> string \<Rightarrow> exn + Rule" where
  "rollbackTo a h versionId =
     (case getVersion h versionId of
        None \<Rightarrow> Inl (RuleExceptionThrown (''Version not found: '' @ versionId))
      | Some v \<Rightarrow>
          (case stoi (v_ruleName v) of
             None \<Rightarrow> Inl (RuleExceptionThrown (''Version '' @ quoted versionId @ '' has a non-numeric ruleName '' @
                       quoted (v_ruleName v) @ ''; cannot reconstruct a rule id''))
           | Some i \<Rightarrow>
               Inr (Rule a (default_rule_data\<lparr>rule_id := i, expression := v_expression v, action := v_action v,
                      priority := v_priority v, isActive := v_isActive v\<rparr>) [])))"

definition bool_name :: "bool \<Rightarrow> string" where
  "bool_name b = (if b then ''true'' else ''false'')"

definition version_diff :: "RuleVersionHistory \<Rightarrow> string \<Rightarrow> string \<Rightarrow> string list" where
  "version_diff h fromId toId =
     (case getVersion h fromId of
        None \<Rightarrow> [''Source version '' @ quoted fromId @ '' not found'']
      | Some f \<Rightarrow>
          (case getVersion h toId of
             None \<Rightarrow> [''Target version '' @ quoted toId @ '' not found'']
           | Some t \<Rightarrow>
               (if v_expression f \<noteq> v_expression t then [''Expression changed''] else []) @
               (if v_action f \<noteq> v_action t then [''Action changed''] else []) @
               (if v_priority f \<noteq> v_priority t
                then [''Priority changed: '' @ std_to_string (v_priority f) @ '' -> '' @ std_to_string (v_priority t)] else []) @
               (if v_isActive f \<noteq> v_isActive t
                then [''Active state changed: '' @ bool_name (v_isActive f) @ '' -> '' @ bool_name (v_isActive t)] else [])))"

section \<open>The manager\<close>

record ver_state =
  histories :: "(string \<times> RuleVersionHistory) list"
  autoSnapshot :: bool
  ver_counter :: nat
  ver_tick :: nat

definition init_versions :: ver_state where
  "init_versions = \<lparr>histories = [], autoSnapshot = False, ver_counter = 0, ver_tick = 0\<rparr>"

definition hex_char :: "nat \<Rightarrow> char" where
  "hex_char d = char_of (if d < 10 then 48 + d else 87 + d)"

fun hex_digits :: "nat \<Rightarrow> string" where
  "hex_digits n = (if n < 16 then [hex_char n] else hex_digits (n div 16) @ [hex_char (n mod 16)])"

declare hex_digits.simps [simp del]

definition version_id :: "(int \<Rightarrow> string) \<Rightarrow> int \<Rightarrow> nat \<Rightarrow> string" where
  "version_id fmt t n = fmt t @ ''-'' @ hex_digits n"

definition generateVersionId :: "(int \<Rightarrow> string) \<Rightarrow> (nat \<Rightarrow> int) \<Rightarrow> ver_state \<Rightarrow> string \<times> ver_state" where
  "generateVersionId fmt clk m =
     (let n = ver_counter m + 1
      in (version_id fmt (clk (ver_tick m)) n, m\<lparr>ver_counter := n, ver_tick := ver_tick m + 1\<rparr>))"

definition snapshotRule ::
    "(int \<Rightarrow> string) \<Rightarrow> (nat \<Rightarrow> int) \<Rightarrow> string \<Rightarrow> string \<Rightarrow> Rule \<Rightarrow> ver_state \<Rightarrow> ver_state" where
  "snapshotRule fmt clk author summary r m =
     (let (vid, m1) = generateVersionId fmt clk m; key = std_to_string (rid r);
          h = (case map_of (histories m1) key of None \<Rightarrow> empty_history | Some h \<Rightarrow> h);
          v = \<lparr>v_versionId = vid, v_ruleName = key, v_expression = expression (rdata r), v_action = action (rdata r),
               v_priority = priority (rdata r), v_isActive = isActive (rdata r), v_createdAt = clk (ver_tick m1),
               v_author = author, v_changeSummary = summary,
               v_parentVersionId = (case getLatest h of None \<Rightarrow> [] | Some l \<Rightarrow> v_versionId l)\<rparr>
      in m1\<lparr>histories := AList.update key (addVersion v (h\<lparr>h_ruleName := key\<rparr>)) (histories m1),
            ver_tick := ver_tick m1 + 1\<rparr>)"

definition snapshotWorkflow ::
    "(int \<Rightarrow> string) \<Rightarrow> (nat \<Rightarrow> int) \<Rightarrow> string \<Rightarrow> string \<Rightarrow> 'h Workflow \<Rightarrow> ver_state \<Rightarrow> ver_state" where
  "snapshotWorkflow fmt clk author summary wk m = fold (snapshotRule fmt clk author summary) (wf_rules wk) m"

definition getHistory :: "ver_state \<Rightarrow> int \<Rightarrow> RuleVersionHistory option" where
  "getHistory m ruleId = map_of (histories m) (std_to_string ruleId)"

fun rollback_all :: "nat \<Rightarrow> string \<Rightarrow> (string \<times> RuleVersionHistory) list \<Rightarrow> Rule list" where
  "rollback_all a versionId [] = []"
| "rollback_all a versionId ((k, h) # hs) =
     (case rollbackTo a h versionId of
        Inl e \<Rightarrow> rollback_all a versionId hs
      | Inr r \<Rightarrow> r # rollback_all (Suc a) versionId hs)"

definition rollbackWorkflow ::
    "((string \<times> RuleVersionHistory) list \<Rightarrow> (string \<times> RuleVersionHistory) list) \<Rightarrow> nat \<Rightarrow> int \<Rightarrow> string \<Rightarrow> ver_state
       \<Rightarrow> 'h Workflow" where
  "rollbackWorkflow it a workflowId versionId m =
     default_workflow\<lparr>wf_id := workflowId, wf_rules := rollback_all a versionId (it (histories m))\<rparr>"

definition getTrackedRuleIds :: "ver_state \<Rightarrow> string list" where
  "getTrackedRuleIds m = map fst (histories m)"

definition enableAutoSnapshot :: "bool \<Rightarrow> ver_state \<Rightarrow> ver_state" where
  "enableAutoSnapshot b m = m\<lparr>autoSnapshot := b\<rparr>"

interpretation history_store: kv_store "\<lambda>k h m. m\<lparr>histories := AList.update k h (histories m)\<rparr>" "\<lambda>m. map_of (histories m)"
  by unfold_locales (simp_all add: update_conv')

section \<open>Versions in time\<close>

text \<open>\<^verbatim>\<open>getVersionAt\<close> finds a version that is newest among those created by the given time, and none only
  if there is none.\<close>

definition is_newest :: "int \<Rightarrow> RuleVersion option \<Rightarrow> RuleVersion list \<Rightarrow> RuleVersion option \<Rightarrow> bool" where
  "is_newest t best vs res \<longleftrightarrow>
     (case res of
        None \<Rightarrow> best = None \<and> (\<forall>u\<in>set vs. t < v_createdAt u)
      | Some v \<Rightarrow> (v \<in> set vs \<or> best = Some v) \<and> v_createdAt v \<le> t \<and>
          (\<forall>u\<in>set vs. v_createdAt u \<le> t \<longrightarrow> v_createdAt u \<le> v_createdAt v) \<and>
          (\<forall>b. best = Some b \<longrightarrow> v_createdAt b \<le> v_createdAt v))"

lemma best_version_newest:
  "\<forall>b. best = Some b \<longrightarrow> v_createdAt b \<le> t \<Longrightarrow> is_newest t best vs (best_version t best vs)"
proof (induction vs arbitrary: best)
  case Nil
  then show ?case by (auto simp: is_newest_def split: option.split)
next
  case (Cons v vs)
  let ?new = "v_createdAt v \<le> t \<and> (case best of None \<Rightarrow> True | Some b \<Rightarrow> v_createdAt v > v_createdAt b)"
  show ?case
  proof (cases ?new)
    case True
    with Cons.IH [of "Some v"] have ih: "is_newest t (Some v) vs (best_version t (Some v) vs)" by simp
    have "is_newest t best (v # vs) r" if "is_newest t (Some v) vs r" for r
      using that True by (cases r; cases best) (auto simp: is_newest_def)
    with ih True show ?thesis by simp
  next
    case False
    have "is_newest t best (v # vs) r" if "is_newest t best vs r" for r
      using that False Cons.prems by (cases r; cases best) (auto simp: is_newest_def)
    with Cons.IH [OF Cons.prems] False show ?thesis by auto
  qed
qed

lemma getVersionAt_newest:
  "case getVersionAt h t of
     None \<Rightarrow> \<forall>u\<in>set (h_versions h). t < v_createdAt u
   | Some v \<Rightarrow> v \<in> set (h_versions h) \<and> v_createdAt v \<le> t \<and>
       (\<forall>u\<in>set (h_versions h). v_createdAt u \<le> t \<longrightarrow> v_createdAt u \<le> v_createdAt v)"
  using best_version_newest [of None t "h_versions h"] by (simp add: getVersionAt_def is_newest_def split: option.splits)

section \<open>Version ids\<close>

lemma hex_char_inject: "d < 16 \<Longrightarrow> e < 16 \<Longrightarrow> hex_char d = hex_char e \<Longrightarrow> d = e"
  using arg_cong [of "hex_char d" "hex_char e" cc] by (auto simp: hex_char_def split: if_splits)

lemma hex_digits_nonempty: "hex_digits n \<noteq> []"
  by (subst hex_digits.simps) simp

lemma hex_digits_inject: "hex_digits n = hex_digits m \<Longrightarrow> n = m"
proof (induction n arbitrary: m rule: hex_digits.induct)
  case (1 n)
  show ?case
  proof (cases "n < 16 \<or> m < 16")
    case True
    with 1(2) hex_digits_nonempty [of "n div 16"] hex_digits_nonempty [of "m div 16"] hex_char_inject [of n m]
    show ?thesis by (auto simp: hex_digits.simps [of n] hex_digits.simps [of m] split: if_splits)
  next
    case False
    with 1(2) have "hex_digits (n div 16) = hex_digits (m div 16)" "hex_char (n mod 16) = hex_char (m mod 16)"
      by (auto simp: hex_digits.simps [of n] hex_digits.simps [of m])
    with 1(1) False have "n div 16 = m div 16" "n mod 16 = m mod 16" using hex_char_inject [of "n mod 16" "m mod 16"] by auto
    then show ?thesis by (metis div_mod_decomp)
  qed
qed

text \<open>What is used of the time format: it has fifteen characters.\<close>

definition time_format :: "(int \<Rightarrow> string) \<Rightarrow> bool" where
  "time_format fmt \<longleftrightarrow> (\<forall>t. length (fmt t) = 15)"

lemma version_id_inject: "time_format fmt \<Longrightarrow> version_id fmt t n = version_id fmt t' n' \<Longrightarrow> n = n'"
  by (auto simp: version_id_def time_format_def dest: hex_digits_inject)

definition all_versions :: "(string \<times> RuleVersionHistory) list \<Rightarrow> RuleVersion list" where
  "all_versions hs = concat (map (\<lambda>(k, h). h_versions h) hs)"

definition versions_ok :: "(int \<Rightarrow> string) \<Rightarrow> ver_state \<Rightarrow> bool" where
  "versions_ok fmt m \<longleftrightarrow>
     distinct (map fst (histories m)) \<and> distinct (map v_versionId (all_versions (histories m))) \<and>
     (\<forall>v\<in>set (all_versions (histories m)). \<exists>t n. v_versionId v = version_id fmt t n \<and> n \<le> ver_counter m)"

lemma all_versions_update:
  assumes "distinct (map fst hs)" "h = (case map_of hs k of None \<Rightarrow> empty_history | Some h \<Rightarrow> h)"
  shows "mset (all_versions (AList.update k (addVersion v (h\<lparr>h_ruleName := x\<rparr>)) hs)) = add_mset v (mset (all_versions hs))"
  using assms
proof (induction hs)
  case Nil
  then show ?case by (simp add: all_versions_def addVersion_def empty_history_def)
next
  case (Cons p hs)
  show ?case
  proof (cases "fst p = k")
    case True
    with Cons.prems show ?thesis by (cases p) (simp add: all_versions_def addVersion_def)
  next
    case False
    with Cons.prems have "mset (all_versions (AList.update k (addVersion v (h\<lparr>h_ruleName := x\<rparr>)) hs)) = add_mset v (mset (all_versions hs))"
      by (intro Cons.IH) (auto split: option.splits)
    with False show ?thesis by (cases p) (simp add: all_versions_def)
  qed
qed

text \<open>What a snapshot does: it appends one version, with a new id, to the rule's history.\<close>

lemma snapshotRule_spec:
  assumes "versions_ok fmt m" "time_format fmt"
  obtains v h where "getHistory (snapshotRule fmt clk author summary r m) (rid r) = Some (addVersion v h)"
    "v_ruleName v = std_to_string (rid r)" "v_expression v = expression (rdata r)" "v_action v = action (rdata r)"
    "v_priority v = priority (rdata r)" "v_isActive v = isActive (rdata r)"
    "v_versionId v \<notin> v_versionId ` set (h_versions h)" "versions_ok fmt (snapshotRule fmt clk author summary r m)"
proof -
  let ?key = "std_to_string (rid r)" and ?n = "ver_counter m + 1"
  define h where "h = (case map_of (histories m) ?key of None \<Rightarrow> empty_history | Some h \<Rightarrow> h)"
  define v where "v = \<lparr>v_versionId = version_id fmt (clk (ver_tick m)) ?n, v_ruleName = ?key, v_expression = expression (rdata r),
      v_action = action (rdata r), v_priority = priority (rdata r), v_isActive = isActive (rdata r),
      v_createdAt = clk (ver_tick m + 1), v_author = author, v_changeSummary = summary,
      v_parentVersionId = (case getLatest h of None \<Rightarrow> [] | Some l \<Rightarrow> v_versionId l)\<rparr>"
  let ?m = "snapshotRule fmt clk author summary r m"
  have m: "histories ?m = AList.update ?key (addVersion v (h\<lparr>h_ruleName := ?key\<rparr>)) (histories m)" "ver_counter ?m = ?n"
    by (simp_all add: snapshotRule_def generateVersionId_def h_def v_def Let_def)
  have d: "distinct (map fst (histories m))" using assms(1) by (simp add: versions_ok_def)
  have all: "mset (all_versions (histories ?m)) = add_mset v (mset (all_versions (histories m)))"
    unfolding m by (rule all_versions_update [OF d]) (simp add: h_def)
  have new: "v_versionId v \<notin> v_versionId ` set (all_versions (histories m))"
  proof
    assume "v_versionId v \<in> v_versionId ` set (all_versions (histories m))"
    then obtain u where u: "u \<in> set (all_versions (histories m))" "v_versionId v = v_versionId u" by auto
    with assms(1) obtain t n where "v_versionId u = version_id fmt t n" "n \<le> ver_counter m" by (auto simp: versions_ok_def)
    with u version_id_inject [OF assms(2)] show False by (fastforce simp: v_def)
  qed
  have "set (h_versions h) \<subseteq> set (all_versions (histories m))"
    by (force simp: h_def all_versions_def empty_history_def split: option.splits dest: map_of_SomeD)
  with new have fresh: "v_versionId v \<notin> v_versionId ` set (h_versions h)" by blast
  have "mset (map v_versionId (all_versions (histories ?m))) = mset (v_versionId v # map v_versionId (all_versions (histories m)))"
    using arg_cong [OF all, of "image_mset v_versionId"] by simp
  then have "distinct (map v_versionId (all_versions (histories ?m)))"
    using assms(1) new by (metis (no_types, lifting) distinct.simps(2) list.set_map mset_eq_imp_distinct_iff versions_ok_def)
  moreover have "\<exists>t n. v_versionId u = version_id fmt t n \<and> n \<le> ver_counter ?m" if "u \<in> set (all_versions (histories ?m))" for u
  proof -
    have "u = v \<or> u \<in> set (all_versions (histories m))" using that all by (metis insert_iff set_mset_add_mset_insert set_mset_mset)
    then show ?thesis
    proof
      assume "u = v"
      then have "v_versionId u = version_id fmt (clk (ver_tick m)) ?n" by (simp add: v_def)
      with m(2) show ?thesis by auto
    next
      assume "u \<in> set (all_versions (histories m))"
      with assms(1) obtain t n where "v_versionId u = version_id fmt t n" "n \<le> ver_counter m" by (auto simp: versions_ok_def)
      then show ?thesis unfolding m(2) by (metis le_add1 le_trans)
    qed
  qed
  moreover have "distinct (map fst (histories ?m))" using d m(1) by (simp add: distinct_update)
  ultimately have ok: "versions_ok fmt ?m" by (simp add: versions_ok_def)
  have "getHistory ?m (rid r) = Some (addVersion v (h\<lparr>h_ruleName := ?key\<rparr>))"
    by (simp add: getHistory_def m(1) update_conv')
  with fresh ok show thesis by (intro that [of v "h\<lparr>h_ruleName := ?key\<rparr>"]) (simp_all add: v_def)
qed

text \<open>A sequence of snapshots from an empty manager.\<close>

definition take_snapshots ::
    "(int \<Rightarrow> string) \<Rightarrow> (nat \<Rightarrow> int) \<Rightarrow> (string \<times> string \<times> Rule) list \<Rightarrow> ver_state" where
  "take_snapshots fmt clk snaps = fold (\<lambda>(author, summary, r). snapshotRule fmt clk author summary r) snaps init_versions"

lemma take_snapshots_ok:
  assumes "time_format fmt"
  shows "versions_ok fmt (take_snapshots fmt clk snaps)"
proof -
  have "versions_ok fmt (fold (\<lambda>(author, summary, r). snapshotRule fmt clk author summary r) snaps m)" if "versions_ok fmt m" for m
    using that
  proof (induction snaps arbitrary: m)
    case (Cons x snaps)
    obtain author summary r where x: "x = (author, summary, r)" by (metis prod.exhaust)
    have "versions_ok fmt (snapshotRule fmt clk author summary r m)"
      by (rule snapshotRule_spec [OF Cons.prems assms])
    with Cons.IH x show ?case by simp
  qed simp
  moreover have "versions_ok fmt init_versions" by (simp add: versions_ok_def init_versions_def all_versions_def)
  ultimately show ?thesis by (simp add: take_snapshots_def)
qed

section \<open>Snapshots and rollback\<close>

lemma find_append_None: "find P xs = None \<Longrightarrow> find P (xs @ ys) = find P ys"
  by (induction xs) (auto split: if_splits)

lemma distinct_constant: "distinct xs \<Longrightarrow> (\<And>x. x \<in> set xs \<Longrightarrow> x = c) \<Longrightarrow> length xs \<le> 1"
  by (cases xs; cases "tl xs") auto

text \<open>
  C26. Round trip: after a rule has been snapshotted, whatever was snapshotted before, rolling back to the
  latest version of its history gives a rule with the same id, expression, action, priority and active
  flag; every other field has its default value.
\<close>

theorem snapshot_rollback_roundtrip:
  assumes "time_format fmt" and "int_min \<le> rid r" and "rid r \<le> int_max"
  shows "\<exists>h v. getHistory (snapshotRule fmt clk author summary r (take_snapshots fmt clk snaps)) (rid r) = Some h \<and>
    getLatest h = Some v \<and>
    rollbackTo a h (v_versionId v) =
      Inr (Rule a (default_rule_data\<lparr>rule_id := rid r, expression := expression (rdata r), action := action (rdata r),
                     priority := priority (rdata r), isActive := isActive (rdata r)\<rparr>) [])"
proof -
  obtain v h where v: "getHistory (snapshotRule fmt clk author summary r (take_snapshots fmt clk snaps)) (rid r) = Some (addVersion v h)"
    "v_ruleName v = std_to_string (rid r)" "v_expression v = expression (rdata r)" "v_action v = action (rdata r)"
    "v_priority v = priority (rdata r)" "v_isActive v = isActive (rdata r)"
    "v_versionId v \<notin> v_versionId ` set (h_versions h)"
    by (rule snapshotRule_spec [OF take_snapshots_ok [OF assms(1)] assms(1)])
  have "find (\<lambda>u. v_versionId u = v_versionId v) (h_versions h) = None" using v(7) by (auto simp: find_None_iff image_iff)
  then have "find (\<lambda>u. v_versionId u = v_versionId v) (h_versions h @ [v]) = Some v" by (simp add: find_append_None)
  then have "getVersion (addVersion v h) (v_versionId v) = Some v" by (simp add: getVersion_def addVersion_def)
  with v assms(2,3) show ?thesis
    by (intro exI [of _ "addVersion v h"] exI [of _ v])
      (simp add: rollbackTo_def stoi_to_string, simp add: getLatest_def addVersion_def)
qed

lemma rollback_all_sources:
  "length (rollback_all a versionId hs) \<le> length (filter (\<lambda>v. v_versionId v = versionId) (all_versions hs))"
proof (induction hs arbitrary: a)
  case (Cons p hs)
  obtain k h where p: "p = (k, h)" by fastforce
  have "filter (\<lambda>v. v_versionId v = versionId) (h_versions h) \<noteq> []" if "rollbackTo a h versionId = Inr r" for r
    using that find_SomeD [of "\<lambda>v. v_versionId v = versionId" "h_versions h"]
    by (auto simp: rollbackTo_def getVersion_def filter_empty_conv split: option.splits)
  then have "length (filter (\<lambda>v. v_versionId v = versionId) (h_versions h)) \<ge> 1" if "rollbackTo a h versionId = Inr r" for r
    using that by (simp add: Suc_le_eq)
  with Cons.IH [of a] Cons.IH [of "Suc a"] p show ?case
    by (fastforce simp: all_versions_def split: sum.split)
qed simp

text \<open>
  Rolling back a workflow restores at most one rule: every version, also of rules that were
  snapshotted together, has an id of its own, so a version id belongs to the history of one rule, and
  \<^verbatim>\<open>rollbackWorkflow\<close>, in whatever order it visits the histories, leaves out all other rules.
\<close>

lemma rollbackWorkflow_restores_at_most_one:
  assumes "time_format fmt" and "\<forall>hs. mset (it hs) = mset hs"
  shows "length (wf_rules (rollbackWorkflow it a wid versionId (take_snapshots fmt clk snaps))) \<le> 1"
proof -
  let ?hs = "histories (take_snapshots fmt clk snaps)"
  have ids: "distinct (map v_versionId (all_versions ?hs))"
    using take_snapshots_ok [OF assms(1)] by (simp add: versions_ok_def)
  let ?f = "filter (\<lambda>v. v_versionId v = versionId) (all_versions ?hs)"
  have "distinct (map v_versionId ?f)" using ids by (rule distinct_map_filter)
  then have "length (map v_versionId ?f) \<le> 1" by (rule distinct_constant [where c = versionId]) auto
  moreover have "mset (all_versions (it ?hs)) = mset (all_versions ?hs)"
    using assms(2) by (simp add: all_versions_def mset_concat) (metis mset_map sum_mset_sum_list)
  then have "length (filter (\<lambda>v. v_versionId v = versionId) (all_versions (it ?hs))) = length ?f"
    by (metis mset_filter size_mset)
  ultimately show ?thesis
    using rollback_all_sources [of a versionId "it ?hs"] by (simp add: rollbackWorkflow_def)
qed

definition sample_fmt :: "int \<Rightarrow> string" where
  "sample_fmt t = ''20240518-143022''"

lemma sample_fmt_ok: "time_format sample_fmt"
  by (simp add: time_format_def sample_fmt_def)

theorem snapshot_rollback_roundtrip_witness:
  "\<exists>h v. getHistory (snapshotRule sample_fmt int ''me'' ''edit'' (dep_rule 3 ''tax'' 1 None) (take_snapshots sample_fmt int [])) 3 = Some h \<and>
     getLatest h = Some v \<and> rollbackTo 9 h (v_versionId v) =
       Inr (Rule 9 (default_rule_data\<lparr>rule_id := 3, expression := ''x'', priority := 1\<rparr>) [])"
  using snapshot_rollback_roundtrip [OF sample_fmt_ok, of "dep_rule 3 ''tax'' 1 None" int "''me''" "''edit''" "[]" 9]
  by (simp add: dep_rule_def sample_data_def default_rule_data_def)

lemma rollbackWorkflow_restores_at_most_one_example:
  "length (wf_rules (rollbackWorkflow rev 9 1 ''20240518-143022-2''
     (take_snapshots sample_fmt int [(''me'', ''edit'', dep_rule 3 ''tax'' 1 None), (''me'', ''edit'', dep_rule 4 ''total'' 1 None)]))) \<le> 1"
  by (rule rollbackWorkflow_restores_at_most_one [OF sample_fmt_ok]) simp

end
