(* ===== verification/Input_Validator.thy ===== *)
theory Input_Validator
  imports Expression_Validator "HOL-Library.Multiset"
begin

text \<open>
  \<^verbatim>\<open>LuaExpressionValidator\<close>, \<^verbatim>\<open>ParameterValidator\<close> and \<^verbatim>\<open>SecurityConfig\<close> (input_validator.hpp,
  input_validator.cpp). The regular expressions and the table of operators are never used by the
  code and are left out. \<open>pats\<close> is the iteration order of the hash set of dangerous patterns; it only
  decides which pattern a message names. \<^verbatim>\<open>ValidationException\<close> is a standard exception.
\<close>

section \<open>Expressions\<close>

record LuaExpressionValidator =
  allowedFunctions :: "string set"
  iv_maxLength :: nat

definition allowed_functions :: "string list" where
  "allowed_functions =
     [''math.abs'', ''math.acos'', ''math.asin'', ''math.atan'', ''math.atan2'', ''math.ceil'', ''math.cos'',
      ''math.cosh'', ''math.deg'', ''math.exp'', ''math.floor'', ''math.fmod'', ''math.frexp'', ''math.ldexp'',
      ''math.log'', ''math.log10'', ''math.max'', ''math.min'', ''math.modf'', ''math.pow'', ''math.rad'',
      ''math.random'', ''math.sin'', ''math.sinh'', ''math.sqrt'', ''math.tan'', ''math.tanh'', ''string.byte'',
      ''string.char'', ''string.find'', ''string.format'', ''string.gmatch'', ''string.gsub'', ''string.len'',
      ''string.lower'', ''string.match'', ''string.rep'', ''string.reverse'', ''string.sub'', ''string.upper'',
      ''table.concat'', ''table.insert'', ''table.remove'', ''table.sort'', ''tonumber'', ''tostring'', ''type'',
      ''next'', ''ipairs'', ''pairs'']"

text \<open>Patterns with an escaped dot, as written in the source.\<close>

definition dotted :: "string \<Rightarrow> string" where
  "dotted s = s @ [CHR 0x5C, CHR ''.'']"

definition dangerous_patterns :: "string list" where
  "dangerous_patterns =
     [dotted ''os'', dotted ''io'', dotted ''debug'', ''loadstring'', ''load'', ''loadfile'', ''dofile'', ''require'',
      dotted ''package'', ''module'', ''setmetatable'', ''getmetatable'', ''rawget'', ''rawset'', ''rawequal'',
      ''collectgarbage'', ''gcinfo'', ''newproxy'', ''getfenv'', ''setfenv'', ''system'', ''exec'', ''spawn'', ''popen'',
      ''import'', ''using'', ''include'', ''source'', ''eval'', ''execute'', ''run'', ''call'', ''_g'']"

definition create_validator :: "nat \<Rightarrow> LuaExpressionValidator" where
  "create_validator n = \<lparr>allowedFunctions = set allowed_functions, iv_maxLength = n\<rparr>"

definition validation_error :: "string \<Rightarrow> exn + 'a" where
  "validation_error msg = Inl (StdException ValidationException msg)"

definition escaped_dot :: string where
  "escaped_dot = [CHR 0x5C, CHR ''.'']"

text \<open>The loop that replaces every escaped dot by a dot.\<close>

fun unescape_dots :: "string \<Rightarrow> string" where
  "unescape_dots [] = []"
| "unescape_dots [c] = [c]"
| "unescape_dots (c # d # s) =
     (if c = CHR 0x5C \<and> d = CHR ''.'' then CHR ''.'' # unescape_dots s else c # unescape_dots (d # s))"

definition pattern_found :: "string \<Rightarrow> string \<Rightarrow> bool" where
  "pattern_found lowerExpr pattern =
     (if str_contains pattern escaped_dot then str_contains lowerExpr (unescape_dots pattern)
      else boundary_loop lowerExpr pattern 0)"

definition checkDangerousPatterns :: "string list \<Rightarrow> string \<Rightarrow> exn + unit" where
  "checkDangerousPatterns pats expression =
     (case find (pattern_found (map std_tolower expression)) pats of
        Some p \<Rightarrow> validation_error (''Dangerous pattern detected: '' @ p)
      | None \<Rightarrow> Inr ())"

fun count_brackets :: "int \<Rightarrow> int \<Rightarrow> int \<Rightarrow> string \<Rightarrow> exn + (int \<times> int \<times> int)" where
  "count_brackets p b c [] = Inr (p, b, c)"
| "count_brackets p b c (x # s) =
     (if x = CHR ''('' then count_brackets (p + 1) b c s
      else if x = CHR '')'' then (if p - 1 < 0 then validation_error ''Unbalanced parentheses'' else count_brackets (p - 1) b c s)
      else if x = CHR ''['' then count_brackets p (b + 1) c s
      else if x = CHR '']'' then (if b - 1 < 0 then validation_error ''Unbalanced brackets'' else count_brackets p (b - 1) c s)
      else if x = CHR 0x7B then count_brackets p b (c + 1) s
      else if x = CHR 0x7D then (if c - 1 < 0 then validation_error ''Unbalanced braces'' else count_brackets p b (c - 1) s)
      else count_brackets p b c s)"

definition validateSyntax :: "string \<Rightarrow> exn + unit" where
  "validateSyntax expression =
     (case count_brackets 0 0 0 expression of
        Inl e \<Rightarrow> Inl e
      | Inr (p, b, c) \<Rightarrow>
          (if p \<noteq> 0 then validation_error ''Unbalanced parentheses''
           else if b \<noteq> 0 then validation_error ''Unbalanced brackets''
           else if c \<noteq> 0 then validation_error ''Unbalanced braces'' else Inr ()))"

definition iv_validate :: "LuaExpressionValidator \<Rightarrow> string list \<Rightarrow> string \<Rightarrow> exn + unit" where
  "iv_validate v pats expression =
     (if length expression > iv_maxLength v
      then validation_error (''Expression too long (max '' @ std_to_string (int (iv_maxLength v)) @ '' characters)'')
      else if expression = [] \<or> list_all std_isspace expression
      then validation_error ''Expression cannot be empty or whitespace-only''
      else (case checkDangerousPatterns pats expression of Inl e \<Rightarrow> Inl e | Inr _ \<Rightarrow> validateSyntax expression))"

definition iv_sanitize :: "LuaExpressionValidator \<Rightarrow> string \<Rightarrow> string" where
  "iv_sanitize v expression = take (iv_maxLength v) (filter (\<lambda>c. c \<noteq> CHR 0x00) expression)"

definition isFunctionAllowed :: "LuaExpressionValidator \<Rightarrow> string \<Rightarrow> bool" where
  "isFunctionAllowed v f \<longleftrightarrow> f \<in> allowedFunctions v"

definition addAllowedFunction :: "string \<Rightarrow> LuaExpressionValidator \<Rightarrow> LuaExpressionValidator" where
  "addAllowedFunction f v = v\<lparr>allowedFunctions := insert f (allowedFunctions v)\<rparr>"

definition removeAllowedFunction :: "string \<Rightarrow> LuaExpressionValidator \<Rightarrow> LuaExpressionValidator" where
  "removeAllowedFunction f v = v\<lparr>allowedFunctions := allowedFunctions v - {f}\<rparr>"

definition setMaxLength :: "nat \<Rightarrow> LuaExpressionValidator \<Rightarrow> LuaExpressionValidator" where
  "setMaxLength n v = v\<lparr>iv_maxLength := n\<rparr>"

section \<open>Parameters\<close>

definition max_name_length :: nat where "max_name_length = 100"
definition max_value_length :: nat where "max_value_length = 10000"

definition reservedNames :: "string list" where
  "reservedNames =
     [''nil'', ''true'', ''false'', ''function'', ''end'', ''if'', ''then'', ''else'', ''elseif'', ''while'', ''for'',
      ''in'', ''do'', ''repeat'', ''until'', ''break'', ''return'', ''local'', ''goto'', ''and'', ''or'', ''not'', ''self'']"

definition name_start :: "char \<Rightarrow> bool" where
  "name_start c \<longleftrightarrow> std_isalpha c \<or> c = CHR ''_''"

definition validateName :: "string \<Rightarrow> exn + unit" where
  "validateName name =
     (if name = [] then validation_error ''Parameter name cannot be empty''
      else if length name > max_name_length then validation_error ''Parameter name too long''
      else if map std_tolower name \<in> set reservedNames then validation_error (''Parameter name is reserved: '' @ name)
      else if \<not> name_start (hd name) then validation_error ''Parameter name must start with a letter or underscore''
      else if \<not> list_all isIdentifierChar name then validation_error ''Parameter name contains invalid characters''
      else Inr ())"

definition validateValue :: "string \<Rightarrow> exn + unit" where
  "validateValue value =
     (if length value > max_value_length then validation_error ''Parameter value too long''
      else if CHR 0x00 \<in> set value then validation_error ''Parameter value contains null bytes''
      else Inr ())"

definition validate_parameter :: "string \<Rightarrow> string \<Rightarrow> exn + unit" where
  "validate_parameter name value = (case validateName name of Inl e \<Rightarrow> Inl e | Inr _ \<Rightarrow> validateValue value)"

definition sanitizeName :: "string \<Rightarrow> string" where
  "sanitizeName name =
     (let s = filter isIdentifierChar name;
          s1 = (if s \<noteq> [] \<and> \<not> name_start (hd s) then CHR ''_'' # s else s)
      in take max_name_length s1)"

definition sanitizeValue :: "string \<Rightarrow> string" where
  "sanitizeValue value = take max_value_length (filter (\<lambda>c. c \<noteq> CHR 0x00) value)"

section \<open>Configuration\<close>

record SecurityConfig =
  expressionValidator :: LuaExpressionValidator
  enableSandboxing :: bool
  maxExecutionTimeSeconds :: nat
  maxMemoryBytes :: nat

definition default_security :: SecurityConfig where
  "default_security =
     \<lparr>expressionValidator = create_validator 10000, enableSandboxing = True, maxExecutionTimeSeconds = 30,
      maxMemoryBytes = 1024 * 1024 * 100\<rparr>"

definition setSandboxing :: "bool \<Rightarrow> SecurityConfig \<Rightarrow> SecurityConfig" where
  "setSandboxing b c = c\<lparr>enableSandboxing := b\<rparr>"

definition setMaxExecutionTime :: "nat \<Rightarrow> SecurityConfig \<Rightarrow> SecurityConfig" where
  "setMaxExecutionTime n c = c\<lparr>maxExecutionTimeSeconds := n\<rparr>"

definition setMaxMemory :: "nat \<Rightarrow> SecurityConfig \<Rightarrow> SecurityConfig" where
  "setMaxMemory n c = c\<lparr>maxMemoryBytes := n\<rparr>"

section \<open>What is accepted\<close>

text \<open>One kind of bracket: no prefix closes more than it has opened, and all are closed.\<close>

definition balanced :: "char \<Rightarrow> char \<Rightarrow> string \<Rightarrow> bool" where
  "balanced op cl s \<longleftrightarrow>
     (\<forall>n\<le>length s. count_list (take n s) cl \<le> count_list (take n s) op) \<and> count_list s op = count_list s cl"

fun nesting :: "char \<Rightarrow> char \<Rightarrow> int \<Rightarrow> string \<Rightarrow> int option" where
  "nesting op cl k [] = Some k"
| "nesting op cl k (x # s) =
     (if x = op then nesting op cl (k + 1) s
      else if x = cl then (if k - 1 < 0 then None else nesting op cl (k - 1) s) else nesting op cl k s)"

text \<open>No prefix closes more than it opens, when \<open>k\<close> are open before it.\<close>

definition covered :: "char \<Rightarrow> char \<Rightarrow> int \<Rightarrow> string \<Rightarrow> bool" where
  "covered op cl k s \<longleftrightarrow> (\<forall>n\<le>length s. int (count_list (take n s) cl) \<le> k + int (count_list (take n s) op))"

lemma covered_Nil: "covered op cl k [] \<longleftrightarrow> 0 \<le> k"
  by (simp add: covered_def)

lemma covered_Cons:
  "0 \<le> k \<Longrightarrow> covered op cl k (x # s) \<longleftrightarrow> covered op cl (k + of_bool (x = op) - of_bool (x = cl)) s"
proof -
  assume k: "0 \<le> k"
  let ?P = "\<lambda>k t. int (count_list t cl) \<le> k + int (count_list t op)"
  have step: "?P k (x # t) \<longleftrightarrow> ?P (k + of_bool (x = op) - of_bool (x = cl)) t" for t by auto
  show ?thesis
  proof
    assume c: "covered op cl k (x # s)"
    have "?P k (x # take n s)" if "n \<le> length s" for n
      using c that unfolding covered_def by (metis Suc_le_mono length_Cons take_Suc_Cons)
    then show "covered op cl (k + of_bool (x = op) - of_bool (x = cl)) s" using step by (simp add: covered_def)
  next
    assume c: "covered op cl (k + of_bool (x = op) - of_bool (x = cl)) s"
    have "?P k (take n (x # s))" if "n \<le> length (x # s)" for n
    proof (cases n)
      case (Suc m)
      with that have "m \<le> length s" by simp
      with c have "?P (k + of_bool (x = op) - of_bool (x = cl)) (take m s)" by (simp add: covered_def)
      with step Suc show ?thesis by (simp only: take_Suc_Cons)
    qed (use k in simp)
    then show "covered op cl k (x # s)" by (simp add: covered_def)
  qed
qed

lemma covered_start: "covered op cl k s \<Longrightarrow> 0 \<le> k"
  unfolding covered_def by (metis add.right_neutral count_list.simps(1) le0 of_nat_0 take_0)

lemma nesting_counts:
  assumes "0 \<le> k" "op \<noteq> cl"
  shows "nesting op cl k s =
    (if covered op cl k s then Some (k + int (count_list s op) - int (count_list s cl)) else None)"
  using assms(1)
proof (induction s arbitrary: k)
  case Nil
  then show ?case by (simp add: covered_Nil)
next
  case (Cons x s)
  consider "x = op" | "x = cl" | "x \<noteq> op" "x \<noteq> cl" by blast
  then show ?case
  proof cases
    case 1
    with Cons.IH [of "k + 1"] Cons.prems assms(2) show ?thesis by (simp add: covered_Cons)
  next
    case 2
    show ?thesis
    proof (cases "k - 1 < 0")
      case True
      with 2 assms(2) Cons.prems covered_start [of op cl "k - 1" s] show ?thesis by (auto simp: covered_Cons)
    next
      case False
      with 2 Cons.IH [of "k - 1"] Cons.prems assms(2) show ?thesis by (simp add: covered_Cons)
    qed
  next
    case 3
    with Cons.IH [of k] Cons.prems show ?thesis by (simp add: covered_Cons)
  qed
qed

lemma balanced_nesting: "op \<noteq> cl \<Longrightarrow> balanced op cl s \<longleftrightarrow> nesting op cl 0 s = Some 0"
  by (auto simp: nesting_counts balanced_def covered_def)

definition agrees :: "exn + (int \<times> int \<times> int) \<Rightarrow> int option \<Rightarrow> int option \<Rightarrow> int option \<Rightarrow> bool" where
  "agrees r p b c \<longleftrightarrow>
     (case r of Inl e \<Rightarrow> p = None \<or> b = None \<or> c = None | Inr (i, j, k) \<Rightarrow> p = Some i \<and> b = Some j \<and> c = Some k)"

lemma count_brackets_nesting:
  "agrees (count_brackets p b c s) (nesting (CHR ''('') (CHR '')'') p s) (nesting (CHR ''['') (CHR '']'') b s)
     (nesting (CHR 0x7B) (CHR 0x7D) c s)"
proof (induction s arbitrary: p b c)
  case Nil
  then show ?case by (simp add: agrees_def)
next
  case (Cons x s)
  consider "x \<in> {CHR ''('', CHR ''['', CHR 0x7B}" | "x = CHR '')''" | "x = CHR '']''" | "x = CHR 0x7D"
    | "x \<notin> {CHR ''('', CHR ''['', CHR 0x7B, CHR '')'', CHR '']'', CHR 0x7D}" by blast
  then show ?case
  proof cases
    case 2
    with Cons.IH show ?thesis by (cases "p - 1 < 0") (simp_all add: agrees_def validation_error_def)
  next
    case 3
    with Cons.IH show ?thesis by (cases "b - 1 < 0") (simp_all add: agrees_def validation_error_def)
  next
    case 4
    with Cons.IH show ?thesis by (cases "c - 1 < 0") (simp_all add: agrees_def validation_error_def)
  qed (use Cons.IH in auto)
qed

lemma validateSyntax_iff:
  "validateSyntax s = Inr () \<longleftrightarrow>
     balanced (CHR ''('') (CHR '')'') s \<and> balanced (CHR ''['') (CHR '']'') s \<and> balanced (CHR 0x7B) (CHR 0x7D) s"
  using count_brackets_nesting [where p = 0 and b = 0 and c = 0 and s = s]
  by (auto simp: validateSyntax_def balanced_nesting validation_error_def agrees_def split: sum.splits prod.splits if_splits)

text \<open>When a text contains a dangerous pattern: the patterns with a dot anywhere, the names only standing
  alone.\<close>

definition dangerous :: "string \<Rightarrow> bool" where
  "dangerous e \<longleftrightarrow>
     (\<exists>n\<in>{''os'', ''io'', ''debug'', ''package''}. str_contains (map std_tolower e) (n @ ''.'')) \<or>
     (\<exists>p\<in>set dangerous_patterns. \<not> str_contains p escaped_dot \<and> containsAtIdentifierBoundary (map std_tolower e) p)"

lemma dotted_patterns:
  "filter (\<lambda>p. str_contains p escaped_dot) dangerous_patterns = [dotted ''os'', dotted ''io'', dotted ''debug'', dotted ''package'']"
  "map unescape_dots [dotted ''os'', dotted ''io'', dotted ''debug'', dotted ''package''] = [''os.'', ''io.'', ''debug.'', ''package.'']"
  "\<forall>p\<in>set dangerous_patterns. p \<noteq> []"
  by (simp_all add: dangerous_patterns_def str_contains_def str_find_def escaped_dot_def dotted_def)

lemma dangerous_found: "dangerous e \<longleftrightarrow> (\<exists>p\<in>set dangerous_patterns. pattern_found (map std_tolower e) p)"
proof -
  have "{p \<in> set dangerous_patterns. str_contains p escaped_dot} = set [dotted ''os'', dotted ''io'', dotted ''debug'', dotted ''package'']"
    using arg_cong [OF dotted_patterns(1), of set] by simp
  then have "(\<exists>p\<in>{p \<in> set dangerous_patterns. str_contains p escaped_dot}. Q p) \<longleftrightarrow>
      Q (dotted ''os'') \<or> Q (dotted ''io'') \<or> Q (dotted ''debug'') \<or> Q (dotted ''package'')" for Q
    by simp
  then have d: "(\<exists>p\<in>set dangerous_patterns. str_contains p escaped_dot \<and> Q p) \<longleftrightarrow>
      Q (dotted ''os'') \<or> Q (dotted ''io'') \<or> Q (dotted ''debug'') \<or> Q (dotted ''package'')" for Q
    by blast
  show ?thesis
    using d [of "\<lambda>p. str_contains (map std_tolower e) (unescape_dots p)"] dotted_patterns(2,3)
    unfolding dangerous_def pattern_found_def containsAtIdentifierBoundary_def by auto
qed

lemma input_validate_iff_aux:
  assumes "mset pats = mset dangerous_patterns"
  shows "iv_validate v pats e = Inr () \<longleftrightarrow>
    length e \<le> iv_maxLength v \<and> \<not> list_all std_isspace e \<and> \<not> dangerous e \<and>
    balanced (CHR ''('') (CHR '')'') e \<and> balanced (CHR ''['') (CHR '']'') e \<and> balanced (CHR 0x7B) (CHR 0x7D) e"
proof -
  have "set pats = set dangerous_patterns" using assms by (metis set_mset_mset)
  then have "checkDangerousPatterns pats e = Inr () \<longleftrightarrow> \<not> dangerous e"
    by (auto simp: checkDangerousPatterns_def dangerous_found validation_error_def find_None_iff split: option.split)
       (metis find_None_iff option.distinct(1))+
  then show ?thesis
    unfolding iv_validate_def using validateSyntax_iff [of e]
    by (auto simp: validation_error_def split: sum.split)
qed


text \<open>A harmless expression that is rejected: the text \<open>os.\<close> stands inside an identifier.\<close>

lemma photos_rejected:
  assumes "mset pats = mset dangerous_patterns"
  shows "iv_validate v pats ''photos.count'' \<noteq> Inr ()"
proof -
  have "map std_tolower ''photos.count'' = ''phot'' @ ''os.'' @ ''count''" by (simp add: char_eval)
  then have "dangerous ''photos.count''" unfolding dangerous_def by (metis append.simps insertI1 str_contains_append)
  then show ?thesis using input_validate_iff_aux [OF assms, of v "''photos.count''"] by simp
qed


section \<open>Sanitized parameters\<close>

lemma name_start_identifier: "name_start c \<Longrightarrow> isIdentifierChar c"
  by (auto simp: name_start_def isIdentifierChar_def std_isalnum_def)

lemma sanitizeName_chars: "list_all isIdentifierChar (sanitizeName n)" "length (sanitizeName n) \<le> max_name_length"
proof -
  have "isIdentifierChar (CHR ''_'')" by (simp add: isIdentifierChar_def)
  then show "list_all isIdentifierChar (sanitizeName n)"
    by (auto simp: sanitizeName_def Let_def list_all_iff dest: in_set_takeD)
qed (simp add: sanitizeName_def Let_def)

lemma sanitizeName_start: "sanitizeName n \<noteq> [] \<Longrightarrow> name_start (hd (sanitizeName n))"
  by (cases "filter isIdentifierChar n") (auto simp: sanitizeName_def Let_def max_name_length_def name_start_def)

text \<open>
  What the sanitizers guarantee: a sanitized value always passes \<^verbatim>\<open>validateValue\<close>; a sanitized name passes
  \<^verbatim>\<open>validateName\<close> exactly if it is not empty and not a reserved word in any case, so these two cases are the only
  ones the caller has to handle; and names and values that are already valid are returned unchanged.
\<close>

lemma sanitized_parameters:
  "validateValue (sanitizeValue value) = Inr () \<and>
   (validateName (sanitizeName name) = Inr () \<longleftrightarrow>
      sanitizeName name \<noteq> [] \<and> map std_tolower (sanitizeName name) \<notin> set reservedNames) \<and>
   (validateName name = Inr () \<longrightarrow> sanitizeName name = name) \<and>
   (validateValue value = Inr () \<longrightarrow> sanitizeValue value = value)"
proof (intro conjI impI)
  show "validateValue (sanitizeValue value) = Inr ()"
    by (auto simp: validateValue_def sanitizeValue_def dest: in_set_takeD)
  show "validateName (sanitizeName name) = Inr () \<longleftrightarrow>
      sanitizeName name \<noteq> [] \<and> map std_tolower (sanitizeName name) \<notin> set reservedNames"
    using sanitizeName_chars [of name] sanitizeName_start [of name]
    by (auto simp: validateName_def validation_error_def)
  show "sanitizeName name = name" if "validateName name = Inr ()"
  proof -
    from that have v: "list_all isIdentifierChar name" "name_start (hd name)" "length name \<le> max_name_length"
      by (auto simp: validateName_def validation_error_def split: if_splits)
    then have "filter isIdentifierChar name = name" by (simp add: filter_id_conv list_all_iff)
    with v show ?thesis by (simp add: sanitizeName_def)
  qed
  show "sanitizeValue value = value" if "validateValue value = Inr ()"
  proof -
    from that have v: "CHR 0x00 \<notin> set value" "length value \<le> max_value_length"
      by (auto simp: validateValue_def validation_error_def split: if_splits)
    from v(1) have "filter (\<lambda>c. c \<noteq> CHR 0x00) value = value" by (auto simp: filter_id_conv)
    with v show ?thesis by (simp add: sanitizeValue_def)
  qed
qed

lemma sanitized_parameters_example:
  "validateName (sanitizeName ''1 price'') = Inr () \<and> validateName (sanitizeName ''e-n-d'') \<noteq> Inr ()"
proof -
  have "sanitizeName ''1 price'' = ''_1price''" "sanitizeName ''e-n-d'' = ''end''"
    by (simp_all add: sanitizeName_def isIdentifierChar_def name_start_def max_name_length_def char_eval)
  with sanitized_parameters [of "[]" "''1 price''"] sanitized_parameters [of "[]" "''e-n-d''"] show ?thesis
    by (simp add: reservedNames_def char_eval)
qed

end
