(* ===== verification/C_Text.thy ===== *)
theory C_Text
  imports Lua_Backend "HOL-Library.Char_ord" "HOL-Library.List_Lexorder"
begin

text \<open>
  The text formats of the C interface (src/c_api.cpp): parameter strings \<^verbatim>\<open>key=value;key2=value2\<close>, result
  strings \<^verbatim>\<open>id:name:success[:error];...\<close>, field lists \<^verbatim>\<open>field:type;...\<close> and the parameter strings that are
  built from the fields of an object. A \<^verbatim>\<open>const char*\<close> is \<open>None\<close> for the null pointer or the characters before
  its terminator. \<open>strtod\<close>, the conversion of the C library to a double, is an argument: it returns the bits of the
  value and the characters that are left.
\<close>

section \<open>Conversions of the C library\<close>

abbreviation long_min :: int where "long_min \<equiv> - 9223372036854775808"
abbreviation long_max :: int where "long_max \<equiv> 9223372036854775807"

text \<open>\<^verbatim>\<open>strtol(s, &end, 10)\<close> with a 64-bit \<^verbatim>\<open>long\<close>: it saturates; without digits it is 0 and reads nothing.\<close>

definition strtol :: "string \<Rightarrow> int \<times> string" where
  "strtol s =
     (case scan_int s of
        None \<Rightarrow> (0, s)
      | Some (v, rest) \<Rightarrow> (max long_min (min long_max v), rest))"

text \<open>\<^verbatim>\<open>static_cast<int>\<close> of a \<^verbatim>\<open>long\<close> keeps the low 32 bits.\<close>

definition cast_int :: "int \<Rightarrow> int" where
  "cast_int v = (v + 2 ^ 31) mod 2 ^ 32 - 2 ^ 31"

lemma cast_int_id: "int_min \<le> v \<Longrightarrow> v \<le> int_max \<Longrightarrow> cast_int v = v"
  by (simp add: cast_int_def)

section \<open>Parameter strings\<close>

definition blank :: "char \<Rightarrow> bool" where
  "blank c \<longleftrightarrow> c = CHR '' '' \<or> c = CHR 0x09"

definition trim :: "string \<Rightarrow> string" where
  "trim s = rev (dropWhile blank (rev (dropWhile blank s)))"

definition parse_value :: "(string \<Rightarrow> 64 word \<times> string) \<Rightarrow> string \<Rightarrow> any_value" where
  "parse_value strtod value_str =
     (if value_str = ''true'' \<or> value_str = ''TRUE'' then VBool True
      else if value_str = ''false'' \<or> value_str = ''FALSE'' then VBool False
      else if value_str = [] then VString []
      else let (ival, endptr) = strtol (c_str value_str)
           in if endptr = [] then VInt (cast_int ival)
              else let (dval, endptr) = strtod (c_str value_str)
                   in if endptr = [] then VDouble dval else VString value_str)"

function parse_loop :: "(string \<Rightarrow> 64 word \<times> string) \<Rightarrow> string \<Rightarrow> nat \<Rightarrow> RuleParameter list" where
  "parse_loop strtod input pos =
     (if pos < length input then
        (case str_find input ''='' pos of
           None \<Rightarrow> []
         | Some eq_pos \<Rightarrow>
             (let key = substr input pos (eq_pos - pos);
                  end_pos = (case str_find input '';'' (eq_pos + 1) of None \<Rightarrow> length input | Some e \<Rightarrow> e);
                  value_str = substr input (eq_pos + 1) (end_pos - eq_pos - 1)
              in mk_param (trim key) (parse_value strtod (trim value_str)) # parse_loop strtod input (end_pos + 1)))
      else [])"
  by pat_completeness auto
termination parse_loop
  by (relation "measure (\<lambda>(strtod, input, pos). length input - pos)")
     (auto dest!: str_find_bounds split: option.splits)

declare parse_loop.simps [simp del]

definition parse_params :: "(string \<Rightarrow> 64 word \<times> string) \<Rightarrow> string option \<Rightarrow> RuleParameter list" where
  "parse_params strtod params_str =
     (case params_str of None \<Rightarrow> [] | Some input \<Rightarrow> if length input = 0 then [] else parse_loop strtod input 0)"

section \<open>Result strings\<close>

definition escape_field :: "string \<Rightarrow> string" where
  "escape_field s =
     concat (map (\<lambda>c. if c = CHR '':'' then ''%3A'' else if c = CHR '';'' then ''%3B'' else [c]) s)"

definition result_record :: "RuleResult \<Rightarrow> string" where
  "result_record result =
     std_to_string (res_ruleId result) @ '':'' @ escape_field (res_ruleName result) @ '':'' @
     (if isSuccess result then ''1'' else ''0'') @
     (case exception result of None \<Rightarrow> [] | Some msg \<Rightarrow> '':'' @ escape_field msg)"

fun results_text :: "RuleResult list \<Rightarrow> string" where
  "results_text [] = []"
| "results_text [r] = result_record r"
| "results_text (r # rs) = result_record r @ '';'' @ results_text rs"

text \<open>The copy ends at the first NUL of the text; \<open>malloc_ok\<close> says whether the allocation succeeds.\<close>

definition format_results :: "bool \<Rightarrow> RuleResult list \<Rightarrow> string option" where
  "format_results malloc_ok rs = (if malloc_ok then Some (c_str (results_text rs)) else None)"

section \<open>Field lists and object parameters\<close>

function parse_fields :: "string \<Rightarrow> nat \<Rightarrow> (string \<times> string) list" where
  "parse_fields fields_str pos =
     (if pos < length fields_str then
        (let sep = (case str_find fields_str '';'' pos of None \<Rightarrow> length fields_str | Some s \<Rightarrow> s);
             field_def = substr fields_str pos (sep - pos);
             rest = parse_fields fields_str (sep + 1)
         in case str_find field_def '':'' 0 of
              None \<Rightarrow> rest
            | Some colon \<Rightarrow> (take colon field_def, drop (colon + 1) field_def) # rest)
      else [])"
  by pat_completeness auto
termination parse_fields
  by (relation "measure (\<lambda>(s, pos). length s - pos)") (auto dest!: str_find_bounds split: option.splits)

declare parse_fields.simps [simp del]

text \<open>The loop of \<^verbatim>\<open>fastrules_add_typed_param\<close> over the field values; \<open>oss\<close> is the text written so far.\<close>

function typed_loop :: "string \<Rightarrow> string \<Rightarrow> nat \<Rightarrow> string \<Rightarrow> string" where
  "typed_loop name fv_str pos oss =
     (if pos < length fv_str then
        (let sep = (case str_find fv_str '';'' pos of None \<Rightarrow> length fv_str | Some s \<Rightarrow> s);
             fv = substr fv_str pos (sep - pos)
         in typed_loop name fv_str (sep + 1)
              (case str_find fv ''='' 0 of
                 None \<Rightarrow> oss
               | Some eq \<Rightarrow>
                   oss @ (if length oss > 0 then '';'' else []) @ name @ ''.'' @ take eq fv @ ''='' @ drop (eq + 1) fv))
      else oss)"
  by pat_completeness auto
termination typed_loop
  by (relation "measure (\<lambda>(n, s, pos, oss). length s - pos)") (auto dest!: str_find_bounds split: option.splits)

declare typed_loop.simps [simp del]

definition typed_param_text :: "string option \<Rightarrow> string \<Rightarrow> string \<Rightarrow> string" where
  "typed_param_text params name fields_values =
     typed_loop name fields_values 0 (case params of None \<Rightarrow> [] | Some existing \<Rightarrow> existing)"

text \<open>\<^verbatim>\<open>std::map::operator[]\<close> on the fields of an object, kept in the order of their names.\<close>

fun field_put :: "string \<Rightarrow> string \<Rightarrow> (string \<times> string) list \<Rightarrow> (string \<times> string) list" where
  "field_put k v [] = [(k, v)]"
| "field_put k v ((k', v') # m) =
     (if k < k' then (k, v) # (k', v') # m else if k = k' then (k, v) # m else (k', v') # field_put k v m)"

fun object_loop :: "string \<Rightarrow> (string \<times> string) list \<Rightarrow> string \<Rightarrow> string" where
  "object_loop pname [] oss = oss"
| "object_loop pname ((field_name, v) # fs) oss =
     object_loop pname fs
       (oss @ (if length oss > 0 then '';'' else []) @ pname @ ''.'' @ field_name @ ''='' @ v)"

definition object_param_text :: "string option \<Rightarrow> string \<Rightarrow> (string \<times> string) list \<Rightarrow> string" where
  "object_param_text existing_params pname field_values =
     object_loop pname field_values
       (case existing_params of
          None \<Rightarrow> []
        | Some e \<Rightarrow> if length e > 0 then e @ '';'' else [])"

interpretation object_fields: kv_store field_put map_of
proof
  fix k k' v m
  show "map_of (field_put k v m) k = Some v"
    by (induction k v m rule: field_put.induct) auto
  show "k' \<noteq> k \<Longrightarrow> map_of (field_put k v m) k' = map_of m k'"
    by (induction k v m rule: field_put.induct) auto
qed

lemma field_put_keys: "set (map fst (field_put k v m)) = insert k (fst ` set m)"
  by (induction k v m rule: field_put.induct) auto

lemma field_put_sorted: "sorted_wrt (<) (map fst m) \<Longrightarrow> sorted_wrt (<) (map fst (field_put k v m))"
proof (induction k v m rule: field_put.induct)
  case (2 k v k' v' m)
  have "\<forall>x\<in>set (map fst (field_put k v m)). k' < x" if "k' < k" "\<forall>x\<in>fst ` set m. k' < x"
    using that by (simp only: field_put_keys) auto
  with 2 show ?case by (auto dest: less_trans)
qed simp

section \<open>Searching for one character\<close>

lemma str_find_aux_char:
  "str_find_aux i s [c] = (if c \<in> set s then Some (i + length (takeWhile (\<lambda>x. x \<noteq> c) s)) else None)"
  by (induction s arbitrary: i) auto

lemma str_find_char:
  "pos \<le> length s \<Longrightarrow> str_find s [c] pos =
     (if c \<in> set (drop pos s) then Some (pos + length (takeWhile (\<lambda>x. x \<noteq> c) (drop pos s))) else None)"
  by (simp add: str_find_def str_find_aux_char)

lemma take_takeWhile_length: "take (length (takeWhile P s)) s = takeWhile P s"
  by (metis append_eq_conv_conj takeWhile_dropWhile_id)

lemma drop_takeWhile_length: "drop (length (takeWhile P s)) s = dropWhile P s"
  by (simp add: dropWhile_eq_drop)

lemma dropWhile_neq_Nil: "dropWhile (\<lambda>x. x \<noteq> c) s = [] \<longleftrightarrow> c \<notin> set s"
  by (auto simp: dropWhile_eq_Nil_conv)

lemma length_takeWhile_until: "c \<in> set s \<Longrightarrow> length (takeWhile (\<lambda>x. x \<noteq> c) s) < length s"
  by (induction s) auto

lemma length_tl_dropWhile: "s \<noteq> [] \<Longrightarrow> length (tl (dropWhile P s)) < length s"
  using length_dropWhile_le [of P s] length_greater_0_conv [of s] unfolding length_tl by linarith

text \<open>The pieces that a loop sees which looks for the next separator or the end of the text.\<close>

function segments :: "char \<Rightarrow> string \<Rightarrow> string list" where
  "segments c s =
     (if s = [] then [] else takeWhile (\<lambda>x. x \<noteq> c) s # segments c (tl (dropWhile (\<lambda>x. x \<noteq> c) s)))"
  by pat_completeness auto
termination segments
  by (relation "measure (\<lambda>(c, s). length s)") (simp_all add: length_tl_dropWhile del: length_tl)

declare segments.simps [simp del]

text \<open>One turn of such a loop: where the piece ends, and what is left after its separator.\<close>

definition next_sep :: "string \<Rightarrow> char \<Rightarrow> nat \<Rightarrow> nat" where
  "next_sep s c pos = (case str_find s [c] pos of None \<Rightarrow> length s | Some e \<Rightarrow> e)"

lemma next_sep:
  assumes "pos \<le> length s"
  shows "substr s pos (next_sep s c pos - pos) = takeWhile (\<lambda>x. x \<noteq> c) (drop pos s)"
    "drop (next_sep s c pos + 1) s = tl (dropWhile (\<lambda>x. x \<noteq> c) (drop pos s))"
proof -
  have eq: "next_sep s c pos = pos + length (takeWhile (\<lambda>x. x \<noteq> c) (drop pos s))"
  proof (cases "c \<in> set (drop pos s)")
    case True
    with assms show ?thesis by (simp add: next_sep_def str_find_char)
  next
    case False
    then have "length (takeWhile (\<lambda>x. x \<noteq> c) (drop pos s)) = length s - pos"
      by (metis (mono_tags, lifting) length_drop takeWhile_eq_all_conv)
    with False assms show ?thesis by (simp add: next_sep_def str_find_char)
  qed
  then show "substr s pos (next_sep s c pos - pos) = takeWhile (\<lambda>x. x \<noteq> c) (drop pos s)"
    by (simp add: substr_def take_takeWhile_length)
  have "drop (next_sep s c pos + 1) s = tl (drop (length (takeWhile (\<lambda>x. x \<noteq> c) (drop pos s))) (drop pos s))"
    by (simp add: eq drop_Suc tl_drop add.commute)
  then show "drop (next_sep s c pos + 1) s = tl (dropWhile (\<lambda>x. x \<noteq> c) (drop pos s))"
    by (simp only: drop_takeWhile_length)
qed

lemma segments_drop:
  assumes "pos < length s"
  shows "segments c (drop pos s) =
    substr s pos (next_sep s c pos - pos) # segments c (drop (next_sep s c pos + 1) s)"
  using assms next_sep [of pos s c] by (simp add: segments.simps [of c "drop pos s"])

text \<open>The first separator of a piece.\<close>

definition split_first :: "char \<Rightarrow> string \<Rightarrow> (string \<times> string) option" where
  "split_first c s = (if c \<in> set s then Some (takeWhile (\<lambda>x. x \<noteq> c) s, tl (dropWhile (\<lambda>x. x \<noteq> c) s)) else None)"

lemma split_first_find:
  "split_first c s = map_option (\<lambda>i. (take i s, drop (i + 1) s)) (str_find s [c] 0)"
  by (simp add: split_first_def str_find_char take_takeWhile_length drop_Suc tl_drop [symmetric] drop_takeWhile_length)

section \<open>What a parameter string means\<close>

text \<open>The keys and values of a parameter string: a key ends at the next \<open>=\<close>, its value at the next \<open>;\<close>.\<close>

function key_values :: "string \<Rightarrow> (string \<times> string) list" where
  "key_values s =
     (case split_first (CHR ''='') s of
        None \<Rightarrow> []
      | Some (k, r) \<Rightarrow> (k, takeWhile (\<lambda>x. x \<noteq> CHR '';'') r) # key_values (tl (dropWhile (\<lambda>x. x \<noteq> CHR '';'') r)))"
  by pat_completeness auto
termination key_values
proof (relation "measure length")
  fix s k r and kr :: "string \<times> string"
  assume "split_first (CHR ''='') s = Some kr" "(k, r) = kr"
  then have "length r < length s"
    by (cases "s = []") (auto simp: split_first_def length_tl_dropWhile simp del: length_tl split: if_splits)
  then show "(tl (dropWhile (\<lambda>x. x \<noteq> CHR '';'') r), s) \<in> measure length"
    using length_dropWhile_le [of "\<lambda>x. x \<noteq> CHR '';''" r] by simp
qed simp

declare key_values.simps [simp del]

definition make_param :: "(string \<Rightarrow> 64 word \<times> string) \<Rightarrow> string \<times> string \<Rightarrow> RuleParameter" where
  "make_param strtod kv = mk_param (trim (fst kv)) (parse_value strtod (trim (snd kv)))"

lemma parse_loop_key_values: "parse_loop strtod input pos = map (make_param strtod) (key_values (drop pos input))"
proof (induction strtod input pos rule: parse_loop.induct)
  case (1 strtod input pos)
  show ?case
  proof (cases "pos < length input \<and> CHR ''='' \<in> set (drop pos input)")
    case True
    let ?d = "drop pos input" and ?e = "pos + length (takeWhile (\<lambda>x. x \<noteq> CHR ''='') (drop pos input))"
    have eq: "str_find input ''='' pos = Some ?e" using True by (simp add: str_find_char)
    have "length (takeWhile (\<lambda>x. x \<noteq> CHR ''='') ?d) < length ?d"
      using True by (intro length_takeWhile_until) auto
    then have e: "?e + 1 \<le> length input" by simp
    have rest: "drop (?e + 1) input = tl (dropWhile (\<lambda>x. x \<noteq> CHR ''='') ?d)"
      by (simp add: drop_Suc tl_drop [symmetric] add.commute drop_takeWhile_length [symmetric])
    define f where "f = next_sep input (CHR '';'') (?e + 1)"
    note sep = next_sep [OF e, of "CHR '';''", folded f_def]
    have "parse_loop strtod input pos =
        make_param strtod (substr input pos (?e - pos), substr input (?e + 1) (f - (?e + 1))) # parse_loop strtod input (f + 1)"
      using True eq by (subst parse_loop.simps) (simp add: Let_def f_def next_sep_def make_param_def)
    also have "\<dots> = map (make_param strtod) (key_values ?d)"
      using 1 [OF _ eq refl, of f] True sep rest
      by (simp add: key_values.simps [of ?d] split_first_def substr_def take_takeWhile_length f_def next_sep_def)
    finally show ?thesis .
  next
    case False
    then show ?thesis
      by (subst parse_loop.simps) (auto simp: key_values.simps [of "drop pos input"] split_first_def str_find_char)
  qed
qed

lemma parse_params_key_values: "parse_params strtod (Some s) = map (make_param strtod) (key_values s)"
  by (simp add: parse_params_def parse_loop_key_values key_values.simps [of "[]"] split_first_def)

text \<open>The text of a list of keys and values.\<close>

fun join_params :: "(string \<times> string) list \<Rightarrow> string" where
  "join_params [] = []"
| "join_params [(k, v)] = k @ ''='' @ v"
| "join_params ((k, v) # kvs) = k @ ''='' @ v @ '';'' @ join_params kvs"

definition separable :: "(string \<times> string) list \<Rightarrow> bool" where
  "separable kvs \<longleftrightarrow> (\<forall>(k, v)\<in>set kvs. CHR ''='' \<notin> set k \<and> CHR '';'' \<notin> set v)"

lemma takeWhile_until:
  assumes "c \<notin> set a"
  shows "takeWhile (\<lambda>x. x \<noteq> c) (a @ c # b) = a" "dropWhile (\<lambda>x. x \<noteq> c) (a @ c # b) = c # b"
    "takeWhile (\<lambda>x. x \<noteq> c) a = a" "dropWhile (\<lambda>x. x \<noteq> c) a = []"
  using assms by (auto simp: takeWhile_tail dropWhile_append)

lemma key_values_join: "separable kvs \<Longrightarrow> key_values (join_params kvs) = kvs"
proof (induction kvs rule: join_params.induct)
  case 1
  then show ?case by (simp add: key_values.simps [of "[]"] split_first_def)
next
  case (2 k v)
  then show ?case
    by (simp add: separable_def key_values.simps [of "k @ _"] key_values.simps [of "[]"] split_first_def takeWhile_until)
next
  case (3 k v kv kvs)
  then show ?case
    by (simp add: separable_def key_values.simps [of "k @ _"] split_first_def takeWhile_until)
qed

lemma join_params_Cons: "join_params ((k, v) # kvs) = k @ ''='' @ v @ (if kvs = [] then [] else '';'' @ join_params kvs)"
  by (cases kvs) auto

lemma join_params_Nil [simp]: "join_params kvs = [] \<longleftrightarrow> kvs = []"
  by (cases kvs rule: join_params.cases) auto

lemma join_params_snoc:
  "join_params (kvs @ [(k, v)]) = join_params kvs @ (if join_params kvs = [] then [] else '';'') @ k @ ''='' @ v"
proof (induction kvs)
  case (Cons kv kvs)
  then show ?case by (cases kv) (simp add: join_params_Cons)
qed simp

section \<open>Round trip of parameters\<close>

text \<open>How a caller writes a value, and the values that a parameter string can carry. A text must not look like a
  number or a truth value, and must not hold a separator or surrounding blanks.\<close>

fun render_value :: "any_value \<Rightarrow> string" where
  "render_value (VInt i) = std_to_string i"
| "render_value (VBool b) = (if b then ''true'' else ''false'')"
| "render_value (VString s) = s"
| "render_value _ = []"

fun carried :: "(string \<Rightarrow> 64 word \<times> string) \<Rightarrow> any_value \<Rightarrow> bool" where
  "carried strtod (VInt i) = (int_min \<le> i \<and> i \<le> int_max)"
| "carried strtod (VBool b) = True"
| "carried strtod (VString s) =
     (trim s = s \<and> CHR '';'' \<notin> set s \<and> CHR 0x00 \<notin> set s \<and> s \<notin> {''true'', ''TRUE'', ''false'', ''FALSE''} \<and>
      (s = [] \<or> snd (strtol s) \<noteq> [] \<and> snd (strtod s) \<noteq> []))"
| "carried strtod _ = False"

definition plain_key :: "string \<Rightarrow> bool" where
  "plain_key k \<longleftrightarrow> trim k = k \<and> CHR ''='' \<notin> set k"

lemma c_str_id: "CHR 0x00 \<notin> set s \<Longrightarrow> c_str s = s"
  by (auto simp: c_str_def takeWhile_eq_all_conv)

lemma trim_id: "list_all (\<lambda>c. \<not> blank c) s \<Longrightarrow> trim s = s"
proof -
  assume s: "list_all (\<lambda>c. \<not> blank c) s"
  have id: "dropWhile blank t = t" if "list_all (\<lambda>c. \<not> blank c) t" for t using that by (cases t) auto
  from s have "list_all (\<lambda>c. \<not> blank c) (rev s)" by simp
  with s show ?thesis by (simp add: trim_def id)
qed

lemma to_string_chars: "c \<in> set (std_to_string i) \<Longrightarrow> std_isdigit c \<or> c = CHR ''-''"
  by (auto simp: std_to_string_def set_nat_digits split: if_splits)

lemma to_string_excludes:
  assumes "\<not> std_isdigit c" "c \<noteq> CHR ''-''"
  shows "c \<notin> set (std_to_string i)"
  using assms to_string_chars by blast

lemma to_string_plain:
  "CHR '';'' \<notin> set (std_to_string i)" "CHR '':'' \<notin> set (std_to_string i)" "CHR 0x00 \<notin> set (std_to_string i)"
  "trim (std_to_string i) = std_to_string i" "std_to_string i \<noteq> CHR ''t'' # s" "std_to_string i \<noteq> CHR ''T'' # s"
  "std_to_string i \<noteq> CHR ''f'' # s" "std_to_string i \<noteq> CHR ''F'' # s"
proof -
  have "\<not> blank c" if "c \<in> set (std_to_string i)" for c
    using to_string_chars [OF that] by (auto simp: blank_def std_isdigit_def cc_def)
  then show "trim (std_to_string i) = std_to_string i" by (intro trim_id) (simp add: list_all_iff)
  have "c \<notin> set (std_to_string i)" if "c \<in> set '':;tTfF''" for c
    using that by (intro to_string_excludes) (auto simp: std_isdigit_def cc_def)
  from this [of "CHR '';''"] this [of "CHR '':''"] this [of "CHR ''t''"] this [of "CHR ''T''"] this [of "CHR ''f''"]
    this [of "CHR ''F''"]
  show "CHR '';'' \<notin> set (std_to_string i)" "CHR '':'' \<notin> set (std_to_string i)" "std_to_string i \<noteq> CHR ''t'' # s"
    "std_to_string i \<noteq> CHR ''T'' # s" "std_to_string i \<noteq> CHR ''f'' # s" "std_to_string i \<noteq> CHR ''F'' # s"
    by (auto dest: arg_cong [where f = set])
  show "CHR 0x00 \<notin> set (std_to_string i)" by (intro to_string_excludes) (auto simp: std_isdigit_def cc_def)
qed

lemma parse_render:
  assumes "carried strtod v"
  shows "parse_value strtod (trim (render_value v)) = v" "CHR '';'' \<notin> set (render_value v)"
proof -
  have "parse_value strtod (trim (render_value v)) = v \<and> CHR '';'' \<notin> set (render_value v)"
  proof (cases v)
    case (VInt i)
    then have "strtol (c_str (std_to_string i)) = (i, [])"
      using scan_int_to_string [of "[]" i] assms by (simp add: strtol_def c_str_id to_string_plain)
    with VInt assms show ?thesis
      by (simp add: parse_value_def to_string_plain cast_int_id)
  next
    case (VBool b)
    have "trim ''true'' = ''true''" "trim ''false'' = ''false''" by (simp_all add: trim_id blank_def)
    with VBool show ?thesis by (simp add: parse_value_def)
  next
    case (VString s)
    with assms show ?thesis by (auto simp: parse_value_def c_str_id split_beta)
  qed (use assms in auto)
  then show "parse_value strtod (trim (render_value v)) = v" "CHR '';'' \<notin> set (render_value v)" by simp_all
qed

text \<open>
  C32. Parameters survive the trip through a parameter string: a caller of the C interface who writes its
  parameters as \<^verbatim>\<open>key=value\<close> separated by semicolons gets exactly these parameters, in order and with the types
  integer, truth value and text, for all 32-bit integers and all texts that do not look like a number or a truth
  value and hold no separator.
\<close>

theorem parameter_string_roundtrip:
  assumes "\<forall>(k, v)\<in>set kvs. plain_key k \<and> carried strtod v"
  shows "parse_params strtod (Some (join_params (map (\<lambda>(k, v). (k, render_value v)) kvs))) =
    map (\<lambda>(k, v). mk_param k v) kvs"
proof -
  have "separable (map (\<lambda>(k, v). (k, render_value v)) kvs)"
    using assms parse_render(2) by (fastforce simp: separable_def plain_key_def)
  then show ?thesis
    using assms parse_render(1) by (auto simp: parse_params_key_values key_values_join make_param_def plain_key_def)
qed

definition no_strtod :: "string \<Rightarrow> 64 word \<times> string" where
  "no_strtod s = (0, s)"

theorem parameter_string_roundtrip_witness:
  "parse_params no_strtod (Some ''age=-7;vip=true;name=Al'') =
     [mk_param ''age'' (VInt (- 7)), mk_param ''vip'' (VBool True), mk_param ''name'' (VString ''Al'')]"
proof -
  have d: "std_to_string (- 7) = ''-7''" by (simp add: std_to_string_def nat_digits.simps char_eval)
  have "\<forall>(k, v)\<in>set [(''age'', VInt (- 7)), (''vip'', VBool True), (''name'', VString ''Al'')].
      plain_key k \<and> carried no_strtod v"
    by (simp add: plain_key_def trim_id blank_def no_strtod_def strtol_def scan_int_def char_eval)
  from parameter_string_roundtrip [OF this] d show ?thesis by simp
qed

text \<open>An integer that does not fit is cut to its low 32 bits instead of being rejected.\<close>

lemma large_integer_wraps: "parse_params strtod (Some ''n=4294967297'') = [mk_param ''n'' (VInt 1)]"
  by (simp add: parse_params_key_values key_values.simps split_first_def make_param_def trim_def blank_def
      parse_value_def strtol_def c_str_def scan_int_def char_eval cast_int_def)

section \<open>Object parameters\<close>

lemma split_first_join: "c \<notin> set a \<Longrightarrow> split_first c (a @ c # b) = Some (a, b)"
  by (simp add: split_first_def takeWhile_until)

text \<open>The loop of \<^verbatim>\<open>fastrules_add_typed_param\<close> over the pieces of its text.\<close>

definition add_typed :: "string \<Rightarrow> string \<Rightarrow> string \<Rightarrow> string" where
  "add_typed name fv oss =
     (case split_first (CHR ''='') fv of
        None \<Rightarrow> oss
      | Some (f, v) \<Rightarrow> oss @ (if oss = [] then [] else '';'') @ name @ ''.'' @ f @ ''='' @ v)"

lemma typed_loop_segments: "typed_loop name s pos oss = fold (add_typed name) (segments (CHR '';'') (drop pos s)) oss"
proof (induction name s pos oss rule: typed_loop.induct)
  case (1 name s pos oss)
  show ?case
  proof (cases "pos < length s")
    case True
    let ?n = "next_sep s (CHR '';'') pos"
    have step: "(case str_find fv ''='' 0 of None \<Rightarrow> oss
        | Some eq \<Rightarrow> oss @ (if length oss > 0 then '';'' else []) @ name @ ''.'' @ take eq fv @ ''='' @ drop (eq + 1) fv)
        = add_typed name fv oss" for fv
      by (cases "str_find fv ''='' 0") (simp_all add: add_typed_def split_first_find)
    note IH = 1 [OF True refl refl, folded next_sep_def, unfolded step]
    show ?thesis
      unfolding typed_loop.simps [of name s pos oss] segments_drop [OF True] Let_def next_sep_def [symmetric] step
      using True IH by simp
  next
    case False
    then show ?thesis by (simp add: typed_loop.simps [of name s pos] segments.simps [of _ "[]"])
  qed
qed

definition field_names :: "string \<Rightarrow> (string \<times> string) list \<Rightarrow> (string \<times> string) list" where
  "field_names name fvs = map (\<lambda>(f, v). (name @ ''.'' @ f, v)) fvs"

lemma segments_until:
  assumes "c \<notin> set a"
  shows "segments c (a @ c # b) = a # segments c b" "a \<noteq> [] \<Longrightarrow> segments c a = [a]"
  using assms by (simp_all add: takeWhile_until segments.simps [of c "a @ _"] segments.simps [of c a] segments.simps [of c "[]"])

lemma segments_join:
  assumes "\<forall>(f, v)\<in>set fvs. CHR '';'' \<notin> set f \<and> CHR '';'' \<notin> set v"
  shows "segments (CHR '';'') (join_params fvs) = map (\<lambda>(f, v). f @ ''='' @ v) fvs"
  using assms
proof (induction fvs)
  case Nil
  then show ?case by (simp add: segments.simps)
next
  case (Cons fv fvs)
  obtain f v where fv: "fv = (f, v)" by (cases fv)
  with Cons.prems have "CHR '';'' \<notin> set (f @ ''='' @ v)" by simp
  from segments_until [OF this] Cons fv show ?case
    by (cases "fvs = []") (simp_all add: join_params_Cons)
qed

lemma fold_typed_join:
  assumes "\<forall>(f, v)\<in>set fvs. CHR ''='' \<notin> set f"
  shows "fold (add_typed name) (map (\<lambda>(f, v). f @ ''='' @ v) fvs) (join_params kvs) = join_params (kvs @ field_names name fvs)"
  using assms
proof (induction fvs arbitrary: kvs)
  case (Cons fv fvs)
  obtain f v where fv: "fv = (f, v)" by (cases fv)
  have "add_typed name (f @ ''='' @ v) (join_params kvs) = join_params (kvs @ [(name @ ''.'' @ f, v)])"
    using Cons.prems fv by (simp add: add_typed_def split_first_join join_params_snoc)
  with Cons fv show ?case by (simp add: field_names_def del: join_params.simps)
qed (simp add: field_names_def)

lemma separable_append: "separable (a @ b) \<longleftrightarrow> separable a \<and> separable b"
  by (auto simp: separable_def)

text \<open>
  The parameters that \<^verbatim>\<open>fastrules_add_typed_param\<close> writes are read back by the execution: after the parameters
  that were there before, every field of the object arrives as a parameter named by the object and the field. The
  text that is built and the text that is parsed agree on separators, for every existing text and every list of
  fields that hold no separators of their own.
\<close>

lemma typed_param_roundtrip:
  assumes "separable kvs" "\<forall>(f, v)\<in>set fvs. CHR '';'' \<notin> set f \<and> CHR '';'' \<notin> set v \<and> CHR ''='' \<notin> set f"
    "CHR ''='' \<notin> set name"
  shows "parse_params strtod (Some (typed_param_text (Some (join_params kvs)) name (join_params fvs))) =
    map (make_param strtod) kvs @ map (\<lambda>(f, v). make_param strtod (name @ ''.'' @ f, v)) fvs"
proof -
  have "typed_param_text (Some (join_params kvs)) name (join_params fvs) = join_params (kvs @ field_names name fvs)"
  proof -
    from assms(2) have "\<forall>(f, v)\<in>set fvs. CHR '';'' \<notin> set f \<and> CHR '';'' \<notin> set v" "\<forall>(f, v)\<in>set fvs. CHR ''='' \<notin> set f"
      by auto
    from segments_join [OF this(1)] fold_typed_join [OF this(2)] show ?thesis
      by (simp add: typed_param_text_def typed_loop_segments)
  qed
  moreover have "separable (kvs @ field_names name fvs)"
    using assms by (fastforce simp: separable_append separable_def field_names_def)
  ultimately show ?thesis
    by (simp add: parse_params_key_values key_values_join field_names_def split_beta comp_def)
qed

lemma typed_param_roundtrip_example:
  "parse_params no_strtod (Some (typed_param_text (Some ''x=1'') ''c'' ''age=25;vip=true'')) =
     [mk_param ''x'' (VInt 1), mk_param ''c.age'' (VInt 25), mk_param ''c.vip'' (VBool True)]"
proof -
  have "separable [(''x'', ''1'')]"
    "\<forall>(f, v)\<in>set [(''age'', ''25''), (''vip'', ''true'')]. CHR '';'' \<notin> set f \<and> CHR '';'' \<notin> set v \<and> CHR ''='' \<notin> set f"
    "CHR ''='' \<notin> set ''c''"
    by (simp_all add: separable_def)
  from typed_param_roundtrip [OF this, of no_strtod] show ?thesis
    by (simp add: make_param_def trim_id blank_def parse_value_def strtol_def c_str_def scan_int_def char_eval cast_int_def)
qed

text \<open>The fields of an object, written after existing parameters.\<close>

lemma object_loop_join: "object_loop name fvs (join_params kvs) = join_params (kvs @ field_names name fvs)"
proof (induction fvs arbitrary: kvs)
  case (Cons fv fvs)
  obtain f v where fv: "fv = (f, v)" by (cases fv)
  with Cons [of "kvs @ [(name @ ''.'' @ f, v)]"] show ?case
    by (cases "kvs = []") (simp_all add: join_params_snoc field_names_def del: join_params.simps(3))
qed (simp add: field_names_def)

text \<open>
  \<^verbatim>\<open>fastrules_add_object_param\<close> writes the separator twice when there are existing parameters, and the parser
  takes the second one for a part of the next name: the first field of the object (in the order of the names)
  arrives under a name that starts with a semicolon, so no rule finds it, while every other field and the existing
  parameters arrive as written.
\<close>

lemma object_param_first_field_lost:
  assumes "separable kvs" "kvs \<noteq> []" "separable ((f, v) # fvs)" "CHR ''='' \<notin> set name"
  shows "parse_params strtod (Some (object_param_text (Some (join_params kvs)) name ((f, v) # fvs))) =
    map (make_param strtod) kvs @ make_param strtod ('';'' @ name @ ''.'' @ f, v) #
    map (\<lambda>(f, v). make_param strtod (name @ ''.'' @ f, v)) fvs"
proof -
  have snoc: "join_params kvs @ '';'' @ '';'' @ k @ ''='' @ w = join_params (kvs @ [('';'' @ k, w)])" for k w
    using assms(2) by (simp add: join_params_snoc)
  have "object_param_text (Some (join_params kvs)) name ((f, v) # fvs) =
      object_loop name fvs (join_params (kvs @ [('';'' @ name @ ''.'' @ f, v)]))"
    using assms(2) snoc [of "name @ ''.'' @ f" v] by (simp add: object_param_text_def)
  moreover have "separable (kvs @ [('';'' @ name @ ''.'' @ f, v)] @ field_names name fvs)"
    using assms by (fastforce simp: separable_append separable_def field_names_def)
  ultimately show ?thesis
    using object_loop_join [of name fvs "kvs @ [('';'' @ name @ ''.'' @ f, v)]"]
    by (simp add: parse_params_key_values key_values_join field_names_def split_beta comp_def)
qed

lemma object_param_first_field_lost_example:
  "parse_params no_strtod (Some (object_param_text (Some ''x=1'') ''c'' [(''age'', ''25''), (''vip'', ''true'')])) =
     [mk_param ''x'' (VInt 1), mk_param '';c.age'' (VInt 25), mk_param ''c.vip'' (VBool True)]"
proof -
  have "separable [(''x'', ''1'')]" "[(''x'', ''1'')] \<noteq> []" "separable [(''age'', ''25''), (''vip'', ''true'')]"
    "CHR ''='' \<notin> set ''c''"
    by (simp_all add: separable_def)
  from object_param_first_field_lost [OF this, of no_strtod] show ?thesis
    by (simp add: make_param_def trim_id blank_def parse_value_def strtol_def c_str_def scan_int_def char_eval cast_int_def)
qed

text \<open>Without existing parameters all fields arrive.\<close>

lemma object_param_alone:
  assumes "separable fvs" "CHR ''='' \<notin> set name"
  shows "parse_params strtod (Some (object_param_text None name fvs)) =
    map (\<lambda>(f, v). make_param strtod (name @ ''.'' @ f, v)) fvs"
proof -
  have "separable (field_names name fvs)"
    using assms by (fastforce simp: separable_def field_names_def)
  then show ?thesis
    using object_loop_join [of name fvs "[]"]
    by (simp add: object_param_text_def parse_params_key_values key_values_join field_names_def split_beta comp_def)
qed

section \<open>Reading a result string\<close>

text \<open>What a client does with a result string: split it at the separators and undo the escapes.\<close>

fun split_on :: "char \<Rightarrow> string \<Rightarrow> string list" where
  "split_on c [] = [[]]"
| "split_on c (x # s) =
     (if x = c then [] # split_on c s else (case split_on c s of [] \<Rightarrow> [[x]] | p # ps \<Rightarrow> (x # p) # ps))"

fun unescape_field :: "string \<Rightarrow> string" where
  "unescape_field [] = []"
| "unescape_field (c # s) =
     (if take 3 (c # s) = ''%3A'' then CHR '':'' # unescape_field (drop 2 s)
      else if take 3 (c # s) = ''%3B'' then CHR '';'' # unescape_field (drop 2 s)
      else c # unescape_field s)"

definition read_record :: "string \<Rightarrow> (int \<times> string \<times> bool \<times> string option) option" where
  "read_record s =
     (case split_on (CHR '':'') s of
        [i, n, ok] \<Rightarrow> (case stoi i of None \<Rightarrow> None | Some v \<Rightarrow> Some (v, unescape_field n, ok = ''1'', None))
      | [i, n, ok, e] \<Rightarrow>
          (case stoi i of None \<Rightarrow> None | Some v \<Rightarrow> Some (v, unescape_field n, ok = ''1'', Some (unescape_field e)))
      | _ \<Rightarrow> None)"

definition read_results :: "string \<Rightarrow> (int \<times> string \<times> bool \<times> string option) option list" where
  "read_results s = (if s = [] then [] else map read_record (split_on (CHR '';'') s))"

definition summary :: "RuleResult \<Rightarrow> int \<times> string \<times> bool \<times> string option" where
  "summary r = (res_ruleId r, res_ruleName r, isSuccess r, exception r)"

text \<open>A text that the escapes do not confuse: they leave the percent sign as it is.\<close>

definition escapable :: "string \<Rightarrow> bool" where
  "escapable s \<longleftrightarrow> CHR ''%'' \<notin> set s \<and> CHR 0x00 \<notin> set s"

definition reportable :: "RuleResult \<Rightarrow> bool" where
  "reportable r \<longleftrightarrow> int_min \<le> res_ruleId r \<and> res_ruleId r \<le> int_max \<and> escapable (res_ruleName r) \<and>
     (\<forall>m. exception r = Some m \<longrightarrow> escapable m)"

lemma split_on_until: "c \<notin> set a \<Longrightarrow> split_on c (a @ c # b) = a # split_on c b"
  by (induction a) auto

lemma split_on_single: "c \<notin> set a \<Longrightarrow> split_on c a = [a]"
  by (induction a) auto

lemma escape_field_simps [simp]:
  "escape_field [] = []"
  "escape_field (c # s) = (if c = CHR '':'' then ''%3A'' else if c = CHR '';'' then ''%3B'' else [c]) @ escape_field s"
  by (simp_all add: escape_field_def)

lemma escape_field_free [simp]: "CHR '':'' \<notin> set (escape_field s)" "CHR '';'' \<notin> set (escape_field s)"
  by (induction s) auto

lemma escape_field_nul: "CHR 0x00 \<in> set (escape_field s) \<longleftrightarrow> CHR 0x00 \<in> set s"
  by (induction s) auto

lemma unescape_escape: "CHR ''%'' \<notin> set s \<Longrightarrow> unescape_field (escape_field s) = s"
  by (induction s) (auto simp: numeral_3_eq_3 numeral_2_eq_2)

lemma record_free: "CHR '';'' \<notin> set (result_record r)" "result_record r \<noteq> []"
  by (auto simp: result_record_def to_string_plain split: option.splits)

lemma record_nul: "reportable r \<Longrightarrow> CHR 0x00 \<notin> set (result_record r)"
  by (auto simp: result_record_def reportable_def escapable_def to_string_plain escape_field_nul split: option.splits)

lemma read_record_result:
  assumes "reportable r"
  shows "read_record (result_record r) = Some (summary r)"
proof -
  let ?ok = "if isSuccess r then ''1'' else ''0''" and ?i = "std_to_string (res_ruleId r)"
  have id: "stoi ?i = Some (res_ruleId r)" using assms by (simp add: reportable_def stoi_to_string)
  have ok: "CHR '':'' \<notin> set ?ok" "?ok = ''1'' \<longleftrightarrow> isSuccess r" by simp_all
  have n: "unescape_field (escape_field (res_ruleName r)) = res_ruleName r"
    using assms by (simp add: reportable_def escapable_def unescape_escape)
  show ?thesis
  proof (cases "exception r")
    case None
    then have "split_on (CHR '':'') (result_record r) = [?i, escape_field (res_ruleName r), ?ok]"
      using ok(1) by (simp add: result_record_def split_on_until split_on_single to_string_plain)
    with None id ok(2) n show ?thesis by (simp add: read_record_def summary_def)
  next
    case (Some m)
    then have "split_on (CHR '':'') (result_record r) = [?i, escape_field (res_ruleName r), ?ok, escape_field m]"
      using ok(1) by (simp add: result_record_def split_on_until split_on_single to_string_plain)
    moreover have "unescape_field (escape_field m) = m"
      using assms Some by (simp add: reportable_def escapable_def unescape_escape)
    ultimately show ?thesis using Some id ok(2) n by (simp add: read_record_def summary_def)
  qed
qed

lemma split_results_text:
  "rs \<noteq> [] \<Longrightarrow> split_on (CHR '';'') (results_text rs) = map result_record rs"
  by (induction rs rule: results_text.induct) (simp_all add: split_on_single split_on_until record_free)

lemma results_text_Nil: "results_text rs = [] \<longleftrightarrow> rs = []"
  by (cases rs rule: results_text.cases) (simp_all add: record_free)

lemma results_text_nul: "\<forall>r\<in>set rs. reportable r \<Longrightarrow> CHR 0x00 \<notin> set (results_text rs)"
  by (induction rs rule: results_text.induct) (simp_all add: record_nul)

lemma read_format:
  assumes "\<forall>r\<in>set rs. reportable r"
  shows "map_option read_results (format_results True rs) = Some (map (\<lambda>r. Some (summary r)) rs)"
  using assms
  by (cases "rs = []")
     (simp_all add: format_results_def c_str_id results_text_nul read_results_def results_text_Nil split_results_text
       read_record_result comp_def)

text \<open>The escapes are not injective: a colon and its own escape are written alike.\<close>

lemma escape_ambiguous: "escape_field '':'' = escape_field ''%3A''"
  by simp

section \<open>Reading a field list\<close>

lemma parse_fields_segments:
  "parse_fields s pos = List.map_filter (split_first (CHR '':'')) (segments (CHR '';'') (drop pos s))"
proof (induction s pos rule: parse_fields.induct)
  case (1 s pos)
  show ?case
  proof (cases "pos < length s")
    case True
    have find: "(case str_find fd '':'' 0 of None \<Rightarrow> rest | Some c \<Rightarrow> (take c fd, drop (c + 1) fd) # rest) =
        (case split_first (CHR '':'') fd of None \<Rightarrow> rest | Some p \<Rightarrow> p # rest)" for fd rest
      by (cases "str_find fd '':'' 0") (simp_all add: split_first_find)
    note IH = 1 [OF True refl refl, folded next_sep_def]
    show ?thesis
      unfolding parse_fields.simps [of s pos] segments_drop [OF True] Let_def next_sep_def [symmetric] find
      using True IH by (simp add: map_filter_simps split: option.split)
  next
    case False
    then show ?thesis by (simp add: parse_fields.simps [of s pos] segments.simps [of _ "[]"] map_filter_simps)
  qed
qed

end
