(* ===== verification/C_Api.thy ===== *)
theory C_Api
  imports C_Text Workflow
begin

text \<open>
  The C interface (include/fastrules/fastrules.h, src/c_api.cpp). A handle is an address or the null pointer
  (\<open>None\<close>); the objects behind the handles are tables from addresses. A handle that is not null must belong to a
  live object: using a destroyed one is undefined behaviour in C, and the tables say nothing about it. The address
  that \<^verbatim>\<open>new\<close> returns is an argument, \<open>None\<close> when the constructor or the allocation throws; \<open>malloc_ok\<close> says whether
  \<^verbatim>\<open>malloc\<close> succeeds. An exception that no handler of the interface catches leaves the function (\<open>Inl\<close>).
\<close>

section \<open>State\<close>

datatype fastrules_error =
    FASTRULES_OK | FASTRULES_ERROR_NULL_PTR | FASTRULES_ERROR_COMPILATION_FAILED
  | FASTRULES_ERROR_EXECUTION_FAILED | FASTRULES_ERROR_MEMORY | FASTRULES_ERROR_UNKNOWN

record 'h FastRulesEngine =
  fe_engine :: "'h LuaEngine"
  fe_last_error :: string

record FastRulesType =
  ft_name :: string
  ft_fields :: "(string \<times> string) list"

record FastRulesObject =
  fo_type :: nat
  fo_values :: "(string \<times> string) list"

text \<open>The live objects, the two process-wide registries and the world in which rules run (its engine and its
  context are those of a call).\<close>

record 'h c_state =
  cs_engines :: "nat \<rightharpoonup> 'h FastRulesEngine"
  cs_workflows :: "nat \<rightharpoonup> 'h Workflow"
  cs_objects :: "nat \<rightharpoonup> FastRulesObject"
  cs_types :: "nat \<rightharpoonup> FastRulesType"
  registered_types :: "nat \<rightharpoonup> (string \<rightharpoonup> (string \<times> string) list)"
  type_registry :: "nat \<rightharpoonup> (string \<rightharpoonup> nat)"
  cs_world :: "'h world"
  cs_instances :: "64 word"

definition set_error :: "nat option \<Rightarrow> string option \<Rightarrow> 'h c_state \<Rightarrow> 'h c_state" where
  "set_error engine msg s =
     (case engine of
        None \<Rightarrow> s
      | Some a \<Rightarrow>
          s\<lparr>cs_engines := (cs_engines s)(a \<mapsto> (the (cs_engines s a))
              \<lparr>fe_last_error := (case msg of Some m \<Rightarrow> m | None \<Rightarrow> ''Unknown error'')\<rparr>)\<rparr>)"

text \<open>\<^verbatim>\<open>catch (const std::exception& e)\<close>: the message is kept in the engine. Other exceptions pass.\<close>

definition catch_std ::
    "nat option \<Rightarrow> fastrules_error \<Rightarrow> exn \<Rightarrow> 'h c_state \<Rightarrow> (exn + fastrules_error) \<times> 'h c_state" where
  "catch_std engine code e s =
     (if e = UnknownException then (Inl e, s) else (Inr code, set_error engine (Some (exn_what e)) s))"

section \<open>Engines\<close>

definition fastrules_engine_create :: "'h lua_vm \<Rightarrow> nat option \<Rightarrow> 'h c_state \<Rightarrow> nat option \<times> 'h c_state" where
  "fastrules_engine_create vm alloc s =
     (case alloc of
        None \<Rightarrow> (None, s)
      | Some a \<Rightarrow>
          (let (iid, counter) = nextInstanceId (cs_instances s)
           in (Some a, s\<lparr>cs_engines := (cs_engines s)(a \<mapsto> \<lparr>fe_engine = create_engine vm iid, fe_last_error = []\<rparr>),
                         cs_instances := counter\<rparr>)))"

text \<open>The registry is the only owner of a type that \<^verbatim>\<open>fastrules_register_type\<close> has made: dropping an entry frees it.\<close>

definition cleanup_engine_registries :: "nat \<Rightarrow> 'h c_state \<Rightarrow> 'h c_state" where
  "cleanup_engine_registries a s =
     s\<lparr>registered_types := (registered_types s)(a := None), type_registry := (type_registry s)(a := None),
       cs_types := (case type_registry s a of
                      None \<Rightarrow> cs_types s
                    | Some m \<Rightarrow> (\<lambda>t. if t \<in> ran m then None else cs_types s t))\<rparr>"

definition fastrules_engine_destroy :: "nat option \<Rightarrow> 'h c_state \<Rightarrow> 'h c_state" where
  "fastrules_engine_destroy engine s =
     (case engine of
        None \<Rightarrow> s
      | Some a \<Rightarrow> (let s1 = cleanup_engine_registries a s in s1\<lparr>cs_engines := (cs_engines s1)(a := None)\<rparr>))"

definition fastrules_engine_get_last_error :: "nat option \<Rightarrow> 'h c_state \<Rightarrow> string" where
  "fastrules_engine_get_last_error engine s =
     (case engine of None \<Rightarrow> ''Null engine pointer'' | Some a \<Rightarrow> c_str (fe_last_error (the (cs_engines s a))))"

section \<open>Workflows\<close>

definition fastrules_workflow_create ::
    "nat option \<Rightarrow> nat option \<Rightarrow> int \<Rightarrow> string option \<Rightarrow> 'h c_state \<Rightarrow> nat option \<times> 'h c_state" where
  "fastrules_workflow_create alloc engine i desc s =
     (case engine of
        None \<Rightarrow> (None, s)
      | Some _ \<Rightarrow>
          (case alloc of
             None \<Rightarrow> (None, set_error engine (Some ''std::bad_alloc'') s)
           | Some b \<Rightarrow>
               (let wk = default_workflow\<lparr>wf_id := i\<rparr>;
                    wk1 = (case desc of None \<Rightarrow> wk | Some d \<Rightarrow> wk\<lparr>wf_description := d\<rparr>)
                in (Some b, s\<lparr>cs_workflows := (cs_workflows s)(b \<mapsto> wk1)\<rparr>))))"

definition c_rule :: "nat \<Rightarrow> int \<Rightarrow> string option \<Rightarrow> string \<Rightarrow> string option \<Rightarrow> string option \<Rightarrow> bool \<Rightarrow> Rule" where
  "c_rule a i name expr act desc active =
     (let d = default_rule_data\<lparr>rule_id := i, rule_name := (case name of Some n \<Rightarrow> n | None \<Rightarrow> ''rule_'' @ std_to_string i),
                expression := expr\<rparr>;
          d1 = (case act of None \<Rightarrow> d | Some x \<Rightarrow> d\<lparr>action := x\<rparr>);
          d2 = (case desc of None \<Rightarrow> d1 | Some x \<Rightarrow> d1\<lparr>description := x\<rparr>)
      in Rule a (d2\<lparr>isActive := active\<rparr>) [])"

definition fastrules_workflow_add_rule ::
    "nat option \<Rightarrow> nat option \<Rightarrow> nat option \<Rightarrow> int \<Rightarrow> string option \<Rightarrow> string option \<Rightarrow> string option \<Rightarrow> string option
       \<Rightarrow> bool \<Rightarrow> 'h c_state \<Rightarrow> fastrules_error \<times> 'h c_state" where
  "fastrules_workflow_add_rule alloc engine workflow i name expr act desc active s =
     (case (engine, workflow) of
        (Some _, Some b) \<Rightarrow>
          (case expr of
             None \<Rightarrow> (FASTRULES_ERROR_NULL_PTR, set_error engine (Some ''Expression cannot be null'') s)
           | Some e \<Rightarrow>
               (case alloc of
                  None \<Rightarrow> (FASTRULES_ERROR_UNKNOWN, set_error engine (Some ''std::bad_alloc'') s)
                | Some a \<Rightarrow>
                    (let w = cs_world s; wk = the (cs_workflows s b)
                     in (FASTRULES_OK,
                         s\<lparr>cs_world := w\<lparr>w_store := (w_store w)(a := init_rule_state)\<rparr>,
                           cs_workflows := (cs_workflows s)(b \<mapsto>
                             wk\<lparr>wf_rules := wf_rules wk @ [c_rule a i name e act desc active]\<rparr>)\<rparr>))))
      | _ \<Rightarrow> (FASTRULES_ERROR_NULL_PTR, s))"

fun set_priority :: "int \<Rightarrow> int \<Rightarrow> Rule list \<Rightarrow> Rule list option" where
  "set_priority i p [] = None"
| "set_priority i p (r # rs) =
     (if rid r = i then Some (withPriority p r # rs) else map_option (Cons r) (set_priority i p rs))"

definition fastrules_workflow_set_rule_priority ::
    "nat option \<Rightarrow> nat option \<Rightarrow> int \<Rightarrow> int \<Rightarrow> 'h c_state \<Rightarrow> fastrules_error \<times> 'h c_state" where
  "fastrules_workflow_set_rule_priority engine workflow i p s =
     (case (engine, workflow) of
        (Some _, Some b) \<Rightarrow>
          (let wk = the (cs_workflows s b)
           in case set_priority i p (wf_rules wk) of
                None \<Rightarrow> (FASTRULES_ERROR_UNKNOWN, set_error engine (Some ''Rule not found'') s)
              | Some rs \<Rightarrow> (FASTRULES_OK, s\<lparr>cs_workflows := (cs_workflows s)(b \<mapsto> wk\<lparr>wf_rules := rs\<rparr>)\<rparr>))
      | _ \<Rightarrow> (FASTRULES_ERROR_NULL_PTR, s))"

definition fastrules_workflow_destroy :: "nat option \<Rightarrow> 'h c_state \<Rightarrow> 'h c_state" where
  "fastrules_workflow_destroy workflow s =
     (case workflow of None \<Rightarrow> s | Some b \<Rightarrow> s\<lparr>cs_workflows := (cs_workflows s)(b := None)\<rparr>)"

text \<open>A call into the library with an engine and a workflow, and its return.\<close>

definition enter_call :: "nat \<Rightarrow> nat \<Rightarrow> 'h c_state \<Rightarrow> 'h wf_state" where
  "enter_call a b s =
     \<lparr>s_wf = the (cs_workflows s b), s_w = (cs_world s)\<lparr>w_engine := fe_engine (the (cs_engines s a))\<rparr>,
      s_instances = cs_instances s\<rparr>"

definition leave_call :: "nat \<Rightarrow> nat \<Rightarrow> 'h wf_state \<Rightarrow> 'h c_state \<Rightarrow> 'h c_state" where
  "leave_call a b st s =
     s\<lparr>cs_workflows := (cs_workflows s)(b \<mapsto> s_wf st),
       cs_engines := (cs_engines s)(a \<mapsto> (the (cs_engines s a))\<lparr>fe_engine := w_engine (s_w st)\<rparr>),
       cs_world := s_w st, cs_instances := s_instances st\<rparr>"

definition fastrules_workflow_compile ::
    "'h fr_env \<Rightarrow> (rule_map \<Rightarrow> rule_map) \<Rightarrow> (int list \<Rightarrow> int list) \<Rightarrow> nat \<Rightarrow> nat option \<Rightarrow> nat option
       \<Rightarrow> 'h c_state \<Rightarrow> (exn + fastrules_error) \<times> 'h c_state" where
  "fastrules_workflow_compile env it its hw engine workflow s =
     (case (engine, workflow) of
        (Some a, Some b) \<Rightarrow>
          (case wf_compile env it its hw (enter_call a b s) of
             (Inl e, st) \<Rightarrow> catch_std engine FASTRULES_ERROR_COMPILATION_FAILED e (leave_call a b st s)
           | (Inr _, st) \<Rightarrow> (Inr FASTRULES_OK, leave_call a b st s))
      | _ \<Rightarrow> (Inr FASTRULES_ERROR_NULL_PTR, s))"

section \<open>Execution\<close>

text \<open>The common body of the two execution functions: \<open>run\<close> is the member function of the workflow that they call,
  \<open>out_ptr\<close> says whether the pointer for the result is not null.\<close>

definition c_execute ::
    "(RuleParameter list \<Rightarrow> 'h wf_state \<Rightarrow> (exn + RuleResult list) \<times> 'h wf_state) \<Rightarrow> (string \<Rightarrow> 64 word \<times> string) \<Rightarrow> bool
       \<Rightarrow> nat option \<Rightarrow> nat option \<Rightarrow> string option \<Rightarrow> bool \<Rightarrow> 'h c_state
       \<Rightarrow> (exn + fastrules_error) \<times> string option \<times> 'h c_state" where
  "c_execute run strtod malloc_ok engine workflow params_str out_ptr s =
     (case (engine, workflow, out_ptr) of
        (Some a, Some b, True) \<Rightarrow>
          (case run (parse_params strtod params_str) (enter_call a b s) of
             (Inl e, st) \<Rightarrow>
               (let (r, s1) = catch_std engine FASTRULES_ERROR_EXECUTION_FAILED e (leave_call a b st s) in (r, None, s1))
           | (Inr results_vec, st) \<Rightarrow>
               (case format_results malloc_ok results_vec of
                  None \<Rightarrow> (Inr FASTRULES_ERROR_MEMORY, None, leave_call a b st s)
                | Some text \<Rightarrow> (Inr FASTRULES_OK, Some text, leave_call a b st s)))
      | _ \<Rightarrow> (Inr FASTRULES_ERROR_NULL_PTR, None, s))"

definition fastrules_workflow_execute ::
    "'h fr_env \<Rightarrow> (rule_map \<Rightarrow> rule_map) \<Rightarrow> (int list \<Rightarrow> int list) \<Rightarrow> nat \<Rightarrow> (string \<Rightarrow> 64 word \<times> string) \<Rightarrow> bool
       \<Rightarrow> nat option \<Rightarrow> nat option \<Rightarrow> string option \<Rightarrow> bool \<Rightarrow> 'h c_state
       \<Rightarrow> (exn + fastrules_error) \<times> string option \<times> 'h c_state" where
  "fastrules_workflow_execute env it its hw = c_execute (wf_execute env it its hw)"

definition fastrules_workflow_execute_parallel ::
    "'h fr_env \<Rightarrow> (rule_map \<Rightarrow> rule_map) \<Rightarrow> (int list \<Rightarrow> int list) \<Rightarrow> nat \<Rightarrow> ((nat \<times> Rule) list \<Rightarrow> (nat \<times> Rule) list)
       \<Rightarrow> (string \<Rightarrow> 64 word \<times> string) \<Rightarrow> bool \<Rightarrow> nat option \<Rightarrow> nat option \<Rightarrow> string option \<Rightarrow> bool \<Rightarrow> 'h c_state
       \<Rightarrow> (exn + fastrules_error) \<times> string option \<times> 'h c_state" where
  "fastrules_workflow_execute_parallel env it its hw sched = c_execute (wf_executeParallel env it its hw sched)"

section \<open>Types and objects\<close>

definition fastrules_engine_register_type ::
    "nat option \<Rightarrow> string option \<Rightarrow> string option \<Rightarrow> 'h c_state \<Rightarrow> fastrules_error \<times> 'h c_state" where
  "fastrules_engine_register_type engine type_name flds s =
     (case (engine, type_name, flds) of
        (Some a, Some n, Some f) \<Rightarrow>
          (let m = (case registered_types s a of None \<Rightarrow> Map.empty | Some m \<Rightarrow> m)
           in (FASTRULES_OK, s\<lparr>registered_types := (registered_types s)(a \<mapsto> m(n \<mapsto> parse_fields f 0))\<rparr>))
      | _ \<Rightarrow> (FASTRULES_ERROR_NULL_PTR, s))"

text \<open>Both functions that build a parameter string return it in a \<^verbatim>\<open>malloc\<close>ed copy.\<close>

definition copy_out :: "bool \<Rightarrow> string \<Rightarrow> fastrules_error \<times> string option" where
  "copy_out malloc_ok text = (if malloc_ok then (FASTRULES_OK, Some (c_str text)) else (FASTRULES_ERROR_MEMORY, None))"

definition fastrules_add_typed_param ::
    "bool \<Rightarrow> nat option \<Rightarrow> string option \<Rightarrow> string option \<Rightarrow> string option \<Rightarrow> string option \<Rightarrow> bool \<Rightarrow> 'h c_state
       \<Rightarrow> (fastrules_error \<times> string option) \<times> 'h c_state" where
  "fastrules_add_typed_param malloc_ok engine params name type_name fields_values out_ptr s =
     (case (engine, name, type_name, fields_values, out_ptr) of
        (Some a, Some n, Some t, Some fv, True) \<Rightarrow>
          (case registered_types s a of
             None \<Rightarrow> ((FASTRULES_ERROR_UNKNOWN, None), set_error engine (Some ''Type not registered'') s)
           | Some m \<Rightarrow>
               (case m t of
                  None \<Rightarrow> ((FASTRULES_ERROR_UNKNOWN, None), set_error engine (Some ''Type not registered'') s)
                | Some _ \<Rightarrow> (copy_out malloc_ok (typed_param_text params n fv), s)))
      | _ \<Rightarrow> ((FASTRULES_ERROR_NULL_PTR, None), s))"

definition fastrules_register_type ::
    "nat option \<Rightarrow> nat option \<Rightarrow> string option \<Rightarrow> string option \<Rightarrow> 'h c_state \<Rightarrow> nat option \<times> 'h c_state" where
  "fastrules_register_type alloc engine type_name flds s =
     (case (engine, type_name, flds, alloc) of
        (Some a, Some n, Some f, Some t) \<Rightarrow>
          (let m = (case type_registry s a of None \<Rightarrow> Map.empty | Some m \<Rightarrow> m);
               freed = (case m n of None \<Rightarrow> cs_types s | Some old \<Rightarrow> (cs_types s)(old := None))
           in (Some t, s\<lparr>cs_types := freed(t \<mapsto> \<lparr>ft_name = n, ft_fields = parse_fields f 0\<rparr>),
                         type_registry := (type_registry s)(a \<mapsto> m(n \<mapsto> t))\<rparr>))
      | _ \<Rightarrow> (None, s))"

definition fastrules_object_create :: "nat option \<Rightarrow> nat option \<Rightarrow> nat option \<Rightarrow> 'h c_state \<Rightarrow> nat option \<times> 'h c_state" where
  "fastrules_object_create alloc engine type s =
     (case (engine, type, alloc) of
        (Some _, Some t, Some x) \<Rightarrow> (Some x, s\<lparr>cs_objects := (cs_objects s)(x \<mapsto> \<lparr>fo_type = t, fo_values = []\<rparr>)\<rparr>)
      | _ \<Rightarrow> (None, s))"

definition fastrules_object_set_field ::
    "nat option \<Rightarrow> string option \<Rightarrow> string option \<Rightarrow> 'h c_state \<Rightarrow> fastrules_error \<times> 'h c_state" where
  "fastrules_object_set_field obj field_name v s =
     (case (obj, field_name, v) of
        (Some x, Some f, Some y) \<Rightarrow>
          (let ob = the (cs_objects s x)
           in (FASTRULES_OK, s\<lparr>cs_objects := (cs_objects s)(x \<mapsto> ob\<lparr>fo_values := field_put f y (fo_values ob)\<rparr>)\<rparr>))
      | _ \<Rightarrow> (FASTRULES_ERROR_NULL_PTR, s))"

definition fastrules_object_destroy :: "nat option \<Rightarrow> 'h c_state \<Rightarrow> 'h c_state" where
  "fastrules_object_destroy obj s =
     (case obj of None \<Rightarrow> s | Some x \<Rightarrow> s\<lparr>cs_objects := (cs_objects s)(x := None)\<rparr>)"

definition fastrules_add_object_param ::
    "bool \<Rightarrow> nat option \<Rightarrow> string option \<Rightarrow> string option \<Rightarrow> nat option \<Rightarrow> bool \<Rightarrow> 'h c_state
       \<Rightarrow> fastrules_error \<times> string option" where
  "fastrules_add_object_param malloc_ok engine existing_params pname obj out_ptr s =
     (case (engine, pname, obj, out_ptr) of
        (Some _, Some n, Some x, True) \<Rightarrow>
          copy_out malloc_ok (object_param_text existing_params n (fo_values (the (cs_objects s x))))
      | _ \<Rightarrow> (FASTRULES_ERROR_NULL_PTR, None))"

definition fastrules_get_version :: string where
  "fastrules_get_version = ''0.2.0''"

section \<open>Execution reports what the workflow returns\<close>

lemma last_error_set [simp]:
  "fastrules_engine_get_last_error (Some a) (set_error (Some a) (Some m) s) = c_str m"
  by (simp add: fastrules_engine_get_last_error_def set_error_def)

lemma last_error_leave [simp]:
  "cs_engines s a = Some e \<Longrightarrow> fastrules_engine_get_last_error (Some a) (leave_call a b st s) = c_str (fe_last_error e)"
  by (simp add: fastrules_engine_get_last_error_def leave_call_def)

lemma leave_call_simps [simp]:
  "cs_workflows (leave_call a b st s) b = Some (s_wf st)" "cs_world (leave_call a b st s) = s_w st"
  by (simp_all add: leave_call_def)

lemma set_error_frame [simp]:
  "cs_workflows (set_error h m s) = cs_workflows s" "cs_objects (set_error h m s) = cs_objects s"
  "cs_types (set_error h m s) = cs_types s" "registered_types (set_error h m s) = registered_types s"
  "type_registry (set_error h m s) = type_registry s" "cs_world (set_error h m s) = cs_world s"
  by (simp_all add: set_error_def split: option.split)

lemma c_execute_ok:
  assumes "run (parse_params strtod p) (enter_call a b s) = (Inr rs, st)" "\<forall>r\<in>set rs. reportable r"
  shows "\<exists>text. c_execute run strtod True (Some a) (Some b) p True s = (Inr FASTRULES_OK, Some text, leave_call a b st s) \<and>
    read_results text = map (\<lambda>r. Some (summary r)) rs"
  using assms read_format [OF assms(2)] by (auto simp: c_execute_def)

lemma c_execute_error:
  assumes "run (parse_params strtod p) (enter_call a b s) = (Inl x, st)" "x \<noteq> UnknownException"
  shows "c_execute run strtod m (Some a) (Some b) p True s =
    (Inr FASTRULES_ERROR_EXECUTION_FAILED, None, set_error (Some a) (Some (exn_what x)) (leave_call a b st s))"
  using assms by (simp add: c_execute_def catch_std_def)


section \<open>Sequences of calls\<close>

text \<open>The calls that change the state, with the address that an allocation returns.\<close>

datatype c_op =
    EngineCreate "nat option" | EngineDestroy "nat option"
  | WorkflowCreate "nat option" "nat option" int "string option"
  | WorkflowAddRule "nat option" "nat option" "nat option" int "string option" "string option" "string option" "string option" bool
  | WorkflowSetPriority "nat option" "nat option" int int
  | WorkflowDestroy "nat option"
  | WorkflowCompile "nat option" "nat option"
  | WorkflowExecute bool "nat option" "nat option" "string option" bool
  | WorkflowExecuteParallel bool "nat option" "nat option" "string option" bool
  | EngineRegisterType "nat option" "string option" "string option"
  | AddTypedParam bool "nat option" "string option" "string option" "string option" "string option" bool
  | RegisterType "nat option" "nat option" "string option" "string option"
  | ObjectCreate "nat option" "nat option" "nat option"
  | ObjectSetField "nat option" "string option" "string option"
  | ObjectDestroy "nat option"

record 'h c_env =
  ce_env :: "'h fr_env"
  ce_it :: "rule_map \<Rightarrow> rule_map"
  ce_its :: "int list \<Rightarrow> int list"
  ce_hw :: nat
  ce_sched :: "(nat \<times> Rule) list \<Rightarrow> (nat \<times> Rule) list"
  ce_strtod :: "string \<Rightarrow> 64 word \<times> string"

fun c_step :: "'h c_env \<Rightarrow> c_op \<Rightarrow> 'h c_state \<Rightarrow> 'h c_state" where
  "c_step ce (EngineCreate x) s = snd (fastrules_engine_create (e_vm (ce_env ce)) x s)"
| "c_step ce (EngineDestroy h) s = fastrules_engine_destroy h s"
| "c_step ce (WorkflowCreate x h i d) s = snd (fastrules_workflow_create x h i d s)"
| "c_step ce (WorkflowAddRule x h b i n e ac d act) s = snd (fastrules_workflow_add_rule x h b i n e ac d act s)"
| "c_step ce (WorkflowSetPriority h b i p) s = snd (fastrules_workflow_set_rule_priority h b i p s)"
| "c_step ce (WorkflowDestroy b) s = fastrules_workflow_destroy b s"
| "c_step ce (WorkflowCompile h b) s = snd (fastrules_workflow_compile (ce_env ce) (ce_it ce) (ce_its ce) (ce_hw ce) h b s)"
| "c_step ce (WorkflowExecute ok h b p out) s =
     snd (snd (fastrules_workflow_execute (ce_env ce) (ce_it ce) (ce_its ce) (ce_hw ce) (ce_strtod ce) ok h b p out s))"
| "c_step ce (WorkflowExecuteParallel ok h b p out) s =
     snd (snd (fastrules_workflow_execute_parallel (ce_env ce) (ce_it ce) (ce_its ce) (ce_hw ce) (ce_sched ce) (ce_strtod ce)
       ok h b p out s))"
| "c_step ce (EngineRegisterType h n f) s = snd (fastrules_engine_register_type h n f s)"
| "c_step ce (AddTypedParam ok h p n t fv out) s = snd (fastrules_add_typed_param ok h p n t fv out s)"
| "c_step ce (RegisterType x h n f) s = snd (fastrules_register_type x h n f s)"
| "c_step ce (ObjectCreate x h t) s = snd (fastrules_object_create x h t s)"
| "c_step ce (ObjectSetField x f v) s = snd (fastrules_object_set_field x f v s)"
| "c_step ce (ObjectDestroy x) s = fastrules_object_destroy x s"

text \<open>The contract of the caller: engine handles are null or live. Allocation returns unused addresses.\<close>

fun engine_handle :: "c_op \<Rightarrow> nat option" where
  "engine_handle (EngineDestroy h) = h"
| "engine_handle (WorkflowCreate x h i d) = h"
| "engine_handle (WorkflowAddRule x h b i n e ac d act) = h"
| "engine_handle (WorkflowSetPriority h b i p) = h"
| "engine_handle (WorkflowCompile h b) = h"
| "engine_handle (WorkflowExecute ok h b p out) = h"
| "engine_handle (WorkflowExecuteParallel ok h b p out) = h"
| "engine_handle (EngineRegisterType h n f) = h"
| "engine_handle (AddTypedParam ok h p n t fv out) = h"
| "engine_handle (RegisterType x h n f) = h"
| "engine_handle (ObjectCreate x h t) = h"
| "engine_handle _ = None"

definition c_allowed :: "c_op \<Rightarrow> 'h c_state \<Rightarrow> bool" where
  "c_allowed op s \<longleftrightarrow>
     (case engine_handle op of None \<Rightarrow> True | Some a \<Rightarrow> cs_engines s a \<noteq> None) \<and>
     (case op of EngineCreate (Some a) \<Rightarrow> cs_engines s a = None | RegisterType (Some t) h n f \<Rightarrow> cs_types s t = None | _ \<Rightarrow> True)"

definition init_c_state :: "'h world \<Rightarrow> 64 word \<Rightarrow> 'h c_state" where
  "init_c_state w n =
     \<lparr>cs_engines = Map.empty, cs_workflows = Map.empty, cs_objects = Map.empty, cs_types = Map.empty,
      registered_types = Map.empty, type_registry = Map.empty, cs_world = w, cs_instances = n\<rparr>"

inductive c_reachable :: "'h c_env \<Rightarrow> 'h c_state \<Rightarrow> bool" for ce where
  c_init: "c_reachable ce (init_c_state w n)"
| c_call: "c_reachable ce s \<Longrightarrow> c_allowed op s \<Longrightarrow> c_reachable ce (c_step ce op s)"

text \<open>What holds between the calls: only live engines have registered types, and the types that the handle
  interface has registered are live, each under one name of one engine.\<close>

definition type_entry :: "'h c_state \<Rightarrow> nat \<Rightarrow> string \<Rightarrow> nat \<Rightarrow> bool" where
  "type_entry s a n t \<longleftrightarrow> (case type_registry s a of None \<Rightarrow> False | Some m \<Rightarrow> m n = Some t)"

definition registries_ok :: "'h c_state \<Rightarrow> bool" where
  "registries_ok s \<longleftrightarrow>
     dom (registered_types s) \<subseteq> dom (cs_engines s) \<and> dom (type_registry s) \<subseteq> dom (cs_engines s) \<and>
     (\<forall>a n t. type_entry s a n t \<longrightarrow>
        (\<exists>ty. cs_types s t = Some ty \<and> ft_name ty = n) \<and> (\<forall>a' n'. type_entry s a' n' t \<longrightarrow> a' = a \<and> n' = n))"

lemma registries_okD:
  assumes "registries_ok s" "type_entry s a n t"
  shows "\<exists>ty. cs_types s t = Some ty \<and> ft_name ty = n" "type_entry s a' n' t \<Longrightarrow> a' = a \<and> n' = n"
  using assms unfolding registries_ok_def by blast+

text \<open>Calls that leave both registries and the set of live engines alone.\<close>

definition same_registries :: "'h c_state \<Rightarrow> 'h c_state \<Rightarrow> bool" where
  "same_registries s s' \<longleftrightarrow>
     registered_types s' = registered_types s \<and> type_registry s' = type_registry s \<and> cs_types s' = cs_types s \<and>
     dom (cs_engines s) \<subseteq> dom (cs_engines s')"

lemma same_registries_refl [simp]: "same_registries s s"
  by (simp add: same_registries_def)

lemma same_registries_ok: "same_registries s s' \<Longrightarrow> registries_ok s \<Longrightarrow> registries_ok s'"
  unfolding registries_ok_def same_registries_def type_entry_def by (elim conjE) (simp, blast)

lemma same_registries_set_error [simp]: "same_registries s t \<Longrightarrow> same_registries s (set_error h m t)"
  by (auto simp: same_registries_def set_error_def split: option.split)

lemma same_registries_leave [simp]: "same_registries s (leave_call a b st s)"
  by (auto simp: same_registries_def leave_call_def)

lemma same_registries_catch [simp]: "same_registries s t \<Longrightarrow> same_registries s (snd (catch_std h c e t))"
  by (simp add: catch_std_def)

text \<open>All calls but three are of this kind.\<close>

definition registry_op :: "c_op \<Rightarrow> bool" where
  "registry_op op \<longleftrightarrow> (case op of EngineDestroy _ \<Rightarrow> True | EngineRegisterType _ _ _ \<Rightarrow> True | RegisterType _ _ _ _ \<Rightarrow> True | _ \<Rightarrow> False)"

lemma c_execute_frame: "same_registries s (snd (snd (c_execute run strtod ok h b p out s)))"
  by (simp add: c_execute_def split_beta split: option.split bool.split sum.split prod.split)

lemma other_ops_frame: "\<not> registry_op op \<Longrightarrow> same_registries s (c_step ce op s)"
proof (cases op)
  case (EngineCreate x)
  then show ?thesis by (auto simp: fastrules_engine_create_def nextInstanceId_def same_registries_def split: option.split)
next
  case (WorkflowCreate x h i d)
  then show ?thesis by (simp add: fastrules_workflow_create_def Let_def split: option.split) (simp add: same_registries_def)
next
  case (WorkflowAddRule x h b i n e ac d act)
  then show ?thesis by (simp add: fastrules_workflow_add_rule_def Let_def split: option.split) (simp add: same_registries_def)
next
  case (WorkflowSetPriority h b i p)
  then show ?thesis
    by (simp add: fastrules_workflow_set_rule_priority_def Let_def split: option.split) (simp add: same_registries_def)
next
  case (WorkflowDestroy b)
  then show ?thesis by (simp add: fastrules_workflow_destroy_def same_registries_def split: option.split)
next
  case (WorkflowCompile h b)
  then show ?thesis by (simp add: fastrules_workflow_compile_def split: option.split sum.split prod.split)
next
  case (WorkflowExecute ok h b p out)
  then show ?thesis by (simp add: fastrules_workflow_execute_def c_execute_frame)
next
  case (WorkflowExecuteParallel ok h b p out)
  then show ?thesis by (simp add: fastrules_workflow_execute_parallel_def c_execute_frame)
next
  case (AddTypedParam ok h p n t fv out)
  then show ?thesis by (simp add: fastrules_add_typed_param_def split: option.split bool.split)
next
  case (ObjectCreate x h t)
  then show ?thesis by (simp add: fastrules_object_create_def same_registries_def split: option.split)
next
  case (ObjectSetField x f v)
  then show ?thesis by (simp add: fastrules_object_set_field_def same_registries_def Let_def split: option.split)
next
  case (ObjectDestroy x)
  then show ?thesis by (simp add: fastrules_object_destroy_def same_registries_def split: option.split)
qed (simp_all add: registry_op_def)

lemma engine_destroy_ok: "registries_ok s \<Longrightarrow> registries_ok (fastrules_engine_destroy h s)"
proof (cases h)
  case (Some a)
  let ?s = "fastrules_engine_destroy (Some a) s"
  assume ok: "registries_ok s"
  have entry: "type_entry ?s a' n t \<longleftrightarrow> a' \<noteq> a \<and> type_entry s a' n t" for a' n t
    by (simp add: type_entry_def fastrules_engine_destroy_def cleanup_engine_registries_def)
  have types: "cs_types ?s t = (if \<exists>n. type_entry s a n t then None else cs_types s t)" for t
    by (auto simp: type_entry_def fastrules_engine_destroy_def cleanup_engine_registries_def ran_def split: option.split)
  have doms: "dom (registered_types ?s) = dom (registered_types s) - {a}" "dom (type_registry ?s) = dom (type_registry s) - {a}"
    "dom (cs_engines ?s) = dom (cs_engines s) - {a}"
    by (simp_all add: fastrules_engine_destroy_def cleanup_engine_registries_def)
  have "registries_ok ?s"
    unfolding registries_ok_def entry types doms
  proof (intro conjI allI impI)
    show "dom (registered_types s) - {a} \<subseteq> dom (cs_engines s) - {a}" "dom (type_registry s) - {a} \<subseteq> dom (cs_engines s) - {a}"
      using ok by (auto simp: registries_ok_def)
    fix a' n t assume e: "a' \<noteq> a \<and> type_entry s a' n t"
    with registries_okD [OF ok] have c: "\<exists>ty. cs_types s t = Some ty \<and> ft_name ty = n"
      "\<forall>a2 n2. type_entry s a2 n2 t \<longrightarrow> a2 = a' \<and> n2 = n" by blast+
    with e show "\<exists>ty. (if \<exists>n. type_entry s a n t then None else cs_types s t) = Some ty \<and> ft_name ty = n" by auto
    show "a2 = a'" "n2 = n" if "a2 \<noteq> a \<and> type_entry s a2 n2 t" for a2 n2 using that c(2) by blast+
  qed
  with Some show ?thesis by simp
qed (simp add: fastrules_engine_destroy_def)

lemma register_type_ok:
  assumes ok: "registries_ok s" and live: "cs_engines s a \<noteq> None" and fresh: "cs_types s t = None"
  shows "registries_ok (snd (fastrules_register_type (Some t) (Some a) (Some n) (Some f) s))"
proof -
  let ?s = "snd (fastrules_register_type (Some t) (Some a) (Some n) (Some f) s)"
  let ?ty = "\<lparr>ft_name = n, ft_fields = parse_fields f 0\<rparr>"
  have entry: "type_entry ?s a' n' u \<longleftrightarrow> (if a' = a \<and> n' = n then u = t else type_entry s a' n' u)" for a' n' u
    by (auto simp: type_entry_def fastrules_register_type_def Let_def split: option.split)
  have types: "cs_types ?s u = (if u = t then Some ?ty else if type_entry s a n u then None else cs_types s u)" for u
    by (auto simp: type_entry_def fastrules_register_type_def Let_def split: option.split)
  have doms: "dom (registered_types ?s) = dom (registered_types s)" "dom (type_registry ?s) = insert a (dom (type_registry s))"
    "dom (cs_engines ?s) = dom (cs_engines s)"
    by (auto simp: fastrules_register_type_def Let_def split: option.split)
  have used: "\<not> type_entry s a' n' t" for a' n'
    using registries_okD(1) [OF ok, of a' n' t] fresh by auto
  have "(\<exists>ty. cs_types ?s u = Some ty \<and> ft_name ty = n1) \<and> (\<forall>a2 n2. type_entry ?s a2 n2 u \<longrightarrow> a2 = a1 \<and> n2 = n1)"
    if e: "type_entry ?s a1 n1 u" for a1 n1 u
  proof (cases "a1 = a \<and> n1 = n")
    case True
    with e used show ?thesis by (auto simp: entry types split: if_splits)
  next
    case False
    with e have o: "type_entry s a1 n1 u" by (auto simp: entry split: if_splits)
    with registries_okD [OF ok] have c: "\<exists>ty. cs_types s u = Some ty \<and> ft_name ty = n1"
      "\<forall>a2 n2. type_entry s a2 n2 u \<longrightarrow> a2 = a1 \<and> n2 = n1" by blast+
    from c(2) False have "\<not> type_entry s a n u" by auto
    moreover have "u \<noteq> t" using o used by auto
    ultimately show ?thesis using c by (auto simp: entry types split: if_splits)
  qed
  moreover have "a \<in> dom (cs_engines s)" using live by auto
  ultimately show ?thesis
    using ok unfolding registries_ok_def [of ?s] doms by (simp add: registries_ok_def)
qed

lemma c_step_ok:
  assumes "registries_ok s" "c_allowed op s"
  shows "registries_ok (c_step ce op s)"
proof (cases "registry_op op")
  case False
  from same_registries_ok [OF other_ops_frame [OF False] assms(1)] show ?thesis .
next
  case True
  then consider h where "op = EngineDestroy h" | h n f where "op = EngineRegisterType h n f"
    | x h n f where "op = RegisterType x h n f"
    by (cases op) (auto simp: registry_op_def)
  then show ?thesis
  proof cases
    case 1
    with assms(1) engine_destroy_ok show ?thesis by simp
  next
    case (2 h n f)
    with assms show ?thesis
      by (auto simp: fastrules_engine_register_type_def c_allowed_def registries_ok_def type_entry_def Let_def split: option.split)
  next
    case (3 x h n f)
    show ?thesis
    proof (cases "x \<noteq> None \<and> h \<noteq> None \<and> n \<noteq> None \<and> f \<noteq> None")
      case True
      then obtain t a n' f' where "x = Some t" "h = Some a" "n = Some n'" "f = Some f'" by blast
      with 3 assms register_type_ok [of s a t n' f'] show ?thesis by (simp add: c_allowed_def)
    next
      case False
      with 3 assms(1) show ?thesis by (auto simp: fastrules_register_type_def split: option.split)
    qed
  qed
qed

lemma registries_ok_reachable: "c_reachable ce s \<Longrightarrow> registries_ok s"
proof (induction rule: c_reachable.induct)
  case (c_init w n)
  then show ?case by (simp add: init_c_state_def registries_ok_def type_entry_def)
qed (rule c_step_ok)

text \<open>
  The per-engine registries of the C interface cannot leak from one engine to another: in every state that calls
  with live handles reach, only live engines have registered types, every type that the handle interface has
  registered under a name is live and belongs to that name of that engine alone, and an engine that is created, also
  at the address of a destroyed one, starts without types: adding a parameter of any type fails with "Type not
  registered".
\<close>

lemma registries_isolated:
  assumes "c_reachable ce s" "cs_engines s a = None"
  shows "registries_ok s \<and>
    (\<exists>s1 s2. fastrules_engine_create vm (Some a) s = (Some a, s1) \<and>
       fastrules_add_typed_param ok (Some a) p (Some n) (Some t) (Some fv) True s1 = ((FASTRULES_ERROR_UNKNOWN, None), s2) \<and>
       fastrules_engine_get_last_error (Some a) s2 = ''Type not registered'')"
proof -
  have ok: "registries_ok s" using assms(1) by (rule registries_ok_reachable)
  with assms(2) have "registered_types s a = None" by (auto simp: registries_ok_def)
  then show ?thesis
    using ok by (simp add: fastrules_engine_create_def nextInstanceId_def fastrules_add_typed_param_def c_str_def)
qed

definition sample_c_env :: "unit c_env" where
  "sample_c_env = \<lparr>ce_env = sample_fr_env, ce_it = id, ce_its = id, ce_hw = 2, ce_sched = id, ce_strtod = no_strtod\<rparr>"

text \<open>An engine at address 5 that registers a type and is destroyed.\<close>

definition reused_address :: "unit c_state" where
  "reused_address =
     fold (c_step sample_c_env)
       [EngineCreate (Some 5), EngineRegisterType (Some 5) (Some ''Customer'') (Some ''age:int''), EngineDestroy (Some 5)]
       (init_c_state sample_world 0)"

lemma reused_address_reachable: "c_reachable sample_c_env reused_address" "cs_engines reused_address 5 = None"
proof -
  note eval = c_allowed_def fastrules_engine_create_def nextInstanceId_def fastrules_engine_register_type_def
    fastrules_engine_destroy_def cleanup_engine_registries_def init_c_state_def
  let ?s0 = "init_c_state sample_world 0" and ?reg = "EngineRegisterType (Some 5) (Some ''Customer'') (Some ''age:int'')"
  let ?s1 = "c_step sample_c_env (EngineCreate (Some 5)) ?s0"
  let ?s2 = "c_step sample_c_env ?reg ?s1"
  have "c_allowed (EngineCreate (Some 5)) ?s0" "c_allowed ?reg ?s1" "c_allowed (EngineDestroy (Some 5)) ?s2"
    by (simp_all add: eval)
  from c_call [OF c_call [OF c_call [OF c_init this(1)] this(2)] this(3)]
  show "c_reachable sample_c_env reused_address"
    by (simp only: reused_address_def fold_simps)
  show "cs_engines reused_address 5 = None" by (simp add: reused_address_def eval)
qed

lemma registries_isolated_example:
  "\<exists>s1 s2. fastrules_engine_create sample_vm (Some 5) reused_address = (Some 5, s1) \<and>
     fastrules_add_typed_param True (Some 5) None (Some ''c'') (Some ''Customer'') (Some ''age=25'') True s1 =
       ((FASTRULES_ERROR_UNKNOWN, None), s2) \<and>
     fastrules_engine_get_last_error (Some 5) s2 = ''Type not registered''"
  using registries_isolated [OF reused_address_reachable] by blast

text \<open>Two rules with the same number: the execution fails in the validation.\<close>

definition duplicate_ids :: "unit c_state" where
  "duplicate_ids =
     (init_c_state sample_world 0)\<lparr>
       cs_engines := [5 \<mapsto> \<lparr>fe_engine = w_engine sample_world, fe_last_error = []\<rparr>],
       cs_workflows := [8 \<mapsto> default_workflow\<lparr>wf_rules :=
         [c_rule 0 7 None ''x'' None None True, c_rule 1 7 None ''y'' None None True]\<rparr>]\<rparr>"


end
