(* ===== verification/Async_Workflow.thy ===== *)
theory Async_Workflow
  imports Workflow
begin

text \<open>
  \<^verbatim>\<open>AsyncWorkflow\<close> (include/fastrules/async_workflow.hpp, src/async_workflow.cpp): a workflow with an engine pool of its
  own whose levels run as tasks of a thread pool, and the two coroutines. The loop that builds the levels
  does not end when rules depend on each other in a circle: not returning is \<open>None\<close>. Arguments are those of
  \<open>Workflow\<close>: \<open>it\<close>, the iteration order of the map of remaining rules, and \<open>sched\<close>, the order in which the tasks of a
  level run. \<^verbatim>\<open>pendingTasks_\<close> is never filled, so \<^verbatim>\<open>waitForCompletion\<close> has nothing to wait for.
\<close>

section \<open>State and compilation\<close>

record 'h AsyncWorkflow =
  aw_workflow :: "'h Workflow"
  aw_threadCount :: nat
  aw_compiled :: bool
  aw_useEnginePool :: bool
  aw_enginePool :: "nat list"
  aw_enginePoolStorage :: "'h LuaEngine list"

record 'h aw_state =
  as_aw :: "'h AsyncWorkflow"
  as_w :: "'h world"
  as_instances :: "64 word"

definition make_async :: "'h Workflow \<Rightarrow> nat \<Rightarrow> 'h AsyncWorkflow" where
  "make_async wk n =
     \<lparr>aw_workflow = wk, aw_threadCount = n, aw_compiled = False, aw_useEnginePool = False, aw_enginePool = [],
      aw_enginePoolStorage = []\<rparr>"

text \<open>The call of \<^verbatim>\<open>Workflow::compile\<close> and the loop over the clones, which is the one of the workflow itself but fills
  another vector.\<close>

definition aw_compile ::
    "'h fr_env \<Rightarrow> (rule_map \<Rightarrow> rule_map) \<Rightarrow> (int list \<Rightarrow> int list) \<Rightarrow> nat \<Rightarrow> 'h aw_state \<Rightarrow> (exn + unit) \<times> 'h aw_state" where
  "aw_compile env it its hw s =
     (if aw_compiled (as_aw s) then (Inr (), s)
      else case wf_compile env it its hw
                  \<lparr>s_wf = aw_workflow (as_aw s), s_w = as_w s, s_instances = as_instances s\<rparr> of
             (Inl e, s1) \<Rightarrow>
               (Inl e, s\<lparr>as_aw := (as_aw s)\<lparr>aw_workflow := s_wf s1\<rparr>, as_w := s_w s1, as_instances := s_instances s1\<rparr>)
           | (Inr _, s1) \<Rightarrow>
               (let n = max (aw_threadCount (as_aw s)) 2;
                    (r, s2) = build_pool env n (s1\<lparr>s_wf := (s_wf s1)\<lparr>enginePoolStorage := []\<rparr>\<rparr>);
                    storage = enginePoolStorage (s_wf s2);
                    aw1 = (as_aw s)\<lparr>aw_workflow := s_wf s1, aw_enginePoolStorage := storage\<rparr>;
                    s3 = s\<lparr>as_aw := aw1, as_w := s_w s2, as_instances := s_instances s2\<rparr>
                in case r of
                     Inl e \<Rightarrow> (Inl e, s3)
                   | Inr _ \<Rightarrow>
                       (Inr (), s3\<lparr>as_aw := aw1\<lparr>aw_enginePool := rev [0..<length storage], aw_useEnginePool := True,
                                                  aw_compiled := True\<rparr>\<rparr>)))"

definition aw_acquireEngine :: "'h AsyncWorkflow \<Rightarrow> nat option \<times> 'h AsyncWorkflow" where
  "aw_acquireEngine aw =
     (if aw_useEnginePool aw
      then (case aw_enginePool aw of [] \<Rightarrow> (None, aw) | i # is \<Rightarrow> (Some i, aw\<lparr>aw_enginePool := is\<rparr>))
      else (None, aw))"

definition aw_releaseEngine :: "nat \<Rightarrow> 'h AsyncWorkflow \<Rightarrow> 'h AsyncWorkflow" where
  "aw_releaseEngine i aw = (if aw_useEnginePool aw then aw\<lparr>aw_enginePool := i # aw_enginePool aw\<rparr> else aw)"

section \<open>Dependency levels\<close>

text \<open>The rules of a round: no rule that is left has the name the rule depends on.\<close>

definition async_ready :: "(rule_map \<Rightarrow> rule_map) \<Rightarrow> rule_map \<Rightarrow> Rule list" where
  "async_ready it remaining =
     map snd (filter (\<lambda>(i, r). case rdep r of
         None \<Rightarrow> True | Some n \<Rightarrow> \<not> list_ex (\<lambda>(j, q). rname q = n) remaining) (it remaining))"

partial_function (option) async_levels :: "(rule_map \<Rightarrow> rule_map) \<Rightarrow> rule_map \<Rightarrow> Rule list list option" where
  "async_levels it remaining =
     (if remaining = [] then Some []
      else let level = async_ready it remaining
           in Option.bind (async_levels it (fold (\<lambda>r. AList.delete (rid r)) level remaining))
                (\<lambda>ls. Some (if level \<noteq> [] then level # ls else ls)))"

section \<open>Execution\<close>

text \<open>The time stamp of an \<^verbatim>\<open>AsyncRuleResult\<close> is never set.\<close>

definition async_value :: "RuleResult \<Rightarrow> AsyncRuleResult" where
  "async_value r = \<lparr>async_result = r, async_exception = None, async_completedAt = 0\<rparr>"

definition skip_result :: "Rule \<Rightarrow> AsyncRuleResult" where
  "skip_result r = async_value (RuleResult (rname r) 0 True True None 0 0 init_metrics [])"

text \<open>One task: it works on a copy of the shared context, which is dropped at its end. \<^verbatim>\<open>Rule::execute\<close> does not throw.\<close>

definition async_task ::
    "'h fr_env \<Rightarrow> RuleParameter list \<Rightarrow> RuleContext \<Rightarrow> Rule \<Rightarrow> 'h aw_state \<Rightarrow> AsyncRuleResult \<times> 'h aw_state" where
  "async_task env ps shared r s =
     (case aw_acquireEngine (as_aw s) of
        (None, aw) \<Rightarrow>
          (async_value (RuleResult (rname r) 0 False False (Some ''Failed to acquire engine from pool'') 0 0 init_metrics []), s\<lparr>as_aw := aw\<rparr>)
      | (Some i, aw) \<Rightarrow>
          (let w = as_w s;
               (res, w1) = execute env r ps (w\<lparr>w_engine := aw_enginePoolStorage aw ! i, w_ctx := shared\<rparr>);
               aw1 = aw\<lparr>aw_enginePoolStorage := (aw_enginePoolStorage aw)[i := w_engine w1]\<rparr>
           in (async_value res,
               s\<lparr>as_aw := aw_releaseEngine i aw1, as_w := w1\<lparr>w_engine := w_engine w, w_ctx := w_ctx w\<rparr>\<rparr>)))"

fun async_tasks ::
    "'h fr_env \<Rightarrow> RuleParameter list \<Rightarrow> RuleContext \<Rightarrow> (nat \<times> Rule) list \<Rightarrow> 'h aw_state
       \<Rightarrow> (nat \<times> AsyncRuleResult) list \<times> 'h aw_state" where
  "async_tasks env ps shared [] s = ([], s)"
| "async_tasks env ps shared ((i, r) # ts) s =
     (let (res, s1) = async_task env ps shared r s; (rest, s2) = async_tasks env ps shared ts s1
      in ((i, res) # rest, s2))"

text \<open>A level: inactive rules are reported first, then the results of the tasks in the order of the futures; each is
  merged into the shared context under the name it carries.\<close>

definition async_level ::
    "'h fr_env \<Rightarrow> ((nat \<times> Rule) list \<Rightarrow> (nat \<times> Rule) list) \<Rightarrow> RuleParameter list \<Rightarrow> RuleContext \<Rightarrow> Rule list \<Rightarrow> 'h aw_state
       \<Rightarrow> AsyncRuleResult list \<times> RuleContext \<times> 'h aw_state" where
  "async_level env sched ps shared level s =
     (let act = filter (\<lambda>r. isActive (rdata r)) level;
          skips = map skip_result (filter (\<lambda>r. \<not> isActive (rdata r)) level);
          (outs, s1) = async_tasks env ps shared (sched (enumerate 0 act)) s;
          outcome = map (\<lambda>(i, r). the (map_of outs i)) (enumerate 0 act)
      in (skips @ outcome,
          fold (\<lambda>a ctx. setResult (res_ruleName (async_result a)) (async_result a) ctx) outcome shared, s1))"

fun async_run ::
    "'h fr_env \<Rightarrow> ((nat \<times> Rule) list \<Rightarrow> (nat \<times> Rule) list) \<Rightarrow> RuleParameter list \<Rightarrow> RuleContext \<Rightarrow> Rule list list \<Rightarrow> 'h aw_state
       \<Rightarrow> AsyncRuleResult list \<times> 'h aw_state" where
  "async_run env sched ps shared [] s = ([], s)"
| "async_run env sched ps shared (level # ls) s =
     (let (rs, shared1, s1) = async_level env sched ps shared level s; (rest, s2) = async_run env sched ps shared1 ls s1
      in (rs @ rest, s2))"

definition executeParallelAsync ::
    "'h fr_env \<Rightarrow> (rule_map \<Rightarrow> rule_map) \<Rightarrow> (int list \<Rightarrow> int list) \<Rightarrow> nat \<Rightarrow> ((nat \<times> Rule) list \<Rightarrow> (nat \<times> Rule) list)
       \<Rightarrow> RuleParameter list \<Rightarrow> 'h aw_state \<Rightarrow> ((exn + AsyncRuleResult list) \<times> 'h aw_state) option" where
  "executeParallelAsync env it its hw sched ps s =
     (case aw_compile env it its hw s of
        (Inl e, s1) \<Rightarrow> Some (Inl e, s1)
      | (Inr _, s1) \<Rightarrow>
          (case async_levels it (ruleMap_of (wf_rules (aw_workflow (as_aw s1)))) of
             None \<Rightarrow> None
           | Some ls \<Rightarrow> (let (rs, s2) = async_run env sched ps init_context ls s1 in Some (Inr rs, s2))))"

section \<open>Coroutines\<close>

text \<open>Neither coroutine suspends before its end: the body runs when it is called and leaves its value or its exception
  in the promise. \<^verbatim>\<open>get\<close> finds the coroutine done.\<close>

definition run_body :: "'a \<Rightarrow> exn + 'a \<Rightarrow> 'a promise_type" where
  "run_body dflt b =
     (case b of
        Inl e \<Rightarrow> \<lparr>promise_value = dflt, promise_exception = Some e\<rparr>
      | Inr v \<Rightarrow> \<lparr>promise_value = v, promise_exception = None\<rparr>)"

text \<open>\<^verbatim>\<open>AsyncWorkflowTask::get\<close>: \<open>finished\<close> is \<^verbatim>\<open>handle_.done()\<close>. A coroutine that is not done is resumed first; none is
  ever in that state, since the body does not suspend.\<close>

definition workflow_task_get :: "bool \<Rightarrow> 'a promise_type \<Rightarrow> exn + 'a" where
  "workflow_task_get finished p =
     (if finished then Inr (promise_value p)
      else (case promise_exception p of Some e \<Rightarrow> Inl e | None \<Rightarrow> Inr (promise_value p)))"

definition coExecuteRule ::
    "'h fr_env \<Rightarrow> Rule \<Rightarrow> RuleParameter list \<Rightarrow> 'h world \<Rightarrow> AsyncRuleResult promise_type \<times> 'h world" where
  "coExecuteRule env r ps w =
     (let (res, w1) = execute env r ps w
      in (run_body (async_value init_result) (Inr (async_value res)), w1))"

fun collect_async :: "AsyncRuleResult list \<Rightarrow> exn + RuleResult list" where
  "collect_async [] = Inr []"
| "collect_async (a # as) =
     (case async_exception a of Some e \<Rightarrow> Inl e | None \<Rightarrow> map_sum id (Cons (async_result a)) (collect_async as))"

definition coExecuteWorkflow ::
    "'h fr_env \<Rightarrow> (rule_map \<Rightarrow> rule_map) \<Rightarrow> (int list \<Rightarrow> int list) \<Rightarrow> nat \<Rightarrow> ((nat \<times> Rule) list \<Rightarrow> (nat \<times> Rule) list)
       \<Rightarrow> 'h Workflow \<Rightarrow> RuleParameter list \<Rightarrow> nat \<Rightarrow> 'h world \<Rightarrow> 64 word \<Rightarrow> (RuleResult list promise_type \<times> 'h world) option" where
  "coExecuteWorkflow env it its hw sched wk ps n w instances =
     (let s = \<lparr>as_aw = make_async wk n, as_w = w, as_instances = instances\<rparr>
      in case aw_compile env it its hw s of
           (Inl e, s1) \<Rightarrow> Some (run_body [] (Inl e), as_w s1)
         | (Inr _, s1) \<Rightarrow>
             map_option (\<lambda>(r, s2). (run_body [] (case r of Inl e \<Rightarrow> Inl e | Inr as \<Rightarrow> collect_async as), as_w s2))
               (executeParallelAsync env it its hw sched ps s1))"

section \<open>When the loop over the levels ends\<close>

text \<open>A set of rules in which every rule waits for another one of the set.\<close>

definition waiting :: "Rule set \<Rightarrow> bool" where
  "waiting S \<longleftrightarrow> S \<noteq> {} \<and> (\<forall>r\<in>S. \<exists>q\<in>S. rdep r = Some (rname q))"

definition keyed :: "rule_map \<Rightarrow> bool" where
  "keyed m \<longleftrightarrow> distinct (map fst m) \<and> (\<forall>(i, r)\<in>set m. i = rid r)"

abbreviation rules_left :: "rule_map \<Rightarrow> Rule set" where "rules_left m \<equiv> snd ` set m"

lemma fold_delete_filter:
  "fold (\<lambda>r. AList.delete (rid r)) L m = filter (\<lambda>(i, r). i \<notin> rid ` set L) m"
proof (induction L arbitrary: m)
  case (Cons r L)
  have "AList.delete (rid r) m = filter (\<lambda>(i, q). i \<noteq> rid r) m" by (induction m) auto
  with Cons show ?case by (auto intro: filter_cong)
qed simp

lemma set_async_ready:
  assumes "\<forall>m. mset (it m) = mset m"
  shows "r \<in> set (async_ready it m) \<longleftrightarrow> r \<in> rules_left m \<and> (\<forall>q\<in>rules_left m. rdep r \<noteq> Some (rname q))"
proof -
  from assms have "set (it m) = set m" by (metis set_mset_mset)
  then show ?thesis by (force simp: async_ready_def list_ex_iff split: option.splits)
qed

text \<open>The rules that are left after a round.\<close>

lemma mset_async_ready:
  assumes "\<forall>m. mset (it m) = mset m"
  shows "mset (async_ready it m) = mset (map snd (filter (\<lambda>(i, r). r \<in> set (async_ready it m)) m))"
proof -
  let ?P = "\<lambda>(i, r). case rdep r of None \<Rightarrow> True | Some n \<Rightarrow> \<not> list_ex (\<lambda>(j, q). rname q = n) m"
  have set: "set (it m) = set m" using assms by (metis set_mset_mset)
  have P: "?P x \<longleftrightarrow> snd x \<in> set (async_ready it m)" if "x \<in> set m" for x
    using that by (force simp: async_ready_def set split: option.splits)
  have "mset (filter ?P (it m)) = mset (filter ?P m)" by (simp only: mset_filter assms)
  then have "mset (async_ready it m) = mset (map snd (filter ?P m))" by (simp add: async_ready_def)
  also have "filter ?P m = filter (\<lambda>(i, r). r \<in> set (async_ready it m)) m"
    using P by (intro filter_cong) (auto simp: split_beta)
  finally show ?thesis .
qed

lemma remaining_after:
  assumes "keyed m" "\<forall>m. mset (it m) = mset m"
  defines "m' \<equiv> fold (\<lambda>r. AList.delete (rid r)) (async_ready it m) m"
  shows "rules_left m' = rules_left m - set (async_ready it m)" "keyed m'"
    "mset (async_ready it m @ map snd m') = mset (map snd m)"
proof -
  let ?L = "async_ready it m"
  have L: "r \<in> rules_left m" if "r \<in> set ?L" for r using set_async_ready [OF assms(2)] that by blast
  have own: "i = rid r" if "(i, r) \<in> set m" for i r using assms(1) that by (auto simp: keyed_def)
  have key: "i \<in> rid ` set ?L \<longleftrightarrow> r \<in> set ?L" if "(i, r) \<in> set m" for i r
  proof
    assume "i \<in> rid ` set ?L"
    then obtain q where q: "q \<in> set ?L" "i = rid q" by auto
    with L [OF q(1)] obtain j where "(j, q) \<in> set m" by auto
    with own q have "(i, q) \<in> set m" by auto
    with that assms(1) have "q = r" by (metis keyed_def eq_key_imp_eq_value)
    with q show "r \<in> set ?L" by simp
  qed (use own that in auto)
  then have m': "m' = filter (\<lambda>(i, r). r \<notin> set ?L) m"
    unfolding m'_def fold_delete_filter by (intro filter_cong) auto
  then show "rules_left m' = rules_left m - set ?L" by force
  show "keyed m'" using assms(1) by (auto simp: keyed_def m' distinct_map_filter)
  have "mset (map snd m) = image_mset snd (mset (filter (\<lambda>(i, r). r \<in> set ?L) m) + mset m')"
    unfolding m' by (simp add: case_prod_unfold flip: image_mset_union multiset_partition)
  with mset_async_ready [OF assms(2)] show "mset (?L @ map snd m') = mset (map snd m)" by simp
qed

lemma remaining_shorter:
  assumes "keyed m" "\<forall>m. mset (it m) = mset m" "async_ready it m \<noteq> []"
  shows "length (fold (\<lambda>r. AList.delete (rid r)) (async_ready it m) m) < length m"
  using remaining_after(3) [OF assms(1,2), THEN arg_cong, of size] assms(3) by (cases "async_ready it m") simp_all

lemma no_round_waiting:
  assumes "\<forall>m. mset (it m) = mset m" "m \<noteq> []" "async_ready it m = []"
  shows "waiting (rules_left m)"
  using assms(2,3) set_async_ready [OF assms(1), of _ m] by (auto simp: waiting_def neq_Nil_conv)

lemma async_levels_returns:
  assumes perm: "\<forall>m. mset (it m) = mset m"
  shows "keyed m \<Longrightarrow> \<forall>S\<subseteq>rules_left m. \<not> waiting S \<Longrightarrow> \<exists>ls. async_levels it m = Some ls"
proof (induction "length m" arbitrary: m rule: less_induct)
  case less
  show ?case
  proof (cases "m = []")
    case True
    then show ?thesis by (simp add: async_levels.simps)
  next
    case False
    let ?m = "fold (\<lambda>r. AList.delete (rid r)) (async_ready it m) m"
    note after = remaining_after [OF less.prems(1) perm]
    from False less.prems(2) no_round_waiting [OF perm, of m] have "async_ready it m \<noteq> []" by blast
    with after less.prems remaining_shorter [OF less.prems(1) perm] have "length ?m < length m" "keyed ?m" "\<forall>S\<subseteq>rules_left ?m. \<not> waiting S" by auto
    then obtain ls where "async_levels it ?m = Some ls" using less.hyps by blast
    with False show ?thesis by (simp add: async_levels.simps [of it m] Let_def)
  qed
qed

lemma async_levels_stuck:
  assumes "m \<noteq> []" "async_ready it m = []"
  shows "async_levels it m = None"
proof (rule ccontr)
  assume "async_levels it m \<noteq> None"
  then obtain ls where "async_levels it m = Some ls" by auto
  then have "(it, m) \<noteq> (it, m)"
  proof (rule async_levels.raw_induct [where P = "\<lambda>it' m' ls. (it', m') \<noteq> (it, m)", rotated])
    fix f it' m' ls'
    assume IH: "\<And>it' m' y. f it' m' = Some y \<Longrightarrow> (it', m') \<noteq> (it, m)"
      and body: "(if m' = [] then Some []
        else let level = async_ready it' m'
             in Option.bind (f it' (fold (\<lambda>r. AList.delete (rid r)) level m'))
                  (\<lambda>ls. Some (if level \<noteq> [] then level # ls else ls))) = Some ls'"
    show "(it', m') \<noteq> (it, m)"
    proof
      assume "(it', m') = (it, m)"
      with body assms obtain y where "f it m = Some y" by (auto simp: bind_eq_Some_conv)
      from IH [OF this] show False by simp
    qed
  qed
  then show False by simp
qed

text \<open>What the levels are: all rules, and a rule's provider is in an earlier level.\<close>

fun layered :: "Rule list list \<Rightarrow> bool" where
  "layered [] = True"
| "layered (l # ls) = ((\<forall>r\<in>set l. \<forall>q\<in>set (concat (l # ls)). rdep r \<noteq> Some (rname q)) \<and> layered ls)"

lemma async_levels_sound:
  assumes perm: "\<forall>m. mset (it m) = mset m"
  shows "keyed m \<Longrightarrow> async_levels it m = Some ls \<Longrightarrow>
    mset (concat ls) = mset (map snd m) \<and> layered ls \<and> (\<forall>S\<subseteq>rules_left m. \<not> waiting S)"
proof (induction "length m" arbitrary: m ls rule: less_induct)
  case less
  show ?case
  proof (cases "m = []")
    case True
    with less.prems show ?thesis by (auto simp: async_levels.simps waiting_def)
  next
    case False
    let ?L = "async_ready it m" and ?m = "fold (\<lambda>r. AList.delete (rid r)) (async_ready it m) m"
    from less.prems(2) async_levels_stuck [OF False, of it] have ne: "?L \<noteq> []" by auto
    note after = remaining_after [OF less.prems(1) perm]
    note ready = set_async_ready [OF perm, of _ m]
    from less.prems(2) False ne obtain ks where ks: "async_levels it ?m = Some ks" "ls = ?L # ks"
      by (auto simp: async_levels.simps [of it m] Let_def bind_eq_Some_conv)
    from less.hyps [OF remaining_shorter [OF less.prems(1) perm ne] after(2) ks(1)]
    have IH: "mset (concat ks) = mset (map snd ?m)" "layered ks" "\<forall>S\<subseteq>rules_left ?m. \<not> waiting S" by blast+
    have all: "mset (concat ls) = mset (map snd m)" using IH(1) after(3) by (simp add: ks(2))
    then have "set (concat ls) = rules_left m" by (metis set_map set_mset_mset)
    then have "layered ls" using IH(2) ready by (auto simp: ks(2))
    moreover have "\<not> waiting S" if S: "S \<subseteq> rules_left m" for S
    proof
      assume w: "waiting S"
      have "r \<notin> set ?L" if "r \<in> S" for r using w S that ready unfolding waiting_def by blast
      with S after(1) have "S \<subseteq> rules_left ?m" by auto
      with IH(3) w show False by blast
    qed
    ultimately show ?thesis using all by blast
  qed
qed

lemma keyed_ruleMap: "distinct (map rid rules) \<Longrightarrow> keyed (ruleMap_of rules) \<and> map snd (ruleMap_of rules) = rules"
  by (simp add: ruleMap_of_distinct keyed_def comp_def split_beta map_idI)

lemma waiting_cyclic:
  assumes u: "unambiguous rules"
  shows "(\<exists>S\<subseteq>set rules. waiting S) \<longleftrightarrow> cyclic rules"
proof
  assume "\<exists>S\<subseteq>set rules. waiting S"
  then obtain S where S: "S \<subseteq> set rules" "waiting S" by blast
  have "r \<in> S \<longrightarrow> False" if "depth rules r k" for r k
    using that
  proof (induction rule: depth.induct)
    case (depth_0 r)
    show ?case
    proof
      assume r: "r \<in> S"
      with S obtain q where q: "q \<in> S" "rdep r = Some (rname q)" by (auto simp: waiting_def)
      with r S provider_iff [OF u, of r q] depth_0 show False by auto
    qed
  next
    case (depth_Suc r p k)
    show ?case
    proof
      assume r: "r \<in> S"
      with S obtain q where q: "q \<in> S" "rdep r = Some (rname q)" by (auto simp: waiting_def)
      with r S provider_iff [OF u, of r q] depth_Suc show False by auto
    qed
  qed
  moreover from S obtain r where "r \<in> S" by (auto simp: waiting_def)
  ultimately show "cyclic rules" using S(1) unfolding cyclic_iff_unranked by blast
next
  assume "cyclic rules"
  let ?S = "{r \<in> set rules. \<nexists>k. depth rules r k}"
  have "\<exists>q\<in>?S. rdep r = Some (rname q)" if r: "r \<in> ?S" for r
  proof -
    from r have "provider rules r \<noteq> None" using depth_0 by blast
    then obtain q where q: "provider rules r = Some q" by auto
    with r have "\<nexists>k. depth rules q k" using depth_Suc by blast
    with provider_SomeD [OF q] show ?thesis by blast
  qed
  moreover have "?S \<noteq> {}" using \<open>cyclic rules\<close> by (auto simp: cyclic_iff_unranked)
  ultimately have "waiting ?S" unfolding waiting_def by blast
  then show "\<exists>S\<subseteq>set rules. waiting S" by (intro exI [of _ ?S]) simp
qed

text \<open>
  C18. When the loop that builds the levels ends: \<^verbatim>\<open>executeParallelAsync\<close> has no check for a round without a ready rule, so
  it runs forever exactly if the dependencies of the rules are cyclic. If they are not, the levels hold every rule once,
  and no rule stands in the same or a later level than a rule that it depends on, whatever the order in which the hash
  map is traversed.
\<close>

theorem async_levels_end:
  assumes "unambiguous rules" "\<forall>m. mset (it m) = mset m"
  shows "(async_levels it (ruleMap_of rules) = None \<longleftrightarrow> cyclic rules) \<and>
    (\<forall>ls. async_levels it (ruleMap_of rules) = Some ls \<longrightarrow> mset (concat ls) = mset rules \<and> layered ls)"
proof -
  have k: "keyed (ruleMap_of rules)" "map snd (ruleMap_of rules) = rules"
    using keyed_ruleMap assms(1) by (simp_all add: unambiguous_def)
  then have left: "rules_left (ruleMap_of rules) = set rules" by (metis set_map)
  note sound = async_levels_sound [OF assms(2) k(1), unfolded left k(2)]
  note returns = async_levels_returns [OF assms(2) k(1), unfolded left]
  show ?thesis
  proof (cases "async_levels it (ruleMap_of rules)")
    case None
    with returns waiting_cyclic [OF assms(1)] show ?thesis by auto
  next
    case (Some ls)
    from sound [OF Some] waiting_cyclic [OF assms(1)] Some show ?thesis by auto
  qed
qed

theorem async_levels_end_witness:
  "\<exists>ls. async_levels rev (ruleMap_of sample_rules) = Some ls \<and> mset (concat ls) = mset sample_rules"
proof -
  have "\<not> cyclic sample_rules"
    using buildDependencyLevels_iff(1) [OF sample_rules_unambiguous] sample_rules_levels by simp
  with async_levels_end [OF sample_rules_unambiguous, of rev] show ?thesis
    by (cases "async_levels rev (ruleMap_of sample_rules)") simp_all
qed

section \<open>Results and engines\<close>

text \<open>A pool that is in use, with indices into the storage.\<close>

definition aw_pool_ready :: "'h AsyncWorkflow \<Rightarrow> bool" where
  "aw_pool_ready aw \<longleftrightarrow> aw_useEnginePool aw \<and> aw_enginePool aw \<noteq> [] \<and>
     (\<forall>i\<in>set (aw_enginePool aw). i < length (aw_enginePoolStorage aw))"

lemma async_task_pool:
  assumes "aw_pool_ready (as_aw s)"
  shows "\<exists>i w1. async_task env ps shared r s = (async_value (fst (execute env r ps w1)), snd (async_task env ps shared r s)) \<and>
      i < length (aw_enginePoolStorage (as_aw s)) \<and> w_engine w1 = aw_enginePoolStorage (as_aw s) ! i \<and> w_ctx w1 = shared"
    "aw_pool_ready (as_aw (snd (async_task env ps shared r s)))"
    "aw_enginePool (as_aw (snd (async_task env ps shared r s))) = aw_enginePool (as_aw s)"
    "length (aw_enginePoolStorage (as_aw (snd (async_task env ps shared r s)))) = length (aw_enginePoolStorage (as_aw s))"
    "aw_workflow (as_aw (snd (async_task env ps shared r s))) = aw_workflow (as_aw s)"
proof -
  from assms obtain i js where p: "aw_enginePool (as_aw s) = i # js" "aw_useEnginePool (as_aw s)" "i < length (aw_enginePoolStorage (as_aw s))"
    by (auto simp: aw_pool_ready_def neq_Nil_conv)
  let ?w = "(as_w s)\<lparr>w_engine := aw_enginePoolStorage (as_aw s) ! i, w_ctx := shared\<rparr>"
  note eval = async_task_def aw_acquireEngine_def aw_releaseEngine_def Let_def split_beta
  have "async_task env ps shared r s = (async_value (fst (execute env r ps ?w)), snd (async_task env ps shared r s))"
    using p by (simp add: eval)
  with p(3) show "\<exists>i w1. async_task env ps shared r s = (async_value (fst (execute env r ps w1)), snd (async_task env ps shared r s)) \<and>
      i < length (aw_enginePoolStorage (as_aw s)) \<and> w_engine w1 = aw_enginePoolStorage (as_aw s) ! i \<and> w_ctx w1 = shared"
    by (intro exI [of _ i] exI [of _ ?w]) simp
  show "aw_pool_ready (as_aw (snd (async_task env ps shared r s)))"
    "aw_enginePool (as_aw (snd (async_task env ps shared r s))) = aw_enginePool (as_aw s)"
    "length (aw_enginePoolStorage (as_aw (snd (async_task env ps shared r s)))) = length (aw_enginePoolStorage (as_aw s))"
    "aw_workflow (as_aw (snd (async_task env ps shared r s))) = aw_workflow (as_aw s)"
    using assms p by (auto simp: eval aw_pool_ready_def)
qed

text \<open>The result of one rule that ran on some engine with the given context.\<close>

definition ran_with :: "'h fr_env \<Rightarrow> RuleParameter list \<Rightarrow> RuleContext \<Rightarrow> Rule \<Rightarrow> AsyncRuleResult \<Rightarrow> bool" where
  "ran_with env ps shared r a \<longleftrightarrow> (\<exists>w1. a = async_value (fst (execute env r ps w1)) \<and> w_ctx w1 = shared)"

lemma async_tasks_spec:
  assumes "aw_pool_ready (as_aw s)" "async_tasks env ps shared ts s = (outs, s')"
  shows "map fst outs = map fst ts \<and> (\<forall>k<length ts. ran_with env ps shared (snd (ts ! k)) (snd (outs ! k))) \<and>
    aw_pool_ready (as_aw s') \<and> aw_enginePool (as_aw s') = aw_enginePool (as_aw s) \<and> aw_workflow (as_aw s') = aw_workflow (as_aw s)"
  using assms
proof (induction ts arbitrary: s outs)
  case (Cons t ts)
  obtain i r where t: "t = (i, r)" by (cases t)
  obtain res s1 where st: "async_task env ps shared r s = (res, s1)" by fastforce
  obtain rest where rest: "async_tasks env ps shared ts s1 = (rest, s')" "outs = (i, res) # rest"
    using Cons.prems(2) by (auto simp: t st split: prod.splits)
  note task = async_task_pool [OF Cons.prems(1), of env ps shared r, unfolded st]
  from task(1) have "ran_with env ps shared r res" by (auto simp: ran_with_def)
  with Cons.IH [OF _ rest(1)] task(2,3,5) rest(2) t show ?case by (auto simp: nth_Cons split: nat.split)
qed simp

lemma map_of_outs:
  assumes "map fst outs = map fst ts" "distinct (map fst ts)" "k < length ts"
  shows "map_of outs (fst (ts ! k)) = Some (snd (outs ! k))"
proof -
  from assms have "length outs = length ts" "fst (outs ! k) = fst (ts ! k)"
    by (metis length_map, metis length_map nth_map)
  with assms have "(fst (ts ! k), snd (outs ! k)) \<in> set outs" by (metis nth_mem prod.collapse)
  with assms(1,2) show ?thesis by (metis map_of_is_SomeI)
qed

text \<open>What a run returns: level by level the inactive rules, then the results of the active ones, each run with the
  context that holds the results of the levels before.\<close>

definition merge_results :: "AsyncRuleResult list \<Rightarrow> RuleContext \<Rightarrow> RuleContext" where
  "merge_results as ctx = fold (\<lambda>a ctx. setResult (res_ruleName (async_result a)) (async_result a) ctx) as ctx"

fun async_report :: "'h fr_env \<Rightarrow> RuleParameter list \<Rightarrow> RuleContext \<Rightarrow> Rule list list \<Rightarrow> AsyncRuleResult list \<Rightarrow> bool" where
  "async_report env ps shared [] rs = (rs = [])"
| "async_report env ps shared (l # ls) rs =
     (\<exists>outs rest. rs = map skip_result (filter (\<lambda>r. \<not> isActive (rdata r)) l) @ outs @ rest \<and>
        list_all2 (ran_with env ps shared) (filter (\<lambda>r. isActive (rdata r)) l) outs \<and>
        async_report env ps (merge_results outs shared) ls rest)"

lemma async_report_length: "async_report env ps shared ls rs \<Longrightarrow> length rs = length (concat ls)"
proof (induction ls arbitrary: shared rs)
  case (Cons l ls)
  then obtain outs rest where o: "rs = map skip_result (filter (\<lambda>r. \<not> isActive (rdata r)) l) @ outs @ rest"
    "length outs = length (filter (\<lambda>r. isActive (rdata r)) l)" "length rest = length (concat ls)"
    by (auto dest: list_all2_lengthD)
  then show ?case using sum_length_filter_compl [of "\<lambda>r. isActive (rdata r)" l] by simp
qed simp

lemma async_level_spec:
  assumes "aw_pool_ready (as_aw s)" "\<forall>ts. mset (sched ts) = mset ts" "async_level env sched ps shared level s = (rs, shared', s')"
  shows "\<exists>outs. rs = map skip_result (filter (\<lambda>r. \<not> isActive (rdata r)) level) @ outs \<and>
      list_all2 (ran_with env ps shared) (filter (\<lambda>r. isActive (rdata r)) level) outs \<and> shared' = merge_results outs shared"
    "aw_pool_ready (as_aw s')" "aw_enginePool (as_aw s') = aw_enginePool (as_aw s)" "aw_workflow (as_aw s') = aw_workflow (as_aw s)"
proof -
  let ?act = "filter (\<lambda>r. isActive (rdata r)) level"
  let ?ts = "sched (enumerate 0 ?act)"
  obtain outs s1 where run: "async_tasks env ps shared ?ts s = (outs, s1)" by fastforce
  define res where "res = map (\<lambda>(i, r). the (map_of outs i)) (enumerate 0 ?act)"
  have out: "rs = map skip_result (filter (\<lambda>r. \<not> isActive (rdata r)) level) @ res" "shared' = merge_results res shared" "s' = s1"
    using assms(3) run by (auto simp: async_level_def Let_def res_def merge_results_def)
  note spec = async_tasks_spec [OF assms(1) run]
  have perm: "mset ?ts = mset (enumerate 0 ?act)" using assms(2) by simp
  then have "mset (map fst ?ts) = mset (map fst (enumerate 0 ?act))" by (metis mset_map)
  then have d: "distinct (map fst ?ts)" by (metis distinct_upt map_fst_enumerate mset_eq_imp_distinct_iff)
  have "ran_with env ps shared (?act ! k) (res ! k)" if k: "k < length ?act" for k
  proof -
    have "(k, ?act ! k) \<in> set ?ts" using k perm by (metis set_mset_mset nth_mem nth_enumerate_eq length_enumerate add_0)
    then obtain j where j: "j < length ?ts" "?ts ! j = (k, ?act ! k)" by (auto simp: in_set_conv_nth)
    with spec map_of_outs [OF _ d j(1), of outs] k show ?thesis by (auto simp: res_def nth_enumerate_eq)
  qed
  then have "list_all2 (ran_with env ps shared) ?act res" by (simp add: list_all2_conv_all_nth res_def)
  with out spec show "\<exists>outs. rs = map skip_result (filter (\<lambda>r. \<not> isActive (rdata r)) level) @ outs \<and>
      list_all2 (ran_with env ps shared) ?act outs \<and> shared' = merge_results outs shared"
    "aw_pool_ready (as_aw s')" "aw_enginePool (as_aw s') = aw_enginePool (as_aw s)" "aw_workflow (as_aw s') = aw_workflow (as_aw s)"
    by blast+
qed

lemma async_run_spec:
  assumes "aw_pool_ready (as_aw s)" "\<forall>ts. mset (sched ts) = mset ts" "async_run env sched ps shared ls s = (rs, s')"
  shows "async_report env ps shared ls rs \<and> aw_enginePool (as_aw s') = aw_enginePool (as_aw s)"
  using assms
proof (induction ls arbitrary: shared s rs)
  case (Cons l ls)
  obtain out shared1 s1 where lv: "async_level env sched ps shared l s = (out, shared1, s1)" by (metis surj_pair)
  obtain rest where rest: "async_run env sched ps shared1 ls s1 = (rest, s')" "rs = out @ rest"
    using Cons.prems(3) lv by (auto split: prod.splits)
  note spec = async_level_spec [OF Cons.prems(1,2) lv]
  from spec(1) Cons.IH [OF spec(2) Cons.prems(2) rest(1)] rest(2) spec(3) show ?case by fastforce
qed simp


definition sample_async :: "unit aw_state" where
  "sample_async =
     \<lparr>as_aw = (make_async ((wf_Builder 1)\<lparr>wf_rules := sample_rules\<rparr>) 2)
        \<lparr>aw_compiled := True, aw_useEnginePool := True, aw_enginePool := [1, 0],
         aw_enginePoolStorage := [create_engine sample_vm 2, create_engine sample_vm 3]\<rparr>,
      as_w = sample_world, as_instances = 3\<rparr>"


text \<open>Rules with number 0, which the validation allows more than once, share one entry of the map: only the last runs.\<close>

lemma unnumbered_rules_dropped:
  "async_levels it (ruleMap_of [dep_rule 0 ''a'' 0 None, dep_rule 0 ''b'' 0 None]) =
     async_levels it (ruleMap_of [dep_rule 0 ''b'' 0 None])"
  by (simp add: ruleMap_of_def dep_rule_def sample_data_def)

section \<open>The coroutine loses exceptions\<close>

text \<open>
  An exception of \<^verbatim>\<open>coExecuteWorkflow\<close> never reaches the caller: if the compilation of the workflow throws, for example
  because its rules are invalid, the promise holds the exception, but \<^verbatim>\<open>AsyncWorkflowTask::get\<close> looks at \<^verbatim>\<open>done()\<close> first and
  returns an empty list of results, as for a workflow without rules; the coroutine of a single rule, whose \<^verbatim>\<open>get\<close>
  looks at the exception first, would throw.
\<close>

lemma coroutine_swallows_exception:
  assumes "aw_compile env it its hw \<lparr>as_aw = make_async wk n, as_w = w, as_instances = k\<rparr> = (Inl e, s1)"
  shows "\<exists>p. coExecuteWorkflow env it its hw sched wk ps n w k = Some (p, as_w s1) \<and>
    workflow_task_get True p = Inr [] \<and> async_get [] (Some p) = Inl e"
  using assms by (simp add: coExecuteWorkflow_def run_body_def workflow_task_get_def async_get_def)

lemma coroutine_swallows_exception_example:
  "\<exists>p w1. coExecuteWorkflow sample_fr_env id id 2 id ((wf_Builder 1)\<lparr>wf_rules := [dep_rule 7 ''a'' 0 None, dep_rule 7 ''b'' 0 None]\<rparr>)
       [] 2 sample_world 0 = Some (p, w1) \<and>
     workflow_task_get True p = Inr [] \<and>
     async_get [] (Some p) = Inl (StdException RuleValidationException ''Duplicate rule ID detected: 7'')"
proof -
  let ?wk = "(wf_Builder 1)\<lparr>wf_rules := [dep_rule 7 ''a'' 0 None, dep_rule 7 ''b'' 0 None]\<rparr>"
  let ?s = "\<lparr>as_aw = make_async ?wk 2, as_w = sample_world, as_instances = 0\<rparr>"
  have "std_to_string 7 = ''7''" by (simp add: std_to_string_def nat_digits.simps char_eval)
  then have "aw_compile sample_fr_env id id 2 ?s =
      (Inl (StdException RuleValidationException ''Duplicate rule ID detected: 7''), ?s)"
    by (simp add: aw_compile_def make_async_def wf_compile_def wf_validate_def wf_Builder_def default_workflow_def dep_rule_def
        sample_data_def Let_def)
  from coroutine_swallows_exception [OF this] show ?thesis by blast
qed

end
