(* ===== verification/Sandbox.thy ===== *)
theory Sandbox
  imports Input_Validator Lua_Backend
begin

text \<open>
  The sandbox (include/fastrules/sandbox.hpp, src/sandbox.cpp): the configuration, the manager that restricts the
  globals of a Lua state, caps its memory with an allocator and its instructions with a hook, the lexical check of
  code and the scope guard. Of a \<^verbatim>\<open>lua_State\<close> the code uses the globals, one registry entry, the allocator and the hook
  slot; states and the enforcement data are tables from addresses. The logger is left out. A hash set is a set:
  the order in which its names are removed makes no difference.
\<close>

unbundle bit_operations_syntax

section \<open>The slots of a Lua state\<close>

datatype hook = SandboxHook | OtherHook nat

text \<open>An allocator is a function with its user data; the limiting one has the enforcement data.\<close>

datatype allocator = LimitAlloc nat | OtherAlloc nat nat

text \<open>A hook with its mask and count; \<^verbatim>\<open>lua_sethook\<close> with a null function or an empty mask turns it off.\<close>

type_synonym hook_slot = "(hook \<times> nat \<times> int) option"

record sb_lua =
  sb_globals :: "string \<Rightarrow> lua_value"
  sb_registry :: "nat option"
  sb_alloc :: allocator
  sb_hook :: hook_slot

definition lua_sethook :: "hook option \<Rightarrow> nat \<Rightarrow> int \<Rightarrow> sb_lua \<Rightarrow> sb_lua" where
  "lua_sethook f msk cnt lua =
     lua\<lparr>sb_hook := (case f of None \<Rightarrow> None | Some h \<Rightarrow> if msk = 0 then None else Some (h, msk, cnt))\<rparr>"

abbreviation LUA_MASKCOUNT :: nat where "LUA_MASKCOUNT \<equiv> 8"

section \<open>Enforcement data\<close>

definition kInstructionHookStep :: nat where "kInstructionHookStep = 1000"

record SandboxStateData =
  instructionCount :: "64 word"
  instructionLimit :: "64 word"
  memUsed :: "64 word"
  memLimit :: "64 word"
  origAlloc :: allocator
  allocInstalled :: bool
  chainedHook :: "hook option"
  chainedMask :: nat
  chainedCount :: int

definition init_data :: SandboxStateData where
  "init_data =
     \<lparr>instructionCount = 0, instructionLimit = 0, memUsed = 0, memLimit = 0, origAlloc = OtherAlloc 0 0,
      allocInstalled = False, chainedHook = None, chainedMask = 0, chainedCount = 0\<rparr>"

text \<open>The limiting allocator. \<open>ptr_null\<close>: the pointer is null; \<open>realloc_ok\<close>: whether \<^verbatim>\<open>std::realloc\<close> succeeds. It returns whether
  the result is not null.\<close>

definition sandboxLimitAlloc ::
    "bool \<Rightarrow> SandboxStateData \<Rightarrow> bool \<Rightarrow> 64 word \<Rightarrow> 64 word \<Rightarrow> bool \<times> SandboxStateData" where
  "sandboxLimitAlloc realloc_ok d ptr_null osize nsize =
     (let freed = (if ptr_null then 0 else osize);
          less = memUsed d - (if freed \<le> memUsed d then freed else memUsed d)
      in if nsize = 0 then (False, d\<lparr>memUsed := less\<rparr>)
         else if memLimit d \<noteq> 0 \<and> less + nsize > memLimit d then (False, d)
         else if realloc_ok then (True, d\<lparr>memUsed := less + nsize\<rparr>) else (False, d))"

text \<open>One call of the instruction hook. \<open>chained\<close> says whether a chained hook raises an error; an error of ours carries the
  limit as a 32-bit integer.\<close>

datatype hook_outcome = HookReturns | ChainedError | LimitError int

definition sandboxInstructionHook ::
    "(hook \<Rightarrow> bool) \<Rightarrow> SandboxStateData option \<Rightarrow> hook_outcome \<times> SandboxStateData option" where
  "sandboxInstructionHook chained data =
     (case data of
        None \<Rightarrow> (HookReturns, None)
      | Some d \<Rightarrow>
          if (case chainedHook d of Some h \<Rightarrow> h \<noteq> SandboxHook \<and> chained h | None \<Rightarrow> False) then (ChainedError, Some d)
          else if instructionLimit d = 0 then (HookReturns, Some d)
          else let d1 = d\<lparr>instructionCount := instructionCount d + of_nat kInstructionHookStep\<rparr>
               in if instructionCount d1 > instructionLimit d1
                  then (LimitError (sint (ucast (instructionLimit d1) :: 32 word)), Some d1)
                  else (HookReturns, Some d1))"

section \<open>Configuration\<close>

record SandboxConfig =
  restrictedModules :: "string set"
  restrictedFunctions :: "string set"
  allowedModules :: "string set"
  sb_allowedFunctions :: "string set"
  sb_maxMemoryBytes :: "64 word"
  maxInstructions :: "64 word"
  enabled :: bool

definition default_sandbox :: SandboxConfig where
  "default_sandbox =
     \<lparr>restrictedModules = {''os'', ''io'', ''debug'', ''package''},
      restrictedFunctions =
        {''dofile'', ''loadfile'', ''load'', ''loadstring'', ''require'', ''module'', ''setmetatable'', ''getmetatable'', ''rawget'',
         ''rawset'', ''rawequal'', ''collectgarbage'', ''gcinfo'', ''newproxy'', ''system'', ''exec'', ''spawn'', ''popen''},
      allowedModules = {''math'', ''string'', ''table'', ''bit32''},
      sb_allowedFunctions = {''print'', ''type'', ''next'', ''ipairs'', ''pairs'', ''tonumber'', ''tostring''},
      sb_maxMemoryBytes = 1024 * 1024 * 100, maxInstructions = 1000000, enabled = True\<rparr>"

definition setEnabled :: "bool \<Rightarrow> SandboxConfig \<Rightarrow> SandboxConfig" where
  "setEnabled b c = c\<lparr>enabled := b\<rparr>"

definition addRestrictedModule :: "string \<Rightarrow> SandboxConfig \<Rightarrow> SandboxConfig" where
  "addRestrictedModule m c = c\<lparr>restrictedModules := insert m (restrictedModules c)\<rparr>"

definition removeRestrictedModule :: "string \<Rightarrow> SandboxConfig \<Rightarrow> SandboxConfig" where
  "removeRestrictedModule m c = c\<lparr>restrictedModules := restrictedModules c - {m}\<rparr>"

definition addRestrictedFunction :: "string \<Rightarrow> SandboxConfig \<Rightarrow> SandboxConfig" where
  "addRestrictedFunction f c = c\<lparr>restrictedFunctions := insert f (restrictedFunctions c)\<rparr>"

definition removeRestrictedFunction :: "string \<Rightarrow> SandboxConfig \<Rightarrow> SandboxConfig" where
  "removeRestrictedFunction f c = c\<lparr>restrictedFunctions := restrictedFunctions c - {f}\<rparr>"

definition addAllowedModule :: "string \<Rightarrow> SandboxConfig \<Rightarrow> SandboxConfig" where
  "addAllowedModule m c = c\<lparr>allowedModules := insert m (allowedModules c)\<rparr>"

definition removeAllowedModule :: "string \<Rightarrow> SandboxConfig \<Rightarrow> SandboxConfig" where
  "removeAllowedModule m c = c\<lparr>allowedModules := allowedModules c - {m}\<rparr>"

definition sb_addAllowedFunction :: "string \<Rightarrow> SandboxConfig \<Rightarrow> SandboxConfig" where
  "sb_addAllowedFunction f c = c\<lparr>sb_allowedFunctions := insert f (sb_allowedFunctions c)\<rparr>"

definition sb_removeAllowedFunction :: "string \<Rightarrow> SandboxConfig \<Rightarrow> SandboxConfig" where
  "sb_removeAllowedFunction f c = c\<lparr>sb_allowedFunctions := sb_allowedFunctions c - {f}\<rparr>"

definition sb_setMaxMemory :: "64 word \<Rightarrow> SandboxConfig \<Rightarrow> SandboxConfig" where
  "sb_setMaxMemory n c = c\<lparr>sb_maxMemoryBytes := n\<rparr>"

definition setMaxInstructions :: "64 word \<Rightarrow> SandboxConfig \<Rightarrow> SandboxConfig" where
  "setMaxInstructions n c = c\<lparr>maxInstructions := n\<rparr>"

section \<open>The manager\<close>

record SandboxManager =
  sm_config :: SandboxConfig
  sandboxedStates :: "nat \<rightharpoonup> nat"
  sm_data :: "nat \<rightharpoonup> SandboxStateData"
  sm_lua :: "nat \<Rightarrow> sb_lua"

definition on_lua :: "nat \<Rightarrow> (sb_lua \<Rightarrow> sb_lua) \<Rightarrow> SandboxManager \<Rightarrow> SandboxManager" where
  "on_lua l f s = s\<lparr>sm_lua := (sm_lua s)(l := f (sm_lua s l))\<rparr>"

definition clear_globals :: "string set \<Rightarrow> sb_lua \<Rightarrow> sb_lua" where
  "clear_globals names lua = lua\<lparr>sb_globals := (\<lambda>n. if n \<in> c_str ` names then LNil else sb_globals lua n)\<rparr>"

definition restrictDangerousFunctions :: "nat option \<Rightarrow> SandboxManager \<Rightarrow> SandboxManager" where
  "restrictDangerousFunctions lua s =
     (case lua of None \<Rightarrow> s | Some l \<Rightarrow> on_lua l (clear_globals (restrictedFunctions (sm_config s))) s)"

definition restrictDangerousModules :: "nat option \<Rightarrow> SandboxManager \<Rightarrow> SandboxManager" where
  "restrictDangerousModules lua s =
     (case lua of None \<Rightarrow> s | Some l \<Rightarrow> on_lua l (clear_globals (restrictedModules (sm_config s))) s)"

definition setMemoryLimit :: "nat option \<Rightarrow> 64 word \<Rightarrow> SandboxManager \<Rightarrow> SandboxManager" where
  "setMemoryLimit lua maxBytes s =
     (case lua of
        None \<Rightarrow> s
      | Some l \<Rightarrow>
          (case sandboxedStates s l of
             None \<Rightarrow> s
           | Some a \<Rightarrow>
               (let d = (the (sm_data s a))\<lparr>memLimit := maxBytes\<rparr>
                in if allocInstalled d then s\<lparr>sm_data := (sm_data s)(a \<mapsto> d)\<rparr>
                   else on_lua l (\<lambda>L. L\<lparr>sb_alloc := LimitAlloc a\<rparr>)
                          (s\<lparr>sm_data := (sm_data s)(a \<mapsto> d\<lparr>origAlloc := sb_alloc (sm_lua s l), allocInstalled := True\<rparr>)\<rparr>))))"

text \<open>The hook that is installed already is remembered, once, and never our own.\<close>

definition capture_hook :: "hook_slot \<Rightarrow> SandboxStateData \<Rightarrow> SandboxStateData" where
  "capture_hook slot d =
     (if chainedHook d = None
      then (case slot of
              Some (h, m, c) \<Rightarrow> if h \<noteq> SandboxHook then d\<lparr>chainedHook := Some h, chainedMask := m, chainedCount := c\<rparr> else d
            | None \<Rightarrow> d)
      else d)"

definition setInstructionLimit :: "nat option \<Rightarrow> 64 word \<Rightarrow> SandboxManager \<Rightarrow> SandboxManager" where
  "setInstructionLimit lua limit s =
     (case lua of
        None \<Rightarrow> s
      | Some l \<Rightarrow>
          (case sandboxedStates s l of
             None \<Rightarrow> s
           | Some a \<Rightarrow>
               (let d = capture_hook (sb_hook (sm_lua s l))
                          ((the (sm_data s a))\<lparr>instructionLimit := limit, instructionCount := 0\<rparr>);
                    s1 = s\<lparr>sm_data := (sm_data s)(a \<mapsto> d)\<rparr>;
                    cnt = (if 0 < chainedCount d \<and> chainedCount d < int kInstructionHookStep
                           then chainedCount d else int kInstructionHookStep)
                in if limit = 0 \<and> chainedHook d = None then on_lua l (lua_sethook None 0 0) s1
                   else on_lua l (lua_sethook (Some SandboxHook) (LUA_MASKCOUNT OR chainedMask d) cnt) s1)))"

definition forget_state :: "nat \<Rightarrow> SandboxManager \<Rightarrow> SandboxManager" where
  "forget_state l s =
     (case sandboxedStates s l of
        None \<Rightarrow> s
      | Some a \<Rightarrow> s\<lparr>sandboxedStates := (sandboxedStates s)(l := None), sm_data := (sm_data s)(a := None)\<rparr>)"

text \<open>\<open>alloc\<close> is the address of the new enforcement data, \<open>None\<close> if the allocation throws.\<close>

definition install_sandbox :: "nat option \<Rightarrow> nat \<Rightarrow> SandboxManager \<Rightarrow> (exn + unit) \<times> SandboxManager" where
  "install_sandbox alloc l s =
     (let s1 = restrictDangerousModules (Some l) (restrictDangerousFunctions (Some l) s)
      in case alloc of
           None \<Rightarrow>
             (Inl (StdException SandboxViolationException
                     ''Sandbox violation: Failed to apply sandbox restrictions: std::bad_alloc''), forget_state l s1)
         | Some a \<Rightarrow>
             (let s2 = on_lua l (\<lambda>L. L\<lparr>sb_registry := Some a\<rparr>)
                         (s1\<lparr>sandboxedStates := (sandboxedStates s1)(l \<mapsto> a), sm_data := (sm_data s1)(a \<mapsto> init_data)\<rparr>)
              in (Inr (), setInstructionLimit (Some l) (maxInstructions (sm_config s))
                            (setMemoryLimit (Some l) (sb_maxMemoryBytes (sm_config s)) s2))))"

definition applySandbox :: "nat option \<Rightarrow> nat option \<Rightarrow> SandboxManager \<Rightarrow> (exn + unit) \<times> SandboxManager" where
  "applySandbox alloc lua s =
     (case lua of
        None \<Rightarrow> (Inr (), s)
      | Some l \<Rightarrow>
          if \<not> enabled (sm_config s) then (Inr (), s)
          else (case sandboxedStates s l of
                  None \<Rightarrow> install_sandbox alloc l s
                | Some a \<Rightarrow>
                    if sb_registry (sm_lua s l) = Some a then (Inr (), s) else install_sandbox alloc l (forget_state l s)))"

definition removeSandbox :: "nat option \<Rightarrow> SandboxManager \<Rightarrow> SandboxManager" where
  "removeSandbox lua s =
     (case lua of
        None \<Rightarrow> s
      | Some l \<Rightarrow>
          (case sandboxedStates s l of
             None \<Rightarrow> s
           | Some a \<Rightarrow>
               (let d = the (sm_data s a);
                    hooked = on_lua l (case chainedHook d of
                        Some h \<Rightarrow> lua_sethook (Some h) (chainedMask d)
                                    (if chainedCount d > 0 then chainedCount d else int kInstructionHookStep)
                      | None \<Rightarrow> lua_sethook None 0 0) s;
                    cleared = on_lua l (\<lambda>L. L\<lparr>sb_registry := None\<rparr>) hooked;
                    restored = (if allocInstalled d then on_lua l (\<lambda>L. L\<lparr>sb_alloc := origAlloc d\<rparr>) cleared else cleared)
                in forget_state l restored)))"

definition isSandboxed :: "SandboxManager \<Rightarrow> nat option \<Rightarrow> bool" where
  "isSandboxed s lua = (case lua of None \<Rightarrow> False | Some l \<Rightarrow> sandboxedStates s l \<noteq> None)"

text \<open>The guard: what its constructor remembers, and its destructor.\<close>

definition guard_enter :: "nat option \<Rightarrow> nat option \<Rightarrow> SandboxManager \<Rightarrow> (exn + bool) \<times> SandboxManager" where
  "guard_enter alloc lua s =
     (case lua of
        None \<Rightarrow> (Inr False, s)
      | Some l \<Rightarrow>
          if isSandboxed s lua then (Inr True, s)
          else (case applySandbox alloc lua s of (Inl e, s1) \<Rightarrow> (Inl e, s1) | (Inr _, s1) \<Rightarrow> (Inr False, s1)))"

definition guard_leave :: "nat option \<Rightarrow> bool \<Rightarrow> SandboxManager \<Rightarrow> SandboxManager" where
  "guard_leave lua wasSandboxed s = (if lua \<noteq> None \<and> \<not> wasSandboxed then removeSandbox lua s else s)"

section \<open>The lexical check\<close>

definition dangerousModulePrefixes :: "string list" where
  "dangerousModulePrefixes = [''os.'', ''io.'', ''debug.'', ''package.'']"

definition dangerousNames :: "string list" where
  "dangerousNames =
     [''load'', ''loadstring'', ''loadfile'', ''dofile'', ''require'', ''module'', ''setmetatable'', ''getmetatable'', ''rawget'',
      ''rawset'', ''rawequal'', ''collectgarbage'', ''gcinfo'', ''newproxy'', ''system'', ''exec'', ''spawn'', ''popen'']"

text \<open>A word boundary of the regular expression, and its search: the leftmost position where one of the names, in the order
  of the alternatives, stands between word boundaries, in any mixture of cases.\<close>

definition word_at :: "string \<Rightarrow> nat \<Rightarrow> bool" where
  "word_at s i \<longleftrightarrow> i < length s \<and> isIdentifierChar (s ! i)"

definition word_boundary :: "string \<Rightarrow> nat \<Rightarrow> bool" where
  "word_boundary s i \<longleftrightarrow> (0 < i \<and> word_at s (i - 1)) \<noteq> word_at s i"

definition name_match :: "string \<Rightarrow> string list \<Rightarrow> nat \<Rightarrow> string option" where
  "name_match code names i =
     (if word_boundary code i
      then find (\<lambda>n. matches_at (map std_tolower code) n i \<and> word_boundary code (i + length n)) names else None)"

definition regex_search :: "string \<Rightarrow> string list \<Rightarrow> string option" where
  "regex_search code names =
     (case find (\<lambda>i. name_match code names i \<noteq> None) [0..<Suc (length code)] of
        None \<Rightarrow> None
      | Some i \<Rightarrow> Some (substr code i (length (the (name_match code names i)))))"

definition violation :: "string \<Rightarrow> exn + 'a" where
  "violation msg = Inl (StdException SandboxViolationException (''Sandbox violation: '' @ msg))"

text \<open>\<open>v\<close> and \<open>pats\<close>: the validator of the security configuration and the order of its patterns.\<close>

definition validateCode :: "LuaExpressionValidator \<Rightarrow> string list \<Rightarrow> SandboxConfig \<Rightarrow> string \<Rightarrow> exn + unit" where
  "validateCode v pats cfg code =
     (if \<not> enabled cfg then Inr ()
      else (case iv_validate v pats code of
              Inl e \<Rightarrow> violation (''Code validation failed: '' @ exn_what e)
            | Inr _ \<Rightarrow>
                (case find (str_contains (map std_tolower code)) dangerousModulePrefixes of
                   Some p \<Rightarrow> violation (''Dangerous pattern detected: '' @ p)
                 | None \<Rightarrow>
                     (case regex_search code dangerousNames of
                        Some m \<Rightarrow> violation (''Dangerous pattern detected: '' @ m)
                      | None \<Rightarrow> Inr ()))))"

section \<open>The memory cap\<close>

text \<open>The blocks of a Lua state by their sizes. Lua passes the size of a block that it resizes or frees; for a new block
  the size argument is a type tag.\<close>

datatype mem_request = FreeBlock nat | NewBlock "64 word" nat | Resize nat nat

fun mem_step :: "bool \<Rightarrow> mem_request \<Rightarrow> nat multiset \<times> SandboxStateData \<Rightarrow> nat multiset \<times> SandboxStateData" where
  "mem_step ok (FreeBlock s) (heap, d) = (heap - {#s#}, snd (sandboxLimitAlloc ok d False (of_nat s) 0))"
| "mem_step ok (NewBlock tag n) (heap, d) =
     (let (r, d1) = sandboxLimitAlloc ok d True tag (of_nat n) in (if r then heap + {#n#} else heap, d1))"
| "mem_step ok (Resize s n) (heap, d) =
     (let (r, d1) = sandboxLimitAlloc ok d False (of_nat s) (of_nat n) in (if r then heap - {#s#} + {#n#} else heap, d1))"

text \<open>What Lua and the C library promise: freed and resized blocks exist, requested sizes are positive words, and
  \<^verbatim>\<open>realloc\<close> does not succeed beyond the address space.\<close>

fun mem_allowed :: "bool \<Rightarrow> mem_request \<Rightarrow> nat multiset \<Rightarrow> bool" where
  "mem_allowed ok (FreeBlock s) heap = (s \<in># heap)"
| "mem_allowed ok (NewBlock tag n) heap = (0 < n \<and> n < 2 ^ 64 \<and> (ok \<longrightarrow> sum_mset heap + n < 2 ^ 64))"
| "mem_allowed ok (Resize s n) heap =
     (s \<in># heap \<and> 0 < n \<and> n < 2 ^ 64 \<and> (ok \<longrightarrow> sum_mset heap - s + n < 2 ^ 64))"

inductive mem_run :: "nat multiset \<Rightarrow> 64 word \<Rightarrow> nat multiset \<times> SandboxStateData \<Rightarrow> bool" for heap0 limit where
  mem_start: "mem_run heap0 limit (heap0, init_data\<lparr>memLimit := limit, allocInstalled := True\<rparr>)"
| mem_call: "mem_run heap0 limit st \<Longrightarrow> mem_allowed ok req (fst st) \<Longrightarrow> mem_run heap0 limit (mem_step ok req st)"

text \<open>The tracked usage never exceeds the blocks that exist, nor are there more than at the start and tracked.\<close>

definition mem_ok :: "nat multiset \<Rightarrow> 64 word \<Rightarrow> nat multiset \<times> SandboxStateData \<Rightarrow> bool" where
  "mem_ok heap0 limit st \<longleftrightarrow>
     memLimit (snd st) = limit \<and> (limit \<noteq> 0 \<longrightarrow> memUsed (snd st) \<le> limit) \<and> sum_mset (fst st) < 2 ^ 64 \<and>
     unat (memUsed (snd st)) \<le> sum_mset (fst st) \<and> sum_mset (fst st) \<le> sum_mset heap0 + unat (memUsed (snd st))"

text \<open>The subtraction that cannot wrap.\<close>

lemma unat_clamped_sub: "unat (m - (if f \<le> m then f else m)) = unat m - unat (f :: 64 word)"
  by (simp add: unat_sub word_le_nat_alt)

lemma unat_of_nat_small: "n < 2 ^ 64 \<Longrightarrow> unat (of_nat n :: 64 word) = n"
  by (simp add: unat_of_nat)

lemma sum_mset_member: "s \<in># heap \<Longrightarrow> s \<le> sum_mset (heap :: nat multiset) \<and> sum_mset (heap - {#s#}) = sum_mset heap - s"
  by (auto dest!: multi_member_split)

lemma mem_ok_grow:
  assumes ok: "mem_ok heap0 limit (heap, d)" and s: "s \<le> sum_mset heap" "0 < n" "n < 2 ^ 64"
    and fits: "realloc_ok \<Longrightarrow> sum_mset heap - s + n < 2 ^ 64"
    and call: "sandboxLimitAlloc realloc_ok d ptr_null osize (of_nat n) = (r, d1)" "unat (if ptr_null then 0 else osize) = s"
    and heap': "sum_mset heap' = (if r then sum_mset heap - s + n else sum_mset heap)"
  shows "mem_ok heap0 limit (heap', d1)"
proof -
  let ?m = "unat (memUsed d)" and ?less = "memUsed d - (if (if ptr_null then 0 else osize) \<le> memUsed d then (if ptr_null then 0 else osize) else memUsed d)"
  have "unat (of_nat n :: 64 word) = n" using s by (simp add: unat_of_nat_small)
  moreover from this have "(of_nat n :: 64 word) \<noteq> 0" using s(2) by (metis less_irrefl unat_0)
  ultimately have n: "unat (of_nat n :: 64 word) = n" "(of_nat n :: 64 word) \<noteq> 0" .
  have less: "unat ?less = ?m - s" using unat_clamped_sub [of "memUsed d"] call(2) by simp
  have b: "?m \<le> sum_mset heap" "sum_mset heap \<le> sum_mset heap0 + ?m" "memLimit d = limit" "sum_mset heap < 2 ^ 64"
    using ok by (simp_all add: mem_ok_def)
  show ?thesis
  proof (cases r)
    case False
    with call n heap' ok show ?thesis by (auto simp: sandboxLimitAlloc_def Let_def mem_ok_def split: if_splits)
  next
    case True
    with call n have c: "realloc_ok" "\<not> (memLimit d \<noteq> 0 \<and> ?less + of_nat n > memLimit d)" "d1 = d\<lparr>memUsed := ?less + of_nat n\<rparr>"
      by (auto simp: sandboxLimitAlloc_def Let_def split: if_splits)
    have "?m - s + n < 2 ^ 64" using fits [OF c(1)] b(1) s(1) by linarith
    then have "unat (?less + of_nat n) = ?m - s + n" using less n(1) by (simp add: unat_word_ariths)
    with c b True heap' s(1) fits show ?thesis by (auto simp: mem_ok_def not_less)
  qed
qed

lemma mem_ok_step:
  assumes ok: "mem_ok heap0 limit st" and allowed: "mem_allowed b req (fst st)"
  shows "mem_ok heap0 limit (mem_step b req st)"
proof -
  obtain heap d where st: "st = (heap, d)" by (cases st)
  note ok = ok [unfolded st] and allowed = allowed [unfolded st fst_conv]
  have total: "sum_mset heap < 2 ^ 64" using ok by (simp add: mem_ok_def)
  show ?thesis
  proof (cases req)
    case (FreeBlock s)
    with allowed sum_mset_member have s: "s \<le> sum_mset heap" "sum_mset (heap - {#s#}) = sum_mset heap - s" by auto
    then have u: "unat (of_nat s :: 64 word) = s" using total by (simp add: unat_of_nat_small)
    have less: "unat (memUsed d - (if of_nat s \<le> memUsed d then of_nat s else memUsed d)) = unat (memUsed d) - s"
      using unat_clamped_sub [of "memUsed d" "of_nat s"] u by simp
    then have "memUsed d - (if of_nat s \<le> memUsed d then of_nat s else memUsed d) \<le> memUsed d" by (simp add: word_le_nat_alt)
    with ok s less show ?thesis unfolding st FreeBlock mem_step.simps
      by (auto simp: sandboxLimitAlloc_def Let_def mem_ok_def intro: order_trans)
  next
    case (NewBlock tag n)
    obtain r d1 where call: "sandboxLimitAlloc b d True tag (of_nat n) = (r, d1)" by fastforce
    with mem_ok_grow [OF ok, of 0 n b True tag r d1 "if r then heap + {#n#} else heap"] allowed NewBlock show ?thesis
      by (simp add: st)
  next
    case (Resize s n)
    with allowed sum_mset_member have s: "s \<le> sum_mset heap" "sum_mset (heap - {#s#}) = sum_mset heap - s" by auto
    then have u: "unat (of_nat s :: 64 word) = s" using total by (simp add: unat_of_nat_small)
    obtain r d1 where call: "sandboxLimitAlloc b d False (of_nat s) (of_nat n) = (r, d1)" by fastforce
    with mem_ok_grow [OF ok s(1), of n b False "of_nat s" r d1 "if r then heap - {#s#} + {#n#} else heap"] allowed Resize s u show ?thesis
      by (cases r) (simp_all add: st add.commute)
  qed
qed

lemma mem_run_ok: "mem_run heap0 limit st \<Longrightarrow> sum_mset heap0 < 2 ^ 64 \<Longrightarrow> mem_ok heap0 limit st"
proof (induction rule: mem_run.induct)
  case mem_start
  then show ?case by (simp add: mem_ok_def init_data_def)
next
  case (mem_call st ok req)
  then show ?case by (simp add: mem_ok_step)
qed

text \<open>
  C25. The memory cap holds: whatever sequence of allocations, resizings and frees a sandboxed state makes, successful
  or not, including frees of blocks that are older than the sandbox and larger than the tracked usage, the memory
  of the state never grows by more than the limit over what it was when the sandbox was applied, and the 64-bit
  counter never wraps.
\<close>

theorem memory_growth_capped:
  assumes "mem_run heap0 limit (heap, d)" "sum_mset heap0 < 2 ^ 64" "limit \<noteq> 0"
  shows "sum_mset heap \<le> sum_mset heap0 + unat limit \<and> unat (memUsed d) \<le> sum_mset heap \<and> memUsed d \<le> limit"
  using mem_run_ok [OF assms(1,2)] assms(3) by (auto simp: mem_ok_def word_le_nat_alt)

theorem memory_growth_capped_witness:
  "let st = mem_step True (NewBlock 0 60) (mem_step True (FreeBlock 40) ({#40#}, init_data\<lparr>memLimit := 100, allocInstalled := True\<rparr>))
   in sum_mset (fst st) = 60 \<and> sum_mset (fst st) \<le> 40 + 100"
proof -
  let ?start = "({#40#}, init_data\<lparr>memLimit := 100, allocInstalled := True\<rparr>)"
  let ?st = "mem_step True (NewBlock 0 60) (mem_step True (FreeBlock 40) ?start)"
  have f: "mem_step True (FreeBlock 40) ?start = ({#}, init_data\<lparr>memLimit := 100, allocInstalled := True\<rparr>)"
    by (simp add: sandboxLimitAlloc_def init_data_def)
  have e: "?st = ({#60#}, init_data\<lparr>memLimit := 100, allocInstalled := True, memUsed := 60\<rparr>)"
    unfolding f by (simp add: sandboxLimitAlloc_def init_data_def)
  have "mem_run {#40#} 100 (mem_step True (FreeBlock 40) ?start)" by (rule mem_call [OF mem_start]) simp
  then have "mem_run {#40#} 100 ?st" by (rule mem_call) (simp add: f)
  with memory_growth_capped [of "{#40#}" 100] e show ?thesis by fastforce
qed

section \<open>The instruction budget\<close>

text \<open>The calls of the hook up to its first error: how many return before it. \<open>n\<close> bounds the calls that are made.\<close>

fun hook_calls :: "nat \<Rightarrow> SandboxStateData \<Rightarrow> nat \<times> hook_outcome" where
  "hook_calls 0 d = (0, HookReturns)"
| "hook_calls (Suc n) d =
     (case sandboxInstructionHook (\<lambda>_. False) (Some d) of
        (HookReturns, Some d1) \<Rightarrow> (let (k, r) = hook_calls n d1 in (Suc k, r))
      | (r, _) \<Rightarrow> (0, r))"

lemma hook_calls_budget:
  assumes "instructionLimit d \<noteq> 0" "unat (instructionCount d) \<le> unat (instructionLimit d)"
    "unat (instructionLimit d) + 1000 < 2 ^ 64"
  shows "hook_calls n d =
    (let k = (unat (instructionLimit d) - unat (instructionCount d)) div 1000
     in if n \<le> k then (n, HookReturns) else (k, LimitError (sint (ucast (instructionLimit d) :: 32 word))))"
  using assms
proof (induction n arbitrary: d)
  case (Suc n)
  let ?d = "d\<lparr>instructionCount := instructionCount d + 1000\<rparr>"
  have c: "unat (instructionCount d + 1000) = unat (instructionCount d) + 1000"
    using Suc.prems by (simp add: unat_word_ariths)
  show ?case
  proof (cases "instructionCount d + 1000 > instructionLimit d")
    case True
    then have "(unat (instructionLimit d) - unat (instructionCount d)) div 1000 = 0"
      using c by (simp add: word_less_nat_alt)
    with True Suc.prems show ?thesis
      by (simp add: sandboxInstructionHook_def kInstructionHookStep_def split: option.split)
  next
    case False
    then have le: "unat (instructionCount d) + 1000 \<le> unat (instructionLimit d)" using c by (simp add: word_less_nat_alt)
    then have "unat (instructionLimit d) - unat (instructionCount d) =
        (unat (instructionLimit d) - (unat (instructionCount d) + 1000)) + 1000" by simp
    then have k: "(unat (instructionLimit d) - unat (instructionCount d)) div 1000 =
        Suc ((unat (instructionLimit d) - (unat (instructionCount d) + 1000)) div 1000)"
      by (metis Suc_eq_plus1 div_add_self2 zero_neq_numeral)
    have "hook_calls (Suc n) d = (let (k, r) = hook_calls n ?d in (Suc k, r))"
      using False Suc.prems(1) by (simp add: sandboxInstructionHook_def kInstructionHookStep_def split: option.split)
    with Suc.IH [of ?d] Suc.prems le c k show ?thesis by (simp add: Let_def)
  qed
qed simp

text \<open>
  The instruction budget: the hook lets exactly \<^verbatim>\<open>limit / 1000\<close> of its calls return and raises the limit error in the
  next one. As it is called every 1000 instructions when no other hook was installed, code runs for at least the
  limit and stops less than 1000 instructions after it. A state whose hook was installed with a smaller count calls it
  more often, but every call is charged with 1000 instructions.
\<close>

lemma instruction_budget:
  assumes "limit \<noteq> 0" "unat limit + 1000 < 2 ^ 64" "d = init_data\<lparr>instructionLimit := limit, chainedHook := h\<rparr>"
    "unat limit div 1000 < n"
  shows "hook_calls n d = (unat limit div 1000, LimitError (sint (ucast limit :: 32 word)))"
  using hook_calls_budget [of d n] assms by (simp add: init_data_def)

lemma instruction_budget_example:
  "hook_calls 5 (init_data\<lparr>instructionLimit := 2500, chainedHook := Some (OtherHook 1)\<rparr>) = (2, LimitError 2500)"
proof -
  have "sint (ucast (2500 :: 64 word) :: 32 word) = 2500" by simp
  with instruction_budget [of 2500 "init_data\<lparr>instructionLimit := 2500, chainedHook := Some (OtherHook 1)\<rparr>" "Some (OtherHook 1)" 5]
  show ?thesis by simp
qed

text \<open>A chained hook with a count of 100: the sandboxed code is stopped after 1/10 of its budget.\<close>

lemma chained_count_shrinks_budget:
  assumes "sandboxedStates s l = Some a" "sm_data s a = Some init_data" "sb_hook (sm_lua s l) = Some (OtherHook 1, 8, 100)"
  shows "sb_hook (sm_lua (setInstructionLimit (Some l) 1000000 s) l) = Some (SandboxHook, 8, 100)"
  using assms by (simp add: setInstructionLimit_def capture_hook_def init_data_def on_lua_def lua_sethook_def
      kInstructionHookStep_def Let_def)

section \<open>Applying and removing\<close>

text \<open>A Lua state under full enforcement by the data at an address.\<close>

definition enforced :: "SandboxManager \<Rightarrow> nat \<Rightarrow> nat \<Rightarrow> bool" where
  "enforced s l a \<longleftrightarrow>
     sandboxedStates s l = Some a \<and> sb_registry (sm_lua s l) = Some a \<and> sb_alloc (sm_lua s l) = LimitAlloc a \<and>
     (\<forall>n\<in>restrictedFunctions (sm_config s) \<union> restrictedModules (sm_config s). sb_globals (sm_lua s l) (c_str n) = LNil) \<and>
     (\<exists>d. sm_data s a = Some d \<and> memLimit d = sb_maxMemoryBytes (sm_config s) \<and> memUsed d = 0 \<and>
        instructionLimit d = maxInstructions (sm_config s) \<and> instructionCount d = 0 \<and>
        (instructionLimit d \<noteq> 0 \<longrightarrow> (\<exists>m c. sb_hook (sm_lua s l) = Some (SandboxHook, m, c) \<and> 0 < c \<and> c \<le> 1000)))"

lemma setMemoryLimit_first:
  assumes "sandboxedStates s l = Some a" "sm_data s a = Some d" "\<not> allocInstalled d"
  shows "setMemoryLimit (Some l) n s =
    s\<lparr>sm_data := (sm_data s)(a \<mapsto> d\<lparr>memLimit := n, origAlloc := sb_alloc (sm_lua s l), allocInstalled := True\<rparr>),
      sm_lua := (sm_lua s)(l := (sm_lua s l)\<lparr>sb_alloc := LimitAlloc a\<rparr>)\<rparr>"
  using assms by (simp add: setMemoryLimit_def on_lua_def Let_def)

text \<open>The hook after the limit is set: ours, unless there is no limit and no other hook.\<close>

definition sandbox_hook :: "64 word \<Rightarrow> SandboxStateData \<Rightarrow> hook_slot" where
  "sandbox_hook limit d =
     (if limit = 0 \<and> chainedHook d = None then None
      else Some (SandboxHook, LUA_MASKCOUNT OR chainedMask d,
             if 0 < chainedCount d \<and> chainedCount d < 1000 then chainedCount d else 1000))"

lemma mask_nonzero: "LUA_MASKCOUNT OR m \<noteq> 0"
  by (metis or_eq_0_iff zero_neq_numeral)

lemma setInstructionLimit_eq:
  assumes "sandboxedStates s l = Some a" "sm_data s a = Some d0"
    "d = capture_hook (sb_hook (sm_lua s l)) (d0\<lparr>instructionLimit := n, instructionCount := 0\<rparr>)"
  shows "setInstructionLimit (Some l) n s =
    s\<lparr>sm_data := (sm_data s)(a \<mapsto> d), sm_lua := (sm_lua s)(l := (sm_lua s l)\<lparr>sb_hook := sandbox_hook n d\<rparr>)\<rparr>"
proof -
  have "setInstructionLimit (Some l) n s =
      (let s1 = s\<lparr>sm_data := (sm_data s)(a \<mapsto> d)\<rparr>;
           cnt = (if 0 < chainedCount d \<and> chainedCount d < int kInstructionHookStep then chainedCount d else int kInstructionHookStep)
       in if n = 0 \<and> chainedHook d = None then on_lua l (lua_sethook None 0 0) s1
          else on_lua l (lua_sethook (Some SandboxHook) (LUA_MASKCOUNT OR chainedMask d) cnt) s1)"
    by (simp only: setInstructionLimit_def option.case assms(1,2) option.sel assms(3) [symmetric] Let_def)
  then show ?thesis
    using mask_nonzero [of "chainedMask d"]
    by (cases "n = 0 \<and> chainedHook d = None")
       (auto simp: on_lua_def lua_sethook_def sandbox_hook_def kInstructionHookStep_def Let_def)
qed

lemma capture_hook_simps [simp]:
  "memLimit (capture_hook h d) = memLimit d" "memUsed (capture_hook h d) = memUsed d"
  "instructionLimit (capture_hook h d) = instructionLimit d" "instructionCount (capture_hook h d) = instructionCount d"
  "origAlloc (capture_hook h d) = origAlloc d" "allocInstalled (capture_hook h d) = allocInstalled d"
  by (auto simp: capture_hook_def split: option.split)

definition restricted_names :: "SandboxConfig \<Rightarrow> string set" where
  "restricted_names c = c_str ` (restrictedFunctions c \<union> restrictedModules c)"

definition restrict_names :: "SandboxConfig \<Rightarrow> sb_lua \<Rightarrow> sb_lua" where
  "restrict_names c lua = lua\<lparr>sb_globals := (\<lambda>n. if n \<in> restricted_names c then LNil else sb_globals lua n)\<rparr>"

definition sandbox_data :: "SandboxConfig \<Rightarrow> sb_lua \<Rightarrow> SandboxStateData" where
  "sandbox_data c lua =
     capture_hook (sb_hook lua) (init_data\<lparr>memLimit := sb_maxMemoryBytes c, origAlloc := sb_alloc lua, allocInstalled := True,
       instructionLimit := maxInstructions c\<rparr>)"

text \<open>What the installation does, in one step.\<close>

lemma install_sandbox_eq:
  "install_sandbox (Some a) l s =
    (Inr (), s\<lparr>sandboxedStates := (sandboxedStates s)(l \<mapsto> a), sm_data := (sm_data s)(a \<mapsto> sandbox_data (sm_config s) (sm_lua s l)),
       sm_lua := (sm_lua s)(l := (restrict_names (sm_config s) (sm_lua s l))\<lparr>sb_registry := Some a, sb_alloc := LimitAlloc a,
         sb_hook := sandbox_hook (maxInstructions (sm_config s)) (sandbox_data (sm_config s) (sm_lua s l))\<rparr>)\<rparr>)"
proof -
  have r: "restrictDangerousModules (Some l) (restrictDangerousFunctions (Some l) s) =
      s\<lparr>sm_lua := (sm_lua s)(l := restrict_names (sm_config s) (sm_lua s l))\<rparr>"
    by (auto simp: restrictDangerousFunctions_def restrictDangerousModules_def clear_globals_def on_lua_def restrict_names_def
        restricted_names_def image_Un intro!: arg_cong [where f = "\<lambda>g. s\<lparr>sm_lua := (sm_lua s)(l := sm_lua s l\<lparr>sb_globals := g\<rparr>)\<rparr>"])
  show ?thesis
    unfolding install_sandbox_def r
    by (simp add: on_lua_def Let_def setMemoryLimit_first [of _ l a init_data] setInstructionLimit_eq [of _ l a _ _ _] init_data_def
        sandbox_data_def restrict_names_def)
qed

lemma install_enforced: "enforced (snd (install_sandbox (Some a) l s)) l a"
  by (auto simp: install_sandbox_eq enforced_def restrict_names_def restricted_names_def sandbox_data_def init_data_def sandbox_hook_def)

text \<open>
  C31. A state that needs the sandbox gets it: if the manager is enabled and the Lua state is not known, or the entry
  under its address belongs to a state that was closed without \<^verbatim>\<open>removeSandbox\<close> (the registry of the new state does not
  hold the entry's data), \<^verbatim>\<open>applySandbox\<close> leaves it fully enforced: every restricted function and module is nil, all
  allocation goes through the limiting allocator, both limits are those of the configuration with fresh counters, and
  the instruction hook is installed and called at least every 1000 instructions.
\<close>

theorem recycled_state_sandboxed:
  assumes "enabled (sm_config s)" "sandboxedStates s l = None \<or> sb_registry (sm_lua s l) \<noteq> sandboxedStates s l"
  shows "\<exists>s'. applySandbox (Some a) (Some l) s = (Inr (), s') \<and> enforced s' l a"
proof -
  have "applySandbox (Some a) (Some l) s = install_sandbox (Some a) l s \<or>
      applySandbox (Some a) (Some l) s = install_sandbox (Some a) l (forget_state l s)"
    using assms by (auto simp: applySandbox_def split: option.splits)
  with install_enforced [of a l s] install_enforced [of a l "forget_state l s"] show ?thesis
    by (auto simp: install_sandbox_eq)
qed

definition open_lua :: sb_lua where
  "open_lua = \<lparr>sb_globals = (\<lambda>n. LBool True), sb_registry = None, sb_alloc = OtherAlloc 3 4, sb_hook = Some (OtherHook 1, 8, 100)\<rparr>"

text \<open>A manager that knows address 7 from a state that is gone.\<close>

definition stale_manager :: SandboxManager where
  "stale_manager =
     \<lparr>sm_config = default_sandbox, sandboxedStates = [7 \<mapsto> 20], sm_data = [20 \<mapsto> init_data], sm_lua = (\<lambda>_. open_lua)\<rparr>"

theorem recycled_state_sandboxed_witness: "enforced (snd (applySandbox (Some 21) (Some 7) stale_manager)) 7 21"
proof -
  have "enabled (sm_config stale_manager)"
    "sandboxedStates stale_manager 7 = None \<or> sb_registry (sm_lua stale_manager 7) \<noteq> sandboxedStates stale_manager 7"
    by (simp_all add: stale_manager_def default_sandbox_def open_lua_def)
  from recycled_state_sandboxed [OF this, of 21] show ?thesis by fastforce
qed

text \<open>
  Removing the sandbox undoes applying it, except for the globals: allocator, hook, registry entry and the tables of
  the manager are as before, also when another hook (such as the one for timeouts) was installed, but the restricted
  functions and modules stay nil.
\<close>

lemma sandbox_roundtrip:
  assumes "enabled (sm_config s)" "sandboxedStates s l = None" "sm_data s a = None" "sb_registry (sm_lua s l) = None"
    "\<forall>h m c. sb_hook (sm_lua s l) = Some (h, m, c) \<longrightarrow> h \<noteq> SandboxHook \<and> m \<noteq> 0 \<and> 0 < c"
  shows "\<exists>s'. applySandbox (Some a) (Some l) s = (Inr (), s') \<and>
    removeSandbox (Some l) s' = on_lua l (restrict_names (sm_config s)) s"
proof -
  let ?s = "snd (install_sandbox (Some a) l s)" and ?d = "sandbox_data (sm_config s) (sm_lua s l)"
  have app: "applySandbox (Some a) (Some l) s = (Inr (), ?s)"
    using assms(1,2) by (simp add: applySandbox_def install_sandbox_eq)
  have data: "sandboxedStates ?s l = Some a" "sm_data ?s a = Some ?d" by (simp_all add: install_sandbox_eq)
  have d: "allocInstalled ?d" "origAlloc ?d = sb_alloc (sm_lua s l)" by (simp_all add: sandbox_data_def)
  have hook: "sb_hook ((case chainedHook ?d of
        Some h \<Rightarrow> lua_sethook (Some h) (chainedMask ?d) (if chainedCount ?d > 0 then chainedCount ?d else int kInstructionHookStep)
      | None \<Rightarrow> lua_sethook None 0 0) lua) = sb_hook (sm_lua s l)" for lua
    using assms(5) by (auto simp: sandbox_data_def capture_hook_def init_data_def lua_sethook_def split: option.split)
  have rest: "(case chainedHook ?d of
        Some h \<Rightarrow> lua_sethook (Some h) (chainedMask ?d) (if chainedCount ?d > 0 then chainedCount ?d else int kInstructionHookStep)
      | None \<Rightarrow> lua_sethook None 0 0) lua = lua\<lparr>sb_hook := sb_hook (sm_lua s l)\<rparr>" for lua
    using hook [of lua] by (auto simp: lua_sethook_def split: option.splits)
  have tables: "(sandboxedStates s)(l := None) = sandboxedStates s" "(sm_data s)(a := None) = sm_data s"
    using assms(2,3) by auto
  have reg: "(sm_lua s l)\<lparr>sb_globals := g, sb_registry := None\<rparr> = (sm_lua s l)\<lparr>sb_globals := g\<rparr>" for g
    using assms(4) by (cases "sm_lua s l") simp
  have "removeSandbox (Some l) ?s = on_lua l (restrict_names (sm_config s)) s"
    unfolding removeSandbox_def option.case data option.sel Let_def
    using d tables
    by (simp add: on_lua_def rest reg forget_state_def install_sandbox_eq restrict_names_def)
  with app show ?thesis by blast
qed

definition fresh_manager :: SandboxManager where
  "fresh_manager = \<lparr>sm_config = default_sandbox, sandboxedStates = Map.empty, sm_data = Map.empty, sm_lua = (\<lambda>_. open_lua)\<rparr>"

lemma sandbox_roundtrip_example:
  "sb_hook (sm_lua (removeSandbox (Some 7) (snd (applySandbox (Some 21) (Some 7) fresh_manager))) 7) = Some (OtherHook 1, 8, 100) \<and>
   sb_globals (sm_lua (removeSandbox (Some 7) (snd (applySandbox (Some 21) (Some 7) fresh_manager))) 7) ''os'' = LNil"
proof -
  have "enabled (sm_config fresh_manager)" "sandboxedStates fresh_manager 7 = None" "sm_data fresh_manager 21 = None"
    "sb_registry (sm_lua fresh_manager 7) = None"
    "\<forall>h m c. sb_hook (sm_lua fresh_manager 7) = Some (h, m, c) \<longrightarrow> h \<noteq> SandboxHook \<and> m \<noteq> 0 \<and> 0 < c"
    by (simp_all add: fresh_manager_def default_sandbox_def open_lua_def)
  from sandbox_roundtrip [OF this] obtain s' where s': "applySandbox (Some 21) (Some 7) fresh_manager = (Inr (), s')"
    "removeSandbox (Some 7) s' = on_lua 7 (restrict_names (sm_config fresh_manager)) fresh_manager" by blast
  have "''os'' \<in> restricted_names default_sandbox"
    by (simp add: restricted_names_def default_sandbox_def c_str_def)
  with s' show ?thesis by (simp add: on_lua_def restrict_names_def fresh_manager_def open_lua_def)
qed

text \<open>A guard inside another one changes nothing and leaves the sandbox to the outer one.\<close>

lemma nested_guard: "isSandboxed s lua \<Longrightarrow> guard_enter alloc lua s = (Inr True, s) \<and> guard_leave lua True s' = s'"
  by (cases lua) (simp_all add: guard_enter_def guard_leave_def isSandboxed_def)

section \<open>The second lexical check adds nothing\<close>

lemma dangerous_prefix: "p \<in> set dangerousModulePrefixes \<Longrightarrow> str_contains (map std_tolower e) p \<Longrightarrow> dangerous e"
  by (auto simp: dangerousModulePrefixes_def dangerous_def)

lemma names_are_patterns:
  "\<forall>n\<in>set dangerousNames. n \<in> set dangerous_patterns \<and> \<not> str_contains n escaped_dot \<and> n \<noteq> [] \<and> list_all isIdentifierChar n"
  by (simp add: dangerousNames_def dangerous_patterns_def str_contains_def str_find_def escaped_dot_def isIdentifierChar_def char_eval)

lemma identifier_tolower: "isIdentifierChar (std_tolower c) = isIdentifierChar c"
proof (cases "std_isupper c")
  case True
  then have c: "cc (std_tolower c) = cc c + 32" "65 \<le> cc c" "cc c \<le> 90" by (simp_all add: cc_tolower std_isupper_def)
  have u: "cc (CHR ''_'') = 95" by (simp add: cc_def)
  have "cc (std_tolower c) \<noteq> cc (CHR ''_'')" "cc c \<noteq> cc (CHR ''_'')" using c unfolding u by linarith+
  then have "std_tolower c \<noteq> CHR ''_''" "c \<noteq> CHR ''_''" by auto
  then show ?thesis by (simp add: isIdentifierChar_def)
next
  case False
  then show ?thesis by (simp add: std_tolower_def)
qed

lemma name_match_dangerous:
  assumes "name_match code dangerousNames i \<noteq> None"
  shows "dangerous code"
proof -
  let ?lower = "map std_tolower code"
  from assms obtain n where "word_boundary code i" "n \<in> set dangerousNames" "matches_at ?lower n i" "word_boundary code (i + length n)"
    by (auto simp: name_match_def dest!: find_SomeD split: if_splits)
  note m = this and n = bspec [OF names_are_patterns this(2)]
  have take: "take (length n) (drop i ?lower) = n" and i: "i \<le> length code" using m(3) by (simp_all add: matches_at_def)
  then have len: "i + length n \<le> length code" by (metis diff_le_mono2 length_drop length_map length_take min.cobounded1 le_diff_conv2 add.commute)
  have word: "word_at code (i + k)" if "k < length n" for k
  proof -
    have "?lower ! (i + k) = n ! k" using arg_cong [OF take, of "\<lambda>s. s ! k"] that len by simp
    then have "isIdentifierChar (?lower ! (i + k))" using n that by (simp add: list_all_length)
    with that len show ?thesis by (simp add: word_at_def identifier_tolower)
  qed
  have l: "0 < length n" using n by simp
  have "\<not> (0 < i \<and> word_at code (i - 1))" using m(1) word [OF l] by (simp add: word_boundary_def)
  moreover have "\<not> word_at code (i + length n)"
  proof -
    have "word_at code (i + length n - 1)" using word [of "length n - 1"] l by simp
    with m(4) l show ?thesis by (auto simp: word_boundary_def)
  qed
  ultimately have "boundary_at ?lower n i"
    using i len l by (auto simp: boundary_at_def word_at_def identifier_tolower)
  with m(3) have "boundary_loop ?lower n 0" by (auto simp: boundary_loop_iff)
  with n show ?thesis unfolding dangerous_def containsAtIdentifierBoundary_def by auto
qed

text \<open>
  The lexical scans that \<^verbatim>\<open>validateCode\<close> makes after the input validator never reject anything: the module prefixes and
  the names of the regular expression are all covered by the patterns of the validator. With the sandbox enabled, code is
  accepted exactly if the input validator accepts it, and everything is accepted while it is disabled.
\<close>

lemma validateCode_iff:
  assumes "mset pats = mset dangerous_patterns"
  shows "validateCode v pats cfg code = Inr () \<longleftrightarrow> (enabled cfg \<longrightarrow> iv_validate v pats code = Inr ())"
proof (cases "enabled cfg \<and> iv_validate v pats code = Inr ()")
  case True
  then have safe: "\<not> dangerous code" using input_validate_iff_aux [OF assms] by simp
  have "find (str_contains (map std_tolower code)) dangerousModulePrefixes = None"
    using safe dangerous_prefix by (auto simp: find_None_iff)
  moreover have "regex_search code dangerousNames = None"
    using safe name_match_dangerous by (auto simp: regex_search_def find_None_iff split: option.split dest!: find_SomeD)
  ultimately show ?thesis using True by (simp add: validateCode_def)
next
  case False
  then show ?thesis by (auto simp: validateCode_def violation_def split: sum.split)
qed

lemma validateCode_iff_example:
  "validateCode (create_validator 10000) dangerous_patterns default_sandbox ''payload > 3'' = Inr ()"
proof -
  have d: "\<not> dangerous ''payload > 3''"
    unfolding dangerous_found by (simp add: dangerous_patterns_def pattern_found_def str_contains_def str_find_def escaped_dot_def
      dotted_def boundary_loop.simps boundary_at_def isIdentifierChar_def char_eval)
  have "iv_validate (create_validator 10000) dangerous_patterns ''payload > 3'' = Inr ()"
    unfolding input_validate_iff_aux [OF refl]
    using d by (simp add: balanced_nesting create_validator_def char_eval)
  with validateCode_iff [OF refl, of "create_validator 10000" default_sandbox "''payload > 3''"] show ?thesis by simp
qed

end
