(* ===== verification/Timeout_Executor.thy ===== *)
theory Timeout_Executor
  imports FR_Prelude
begin

text \<open>
  \<^verbatim>\<open>TimeoutExecutor\<close>, \<^verbatim>\<open>RuleExecutor\<close> and \<^verbatim>\<open>TimeoutGuard\<close> (include/fastrules/timeout_executor.hpp). Times are milliseconds. A
  task is what its thread does: after how long it ends, if it ends (\<open>None\<close>: never), and with what; a task that polls the
  cancellation flag may end otherwise once it is set, which nobody waits for.
\<close>

record 'a task =
  t_ends :: "int option"
  t_result :: "exn + 'a"

record TimeoutExecutor =
  te_maxExecutionTime :: int
  te_cancelled :: bool

definition make_executor :: "int \<Rightarrow> TimeoutExecutor" where
  "make_executor ms = \<lparr>te_maxExecutionTime = ms, te_cancelled = False\<rparr>"

text \<open>Whether the future is ready when \<^verbatim>\<open>wait_for\<close> returns, and for how long the caller waits.\<close>

definition ready_in_time :: "int \<Rightarrow> 'a task \<Rightarrow> bool" where
  "ready_in_time ms t = (case t_ends t of None \<Rightarrow> False | Some n \<Rightarrow> n \<le> max 0 ms)"

definition waits_for :: "int \<Rightarrow> 'a task \<Rightarrow> int" where
  "waits_for ms t = (if ready_in_time ms t then the (t_ends t) else max 0 ms)"

datatype thread_end = Joined | Detached

text \<open>The result, what becomes of the worker thread, and the executor.\<close>

definition executeWithTimeout ::
    "'a task \<Rightarrow> TimeoutExecutor \<Rightarrow> (exn + 'a) \<times> thread_end \<times> TimeoutExecutor" where
  "executeWithTimeout t e =
     (let e1 = e\<lparr>te_cancelled := False\<rparr>
      in if \<not> ready_in_time (te_maxExecutionTime e1) t
         then (Inl (RuleTimeoutException
                      (''Rule execution timed out after '' @ std_to_string (te_maxExecutionTime e1) @ '' milliseconds'')),
               Detached, e1\<lparr>te_cancelled := True\<rparr>)
         else (t_result t, Joined, e1))"

definition isCancelled :: "TimeoutExecutor \<Rightarrow> bool" where
  "isCancelled e = te_cancelled e"

definition te_setMaxExecutionTime :: "int \<Rightarrow> TimeoutExecutor \<Rightarrow> TimeoutExecutor" where
  "te_setMaxExecutionTime ms e = e\<lparr>te_maxExecutionTime := ms\<rparr>"

record RuleExecutor =
  re_maxExecutionTime :: int
  softTimeout :: int
  hardTimeout :: int

definition clampNonNegative :: "int \<Rightarrow> int" where
  "clampNonNegative d = (if d < 0 then 0 else d)"

definition make_rule_executor :: "int \<Rightarrow> RuleExecutor" where
  "make_rule_executor ms =
     \<lparr>re_maxExecutionTime = ms, softTimeout = clampNonNegative (ms - 100), hardTimeout = ms + 100\<rparr>"

definition re_execute :: "'a task \<Rightarrow> RuleExecutor \<Rightarrow> (exn + 'a) \<times> thread_end" where
  "re_execute t r = (let (res, th, e) = executeWithTimeout t (make_executor (re_maxExecutionTime r)) in (res, th))"

definition re_setMaxExecutionTime :: "int \<Rightarrow> RuleExecutor \<Rightarrow> RuleExecutor" where
  "re_setMaxExecutionTime ms r =
     r\<lparr>re_maxExecutionTime := ms, softTimeout := clampNonNegative (ms - 100), hardTimeout := ms + 100\<rparr>"

record TimeoutGuard =
  tg_timeout :: int
  timedOut :: bool
  completed :: bool

definition make_guard :: "int \<Rightarrow> TimeoutGuard" where
  "make_guard ms = \<lparr>tg_timeout = ms, timedOut = False, completed = False\<rparr>"

definition destroy_guard :: "TimeoutGuard \<Rightarrow> TimeoutGuard" where
  "destroy_guard g = g\<lparr>completed := True\<rparr>"

definition isTimedOut :: "TimeoutGuard \<Rightarrow> bool" where
  "isTimedOut g = timedOut g"

text \<open>
  The caller never waits longer than the limit, whether the task ends or not; it gets the task's own result or exception
  exactly if the task ended in time, in which case the thread is joined and the flag is down, and a timeout exception
  with a detached thread and the flag raised otherwise. The flag of an earlier call does not matter.
\<close>

lemma executor_respects_limit:
  assumes "0 \<le> te_maxExecutionTime e" "\<forall>n. t_ends t = Some n \<longrightarrow> 0 \<le> n"
  shows "waits_for (te_maxExecutionTime e) t \<le> te_maxExecutionTime e"
    "executeWithTimeout t e = (r, th, e') \<Longrightarrow>
       (if ready_in_time (te_maxExecutionTime e) t then r = t_result t \<and> th = Joined \<and> \<not> isCancelled e'
        else (\<exists>m. r = Inl (RuleTimeoutException m)) \<and> th = Detached \<and> isCancelled e')"
  using assms by (auto simp: waits_for_def ready_in_time_def executeWithTimeout_def isCancelled_def Let_def split: option.splits if_splits)

text \<open>The limits of a rule executor are ordered and the soft one is never negative, however the limit is changed.\<close>

lemma executor_limits:
  assumes "0 \<le> ms" "r = make_rule_executor ms \<or> r = re_setMaxExecutionTime ms r0"
  shows "0 \<le> softTimeout r \<and> softTimeout r \<le> re_maxExecutionTime r \<and> re_maxExecutionTime r < hardTimeout r"
  using assms by (auto simp: make_rule_executor_def re_setMaxExecutionTime_def clampNonNegative_def)

text \<open>The guard never reports a timeout.\<close>

lemma guard_never_times_out: "\<not> isTimedOut (make_guard ms)" "isTimedOut (destroy_guard g) = isTimedOut g"
  by (simp_all add: isTimedOut_def make_guard_def destroy_guard_def)

end
