(* ===== verification/Compilation_Levels.thy ===== *)
theory Compilation_Levels
  imports Workflow_Order
begin

text \<open>
  \<^verbatim>\<open>Workflow::buildCompilationLevels\<close> (src/workflow.cpp): the levels of rules that
  \<^verbatim>\<open>compileParallel\<close> hands to its threads. A rule waits for those of its child rules that are
  listed in the workflow themselves. Rules are told apart by their address, as the pointer sets of
  the code do, but the counters are kept per identifier. The levels list every rule once whatever
  the identifiers are, and for distinct identifiers a listed child always comes in an earlier level.
\<close>

section \<open>Construction\<close>

abbreviation top_level :: "Rule list \<Rightarrow> nat set" where
  "top_level rules \<equiv> addr ` set rules"

abbreviation child_addrs :: "Rule \<Rightarrow> nat set" where
  "child_addrs p \<equiv> addr ` set (childRules p)"

definition count_child :: "nat set \<Rightarrow> Rule \<Rightarrow> Rule \<Rightarrow> (int \<Rightarrow> int) \<Rightarrow> int \<Rightarrow> int" where
  "count_child topLevel r c deg = (if addr c \<in> topLevel then deg(rid r := deg (rid r) + 1) else deg)"

definition inDegree :: "Rule list \<Rightarrow> int \<Rightarrow> int" where
  "inDegree rules =
     fold (\<lambda>r. fold (count_child (top_level rules) r) (childRules r)) rules (\<lambda>_. 0)"

text \<open>One potential parent of a finished rule, and all of them. The \<^verbatim>\<open>break\<close> counts a parent once
  even if it lists the child twice.\<close>

definition visit_parent ::
    "nat set \<Rightarrow> Rule \<Rightarrow> Rule \<Rightarrow> (int \<Rightarrow> int) \<times> Rule list \<Rightarrow> (int \<Rightarrow> int) \<times> Rule list" where
  "visit_parent remaining r p s =
     (if addr p \<notin> remaining then s
      else if addr r \<in> child_addrs p
      then let deg = (fst s)(rid p := fst s (rid p) - 1)
           in (deg, if deg (rid p) = 0 then snd s @ [p] else snd s)
      else s)"

definition finish_rule ::
    "Rule list \<Rightarrow> nat set \<Rightarrow> Rule \<Rightarrow> (int \<Rightarrow> int) \<times> Rule list \<Rightarrow> (int \<Rightarrow> int) \<times> Rule list" where
  "finish_rule rules remaining r s = fold (visit_parent remaining r) rules s"

lemma visit_parent_subset:
  "set (snd (visit_parent remaining r p s)) \<subseteq>
     set (snd s) \<union> (if addr p \<in> remaining then {p} else {})"
  by (auto simp: visit_parent_def Let_def)

lemma finish_rule_subset:
  "set (snd (finish_rule rules remaining r s)) \<subseteq> set (snd s) \<union> {p \<in> set rules. addr p \<in> remaining}"
  unfolding finish_rule_def
proof (induction rules arbitrary: s)
  case (Cons p rules)
  show ?case
    using Cons.IH [of "visit_parent remaining r p s"] visit_parent_subset [of remaining r p s]
    by (auto split: if_splits)
qed simp

lemma finish_rules_subset:
  "set (snd (fold (finish_rule rules remaining) rs s)) \<subseteq> set (snd s) \<union> {p \<in> set rules. addr p \<in> remaining}"
proof (induction rs arbitrary: s)
  case (Cons r rs)
  show ?case
    using Cons.IH [of "finish_rule rules remaining r s"] finish_rule_subset [of rules remaining r s] by auto
qed simp

text \<open>The \<^verbatim>\<open>while\<close> loop over the current level; it also returns the rules that remain.\<close>

function compilation_loop ::
    "Rule list \<Rightarrow> nat set \<Rightarrow> (int \<Rightarrow> int) \<Rightarrow> Rule list \<Rightarrow> Rule list list \<times> nat set" where
  "compilation_loop rules remaining deg currentLevel =
     (if currentLevel = [] then ([], remaining)
      else let remaining' = remaining - addr ` set currentLevel;
               s = fold (finish_rule rules remaining') currentLevel (deg, []);
               rest = compilation_loop rules remaining' (fst s) (snd s)
           in (currentLevel # fst rest, snd rest))"
  by pat_completeness auto

text \<open>Every level after the first consists of remaining rules, which the next round removes.\<close>

definition loop_measure :: "Rule list \<Rightarrow> nat set \<Rightarrow> Rule list \<Rightarrow> nat" where
  "loop_measure rules remaining level =
     2 * card (remaining \<inter> top_level rules) +
     (if level \<noteq> [] \<and> addr ` set level \<inter> (remaining \<inter> top_level rules) = {} then 1 else 0)"

lemma loop_measure_decreases:
  assumes "level \<noteq> []" and "set next_level \<subseteq> {p \<in> set rules. addr p \<in> remaining - addr ` set level}"
  shows "loop_measure rules (remaining - addr ` set level) next_level < loop_measure rules remaining level"
proof -
  let ?M = "remaining \<inter> top_level rules" and ?M' = "(remaining - addr ` set level) \<inter> top_level rules"
  have flag: "next_level = [] \<or> addr ` set next_level \<inter> ?M' \<noteq> {}"
    using assms(2) by (cases next_level) auto
  show ?thesis
  proof (cases "addr ` set level \<inter> ?M = {}")
    case True
    then have "?M' = ?M" by auto
    with True flag assms(1) show ?thesis by (auto simp: loop_measure_def)
  next
    case False
    then have "?M' \<subset> ?M" by auto
    then have "card ?M' < card ?M" by (intro psubset_card_mono) auto
    with False flag show ?thesis by (auto simp: loop_measure_def)
  qed
qed

termination compilation_loop
proof (relation "measure (\<lambda>(rules, remaining, deg, level). loop_measure rules remaining level)")
  fix rules remaining deg level remaining' s
  assume "level \<noteq> []" "remaining' = remaining - addr ` set level"
    "(s :: (int \<Rightarrow> int) \<times> Rule list) = fold (finish_rule rules remaining') level (deg, [])"
  then show "((rules, remaining', fst s, snd s), rules, remaining, deg, level)
      \<in> measure (\<lambda>(rules, remaining, deg, level). loop_measure rules remaining level)"
    using loop_measure_decreases [of level "snd s" rules remaining]
      finish_rules_subset [of rules remaining' level "(deg, [])"] by (simp add: split_beta)
qed simp

declare compilation_loop.simps [simp del]

definition buildCompilationLevels :: "Rule list \<Rightarrow> Rule list list" where
  "buildCompilationLevels rules =
     (let deg = inDegree rules;
          (levels, remaining) = compilation_loop rules (top_level rules) deg (filter (\<lambda>r. deg (rid r) = 0) rules)
      in if remaining = {} then levels else levels @ [filter (\<lambda>r. addr r \<in> remaining) rules])"

section \<open>Every rule is compiled once\<close>

text \<open>A counter reaches zero by a decrement at most once, so no rule is put into a level twice.\<close>

definition pushed_once :: "(int \<Rightarrow> int) \<times> Rule list \<Rightarrow> bool" where
  "pushed_once s \<longleftrightarrow> distinct (snd s) \<and> (\<forall>p\<in>set (snd s). fst s (rid p) \<le> 0)"

lemma pushed_once_visit: "pushed_once s \<Longrightarrow> pushed_once (visit_parent remaining r p s)"
  by (auto simp: pushed_once_def visit_parent_def Let_def)

lemma pushed_once_finish: "pushed_once s \<Longrightarrow> pushed_once (finish_rule rules remaining r s)"
  unfolding finish_rule_def by (induction rules arbitrary: s) (simp_all add: pushed_once_visit)

lemma pushed_once_level: "pushed_once s \<Longrightarrow> pushed_once (fold (finish_rule rules remaining) rs s)"
  by (induction rs arbitrary: s) (simp_all add: pushed_once_finish)

lemma compilation_loop_lists:
  assumes "distinct level" "set level \<subseteq> {r \<in> set rules. addr r \<in> remaining}" "remaining \<subseteq> top_level rules"
    and "distinct (map addr rules)" "compilation_loop rules remaining deg level = (levels, rest)"
  shows "distinct (concat levels) \<and> set (concat levels) \<subseteq> set rules \<and> rest = remaining - addr ` set (concat levels) \<and>
     addr ` set (concat levels) \<subseteq> remaining"
  using assms
proof (induction rules remaining deg level arbitrary: levels rest rule: compilation_loop.induct)
  case (1 rules remaining deg level)
  show ?case
  proof (cases "level = []")
    case True
    with "1.prems" show ?thesis by (simp add: compilation_loop.simps [of rules remaining deg "[]"])
  next
    case False
    let ?rem = "remaining - addr ` set level"
    let ?s = "fold (finish_rule rules ?rem) level (deg, [])"
    obtain ls rs where rec: "compilation_loop rules ?rem (fst ?s) (snd ?s) = (ls, rs)" by fastforce
    have out: "levels = level # ls" "rest = rs"
      using "1.prems"(5) rec False by (simp_all add: compilation_loop.simps [of rules remaining deg level] Let_def)
    have "distinct (snd ?s)" "set (snd ?s) \<subseteq> {p \<in> set rules. addr p \<in> ?rem}" "?rem \<subseteq> top_level rules"
      using pushed_once_level [of "(deg, [])" rules ?rem level] finish_rules_subset [of rules ?rem level "(deg, [])"]
        "1.prems"(3) by (auto simp: pushed_once_def)
    note ih = "1.IH" [OF False refl refl this "1.prems"(4) rec]
    have "set level \<inter> set (concat ls) = {}" "\<forall>x\<in>set (concat ls). addr x \<in> remaining" using ih by blast+
    then show ?thesis using ih "1.prems"(1,2) out by auto
  qed
qed

lemma buildCompilationLevels_mset:
  assumes "distinct (map addr rules)"
  shows "mset (concat (buildCompilationLevels rules)) = mset rules"
proof -
  let ?level = "filter (\<lambda>r. inDegree rules (rid r) = 0) rules"
  obtain levels rest where loop: "compilation_loop rules (top_level rules) (inDegree rules) ?level = (levels, rest)"
    by fastforce
  have dr: "distinct rules" using assms by (simp add: distinct_map)
  have "distinct ?level" "set ?level \<subseteq> {r \<in> set rules. addr r \<in> top_level rules}" using dr by auto
  note out = compilation_loop_lists [OF this subset_refl assms loop]
  let ?left = "filter (\<lambda>r. addr r \<in> rest) rules"
  have all: "concat (buildCompilationLevels rules) = concat levels @ ?left"
    by (simp add: buildCompilationLevels_def loop)
  have inj: "inj_on addr (set rules)" using assms by (simp add: distinct_map)
  have "set (concat levels @ ?left) = set rules" using out inj by (auto simp: inj_on_def)
  moreover have "distinct (concat levels @ ?left)" using out dr by auto
  ultimately show ?thesis using dr all by (metis set_eq_iff_mset_eq_distinct)
qed

section \<open>Children come first\<close>

text \<open>The listed children of a rule, and the workflows whose counters tell the truth: distinct rules
  with distinct identifiers, no child listed twice by a parent, and one rule behind every address.\<close>

definition listed_children :: "Rule list \<Rightarrow> Rule \<Rightarrow> nat set" where
  "listed_children rules p = child_addrs p \<inter> top_level rules"

definition countable_children :: "Rule list \<Rightarrow> bool" where
  "countable_children rules \<longleftrightarrow>
     distinct (map addr rules) \<and> distinct (map rid rules) \<and>
     list_all (\<lambda>p. distinct (map addr (childRules p)) \<and>
       list_all (\<lambda>c. list_all (\<lambda>r. addr c = addr r \<longrightarrow> c = r) rules) (childRules p)) rules"

lemma count_children:
  "fold (count_child T r) cs deg = deg(rid r := deg (rid r) + int (length (filter (\<lambda>c. addr c \<in> T) cs)))"
  by (induction cs arbitrary: deg) (simp_all add: count_child_def fun_eq_iff)

lemma fold_count_other:
  "i \<notin> rid ` set rs \<Longrightarrow> fold (\<lambda>r. fold (count_child T r) (childRules r)) rs deg i = deg i"
  by (induction rs arbitrary: deg) (simp_all add: count_children)

lemma rid_fresh: "distinct (map rid (r # rs)) \<Longrightarrow> p \<in> set rs \<Longrightarrow> rid p \<noteq> rid r"
  by (force simp: image_iff)

lemma fold_count_children:
  assumes "distinct (map rid rs)" "p \<in> set rs"
  shows "fold (\<lambda>r. fold (count_child T r) (childRules r)) rs deg (rid p) =
    deg (rid p) + int (length (filter (\<lambda>c. addr c \<in> T) (childRules p)))"
  using assms
proof (induction rs arbitrary: deg)
  case (Cons r rs)
  show ?case
  proof (cases "p = r")
    case True
    then have "rid p \<notin> rid ` set rs" using Cons.prems(1) by simp
    from fold_count_other [OF this, of T "fold (count_child T r) (childRules r) deg"] True
    show ?thesis by (simp only: fold_simps) (simp add: count_children)
  next
    case False
    with Cons.prems have p: "p \<in> set rs" by auto
    from p Cons.prems(1) have "rid p \<noteq> rid r" by (intro rid_fresh)
    with p Cons show ?thesis by (simp add: count_children)
  qed
qed simp

lemma length_filter_addr:
  assumes "distinct (map addr cs)"
  shows "length (filter (\<lambda>c. addr c \<in> T) cs) = card (addr ` set cs \<inter> T)"
proof -
  have "length (filter (\<lambda>c. addr c \<in> T) cs) = card (set (map addr (filter (\<lambda>c. addr c \<in> T) cs)))"
    using assms by (subst distinct_card) (auto simp: distinct_map_filter)
  also have "set (map addr (filter (\<lambda>c. addr c \<in> T) cs)) = addr ` set cs \<inter> T" by auto
  finally show ?thesis .
qed

lemma inDegree_listed:
  assumes "countable_children rules" "p \<in> set rules"
  shows "inDegree rules (rid p) = int (card (listed_children rules p))"
  using assms
  by (simp add: inDegree_def fold_count_children countable_children_def list_all_iff length_filter_addr listed_children_def)

text \<open>What one finished rule does to the counters and to the next level.\<close>

lemma finish_suffix:
  assumes "distinct (map rid ps)"
  shows "fold (visit_parent remaining r) ps (deg, next_level) =
    (\<lambda>i. deg i - (if \<exists>p\<in>set ps. rid p = i \<and> addr p \<in> remaining \<and> addr r \<in> child_addrs p then 1 else 0),
     next_level @ filter (\<lambda>p. addr p \<in> remaining \<and> addr r \<in> child_addrs p \<and> deg (rid p) = 1) ps)"
  using assms
proof (induction ps arbitrary: deg next_level)
  case (Cons p ps)
  let ?hit = "addr p \<in> remaining \<and> addr r \<in> child_addrs p"
  have fresh: "rid q \<noteq> rid p" if "q \<in> set ps" for q using Cons.prems that by (rule rid_fresh)
  have filt: "filter (\<lambda>q. addr q \<in> remaining \<and> addr r \<in> child_addrs q \<and> (deg(rid p := x)) (rid q) = 1) ps =
      filter (\<lambda>q. addr q \<in> remaining \<and> addr r \<in> child_addrs q \<and> deg (rid q) = 1) ps" for x
    by (rule filter_cong) (use fresh in auto)
  have deg: "(deg(rid p := deg (rid p) - 1)) i -
        (if \<exists>q\<in>set ps. rid q = i \<and> addr q \<in> remaining \<and> addr r \<in> child_addrs q then 1 else 0) =
      deg i - (if i = rid p \<or> (\<exists>q\<in>set ps. rid q = i \<and> addr q \<in> remaining \<and> addr r \<in> child_addrs q) then 1 else 0)" for i
    using fresh by auto
  from Cons show ?case
    by (cases ?hit) (auto simp: visit_parent_def Let_def filt [simplified] deg [simplified] fun_eq_iff)
qed simp

definition hits :: "Rule list \<Rightarrow> Rule \<Rightarrow> int" where
  "hits rs p = int (length (filter (\<lambda>r. addr r \<in> child_addrs p) rs))"

lemma finish_level:
  assumes "distinct (map rid rules)"
  shows "p \<in> set rules \<Longrightarrow> addr p \<in> remaining \<Longrightarrow>
      fst (fold (finish_rule rules remaining) rs s) (rid p) = fst s (rid p) - hits rs p"
    and "set (snd (fold (finish_rule rules remaining) rs s)) =
      set (snd s) \<union> {p \<in> set rules. addr p \<in> remaining \<and> 1 \<le> fst s (rid p) \<and> fst s (rid p) \<le> hits rs p}"
proof (induction rs arbitrary: s)
  case Nil
  { case 1 then show ?case by (simp add: hits_def) }
  { case 2 then show ?case by (auto simp: hits_def) }
next
  case (Cons r rs)
  let ?s = "\<lambda>s. finish_rule rules remaining r s"
  have same: "q = p" if "q \<in> set rules" "p \<in> set rules" "rid q = rid p" for p q
    using assms that by (meson distinct_map inj_onD)
  have step: "fst (?s s) (rid p) = fst s (rid p) - (if addr r \<in> child_addrs p then 1 else 0)"
    if "p \<in> set rules" "addr p \<in> remaining" for p s
    using that same by (cases s) (auto simp: finish_rule_def finish_suffix [OF assms])
  have lvl: "set (snd (?s s)) = set (snd s) \<union> {p \<in> set rules. addr p \<in> remaining \<and> addr r \<in> child_addrs p \<and> fst s (rid p) = 1}" for s
    by (cases s) (auto simp: finish_rule_def finish_suffix [OF assms])
  { case 1
    have "fst (fold (finish_rule rules remaining) rs (?s s)) (rid p) = fst (?s s) (rid p) - hits rs p"
      by (rule Cons.IH(1) [OF 1])
    then show ?case using step [OF 1] by (simp add: hits_def) }
  { case 2
    have nn: "hits rs p \<ge> 0" for p by (simp add: hits_def)
    have cons: "hits (r # rs) p = hits rs p + (if addr r \<in> child_addrs p then 1 else 0)" for p by (simp add: hits_def)
    have "set (snd (fold (finish_rule rules remaining) rs (?s s))) =
      set (snd s) \<union> {p \<in> set rules. addr p \<in> remaining \<and> addr r \<in> child_addrs p \<and> fst s (rid p) = 1} \<union>
        {p \<in> set rules. addr p \<in> remaining \<and> 1 \<le> fst (?s s) (rid p) \<and> fst (?s s) (rid p) \<le> hits rs p}"
      unfolding Cons.IH(2) [of "?s s"] lvl [of s] ..
    also have "\<dots> = set (snd s) \<union> {p \<in> set rules. addr p \<in> remaining \<and> 1 \<le> fst s (rid p) \<and> fst s (rid p) \<le> hits (r # rs) p}"
      using nn by (auto simp: step cons split: if_splits)
    finally show ?case by simp }
qed

text \<open>The loop invariant: the counter of a remaining rule is the number of its listed children that
  remain, and the current level holds exactly the remaining rules without such a child.\<close>

definition level_inv :: "Rule list \<Rightarrow> nat set \<Rightarrow> (int \<Rightarrow> int) \<Rightarrow> Rule list \<Rightarrow> bool" where
  "level_inv rules remaining deg level \<longleftrightarrow>
     remaining \<subseteq> top_level rules \<and> distinct level \<and>
     (\<forall>p\<in>set rules. addr p \<in> remaining \<longrightarrow> deg (rid p) = int (card (listed_children rules p \<inter> remaining))) \<and>
     set level = {p \<in> set rules. addr p \<in> remaining \<and> listed_children rules p \<inter> remaining = {}}"

lemma level_invD:
  assumes "level_inv rules remaining deg level"
  shows "remaining \<subseteq> top_level rules" "distinct level"
    "p \<in> set rules \<Longrightarrow> addr p \<in> remaining \<Longrightarrow> deg (rid p) = int (card (listed_children rules p \<inter> remaining))"
    "set level = {p \<in> set rules. addr p \<in> remaining \<and> listed_children rules p \<inter> remaining = {}}"
  using assms unfolding level_inv_def by blast+

lemma listed_children_finite [simp]: "finite (listed_children rules p)"
  by (simp add: listed_children_def)

lemma hits_listed:
  assumes "distinct (map addr rules)" "distinct level" "set level \<subseteq> set rules"
  shows "hits level p = int (card (listed_children rules p \<inter> addr ` set level))"
proof -
  have "distinct (map addr level)"
    using assms by (auto simp: distinct_map intro: inj_on_subset)
  then have "hits level p = int (card (addr ` set level \<inter> child_addrs p))"
    by (simp add: hits_def length_filter_addr)
  also have "addr ` set level \<inter> child_addrs p = listed_children rules p \<inter> addr ` set level"
    using assms(3) by (auto simp: listed_children_def)
  finally show ?thesis .
qed

lemma level_inv_step:
  assumes inv: "level_inv rules remaining deg level" and ok: "countable_children rules"
  defines "remaining' \<equiv> remaining - addr ` set level"
  defines "s \<equiv> fold (finish_rule rules remaining') level (deg, [])"
  shows "level_inv rules remaining' (fst s) (snd s)"
proof -
  note I = level_invD [OF inv]
  have rids: "distinct (map rid rules)" "distinct (map addr rules)" using ok by (simp_all add: countable_children_def)
  have sub: "set level \<subseteq> set rules" using I(4) by blast
  have split: "int (card (listed_children rules p \<inter> remaining)) =
      int (card (listed_children rules p \<inter> remaining')) + hits level p" for p
  proof -
    have "addr ` set level \<subseteq> remaining" using I(4) by auto
    then have "listed_children rules p \<inter> remaining =
        (listed_children rules p \<inter> remaining') \<union> (listed_children rules p \<inter> addr ` set level)"
      by (auto simp: remaining'_def)
    then have "card (listed_children rules p \<inter> remaining) =
        card (listed_children rules p \<inter> remaining') + card (listed_children rules p \<inter> addr ` set level)"
      using card_Un_disjoint [of "listed_children rules p \<inter> remaining'" "listed_children rules p \<inter> addr ` set level"]
      by (auto simp: remaining'_def)
    then show ?thesis using hits_listed [OF rids(2) I(2) sub, of p] by simp
  qed
  have counts: "fst s (rid p) = int (card (listed_children rules p \<inter> remaining'))"
    if "p \<in> set rules" "addr p \<in> remaining'" for p
    using finish_level(1) [OF rids(1) that, of level "(deg, [])"] I(3) [of p] that split [of p]
    by (simp add: s_def remaining'_def)
  have waiting: "1 \<le> deg (rid p) \<and> (deg (rid p) \<le> hits level p \<longleftrightarrow> listed_children rules p \<inter> remaining' = {})"
    if "p \<in> set rules" "addr p \<in> remaining'" for p
  proof -
    have "p \<notin> set level" using that by (auto simp: remaining'_def)
    then have "card (listed_children rules p \<inter> remaining) \<noteq> 0"
      using that I(4) by (auto simp: remaining'_def)
    then have pos: "0 < card (listed_children rules p \<inter> remaining)" by (rule neq0_conv [THEN iffD1])
    have deg: "deg (rid p) = int (card (listed_children rules p \<inter> remaining))"
      using that by (intro I(3)) (auto simp: remaining'_def)
    have "1 \<le> deg (rid p)" unfolding deg using pos by linarith
    moreover have "deg (rid p) \<le> hits level p \<longleftrightarrow> card (listed_children rules p \<inter> remaining') = 0"
      unfolding deg split [of p] by linarith
    ultimately show ?thesis by (simp add: card_eq_0_iff)
  qed
  have "set (snd s) = {p \<in> set rules. addr p \<in> remaining' \<and> listed_children rules p \<inter> remaining' = {}}"
    unfolding s_def finish_level(2) [OF rids(1)] using waiting by auto
  moreover have "distinct (snd s)"
    using pushed_once_level [of "(deg, [])" rules remaining' level] by (simp add: pushed_once_def s_def)
  moreover have "remaining' \<subseteq> top_level rules" using I(1) by (auto simp: remaining'_def)
  ultimately show ?thesis unfolding level_inv_def using counts by blast
qed

text \<open>The levels of the loop are in order, and no remaining rule was ready.\<close>

definition children_first :: "Rule list \<Rightarrow> nat set \<Rightarrow> Rule list list \<Rightarrow> bool" where
  "children_first rules remaining levels \<longleftrightarrow>
     (\<forall>i<length levels. \<forall>p\<in>set (levels ! i).
        listed_children rules p \<inter> remaining \<subseteq> addr ` set (concat (take i levels)))"

lemma children_first_Cons:
  assumes "\<forall>p\<in>set level. listed_children rules p \<inter> remaining = {}"
    and "children_first rules (remaining - addr ` set level) levels"
  shows "children_first rules remaining (level # levels)"
  unfolding children_first_def
proof (intro allI impI ballI)
  fix i p assume i: "i < length (level # levels)" and p: "p \<in> set ((level # levels) ! i)"
  show "listed_children rules p \<inter> remaining \<subseteq> addr ` set (concat (take i (level # levels)))"
  proof (cases i)
    case 0
    with p assms(1) show ?thesis by auto
  next
    case (Suc j)
    with i p assms(2)
    have "listed_children rules p \<inter> (remaining - addr ` set level) \<subseteq> addr ` set (concat (take j levels))"
      by (simp add: children_first_def)
    with Suc show ?thesis by (auto simp: image_Un)
  qed
qed

lemma compilation_loop_order:
  assumes "level_inv rules remaining deg level" "countable_children rules"
    and "compilation_loop rules remaining deg level = (levels, rest)"
  shows "children_first rules remaining levels \<and>
     (\<forall>p\<in>set rules. addr p \<in> rest \<longrightarrow> listed_children rules p \<inter> rest \<noteq> {}) \<and> rest \<subseteq> top_level rules"
  using assms
proof (induction rules remaining deg level arbitrary: levels rest rule: compilation_loop.induct)
  case (1 rules remaining deg level)
  note I = level_invD [OF "1.prems"(1)]
  show ?case
  proof (cases "level = []")
    case True
    with "1.prems"(3) have "levels = [] \<and> rest = remaining"
      by (simp add: compilation_loop.simps [of rules remaining deg "[]"])
    with True I show ?thesis by (auto simp: children_first_def)
  next
    case False
    let ?rem = "remaining - addr ` set level"
    let ?s = "fold (finish_rule rules ?rem) level (deg, [])"
    obtain ls rs where rec: "compilation_loop rules ?rem (fst ?s) (snd ?s) = (ls, rs)" by fastforce
    have out: "levels = level # ls" "rest = rs"
      using "1.prems"(3) rec False by (simp_all add: compilation_loop.simps [of rules remaining deg level] Let_def)
    note ih = "1.IH" [OF False refl refl level_inv_step [OF "1.prems"(1,2)] "1.prems"(2) rec]
    have "\<forall>p\<in>set level. listed_children rules p \<inter> remaining = {}" using I(4) by blast
    with ih out show ?thesis by (simp add: children_first_Cons)
  qed
qed

text \<open>A rule owns its children, so a set of rules each of which waits for another of them is empty.\<close>

lemma child_smaller: "c \<in> set (childRules p) \<Longrightarrow> size c < size p"
  by (cases p) (auto dest: size_list_estimation' [OF _ order_refl, of _ _ size])

lemma no_waiting_cycle:
  assumes "countable_children rules" "rest \<subseteq> top_level rules"
    and "\<forall>p\<in>set rules. addr p \<in> rest \<longrightarrow> listed_children rules p \<inter> rest \<noteq> {}"
  shows "rest = {}"
proof -
  have none: "p \<in> set rules \<Longrightarrow> addr p \<notin> rest" for p
  proof (induction p rule: measure_induct_rule [of size])
    case (less p)
    show ?case
    proof
      assume "addr p \<in> rest"
      with assms(3) less.prems obtain c r where "c \<in> set (childRules p)" "r \<in> set rules" "addr c = addr r" "addr c \<in> rest"
        by (fastforce simp: listed_children_def)
      moreover from this assms(1) less.prems have "c = r" by (auto simp: countable_children_def list_all_iff)
      ultimately show False using less.IH [of c] child_smaller by auto
    qed
  qed
  with assms(2) show ?thesis by auto
qed

lemma initial_level_inv:
  assumes "countable_children rules"
  shows "level_inv rules (top_level rules) (inDegree rules) (filter (\<lambda>r. inDegree rules (rid r) = 0) rules)"
proof -
  have "listed_children rules p \<inter> top_level rules = listed_children rules p" for p by (auto simp: listed_children_def)
  then show ?thesis
    using assms inDegree_listed [OF assms] by (auto simp: level_inv_def countable_children_def distinct_map)
qed

text \<open>
  C11. Parallel compilation covers every rule, and children come first. The levels list every rule of
  a workflow of distinct rules exactly once, whatever identifiers the rules have. If the identifiers are
  distinct too and no rule lists a child twice, every child that the workflow lists itself is in an
  earlier level than its parent, so that the barrier between the levels compiles it first.
\<close>

theorem compilation_levels_children_first:
  assumes "distinct (map addr rules)"
  shows "mset (concat (buildCompilationLevels rules)) = mset rules \<and>
    (countable_children rules \<longrightarrow>
      (\<forall>i<length (buildCompilationLevels rules). \<forall>p\<in>set (buildCompilationLevels rules ! i). \<forall>c\<in>set (childRules p).
         c \<in> set rules \<longrightarrow> (\<exists>j<i. c \<in> set (buildCompilationLevels rules ! j))))"
proof (intro conjI impI allI ballI)
  show "mset (concat (buildCompilationLevels rules)) = mset rules" by (rule buildCompilationLevels_mset [OF assms])
  fix i p c
  assume ok: "countable_children rules" and i: "i < length (buildCompilationLevels rules)"
    and p: "p \<in> set (buildCompilationLevels rules ! i)" and c: "c \<in> set (childRules p)" "c \<in> set rules"
  obtain levels rest where loop: "compilation_loop rules (top_level rules) (inDegree rules)
      (filter (\<lambda>r. inDegree rules (rid r) = 0) rules) = (levels, rest)" by fastforce
  note ord = compilation_loop_order [OF initial_level_inv [OF ok] ok loop]
  then have "rest = {}" using no_waiting_cycle [OF ok] by blast
  then have lv: "buildCompilationLevels rules = levels" by (simp add: buildCompilationLevels_def loop)
  have "addr c \<in> listed_children rules p \<inter> top_level rules" using c by (simp add: listed_children_def)
  with ord i p lv have "addr c \<in> addr ` set (concat (take i levels))" unfolding children_first_def by blast
  then obtain q where q: "q \<in> set (concat (take i levels))" "addr c = addr q" by auto
  have "set (concat levels) = set rules" using buildCompilationLevels_mset [OF assms] lv by (metis mset_eq_setD)
  then have "q \<in> set rules" using q(1) by (auto dest: in_set_takeD)
  then have "q = c" using q(2) c(2) assms by (metis distinct_map inj_onD)
  with q(1) obtain l where "l \<in> set (take i levels)" "c \<in> set l" by auto
  moreover from this obtain j where "j < i" "l = levels ! j" by (auto simp: in_set_conv_nth)
  ultimately show "\<exists>j<i. c \<in> set (buildCompilationLevels rules ! j)" using lv by blast
qed

theorem compilation_levels_children_first_witness:
  "\<exists>j<1. Rule 2 (sample_data 7 ''x'') [] \<in> set (buildCompilationLevels
     [Rule 0 (sample_data 6 ''y'') [Rule 2 (sample_data 7 ''x'') []], Rule 2 (sample_data 7 ''x'') []] ! j)"
proof -
  let ?c = "Rule 2 (sample_data 7 ''x'') []"
  let ?p = "Rule 0 (sample_data 6 ''y'') [?c]"
  let ?rules = "[?p, ?c]"
  have ok: "countable_children ?rules" "distinct (map addr ?rules)"
    by (simp_all add: countable_children_def sample_data_def)
  have lv: "buildCompilationLevels ?rules = [[?c], [?p]]"
    by (simp add: buildCompilationLevels_def inDegree_def count_child_def compilation_loop.simps
        finish_rule_def visit_parent_def sample_data_def) auto
  show ?thesis
    by (rule mp [OF conjunct2 [OF compilation_levels_children_first [OF ok(2)]] ok(1), rule_format, of 1 ?p ?c])
       (simp_all add: lv)
qed

text \<open>With equal identifiers, which validation accepts when they are 0, the two rules share a counter:
  parent and child end up in the same level and are compiled concurrently.\<close>

lemma shared_identifier_loses_order:
  "buildCompilationLevels
     [Rule 0 (sample_data 0 ''y'') [Rule 2 (sample_data 0 ''x'') []], Rule 2 (sample_data 0 ''x'') []] =
   [[Rule 0 (sample_data 0 ''y'') [Rule 2 (sample_data 0 ''x'') []], Rule 2 (sample_data 0 ''x'') []]]"
  by (simp add: buildCompilationLevels_def inDegree_def count_child_def compilation_loop.simps sample_data_def)

end
