(* ===== verification/Parallel_Compile.thy ===== *)
theory Parallel_Compile
  imports Workflow_Runs Compilation_Levels
begin

text \<open>
  \<^verbatim>\<open>Workflow::compileParallel\<close> (src/workflow.cpp). A level is compiled by worker threads, each with its
  own clone of the caller's engine; a worker claims a rule, compiles it and looks for the next one,
  until a rule fails. The compilation of one rule is one step. Arguments: \<open>sched\<close>, the order in
  which the rules of a level take effect; \<open>pick\<close>, the worker that compiles the rule at a position;
  \<open>late\<close>, the number of rules that other workers have claimed when a rule fails and still finish,
  whose own exceptions are dropped; \<open>hw\<close>, the hardware concurrency.
\<close>

section \<open>The workers\<close>

fun clone_workers ::
    "'h lua_vm \<Rightarrow> 'h LuaEngine \<Rightarrow> nat \<Rightarrow> 64 word \<Rightarrow> 'h LuaEngine list \<times> 64 word" where
  "clone_workers vm eng 0 counter = ([], counter)"
| "clone_workers vm eng (Suc n) counter =
     (let (iid, counter1) = nextInstanceId counter;
          (engines, counter2) = clone_workers vm eng n counter1
      in (clone_engine vm iid eng # engines, counter2))"

definition compile_on ::
    "'h fr_env \<Rightarrow> nat \<Rightarrow> Rule \<Rightarrow> 'h LuaEngine list \<Rightarrow> 'h world \<Rightarrow> (exn + unit) \<times> 'h LuaEngine list \<times> 'h world" where
  "compile_on env k r engines w =
     (let (res, w1) = compile env r (w\<lparr>w_engine := engines ! (k mod length engines)\<rparr>)
      in (res, engines[k mod length engines := w_engine w1], w1\<lparr>w_engine := w_engine w\<rparr>))"

fun finish_claimed ::
    "'h fr_env \<Rightarrow> (nat \<Rightarrow> nat) \<Rightarrow> nat \<Rightarrow> Rule list \<Rightarrow> 'h LuaEngine list \<Rightarrow> 'h world \<Rightarrow> 'h world" where
  "finish_claimed env pick i [] engines w = w"
| "finish_claimed env pick i (r # rs) engines w =
     (let (_, engines1, w1) = compile_on env (pick i) r engines w
      in finish_claimed env pick (Suc i) rs engines1 w1)"

fun run_workers ::
    "'h fr_env \<Rightarrow> (nat \<Rightarrow> nat) \<Rightarrow> nat \<Rightarrow> nat \<Rightarrow> Rule list \<Rightarrow> 'h LuaEngine list \<Rightarrow> 'h world \<Rightarrow> (exn + unit) \<times> 'h world" where
  "run_workers env pick late i [] engines w = (Inr (), w)"
| "run_workers env pick late i (r # rs) engines w =
     (case compile_on env (pick i) r engines w of
        (Inl e, engines1, w1) \<Rightarrow> (Inl e, finish_claimed env pick (Suc i) (take late rs) engines1 w1)
      | (Inr _, engines1, w1) \<Rightarrow> run_workers env pick late (Suc i) rs engines1 w1)"

definition compile_level ::
    "'h fr_env \<Rightarrow> (Rule list \<Rightarrow> Rule list) \<Rightarrow> (nat \<Rightarrow> nat) \<Rightarrow> nat \<Rightarrow> nat \<Rightarrow> Rule list \<Rightarrow> 'h wf_state
       \<Rightarrow> (exn + unit) \<times> 'h wf_state" where
  "compile_level env sched pick late numThreads level s =
     (let levelThreads = min numThreads (max (length level) 1);
          (engines, counter) = clone_workers (e_vm env) (w_engine (s_w s)) levelThreads (s_instances s);
          (res, w1) = run_workers env pick late 0 (sched level) engines (s_w s)
      in (res, s\<lparr>s_w := w1, s_instances := counter\<rparr>))"

fun compile_in_levels ::
    "'h fr_env \<Rightarrow> (Rule list \<Rightarrow> Rule list) \<Rightarrow> (nat \<Rightarrow> nat) \<Rightarrow> nat \<Rightarrow> nat \<Rightarrow> Rule list list \<Rightarrow> 'h wf_state
       \<Rightarrow> (exn + unit) \<times> 'h wf_state" where
  "compile_in_levels env sched pick late numThreads [] s = (Inr (), s)"
| "compile_in_levels env sched pick late numThreads (level # levels) s =
     bindx (compile_level env sched pick late numThreads level s)
       (\<lambda>_ s1. compile_in_levels env sched pick late numThreads levels s1)"

section \<open>The whole call\<close>

definition compile_threads :: "nat \<Rightarrow> nat \<Rightarrow> nat" where
  "compile_threads hw numThreads =
     (if numThreads = 0 then (if hw = 0 then 4 else hw) else numThreads)"

definition not_all_compiled :: exn where
  "not_all_compiled =
     StdException RuleCompilationException ''Not all rules were compiled in parallel compilation''"

definition compile_rules_parallel ::
    "'h fr_env \<Rightarrow> nat \<Rightarrow> nat \<Rightarrow> (Rule list \<Rightarrow> Rule list) \<Rightarrow> (nat \<Rightarrow> nat) \<Rightarrow> nat \<Rightarrow> 'h wf_state
       \<Rightarrow> (exn + unit) \<times> 'h wf_state" where
  "compile_rules_parallel env hw threads sched pick late s =
     (let rules = wf_rules (s_wf s);
          s1 = s\<lparr>s_w := (s_w s)\<lparr>w_engine := bind_engine (s_wf s) (w_engine (s_w s))\<rparr>\<rparr>
      in bindx (compile_in_levels env sched pick late threads (buildCompilationLevels rules) s1) (\<lambda>_ s2.
         if \<not> list_all (\<lambda>r. isCompiled (w_store (s_w s2) (addr r))) rules then (Inl not_all_compiled, s2)
         else case compile_all env rules (s_w s2) of
           (Inl e, w3) \<Rightarrow> (Inl e, s2\<lparr>s_w := w3\<rparr>)
         | (Inr _, w3) \<Rightarrow>
             bindx (build_pool env (max hw 2) (s2\<lparr>s_w := w3, s_wf := (s_wf s2)\<lparr>enginePoolStorage := []\<rparr>\<rparr>))
               (\<lambda>_ s4. (Inr (), s4\<lparr>s_wf := fill_pool (s_wf s4)\<rparr>))))"

definition wf_compileParallel ::
    "'h fr_env \<Rightarrow> (rule_map \<Rightarrow> rule_map) \<Rightarrow> (int list \<Rightarrow> int list) \<Rightarrow> nat \<Rightarrow> nat \<Rightarrow> (Rule list \<Rightarrow> Rule list)
       \<Rightarrow> (nat \<Rightarrow> nat) \<Rightarrow> nat \<Rightarrow> 'h wf_state \<Rightarrow> (exn + unit) \<times> 'h wf_state" where
  "wf_compileParallel env it its hw numThreads sched pick late s =
     (if wf_compiled (s_wf s) then (Inr (), s)
      else
        bindx (if validated (s_wf s) then (Inr (), s) else wf_validate it its s) (\<lambda>_ s1.
          let threads = compile_threads hw numThreads
          in if length (wf_rules (s_wf s1)) < 10 \<or> threads = 1 then wf_compile env it its hw s1
             else compile_rules_parallel env hw threads sched pick late s1))"

section \<open>What compilation does to the compiled flags\<close>

text \<open>A rule with a compilation record has its flag set, and flags are never cleared.\<close>

definition flags_ok :: "'h world \<Rightarrow> bool" where
  "flags_ok w \<longleftrightarrow> (\<forall>a i c. engineCompilations (w_store w a) i = Some c \<longrightarrow> isCompiled (w_store w a))"

definition flags_grow :: "'h world \<Rightarrow> 'h world \<Rightarrow> bool" where
  "flags_grow w w' \<longleftrightarrow>
     (flags_ok w \<longrightarrow> flags_ok w') \<and> (\<forall>a. isCompiled (w_store w a) \<longrightarrow> isCompiled (w_store w' a))"

lemma flags_grow_refl [simp]: "flags_grow w w" by (simp add: flags_grow_def)

lemma flags_grow_engine [simp]:
  "flags_grow w (w'\<lparr>w_engine := e\<rparr>) = flags_grow w w'" "flags_grow (w\<lparr>w_engine := e\<rparr>) w' = flags_grow w w'"
  "flags_ok (w\<lparr>w_engine := e\<rparr>) = flags_ok w"
  by (simp_all add: flags_grow_def flags_ok_def)

lemma flags_grow_trans: "flags_grow w w' \<Longrightarrow> flags_grow w' w'' \<Longrightarrow> flags_grow w w''"
  by (auto simp: flags_grow_def)

lemma flags_grow_bindx:
  assumes "flags_grow w (snd m)" "\<And>v s. m = (Inr v, s) \<Longrightarrow> flags_grow s (snd (f v s))"
  shows "flags_grow w (snd (bindx m f))"
  using assms by (cases m; cases "fst m") (auto intro: flags_grow_trans)

lemma flags_grow_record: "flags_grow w (record_compilation a c w)"
  by (auto simp: flags_grow_def flags_ok_def record_compilation_def Let_def)

lemma record_compilation_flag: "isCompiled (w_store (record_compilation a c w) a)"
  by (simp add: record_compilation_def Let_def)

lemma compile_parts_flags [simp]:
  "flags_grow w (snd (compile_expression_part env d w))" "flags_grow w (snd (compile_action_part env d w))"
  by (simp_all add: compile_expression_part_def compile_action_part_def Let_def split: prod.splits sum.splits)

lemma compile_all_flags_aux:
  assumes "\<And>c w. c \<in> set cs \<Longrightarrow> flags_grow w (snd (compile env c w))"
  shows "flags_grow w (snd (compile_all env cs w))"
  using assms by (induction cs arbitrary: w) (auto intro!: flags_grow_bindx)

lemma compile_flags: "flags_grow w (snd (compile env r w))"
proof (induction r arbitrary: w)
  case (Rule a d cs)
  have "flags_grow w' (snd (compile_all env cs w'))" for w' :: "'a world"
    by (rule compile_all_flags_aux) (rule Rule.IH)
  then show ?case by (auto simp: Let_def flags_grow_record intro!: flags_grow_bindx)
qed

lemma compile_all_flags: "flags_grow w (snd (compile_all env rs w))"
  by (rule compile_all_flags_aux) (rule compile_flags)

lemma compile_sets_flag:
  assumes "compile env r w = (Inr u, w')" "flags_ok w"
  shows "isCompiled (w_store w' (addr r))"
proof (cases r)
  case (Rule a d cs)
  show ?thesis
  proof (cases "lookupCompilation env r w")
    case None
    with assms(1) Rule have "compile env (Rule a d cs) w = (Inr u, w')" "lookupCompilation env (Rule a d cs) w = None"
      by simp_all
    from compile_success [OF this] Rule show ?thesis
      by (metis Rule.sel(1) record_compilation_flag)
  next
    case (Some c)
    with assms(1) Rule have "w' = w" by simp
    with Some assms(2) show ?thesis by (auto simp: lookupCompilation_def flags_ok_def split: option.splits)
  qed
qed

section \<open>The exceptions of compilation\<close>

definition compile_error :: "exn \<Rightarrow> bool" where
  "compile_error e \<longleftrightarrow> (\<exists>m. e = StdException RuleCompilationException (''Rule '' @ m))"

lemma compile_error_texts [simp]:
  "compile_error (expression_invalid d v)" "compile_error (action_invalid d v)" "compile_error (compile_failure d a b t e)"
  by (simp_all add: compile_error_def expression_invalid_def action_invalid_def compile_failure_def rule_prefix_def)

lemma bindx_InlE:
  assumes "bindx m f = (Inl e, s')"
  obtains "m = (Inl e, s')" | v s where "m = (Inr v, s)" "f v s = (Inl e, s')"
  using assms by (cases m; cases "fst m") (auto simp: bindx_def)

lemma compile_parts_error:
  "compile_expression_part env d w = (Inl e, w') \<Longrightarrow> compile_error e"
  "compile_action_part env d w = (Inl e, w') \<Longrightarrow> compile_error e"
  by (auto simp: compile_expression_part_def compile_action_part_def Let_def split: if_splits prod.splits sum.splits)

lemma compile_all_error_aux:
  assumes "\<And>c w e w'. c \<in> set cs \<Longrightarrow> compile env c w = (Inl e, w') \<Longrightarrow> compile_error e"
    and "compile_all env cs w = (Inl e, w')"
  shows "compile_error e"
  using assms
proof (induction cs arbitrary: w)
  case (Cons c cs)
  from Cons.prems(2) show ?case unfolding compile_all.simps
  proof (cases rule: bindx_InlE)
    case 1
    with Cons.prems(1) show ?thesis by auto
  next
    case (2 v s)
    show ?thesis by (rule Cons.IH [OF _ 2(2)]) (meson Cons.prems(1) list.set_intros(2))
  qed
qed simp

lemma compile_error_class: "compile env r w = (Inl e, w') \<Longrightarrow> compile_error e"
proof (induction r arbitrary: w e w')
  case (Rule a d cs)
  have all: "compile_all env cs w1 = (Inl e, w2) \<Longrightarrow> compile_error e" for w1 w2
    by (rule compile_all_error_aux) (use Rule.IH in blast)
  from Rule.prems show ?case
    by (auto simp: Let_def split: if_splits elim!: bindx_InlE intro: compile_parts_error all)
qed

lemma compile_all_error: "compile_all env rs w = (Inl e, w') \<Longrightarrow> compile_error e"
  by (rule compile_all_error_aux) (rule compile_error_class)

lemma build_pool_error:
  "build_pool env n s = (Inl e, s') \<Longrightarrow> compile_error e \<and> wf_compiled (s_wf s') = wf_compiled (s_wf s)"
proof (induction n arbitrary: s)
  case (Suc n)
  then show ?case
    by (auto simp: Let_def split: prod.splits sum.splits dest!: Suc.IH compile_all_error)
qed simp

lemma build_pool_flags: "flags_grow (s_w s) (s_w (snd (build_pool env n s)))"
proof (induction n arbitrary: s)
  case (Suc n)
  obtain iid c where i: "nextInstanceId (s_instances s) = (iid, c)" by fastforce
  obtain res w1 where r: "compile_all env (wf_rules (s_wf s)) ((s_w s)\<lparr>w_engine := clone_engine (e_vm env) iid (w_engine (s_w s))\<rparr>) = (res, w1)"
    by fastforce
  have g: "flags_grow (s_w s) w1"
    using compile_all_flags [of "(s_w s)\<lparr>w_engine := clone_engine (e_vm env) iid (w_engine (s_w s))\<rparr>" env "wf_rules (s_wf s)"] r by simp
  show ?case
  proof (cases res)
    case (Inl e)
    with g show ?thesis by (simp add: i r Let_def)
  next
    case (Inr u)
    then show ?thesis
      using flags_grow_trans [OF g] Suc.IH [of "s\<lparr>s_w := w1\<lparr>w_engine := w_engine (s_w s)\<rparr>, s_instances := c,
        s_wf := (s_wf s)\<lparr>enginePoolStorage := enginePoolStorage (s_wf s) @ [w_engine w1]\<rparr>\<rparr>"]
      by (simp add: i r Let_def)
  qed
qed simp

section \<open>Properties\<close>

lemma compile_on_flags:
  assumes "compile_on env k r engines w = (res, engines1, w1)"
  shows "flags_grow w w1" "res = Inr u \<Longrightarrow> flags_ok w \<Longrightarrow> isCompiled (w_store w1 (addr r))"
    "res = Inl e \<Longrightarrow> compile_error e"
proof -
  let ?w = "w\<lparr>w_engine := engines ! (k mod length engines)\<rparr>"
  obtain w2 where c: "compile env r ?w = (res, w2)" "w1 = w2\<lparr>w_engine := w_engine w\<rparr>"
    using assms by (auto simp: compile_on_def Let_def split: prod.splits)
  show "flags_grow w w1" using compile_flags [of ?w env r] c by simp
  show "isCompiled (w_store w1 (addr r))" if "res = Inr u" "flags_ok w"
    using compile_sets_flag [of env r ?w u w2] c that by simp
  show "compile_error e" if "res = Inl e" using compile_error_class c that by blast
qed

lemma finish_claimed_flags: "flags_grow w (finish_claimed env pick i rs engines w)"
proof (induction rs arbitrary: i engines w)
  case (Cons r rs)
  obtain res engines1 w1 where c: "compile_on env (pick i) r engines w = (res, engines1, w1)" by (metis prod.exhaust)
  from flags_grow_trans [OF compile_on_flags(1) [OF c] Cons.IH] show ?case by (simp add: c)
qed simp

lemma run_workers_outcome:
  assumes "run_workers env pick late i rs engines w = (res, w')" "flags_ok w"
  shows "flags_grow w w' \<and> (case res of Inl e \<Rightarrow> compile_error e | Inr _ \<Rightarrow> \<forall>r\<in>set rs. isCompiled (w_store w' (addr r)))"
  using assms
proof (induction rs arbitrary: i engines w)
  case (Cons r rs)
  obtain res1 engines1 w1 where c: "compile_on env (pick i) r engines w = (res1, engines1, w1)" by (metis prod.exhaust)
  note F = compile_on_flags [OF c]
  show ?case
  proof (cases res1)
    case (Inl e)
    with Cons.prems(1) c F(1,3) flags_grow_trans [OF F(1) finish_claimed_flags] show ?thesis by auto
  next
    case (Inr u)
    have "run_workers env pick late (Suc i) rs engines1 w1 = (res, w')" using Cons.prems(1) c Inr by simp
    moreover have "flags_ok w1" using F(1) Cons.prems(2) by (simp add: flags_grow_def)
    ultimately have "flags_grow w1 w' \<and> (case res of Inl e \<Rightarrow> compile_error e | Inr _ \<Rightarrow> \<forall>r\<in>set rs. isCompiled (w_store w' (addr r)))"
      by (rule Cons.IH)
    moreover from this have "isCompiled (w_store w' (addr r))"
      using F(2) [OF Inr Cons.prems(2)] by (simp add: flags_grow_def)
    ultimately show ?thesis
      using flags_grow_trans [OF F(1)] by (cases res) auto
  qed
qed auto

text \<open>What a phase of the parallel compilation guarantees: it keeps the workflow and the flags that are
  set, and ends with an exception of a rule or with all the rules compiled.\<close>

definition phase_ok :: "Rule set \<Rightarrow> 'h wf_state \<Rightarrow> (exn + unit) \<times> 'h wf_state \<Rightarrow> bool" where
  "phase_ok R s out \<longleftrightarrow>
     s_wf (snd out) = s_wf s \<and> flags_grow (s_w s) (s_w (snd out)) \<and>
     (case fst out of Inl e \<Rightarrow> compile_error e | Inr _ \<Rightarrow> \<forall>r\<in>R. isCompiled (w_store (s_w (snd out)) (addr r)))"

lemma compile_level_phase:
  assumes "flags_ok (s_w s)" "\<forall>l. mset (sched l) = mset l"
  shows "phase_ok (set level) s (compile_level env sched pick late n level s)"
proof -
  obtain engines counter where c: "clone_workers (e_vm env) (w_engine (s_w s)) (min n (max (length level) 1)) (s_instances s) =
    (engines, counter)" by fastforce
  obtain res w1 where r: "run_workers env pick late 0 (sched level) engines (s_w s) = (res, w1)" by fastforce
  have "set (sched level) = set level" by (metis assms(2) mset_eq_setD)
  with run_workers_outcome [OF r assms(1)] show ?thesis
    unfolding compile_level_def Let_def c by (cases res) (simp_all add: r phase_ok_def)
qed

lemma compile_in_levels_phase:
  assumes "flags_ok (s_w s)" "\<forall>l. mset (sched l) = mset l"
  shows "phase_ok (set (concat levels)) s (compile_in_levels env sched pick late n levels s)"
  using assms(1)
proof (induction levels arbitrary: s)
  case Nil
  then show ?case by (simp add: phase_ok_def)
next
  case (Cons level levels)
  obtain res s1 where l: "compile_level env sched pick late n level s = (res, s1)" by fastforce
  have p: "phase_ok (set level) s (res, s1)"
    using compile_level_phase [OF Cons.prems assms(2), of level env pick late n] l by simp
  show ?case
  proof (cases res)
    case (Inl e)
    with p l show ?thesis by (simp add: phase_ok_def)
  next
    case (Inr u)
    obtain res2 s2 where rest: "compile_in_levels env sched pick late n levels s1 = (res2, s2)" by fastforce
    have "flags_ok (s_w s1)" using p Cons.prems by (simp add: phase_ok_def flags_grow_def)
    from Cons.IH [OF this] rest have q: "phase_ok (set (concat levels)) s1 (res2, s2)" by simp
    have g: "flags_grow (s_w s) (s_w s2)" using p q by (auto simp: phase_ok_def intro: flags_grow_trans)
    have old: "isCompiled (w_store (s_w s2) (addr r))" if "r \<in> set level" for r
      using p q that Inr by (simp add: phase_ok_def flags_grow_def)
    show ?thesis
      using p q g old Inr l rest by (cases res2) (auto simp: phase_ok_def)
  qed
qed

text \<open>The end of a compilation: success leaves a compiled workflow with a full pool and every rule
  compiled, failure leaves the workflow uncompiled and names the rule.\<close>

definition compile_ends :: "nat \<Rightarrow> Rule list \<Rightarrow> (exn + unit) \<times> 'h wf_state \<Rightarrow> bool" where
  "compile_ends hw rules out \<longleftrightarrow>
     (case out of
        (Inr _, s') \<Rightarrow> wf_compiled (s_wf s') \<and> useEnginePool (s_wf s') \<and> enginePool (s_wf s') = rev [0..<max hw 2] \<and>
          length (enginePoolStorage (s_wf s')) = max hw 2 \<and>
          (\<forall>r\<in>set rules. isCompiled (w_store (s_w s') (addr r)))
      | (Inl e, s') \<Rightarrow> \<not> wf_compiled (s_wf s') \<and> compile_error e)"

lemma compile_all_flagged:
  "compile_all env rs w = (Inr u, w') \<Longrightarrow> flags_ok w \<Longrightarrow> flags_ok w' \<and> (\<forall>r\<in>set rs. isCompiled (w_store w' (addr r)))"
proof (induction rs arbitrary: w)
  case (Cons r rs)
  from Cons.prems(1) obtain v w1 where c: "compile env r w = (Inr v, w1)" "compile_all env rs w1 = (Inr u, w')"
    by (auto elim!: bindx_InrE)
  have "flags_ok w1" using compile_flags [of w env r] c(1) Cons.prems(2) by (simp add: flags_grow_def)
  moreover have "isCompiled (w_store w' (addr r))"
    using compile_sets_flag [OF c(1) Cons.prems(2)] compile_all_flags [of w1 env rs] c(2) by (simp add: flags_grow_def)
  ultimately show ?case using Cons.IH [OF c(2)] by simp
qed simp

lemma pool_stage_ends:
  assumes "\<not> wf_compiled (s_wf s)" "enginePoolStorage (s_wf s) = []"
    and "\<forall>r\<in>set rules. isCompiled (w_store (s_w s) (addr r))"
  shows "compile_ends hw rules
    (bindx (build_pool env (max hw 2) s) (\<lambda>_ s4. (Inr (), s4\<lparr>s_wf := fill_pool (s_wf s4)\<rparr>)))"
proof -
  obtain res s4 where p: "build_pool env (max hw 2) s = (res, s4)" by fastforce
  show ?thesis
  proof (cases res)
    case (Inl e)
    with p build_pool_error [of env "max hw 2" s e s4] assms(1) show ?thesis by (simp add: compile_ends_def)
  next
    case (Inr u)
    have "flags_grow (s_w s) (s_w s4)" using build_pool_flags [of s env "max hw 2"] p by simp
    with p Inr build_pool_storage [of env "max hw 2" s s4] assms(2,3) show ?thesis
      by (simp add: compile_ends_def fill_pool_def flags_grow_def)
  qed
qed

lemma compile_stage_ends:
  assumes "\<not> wf_compiled (s_wf s)" "flags_ok w"
  shows "compile_ends hw rules
    (case compile_all env rules w of
       (Inl e, w3) \<Rightarrow> (Inl e, s\<lparr>s_w := w3\<rparr>)
     | (Inr _, w3) \<Rightarrow>
         bindx (build_pool env (max hw 2) (s\<lparr>s_w := w3, s_wf := (s_wf s)\<lparr>enginePoolStorage := []\<rparr>\<rparr>))
           (\<lambda>_ s4. (Inr (), s4\<lparr>s_wf := fill_pool (s_wf s4)\<rparr>)))"
proof -
  obtain res w3 where c: "compile_all env rules w = (res, w3)" by fastforce
  show ?thesis
  proof (cases res)
    case (Inl e)
    with c compile_all_error [of env rules w e w3] assms(1) show ?thesis by (simp add: compile_ends_def)
  next
    case (Inr u)
    with compile_all_flagged [of env rules w u w3] c assms(2)
    have "\<forall>r\<in>set rules. isCompiled (w_store w3 (addr r))" by simp
    with Inr c assms(1) show ?thesis by (simp add: pool_stage_ends)
  qed
qed

lemma compile_rules_parallel_ends:
  assumes "\<not> wf_compiled (s_wf s)" "flags_ok (s_w s)" "distinct (map addr (wf_rules (s_wf s)))"
    and "\<forall>l. mset (sched l) = mset l"
  shows "compile_ends hw (wf_rules (s_wf s)) (compile_rules_parallel env hw threads sched pick late s)"
proof -
  let ?rules = "wf_rules (s_wf s)"
  let ?s1 = "s\<lparr>s_w := (s_w s)\<lparr>w_engine := bind_engine (s_wf s) (w_engine (s_w s))\<rparr>\<rparr>"
  obtain res s2 where l: "compile_in_levels env sched pick late threads (buildCompilationLevels ?rules) ?s1 = (res, s2)"
    by fastforce
  have "set (concat (buildCompilationLevels ?rules)) = set ?rules"
    using buildCompilationLevels_mset [OF assms(3)] by (rule mset_eq_setD)
  with compile_in_levels_phase [of ?s1 sched "buildCompilationLevels ?rules" env pick late threads] assms(2,4) l
  have p: "phase_ok (set ?rules) ?s1 (res, s2)" by simp
  show ?thesis
  proof (cases res)
    case (Inl e)
    with p l assms(1) show ?thesis by (simp add: compile_rules_parallel_def compile_ends_def phase_ok_def)
  next
    case (Inr u)
    have "list_all (\<lambda>r. isCompiled (w_store (s_w s2) (addr r))) ?rules" "flags_ok (s_w s2)" "\<not> wf_compiled (s_wf s2)"
      using p Inr assms(1,2) by (auto simp: phase_ok_def flags_grow_def list_all_iff)
    with Inr l compile_stage_ends show ?thesis by (simp add: compile_rules_parallel_def)
  qed
qed

text \<open>
  C12. Parallel compilation ends like sequential compilation, whatever the threads do. For a validated
  workflow of distinct rules, every number of threads, every order in which the rules of a level take
  effect, every distribution over the workers and any number of rules in flight when one fails:
  either the call succeeds, and then every rule is compiled and the pool holds as many engines as the
  sequential compilation makes; or it throws, and then the exception is that of a rule that does not
  compile (never the internal check that all rules were compiled) and the workflow stays uncompiled.
\<close>

theorem compileParallel_outcome:
  assumes "\<not> wf_compiled (s_wf s)" and "validated (s_wf s)" and "flags_ok (s_w s)"
    and "distinct (map addr (wf_rules (s_wf s)))" and "\<forall>l. mset (sched l) = mset l"
  shows "case wf_compileParallel env it its hw numThreads sched pick late s of
      (Inr _, s') \<Rightarrow> wf_compiled (s_wf s') \<and> useEnginePool (s_wf s') \<and> enginePool (s_wf s') = rev [0..<max hw 2] \<and>
        length (enginePoolStorage (s_wf s')) = max hw 2 \<and>
        (\<forall>r\<in>set (wf_rules (s_wf s)). isCompiled (w_store (s_w s') (addr r)))
    | (Inl e, s') \<Rightarrow> \<not> wf_compiled (s_wf s') \<and> e \<noteq> not_all_compiled \<and> compile_error e"
proof -
  let ?w1 = "(s_w s)\<lparr>w_engine := bind_engine (s_wf s) (w_engine (s_w s))\<rparr>"
  have "compile_ends hw (wf_rules (s_wf s)) (wf_compile env it its hw s)"
    using compile_stage_ends [of s ?w1] assms(1-3) by (simp add: wf_compile_def Let_def)
  then have "compile_ends hw (wf_rules (s_wf s)) (wf_compileParallel env it its hw numThreads sched pick late s)"
    using compile_rules_parallel_ends [OF assms(1,3-5)] assms(1,2) by (simp add: wf_compileParallel_def Let_def)
  moreover have "\<not> compile_error not_all_compiled" by (simp add: compile_error_def not_all_compiled_def)
  ultimately show ?thesis unfolding compile_ends_def by (auto split: prod.splits sum.splits)
qed

definition ten_rules :: "Rule list" where
  "ten_rules = map (\<lambda>i. Rule i (sample_data (int i) []) []) [0..<10]"

definition ten_state :: "unit wf_state" where
  "ten_state = \<lparr>s_wf = default_workflow\<lparr>wf_rules := ten_rules, validated := True\<rparr>, s_w = sample_world, s_instances = 5\<rparr>"

theorem compileParallel_outcome_witness:
  "case wf_compileParallel sample_fr_env id id 8 3 rev (\<lambda>i. 2 * i) 1 ten_state of
     (Inr _, s') \<Rightarrow> length (enginePoolStorage (s_wf s')) = 8
   | (Inl e, s') \<Rightarrow> e \<noteq> not_all_compiled"
proof -
  have rules: "wf_rules (s_wf ten_state) = ten_rules" by (simp add: ten_state_def)
  have "\<not> wf_compiled (s_wf ten_state)" "validated (s_wf ten_state)" "flags_ok (s_w ten_state)"
    "\<forall>l. mset (rev l) = mset (l :: Rule list)" "distinct (map addr (wf_rules (s_wf ten_state)))"
    unfolding rules
    by (simp_all add: ten_state_def default_workflow_def flags_ok_def sample_world_def init_rule_state_def ten_rules_def o_def)
  from compileParallel_outcome [OF this(1-3,5,4), of 8 sample_fr_env id id 3 "\<lambda>i. 2 * i" 1]
  show ?thesis by (auto split: prod.splits sum.splits)
qed

end
