(* ===== verification/Aot_Compiler.thy ===== *)
theory Aot_Compiler
  imports Rule_Execute "HOL-Library.Multiset"
begin

text \<open>
  \<^verbatim>\<open>AotCompiler\<close> and \<^verbatim>\<open>LuaExpressionCache\<close> (include/fastrules/aot_compiler.hpp, src/aot_compiler.cpp): bytecode
  in memory and in files named by the hash of the expression. The files of the cache directory are
  a map from names to contents. Arguments: the Lua loader and dumper, \<^verbatim>\<open>std::hash\<close>, the clock, the iteration order of hash
  maps, and the file system \<open>file_io\<close>, in which every access can fail.
\<close>

section \<open>Compilation to bytecode\<close>

text \<open>\<^verbatim>\<open>luaL_loadstring\<close> returns a function or an error object, which need not be a string; \<^verbatim>\<open>lua_dump\<close> can
  fail.\<close>

record 'f lua_compiler =
  loadstring :: "string \<Rightarrow> string option + 'f"
  lua_dump :: "'f \<Rightarrow> string option"

definition compileToBytecode :: "'f lua_compiler \<Rightarrow> bool \<Rightarrow> string \<Rightarrow> exn + string" where
  "compileToBytecode cp lua expr =
     (if \<not> lua then Inl (StdException InvalidArgument ''Lua state is null'')
      else case loadstring cp (c_str expr) of
        Inl msg \<Rightarrow> Inl (StdException RuntimeError (''Failed to compile expression: '' @
            (case msg of None \<Rightarrow> ''Unknown compilation error'' | Some m \<Rightarrow> c_str m)))
      | Inr f \<Rightarrow> (case lua_dump cp f of
            None \<Rightarrow> Inl (StdException RuntimeError ''Failed to dump compiled function to bytecode'')
          | Some bytes \<Rightarrow> Inr bytes))"

section \<open>The compiler and its caches\<close>

record AotCompiledChunk =
  bytecode :: string
  compiledAt :: int
  hitCount :: "64 word"

record AotCompiler =
  aot_cache :: "(string \<times> AotCompiledChunk) list"
  useDiskCache :: bool

type_synonym frc_files = "string \<rightharpoonup> string"

text \<open>\<open>io_stat\<close>: \<^verbatim>\<open>exists\<close> does not throw; \<open>io_read\<close>, \<open>io_open\<close>: the file can be opened; \<open>io_write\<close>: what of the
  written text is in the file afterwards; \<open>io_remove\<close>: the files that the iteration over the directory reaches
  and removes.\<close>

record file_io =
  io_mkdir :: bool
  io_stat :: "string \<Rightarrow> bool"
  io_read :: "string \<Rightarrow> bool"
  io_open :: "string \<Rightarrow> bool"
  io_write :: "string \<Rightarrow> string \<Rightarrow> string"
  io_remove :: "string \<Rightarrow> bool"

text \<open>The directory is only created when its path is not empty; the disk cache stays on either way.\<close>

definition create_aot :: "file_io \<Rightarrow> string \<Rightarrow> AotCompiler" where
  "create_aot io cacheDir = \<lparr>aot_cache = [], useDiskCache = (cacheDir = [] \<or> io_mkdir io)\<rparr>"

definition cacheFile :: "(string \<Rightarrow> 64 word) \<Rightarrow> string \<Rightarrow> string" where
  "cacheFile hash expr = std_to_string (uint (hash expr)) @ ''.frc''"

definition indexFile :: string where
  "indexFile = ''index.frc''"

definition fresh_chunk :: "string \<Rightarrow> int \<Rightarrow> AotCompiledChunk" where
  "fresh_chunk b t = \<lparr>bytecode = b, compiledAt = t, hitCount = 1\<rparr>"

definition cache_chunk :: "string \<Rightarrow> AotCompiledChunk \<Rightarrow> AotCompiler \<Rightarrow> AotCompiler" where
  "cache_chunk expr chunk a = a\<lparr>aot_cache := (expr, chunk) # aot_cache a\<rparr>"

text \<open>Opening the output file truncates it; what arrives afterwards is up to the disk.\<close>

definition write_file :: "file_io \<Rightarrow> string \<Rightarrow> string \<Rightarrow> frc_files \<Rightarrow> frc_files" where
  "write_file io name content files =
     (if io_open io name then files(name \<mapsto> io_write io name content) else files)"

definition compile_and_cache ::
    "'f lua_compiler \<Rightarrow> (string \<Rightarrow> 64 word) \<Rightarrow> file_io \<Rightarrow> int \<Rightarrow> bool \<Rightarrow> string \<Rightarrow> AotCompiler \<Rightarrow> frc_files
       \<Rightarrow> (exn + AotCompiledChunk) \<times> AotCompiler \<times> frc_files" where
  "compile_and_cache cp hash io t lua expr a files =
     (case compileToBytecode cp lua expr of
        Inl e \<Rightarrow> (Inl e, a, files)
      | Inr b \<Rightarrow>
          let chunk = fresh_chunk b t
          in (Inr chunk, cache_chunk expr chunk a,
              if useDiskCache a then write_file io (cacheFile hash expr) b files else files))"

definition aot_getOrCompile ::
    "'f lua_compiler \<Rightarrow> (string \<Rightarrow> 64 word) \<Rightarrow> file_io \<Rightarrow> int \<Rightarrow> bool \<Rightarrow> string \<Rightarrow> AotCompiler \<times> frc_files
       \<Rightarrow> (exn + AotCompiledChunk) \<times> AotCompiler \<times> frc_files" where
  "aot_getOrCompile cp hash io t lua expr s =
     (let (a, files) = s
      in case map_of (aot_cache a) expr of
        Some chunk \<Rightarrow>
          let chunk' = chunk\<lparr>hitCount := hitCount chunk + 1\<rparr>
          in (Inr chunk', a\<lparr>aot_cache := AList.update expr chunk' (aot_cache a)\<rparr>, files)
      | None \<Rightarrow>
          if useDiskCache a
          then let name = cacheFile hash expr
               in if \<not> io_stat io name then (Inl (StdException FilesystemError name), a, files)
                  else (case files name of
                          Some b \<Rightarrow>
                            if io_read io name
                            then let chunk = fresh_chunk b t in (Inr chunk, cache_chunk expr chunk a, files)
                            else compile_and_cache cp hash io t lua expr a files
                        | None \<Rightarrow> compile_and_cache cp hash io t lua expr a files)
          else compile_and_cache cp hash io t lua expr a files)"

text \<open>Errors are logged and skipped.\<close>

fun precompile ::
    "'f lua_compiler \<Rightarrow> (string \<Rightarrow> 64 word) \<Rightarrow> file_io \<Rightarrow> int \<Rightarrow> bool \<Rightarrow> string list \<Rightarrow> AotCompiler \<times> frc_files
       \<Rightarrow> AotCompiler \<times> frc_files" where
  "precompile cp hash io t lua [] s = s"
| "precompile cp hash io t lua (expr # exprs) s =
     precompile cp hash io t lua exprs (snd (aot_getOrCompile cp hash io t lua expr s))"

definition saveCache ::
    "((string \<times> AotCompiledChunk) list \<Rightarrow> (string \<times> AotCompiledChunk) list) \<Rightarrow> (string \<Rightarrow> 64 word) \<Rightarrow> file_io
       \<Rightarrow> AotCompiler \<times> frc_files \<Rightarrow> AotCompiler \<times> frc_files" where
  "saveCache it hash io s =
     (let (a, files) = s
      in if \<not> useDiskCache a then (a, files)
         else (a, write_file io indexFile
                 (concat (map (\<lambda>(expr, chunk). std_to_string (uint (hash expr)) @ ''='' @ expr @ newline)
                            (it (aot_cache a)))) files))"

text \<open>\<^verbatim>\<open>path::extension() == ".frc"\<close>: the part from the last dot, which must not be the first character.\<close>

definition has_frc_extension :: "string \<Rightarrow> bool" where
  "has_frc_extension name \<longleftrightarrow> length name > 4 \<and> drop (length name - 4) name = ''.frc''"

definition clearCache :: "file_io \<Rightarrow> AotCompiler \<times> frc_files \<Rightarrow> AotCompiler \<times> frc_files" where
  "clearCache io s =
     (let (a, files) = s; a' = a\<lparr>aot_cache := []\<rparr>
      in if useDiskCache a
         then (a', \<lambda>name. if has_frc_extension name \<and> io_remove io name then None else files name)
         else (a', files))"

text \<open>The quotient of hits and entries is the argument \<open>fdiv\<close>.\<close>

definition getCacheStats :: "(64 word \<Rightarrow> nat \<Rightarrow> 'd) \<Rightarrow> 'd \<Rightarrow> AotCompiler \<Rightarrow> 'd \<times> nat" where
  "getCacheStats fdiv zero a =
     (if aot_cache a = [] then (zero, 0)
      else let totalHits = fold (\<lambda>(expr, chunk) n. n + hitCount chunk) (aot_cache a) 0
           in (fdiv totalHits (length (aot_cache a)), length (aot_cache a)))"

section \<open>The bounded expression cache\<close>

definition maxCacheSize :: nat where
  "maxCacheSize = 1000"

text \<open>The entry that \<^verbatim>\<open>begin()\<close> points to is the first of the iteration order \<open>it\<close>. It is erased before
  the compilation, which may throw.\<close>

definition ec_getOrCompile ::
    "((string \<times> string) list \<Rightarrow> (string \<times> string) list) \<Rightarrow> (string \<Rightarrow> exn + string) \<Rightarrow> string
       \<Rightarrow> (string \<times> string) list \<Rightarrow> (exn + string) \<times> (string \<times> string) list" where
  "ec_getOrCompile it compileFunc expr c =
     (case map_of c expr of
        Some b \<Rightarrow> (Inr b, c)
      | None \<Rightarrow>
          let c1 = (if maxCacheSize \<le> length c then AList.delete (fst (hd (it c))) c else c)
          in case compileFunc expr of
               Inl e \<Rightarrow> (Inl e, c1)
             | Inr b \<Rightarrow> (Inr b, AList.update expr b c1))"

section \<open>Caches that cannot be told from compilation\<close>

fun requests :: "('k \<Rightarrow> 's \<Rightarrow> 'r \<times> 's) \<Rightarrow> 'k list \<Rightarrow> 's \<Rightarrow> 'r list \<times> 's" where
  "requests request [] s = ([], s)"
| "requests request (k # ks) s =
     (let (r, s1) = request k s; (rs, s2) = requests request ks s1 in (r # rs, s2))"

text \<open>The contract of a cache in front of a function: in a good state every admitted request is
  answered like the function and leaves a good state.\<close>

locale transparent_cache =
  fixes request :: "'k \<Rightarrow> 's \<Rightarrow> 'r \<times> 's"
    and answer :: "'k \<Rightarrow> 'r"
    and admitted :: "'k \<Rightarrow> bool"
    and good :: "'s \<Rightarrow> bool"
  assumes request_answer: "good s \<Longrightarrow> admitted k \<Longrightarrow> fst (request k s) = answer k"
    and request_good: "good s \<Longrightarrow> admitted k \<Longrightarrow> good (snd (request k s))"
begin

lemma requests_answers:
  "good s \<Longrightarrow> list_all admitted ks \<Longrightarrow>
     fst (requests request ks s) = map answer ks \<and> good (snd (requests request ks s))"
proof (induction ks arbitrary: s)
  case (Cons k ks)
  from Cons.prems have "good (snd (request k s))" "fst (request k s) = answer k"
    by (simp_all add: request_answer request_good)
  with Cons show ?case by (simp add: split_beta)
qed simp

end

subsection \<open>The bounded cache\<close>

definition ec_consistent :: "(string \<Rightarrow> exn + string) \<Rightarrow> (string \<times> string) list \<Rightarrow> bool" where
  "ec_consistent compileFunc c \<longleftrightarrow> list_all (\<lambda>(expr, b). compileFunc expr = Inr b) c"

lemma ec_request_consistent:
  assumes "ec_consistent compileFunc c"
  shows "fst (ec_getOrCompile it compileFunc expr c) = compileFunc expr"
    and "ec_consistent compileFunc (snd (ec_getOrCompile it compileFunc expr c))"
proof -
  have hit: "compileFunc expr = Inr b" if "map_of c expr = Some b" for b
    using assms map_of_SomeD [OF that] by (auto simp: ec_consistent_def list_all_iff)
  then show "fst (ec_getOrCompile it compileFunc expr c) = compileFunc expr"
    by (auto simp: ec_getOrCompile_def Let_def split: option.splits sum.splits)
  have "ec_consistent compileFunc (AList.delete k c)" for k
    using assms by (auto simp: ec_consistent_def list_all_iff AList.delete_eq)
  moreover have "ec_consistent compileFunc (AList.update expr b c')"
    if "ec_consistent compileFunc c'" "compileFunc expr = Inr b" for b c'
    using that set_update_subset [of expr b c'] by (fastforce simp: ec_consistent_def list_all_iff)
  ultimately show "ec_consistent compileFunc (snd (ec_getOrCompile it compileFunc expr c))"
    using assms by (auto simp: ec_getOrCompile_def Let_def split: option.splits sum.splits)
qed

interpretation ec: transparent_cache "ec_getOrCompile it compileFunc" compileFunc "\<lambda>_. True" "ec_consistent compileFunc"
  by unfold_locales (simp_all add: ec_request_consistent)

definition ec_bounded :: "(string \<times> string) list \<Rightarrow> bool" where
  "ec_bounded c \<longleftrightarrow> distinct (map fst c) \<and> length c \<le> maxCacheSize"

lemma begin_key:
  fixes it :: "('k \<times> 'v) list \<Rightarrow> ('k \<times> 'v) list"
  assumes "\<forall>m. mset (it m) = mset m" "c \<noteq> []"
  shows "fst (hd (it c)) \<in> fst ` set c"
proof -
  have "set (it c) = set c" using assms(1) by (metis mset_eq_setD)
  with assms(2) have "hd (it c) \<in> set c" by (metis hd_in_set set_empty)
  then show ?thesis by simp
qed

lemma ec_request_bounded:
  assumes "ec_bounded c" "\<forall>m. mset (it m) = mset m"
  shows "ec_bounded (snd (ec_getOrCompile it compileFunc expr c))"
proof -
  let ?c1 = "if maxCacheSize \<le> length c then AList.delete (fst (hd (it c))) c else c"
  have d: "distinct (map fst ?c1)" using assms(1) by (simp add: ec_bounded_def distinct_delete)
  have short: "length ?c1 < maxCacheSize"
  proof (cases "maxCacheSize \<le> length c")
    case True
    then have "c \<noteq> []" by (auto simp: maxCacheSize_def)
    with True assms(1) begin_key [OF assms(2)] length_delete_less [of "fst (hd (it c))" c] show ?thesis by (simp add: ec_bounded_def)
  qed simp
  have "length (AList.update expr b xs) \<le> Suc (length xs)" for b and xs :: "(string \<times> string) list"
    by (induction xs) auto
  then have "length (AList.update expr b ?c1) \<le> maxCacheSize" for b
    by (rule order_trans) (use short in simp)
  moreover have "distinct (map fst (AList.update expr b ?c1))" for b
    by (rule distinct_update [OF d])
  ultimately show ?thesis
    using assms(1) d short
    by (auto simp: ec_getOrCompile_def ec_bounded_def Let_def split: option.split sum.split)
qed

lemma ec_requests_bounded:
  "ec_bounded c \<Longrightarrow> \<forall>m. mset (it m) = mset m \<Longrightarrow> ec_bounded (snd (requests (ec_getOrCompile it compileFunc) exprs c))"
  by (induction exprs arbitrary: c) (simp_all add: split_beta ec_request_bounded)

text \<open>
  C37. The expression cache is transparent and bounded: whatever expressions are requested in whatever
  order, and whichever entry each eviction picks, every answer (bytecode or exception) is that of the compile function, and the
  cache never holds more than 1000 entries or an expression twice.
\<close>

theorem expression_cache_transparent:
  assumes "\<forall>m. mset (it m) = mset m"
  shows "fst (requests (ec_getOrCompile it compileFunc) exprs []) = map compileFunc exprs \<and>
    ec_bounded (snd (requests (ec_getOrCompile it compileFunc) exprs []))"
  using ec.requests_answers [of compileFunc "[]" exprs it] ec_requests_bounded [OF _ assms, of "[]"]
  by (simp add: ec_consistent_def ec_bounded_def list_all_iff)

theorem expression_cache_transparent_witness:
  "fst (requests (ec_getOrCompile rev (\<lambda>e. Inr (rev e))) [''ab'', ''c'', ''ab''] []) = [Inr ''ba'', Inr ''c'', Inr ''ba'']"
proof -
  have "\<forall>m. mset (rev m) = mset (m :: (string \<times> string) list)" by simp
  from expression_cache_transparent [OF this, of "\<lambda>e. Inr (rev e)" "[''ab'', ''c'', ''ab'']"] show ?thesis by simp
qed

text \<open>A request that fails still costs a full cache one of its entries.\<close>

lemma failed_request_evicts:
  assumes "ec_bounded c" "length c = maxCacheSize" "map_of c expr = None" "compileFunc expr = Inl e"
    and "\<forall>m. mset (it m) = mset m"
  shows "length (snd (ec_getOrCompile it compileFunc expr c)) < maxCacheSize"
proof -
  have "c \<noteq> []" using assms(2) by (auto simp: maxCacheSize_def)
  with assms(2-4) begin_key [OF assms(5)] length_delete_less [of "fst (hd (it c))" c] show ?thesis by (simp add: ec_getOrCompile_def)
qed

subsection \<open>The cache on disk\<close>

text \<open>A disk whose accesses succeed or fail cleanly, expressions \<open>E\<close> that do not share a file, and
  entries in memory and on disk that are the bytecode of their expression.\<close>

definition healthy :: "file_io \<Rightarrow> bool" where
  "healthy io \<longleftrightarrow> (\<forall>name. io_stat io name) \<and> (\<forall>name content. io_write io name content = content)"

definition aot_good ::
    "'f lua_compiler \<Rightarrow> (string \<Rightarrow> 64 word) \<Rightarrow> file_io \<Rightarrow> string set \<Rightarrow> AotCompiler \<times> frc_files \<Rightarrow> bool" where
  "aot_good cp hash io E s \<longleftrightarrow>
     healthy io \<and> inj_on hash E \<and>
     (\<forall>(expr, chunk)\<in>set (aot_cache (fst s)). compileToBytecode cp True expr = Inr (bytecode chunk)) \<and>
     (\<forall>expr\<in>E. \<forall>b. snd s (cacheFile hash expr) = Some b \<longrightarrow> compileToBytecode cp True expr = Inr b)"

lemma aot_goodD:
  assumes "aot_good cp hash io E s"
  shows "healthy io" "inj_on hash E"
    "(expr, chunk) \<in> set (aot_cache (fst s)) \<Longrightarrow> compileToBytecode cp True expr = Inr (bytecode chunk)"
    "expr \<in> E \<Longrightarrow> snd s (cacheFile hash expr) = Some b \<Longrightarrow> compileToBytecode cp True expr = Inr b"
  using assms unfolding aot_good_def by blast+

lemma aot_goodI:
  assumes "healthy io" "inj_on hash E"
    "\<And>expr chunk. (expr, chunk) \<in> set (aot_cache a) \<Longrightarrow> compileToBytecode cp True expr = Inr (bytecode chunk)"
    "\<And>expr b. expr \<in> E \<Longrightarrow> files (cacheFile hash expr) = Some b \<Longrightarrow> compileToBytecode cp True expr = Inr b"
  shows "aot_good cp hash io E (a, files)"
  using assms unfolding aot_good_def by auto

lemma cacheFile_inject [simp]: "cacheFile hash e1 = cacheFile hash e2 \<longleftrightarrow> hash e1 = hash e2"
  by (simp add: cacheFile_def word_uint_eq_iff)

lemma cacheFile_not_index [simp]: "cacheFile hash expr \<noteq> indexFile"
proof -
  obtain c cs where d: "nat_digits (unat (hash expr)) = c # cs" "std_isdigit c" using nat_digits_Cons by blast
  have "c \<noteq> CHR ''i''" using d(2) by (auto simp: std_isdigit_def cc_def)
  then show ?thesis by (simp add: cacheFile_def indexFile_def std_to_string_def d(1))
qed

lemma cached_good:
  assumes "aot_good cp hash io E (a, files)" "compileToBytecode cp True expr = Inr b"
  shows "aot_good cp hash io E (cache_chunk expr (fresh_chunk b t) a, files)"
  using aot_goodD [OF assms(1)] assms(2) by (intro aot_goodI) (auto simp: cache_chunk_def fresh_chunk_def)

lemma written_good:
  assumes "aot_good cp hash io E (a, files)" "compileToBytecode cp True expr = Inr b" "expr \<in> E"
  shows "aot_good cp hash io E (a, write_file io (cacheFile hash expr) b files)"
proof (rule aot_goodI)
  note G = aot_goodD [OF assms(1)]
  show "healthy io" "inj_on hash E" by (rule G(1), rule G(2))
  show "compileToBytecode cp True e = Inr (bytecode chunk)" if "(e, chunk) \<in> set (aot_cache a)" for e chunk
    using G(3) that by simp
  show "compileToBytecode cp True e = Inr b'" if "e \<in> E" "write_file io (cacheFile hash expr) b files (cacheFile hash e) = Some b'" for e b'
  proof (cases "hash e = hash expr")
    case True
    then have "e = expr" using G(2) that(1) assms(3) by (meson inj_onD)
    with that assms(2,3) G(1) G(4) [of expr b'] show ?thesis by (auto simp: write_file_def healthy_def split: if_splits)
  next
    case False
    with that G(4) [of e b'] show ?thesis by (auto simp: write_file_def split: if_splits)
  qed
qed

lemma compile_and_cache_good:
  assumes "aot_good cp hash io E (a, files)" "expr \<in> E"
    and "compile_and_cache cp hash io t True expr a files = (r, s')"
  shows "map_sum id bytecode r = compileToBytecode cp True expr \<and> aot_good cp hash io E s'"
proof (cases "compileToBytecode cp True expr")
  case (Inl e)
  with assms show ?thesis by (auto simp: compile_and_cache_def)
next
  case (Inr b)
  have "aot_good cp hash io E (a, if useDiskCache a then write_file io (cacheFile hash expr) b files else files)"
    using assms(1) written_good [OF assms(1) Inr assms(2)] by simp
  from cached_good [OF this Inr, of t] Inr assms(3) show ?thesis
    by (auto simp: compile_and_cache_def Let_def fresh_chunk_def)
qed

lemma aot_request_good:
  assumes "aot_good cp hash io E s" "expr \<in> E" "aot_getOrCompile cp hash io t True expr s = (r, s')"
  shows "map_sum id bytecode r = compileToBytecode cp True expr \<and> aot_good cp hash io E s'"
proof -
  obtain a files where s: "s = (a, files)" by fastforce
  note G = aot_goodD [OF assms(1)[unfolded s]]
  have compiled: ?thesis if "compile_and_cache cp hash io t True expr a files = (r, s')"
    using compile_and_cache_good [OF assms(1)[unfolded s] assms(2) that] .
  show ?thesis
  proof (cases "map_of (aot_cache a) expr")
    case (Some chunk)
    let ?c = "chunk\<lparr>hitCount := hitCount chunk + 1\<rparr>"
    have b: "compileToBytecode cp True expr = Inr (bytecode chunk)" using G(3) map_of_SomeD [OF Some] by simp
    have "aot_good cp hash io E (a\<lparr>aot_cache := AList.update expr ?c (aot_cache a)\<rparr>, files)"
      using G b set_update_subset [of expr ?c "aot_cache a"] by (intro aot_goodI) auto
    with Some b assms(3) s show ?thesis by (auto simp: aot_getOrCompile_def Let_def)
  next
    case None
    show ?thesis
    proof (cases "useDiskCache a \<and> io_read io (cacheFile hash expr) \<and> files (cacheFile hash expr) \<noteq> None")
      case True
      then obtain b where f: "files (cacheFile hash expr) = Some b" by blast
      have c: "compileToBytecode cp True expr = Inr b" using G(4) [OF assms(2)] f by simp
      from cached_good [OF assms(1)[unfolded s] c, of t] None True f c assms(3) s G(1) show ?thesis
        by (auto simp: aot_getOrCompile_def Let_def fresh_chunk_def healthy_def)
    next
      case False
      with None assms(3) s G(1) have "compile_and_cache cp hash io t True expr a files = (r, s')"
        by (auto simp: aot_getOrCompile_def Let_def healthy_def split: if_splits option.splits)
      then show ?thesis by (rule compiled)
    qed
  qed
qed

lemma precompile_good:
  "aot_good cp hash io E s \<Longrightarrow> set exprs \<subseteq> E \<Longrightarrow> aot_good cp hash io E (precompile cp hash io t True exprs s)"
proof (induction exprs arbitrary: s)
  case (Cons expr exprs)
  obtain r s' where r: "aot_getOrCompile cp hash io t True expr s = (r, s')" by (metis prod.exhaust)
  with Cons aot_request_good [OF Cons.prems(1) _ r] show ?case by simp
qed simp

lemma saveCache_good: "aot_good cp hash io E s \<Longrightarrow> aot_good cp hash io E (saveCache it hash io s)"
  using aot_goodD [of cp hash io E s]
  by (cases s) (auto simp: saveCache_def write_file_def intro!: aot_goodI)

lemma clearCache_good: "aot_good cp hash io E s \<Longrightarrow> aot_good cp hash io E (clearCache io s)"
  using aot_goodD [of cp hash io E s]
  by (cases s) (auto simp: clearCache_def Let_def intro!: aot_goodI split: if_splits)

text \<open>The calls of a client; a request is answered with bytecode or an exception.\<close>

datatype aot_call = ARequest string int | APrecompile "string list" int | ASave | AClear

fun aot_expressions :: "aot_call \<Rightarrow> string list" where
  "aot_expressions (ARequest expr t) = [expr]"
| "aot_expressions (APrecompile exprs t) = exprs"
| "aot_expressions ASave = []"
| "aot_expressions AClear = []"

fun aot_step ::
    "((string \<times> AotCompiledChunk) list \<Rightarrow> (string \<times> AotCompiledChunk) list) \<Rightarrow> 'f lua_compiler \<Rightarrow> (string \<Rightarrow> 64 word)
       \<Rightarrow> file_io \<Rightarrow> aot_call \<Rightarrow> AotCompiler \<times> frc_files \<Rightarrow> (exn + string) option \<times> AotCompiler \<times> frc_files" where
  "aot_step it cp hash io (ARequest expr t) s =
     (let (r, s') = aot_getOrCompile cp hash io t True expr s in (Some (map_sum id bytecode r), s'))"
| "aot_step it cp hash io (APrecompile exprs t) s = (None, precompile cp hash io t True exprs s)"
| "aot_step it cp hash io ASave s = (None, saveCache it hash io s)"
| "aot_step it cp hash io AClear s = (None, clearCache io s)"

fun aot_answer :: "'f lua_compiler \<Rightarrow> aot_call \<Rightarrow> (exn + string) option" where
  "aot_answer cp (ARequest expr t) = Some (compileToBytecode cp True expr)"
| "aot_answer cp (APrecompile exprs t) = None"
| "aot_answer cp ASave = None"
| "aot_answer cp AClear = None"

interpretation aot: transparent_cache "aot_step it cp hash io" "aot_answer cp" "\<lambda>c. set (aot_expressions c) \<subseteq> E"
    "aot_good cp hash io E"
proof
  fix s c assume good: "aot_good cp hash io E s" and c: "set (aot_expressions c) \<subseteq> E"
  have "fst (aot_step it cp hash io c s) = aot_answer cp c \<and> aot_good cp hash io E (snd (aot_step it cp hash io c s))"
  proof (cases c)
    case (ARequest expr t)
    obtain r s' where r: "aot_getOrCompile cp hash io t True expr s = (r, s')" by (metis prod.exhaust)
    from aot_request_good [OF good _ r] c ARequest r show ?thesis by simp
  qed (use good c in \<open>simp_all add: precompile_good saveCache_good clearCache_good\<close>)
  then show "fst (aot_step it cp hash io c s) = aot_answer cp c" "aot_good cp hash io E (snd (aot_step it cp hash io c s))"
    by simp_all
qed

text \<open>
  C24. The ahead-of-time cache never changes the code that runs: for expressions whose hashes differ
  and a disk that loses no data, after any sequence of requests, precompilations, saves and clears,
  with files that can or cannot be opened at will, every request is answered with exactly the
  bytecode, or the exception, of compiling its own expression, whether it was found in
  memory, read from a file or compiled.
\<close>

theorem aot_cache_transparent:
  assumes "aot_good cp hash io E s" and "\<forall>c\<in>set calls. set (aot_expressions c) \<subseteq> E"
  shows "fst (requests (aot_step it cp hash io) calls s) = map (aot_answer cp) calls"
  using aot.requests_answers [OF assms(1), of calls it] assms(2) by (simp add: list_all_iff)

definition sample_compiler :: "string lua_compiler" where
  "sample_compiler = \<lparr>loadstring = (\<lambda>code. if code = [] then Inl None else Inr code), lua_dump = (\<lambda>f. Some (CHR 0x1B # f))\<rparr>"

definition sample_io :: file_io where
  "sample_io = \<lparr>io_mkdir = True, io_stat = (\<lambda>_. True), io_read = (\<lambda>_. True), io_open = (\<lambda>_. True),
     io_write = (\<lambda>_ content. content), io_remove = (\<lambda>_. True)\<rparr>"

definition length_hash :: "string \<Rightarrow> 64 word" where
  "length_hash e = of_nat (length e)"

theorem aot_cache_transparent_witness:
  "fst (requests (aot_step id sample_compiler length_hash sample_io)
     [ARequest ''x'' 1, ASave, AClear, APrecompile [''yy''] 2, ARequest ''yy'' 3, ARequest ''x'' 4]
     (create_aot sample_io ''d'', Map.empty)) =
   [Some (Inr (CHR 0x1B # ''x'')), None, None, None, Some (Inr (CHR 0x1B # ''yy'')), Some (Inr (CHR 0x1B # ''x''))]"
proof -
  have "aot_good sample_compiler length_hash sample_io {''x'', ''yy''} (create_aot sample_io ''d'', Map.empty)"
    by (auto simp: aot_good_def healthy_def sample_io_def create_aot_def length_hash_def)
  from aot_cache_transparent [OF this, of "[ARequest ''x'' 1, ASave, AClear, APrecompile [''yy''] 2, ARequest ''yy'' 3, ARequest ''x'' 4]" id]
  show ?thesis by (simp add: compileToBytecode_def sample_compiler_def c_str_def)
qed

text \<open>The file says neither which expression nor which Lua version it belongs to: an expression
  whose hash is that of another one is answered with the other one's code, and a file that was cut
  short by a full disk is answered as it is.\<close>

lemma hash_collision_runs_other_code:
  assumes "hash e1 = hash e2" "e1 \<noteq> e2" "healthy io" "\<forall>name. io_open io name \<and> io_read io name"
    and "compileToBytecode cp True e2 = Inr b2" "useDiskCache a" "map_of (aot_cache a) e1 = None" "map_of (aot_cache a) e2 = None"
    and "files (cacheFile hash e2) = None"
  shows "fst (aot_getOrCompile cp hash io t True e1 (snd (aot_getOrCompile cp hash io t' True e2 (a, files)))) =
    Inr (fresh_chunk b2 t)"
  using assms by (simp add: aot_getOrCompile_def compile_and_cache_def Let_def healthy_def cacheFile_def
      write_file_def cache_chunk_def)

lemma truncated_file_trusted:
  assumes "files (cacheFile hash e) = Some b" "io_stat io (cacheFile hash e)" "io_read io (cacheFile hash e)"
    and "useDiskCache a" "map_of (aot_cache a) e = None"
  shows "fst (aot_getOrCompile cp hash io t lua e (a, files)) = Inr (fresh_chunk b t)"
  using assms by (simp add: aot_getOrCompile_def Let_def)

text \<open>The first request of an expression counts as a hit, so the "hit ratio" is 1 after one miss.\<close>

lemma hit_ratio_after_one_miss:
  assumes "compileToBytecode cp True e = Inr b" "useDiskCache a \<longrightarrow> io_stat io (cacheFile hash e)" "aot_cache a = []"
  shows "getCacheStats fdiv z (fst (snd (aot_getOrCompile cp hash io t True e (a, files)))) = (fdiv 1 1, 1)"
  using assms by (auto simp: aot_getOrCompile_def compile_and_cache_def cache_chunk_def fresh_chunk_def
      getCacheStats_def Let_def split: option.split)

text \<open>A failing \<^verbatim>\<open>exists\<close> is outside the handlers and ends the request.\<close>

lemma stat_failure_escapes:
  "map_of (aot_cache a) e = None \<Longrightarrow> useDiskCache a \<Longrightarrow> \<not> io_stat io (cacheFile hash e) \<Longrightarrow>
     \<exists>m. fst (aot_getOrCompile cp hash io t lua e (a, files)) = Inl (StdException FilesystemError m)"
  by (simp add: aot_getOrCompile_def Let_def)

end
