(* ===== verification/Json_Loader.thy ===== *)
theory Json_Loader
  imports Workflow
begin

text \<open>
  \<^verbatim>\<open>JsonLoader\<close> (extensions/json): rules and workflows as JSON documents. A document is the data model of
  JSON, with the keys of a written object in their sorted order, as the library keeps them; the text format,
  which a third-party library reads and writes, is the argument \<open>json_lib\<close>: parsing, dumping (which throws on strings that are not UTF-8) and the conversion of floating-point numbers. Conversions
  from a number to \<^verbatim>\<open>int\<close> keep the low 32 bits, as that library does. The two process-wide
  identifier counters and the addresses of new rules are the state of a call.
\<close>

section \<open>Documents\<close>

datatype 'd json =
    JNull | JBool bool | JInt int | JFloat 'd | JString string
  | JArray "'d json list" | JObject "(string \<times> 'd json) list"

text \<open>\<^verbatim>\<open>j.contains(key)\<close> with \<^verbatim>\<open>j[key]\<close>; a document that is not an object contains no key.\<close>

definition j_get :: "'d json \<Rightarrow> string \<Rightarrow> 'd json option" where
  "j_get j key = (case j of JObject kvs \<Rightarrow> map_of kvs key | _ \<Rightarrow> None)"

definition as_int32 :: "int \<Rightarrow> int" where
  "as_int32 v = signed_take_bit 31 v"

definition as_int64 :: "int \<Rightarrow> int" where
  "as_int64 v = signed_take_bit 63 v"

record 'd json_lib =
  json_parse :: "string \<Rightarrow> exn + 'd json"
  json_dump :: "'d json \<Rightarrow> exn + string"
  json_dump2 :: "'d json \<Rightarrow> exn + string"
  float_to_int64 :: "'d \<Rightarrow> int"

definition string_field :: "'d json \<Rightarrow> string \<Rightarrow> string \<Rightarrow> string" where
  "string_field j key dflt = (case j_get j key of Some (JString s) \<Rightarrow> s | _ \<Rightarrow> dflt)"

definition bool_field :: "'d json \<Rightarrow> string \<Rightarrow> bool \<Rightarrow> bool" where
  "bool_field j key dflt = (case j_get j key of Some (JBool b) \<Rightarrow> b | _ \<Rightarrow> dflt)"

definition int_field :: "'d json \<Rightarrow> string \<Rightarrow> int \<Rightarrow> int" where
  "int_field j key dflt = (case j_get j key of Some (JInt v) \<Rightarrow> as_int32 v | _ \<Rightarrow> dflt)"

section \<open>Durations\<close>

definition ends_with :: "string \<Rightarrow> string \<Rightarrow> bool" where
  "ends_with s suffix \<longleftrightarrow> length suffix \<le> length s \<and> drop (length s - length suffix) s = suffix"

text \<open>\<^verbatim>\<open>std::stoll\<close> on the text before the unit, which is \<open>unit_len\<close> characters long.\<close>

definition stoll_prefix :: "nat \<Rightarrow> string \<Rightarrow> exn + int" where
  "stoll_prefix unit_len ts =
     (case scan_int (take (length ts - unit_len) ts) of
        None \<Rightarrow> Inl (StdException InvalidArgument ''stoll'')
      | Some (v, rest) \<Rightarrow>
          if - (2 ^ 63) \<le> v \<and> v < 2 ^ 63 then Inr v else Inl (StdException OutOfRange ''stoll''))"

definition parse_duration :: "'d json_lib \<Rightarrow> 'd json option \<Rightarrow> exn + int option" where
  "parse_duration lib field =
     (case field of
        Some (JInt v) \<Rightarrow> Inr (Some (as_int64 v))
      | Some (JFloat f) \<Rightarrow> Inr (Some (float_to_int64 lib f))
      | Some (JString ts) \<Rightarrow>
          if ends_with ts ''ms'' then map_sum id Some (stoll_prefix 2 ts)
          else if ends_with ts ''s'' then map_sum id (\<lambda>v. Some (as_int64 (v * 1000))) (stoll_prefix 1 ts)
          else if ends_with ts ''m'' then map_sum id (\<lambda>v. Some (as_int64 (v * 60000))) (stoll_prefix 1 ts)
          else Inr None
      | _ \<Rightarrow> Inr None)"

section \<open>Reading a rule\<close>

record loader_state =
  ruleIdCounter :: int
  workflowIdCounter :: int
  next_addr :: nat

definition kMaxRuleNestingDepth :: nat where
  "kMaxRuleNestingDepth = 64"

definition too_deep :: exn where
  "too_deep = RuleExceptionThrown
     (''Rule nesting exceeds the maximum supported depth of '' @ std_to_string (int kMaxRuleNestingDepth))"

definition next_rule_id :: "loader_state \<Rightarrow> int \<times> loader_state" where
  "next_rule_id st = (let i = as_int32 (ruleIdCounter st + 1) in (i, st\<lparr>ruleIdCounter := i\<rparr>))"

definition next_workflow_id :: "loader_state \<Rightarrow> int \<times> loader_state" where
  "next_workflow_id st = (let i = as_int32 (workflowIdCounter st + 1) in (i, st\<lparr>workflowIdCounter := i\<rparr>))"

text \<open>The identifier of a rule or a workflow: a number, a text that starts with one, or the next free
  value of the counter \<open>fresh\<close>.\<close>

definition parse_id ::
    "(loader_state \<Rightarrow> int \<times> loader_state) \<Rightarrow> string \<Rightarrow> 'd json \<Rightarrow> loader_state \<Rightarrow> (exn + int) \<times> loader_state" where
  "parse_id fresh kind j st =
     (case j_get j ''id'' of
        Some (JInt v) \<Rightarrow> (Inr (as_int32 v), st)
      | Some (JString s) \<Rightarrow>
          (case stoi s of
             Some v \<Rightarrow> (Inr v, st)
           | None \<Rightarrow> (Inl (RuleExceptionThrown (kind @ '' '' @ [CHR 0x27] @ ''id'' @ [CHR 0x27] @
                        '' is a string but not a valid integer: '' @ s)), st))
      | _ \<Rightarrow> (let (i, st1) = fresh st in (Inr i, st1)))"

definition parse_data :: "'d json_lib \<Rightarrow> 'd json \<Rightarrow> int \<Rightarrow> exn + RuleData" where
  "parse_data lib j i =
     (case parse_duration lib (j_get j ''timeout'') of
        Inl e \<Rightarrow> Inl e
      | Inr t \<Rightarrow>
          (case parse_duration lib (j_get j ''cacheDuration'') of
             Inl e \<Rightarrow> Inl e
           | Inr cd \<Rightarrow>
               Inr (default_rule_data\<lparr>rule_id := i, rule_name := string_field j ''name'' [],
                 description := string_field j ''description'' [], isActive := bool_field j ''isActive'' True,
                 priority := int_field j ''priority'' 0, expression := string_field j ''expression'' [],
                 action := string_field j ''action'' [],
                 dependsOnRuleName := (case j_get j ''dependsOnRuleName'' of Some (JString s) \<Rightarrow> Some s | _ \<Rightarrow> None),
                 timeout := t, cacheDuration := cd\<rparr>)))"

text \<open>The depth bound is what makes the recursion end.\<close>

function (sequential) parseRuleAtDepth :: "'d json_lib \<Rightarrow> nat \<Rightarrow> 'd json \<Rightarrow> loader_state \<Rightarrow> (exn + Rule) \<times> loader_state"
and parse_children :: "'d json_lib \<Rightarrow> nat \<Rightarrow> 'd json list \<Rightarrow> loader_state \<Rightarrow> (exn + Rule list) \<times> loader_state" where
  "parseRuleAtDepth lib dp j st =
     (if dp > kMaxRuleNestingDepth then (Inl too_deep, st)
      else bindx (parse_id next_rule_id ''Rule'' j (st\<lparr>next_addr := next_addr st + 1\<rparr>)) (\<lambda>i st1.
        case parse_data lib j i of
          Inl e \<Rightarrow> (Inl e, st1)
        | Inr d \<Rightarrow>
            (case j_get j ''childRules'' of
               Some (JArray js) \<Rightarrow>
                 bindx (parse_children lib (dp + 1) js st1) (\<lambda>cs st2. (Inr (Rule (next_addr st) d cs), st2))
             | _ \<Rightarrow> (Inr (Rule (next_addr st) d []), st1))))"
| "parse_children lib dp [] st = (Inr [], st)"
| "parse_children lib dp (j # js) st =
     bindx (parseRuleAtDepth lib dp j st) (\<lambda>c st1.
       bindx (parse_children lib dp js st1) (\<lambda>cs st2. (Inr (c # cs), st2)))"
  by pat_completeness auto
termination
  by (relation "inv_image (less_than <*lex*> less_than)
        (\<lambda>x. case x of Inl (lib, dp, j, st) \<Rightarrow> (66 - dp, 0) | Inr (lib, dp, js, st) \<Rightarrow> (66 - dp, 1 + length js))")
     (auto simp: kMaxRuleNestingDepth_def)

declare parseRuleAtDepth.simps [simp del]

definition loadRule :: "'d json_lib \<Rightarrow> string \<Rightarrow> loader_state \<Rightarrow> (exn + Rule) \<times> loader_state" where
  "loadRule lib text st =
     (case json_parse lib text of Inl e \<Rightarrow> (Inl e, st) | Inr j \<Rightarrow> parseRuleAtDepth lib 0 j st)"

section \<open>Writing a rule\<close>

definition opt_json :: "('a \<Rightarrow> 'd json) \<Rightarrow> 'a option \<Rightarrow> 'd json" where
  "opt_json f x = (case x of None \<Rightarrow> JNull | Some v \<Rightarrow> f v)"

definition rule_object :: "RuleData \<Rightarrow> 'd json list \<Rightarrow> 'd json" where
  "rule_object d cs =
     JObject [(''action'', JString (action d)), (''cacheDuration'', opt_json JInt (cacheDuration d)), (''childRules'', JArray cs),
       (''dependsOnRuleName'', opt_json JString (dependsOnRuleName d)), (''description'', JString (description d)),
       (''expression'', JString (expression d)), (''id'', JInt (rule_id d)), (''isActive'', JBool (isActive d)),
       (''priority'', JInt (priority d)), (''timeout'', opt_json JInt (timeout d))]"

fun serializeRuleAtDepth :: "nat \<Rightarrow> Rule \<Rightarrow> exn + 'd json"
and serialize_children :: "nat \<Rightarrow> Rule list \<Rightarrow> exn + 'd json list" where
  "serializeRuleAtDepth dp (Rule a d cs) =
     (if dp > kMaxRuleNestingDepth then Inl too_deep
      else case serialize_children (dp + 1) cs of Inl e \<Rightarrow> Inl e | Inr js \<Rightarrow> Inr (rule_object d js))"
| "serialize_children dp [] = Inr []"
| "serialize_children dp (c # cs) =
     (case serializeRuleAtDepth dp c of
        Inl e \<Rightarrow> Inl e
      | Inr j \<Rightarrow> (case serialize_children dp cs of Inl e \<Rightarrow> Inl e | Inr js \<Rightarrow> Inr (j # js)))"

definition saveRule :: "'d json_lib \<Rightarrow> Rule \<Rightarrow> exn + string" where
  "saveRule lib r = (case serializeRuleAtDepth 0 r of Inl e \<Rightarrow> Inl e | Inr j \<Rightarrow> json_dump lib j)"

definition saveRulePretty :: "'d json_lib \<Rightarrow> Rule \<Rightarrow> exn + string" where
  "saveRulePretty lib r = (case serializeRuleAtDepth 0 r of Inl e \<Rightarrow> Inl e | Inr j \<Rightarrow> json_dump2 lib j)"

section \<open>Workflows\<close>

definition parse_workflow :: "'d json_lib \<Rightarrow> 'd json \<Rightarrow> loader_state \<Rightarrow> (exn + 'h Workflow) \<times> loader_state" where
  "parse_workflow lib j st =
     bindx (parse_id next_workflow_id ''Workflow'' j st) (\<lambda>i st1.
       let wk = default_workflow\<lparr>wf_id := i, wf_description := string_field j ''description'' [],
                  wf_name := string_field j ''name'' [], wf_isActive := bool_field j ''isActive'' True\<rparr>
       in case j_get j ''rules'' of
            Some (JArray js) \<Rightarrow> bindx (parse_children lib 0 js st1) (\<lambda>rs st2. (Inr (wk\<lparr>wf_rules := rs\<rparr>), st2))
          | _ \<Rightarrow> (Inr wk, st1))"

definition loadWorkflow :: "'d json_lib \<Rightarrow> string \<Rightarrow> loader_state \<Rightarrow> (exn + 'h Workflow) \<times> loader_state" where
  "loadWorkflow lib text st =
     (case json_parse lib text of Inl e \<Rightarrow> (Inl e, st) | Inr j \<Rightarrow> parse_workflow lib j st)"

text \<open>The content of the file is \<open>None\<close> when it cannot be opened.\<close>

definition loadWorkflowFromFile ::
    "'d json_lib \<Rightarrow> (string \<Rightarrow> string option) \<Rightarrow> string \<Rightarrow> loader_state \<Rightarrow> (exn + 'h Workflow) \<times> loader_state" where
  "loadWorkflowFromFile lib files path st =
     (case files path of
        None \<Rightarrow> (Inl (RuleExceptionThrown (''Cannot open file: '' @ path)), st)
      | Some content \<Rightarrow> loadWorkflow lib content st)"

definition workflow_object :: "'h Workflow \<Rightarrow> exn + 'd json" where
  "workflow_object wk =
     (case serialize_children 0 (wf_rules wk) of
        Inl e \<Rightarrow> Inl e
      | Inr js \<Rightarrow> Inr (JObject [(''description'', JString (wf_description wk)), (''id'', JInt (wf_id wk)),
          (''isActive'', JBool (wf_isActive wk)), (''name'', JString (wf_name wk)), (''rules'', JArray js)]))"

definition saveWorkflow :: "'d json_lib \<Rightarrow> 'h Workflow \<Rightarrow> exn + string" where
  "saveWorkflow lib wk = (case workflow_object wk of Inl e \<Rightarrow> Inl e | Inr j \<Rightarrow> json_dump lib j)"

definition saveWorkflowPretty :: "'d json_lib \<Rightarrow> 'h Workflow \<Rightarrow> exn + string" where
  "saveWorkflowPretty lib wk = (case workflow_object wk of Inl e \<Rightarrow> Inl e | Inr j \<Rightarrow> json_dump2 lib j)"

section \<open>Reading back what was written\<close>

text \<open>The content of a rule without addresses, the part of it that survives, and the range of the
  source's types.\<close>

datatype shape = Shape RuleData "shape list"

fun rule_shape :: "(RuleData \<Rightarrow> RuleData) \<Rightarrow> Rule \<Rightarrow> shape" where
  "rule_shape f (Rule a d cs) = Shape (f d) (map (rule_shape f) cs)"

abbreviation content :: "Rule \<Rightarrow> shape" where
  "content r \<equiv> rule_shape (\<lambda>d. d) r"

definition json_image :: "RuleData \<Rightarrow> RuleData" where
  "json_image d = d\<lparr>rule_name := [], rateLimiter := None\<rparr>"

definition int_fits :: "int \<Rightarrow> bool" where
  "int_fits v \<longleftrightarrow> int_min \<le> v \<and> v \<le> int_max"

definition ms_fits :: "int option \<Rightarrow> bool" where
  "ms_fits t \<longleftrightarrow> (case t of None \<Rightarrow> True | Some v \<Rightarrow> - (2 ^ 63) \<le> v \<and> v < 2 ^ 63)"

definition data_fits :: "RuleData \<Rightarrow> bool" where
  "data_fits d \<longleftrightarrow> int_fits (rule_id d) \<and> int_fits (priority d) \<and> ms_fits (timeout d) \<and> ms_fits (cacheDuration d)"

fun rule_fits :: "Rule \<Rightarrow> bool" where
  "rule_fits (Rule a d cs) \<longleftrightarrow> data_fits d \<and> list_all rule_fits cs"

text \<open>At most \<open>n\<close> levels of children.\<close>

fun nested_within :: "nat \<Rightarrow> Rule \<Rightarrow> bool" where
  "nested_within n (Rule a d cs) \<longleftrightarrow> (case n of 0 \<Rightarrow> cs = [] | Suc m \<Rightarrow> list_all (nested_within m) cs)"

lemma as_int_fits [simp]:
  "int_fits v \<Longrightarrow> as_int32 v = v" "- (2 ^ 63) \<le> v \<Longrightarrow> v < 2 ^ 63 \<Longrightarrow> as_int64 v = v"
  by (simp_all add: int_fits_def as_int32_def as_int64_def signed_take_bit_int_eq_self_iff)

lemma rule_object_get [simp]:
  "j_get (rule_object d js) ''id'' = Some (JInt (rule_id d))" "j_get (rule_object d js) ''name'' = None"
  "j_get (rule_object d js) ''description'' = Some (JString (description d))"
  "j_get (rule_object d js) ''isActive'' = Some (JBool (isActive d))"
  "j_get (rule_object d js) ''priority'' = Some (JInt (priority d))"
  "j_get (rule_object d js) ''expression'' = Some (JString (expression d))"
  "j_get (rule_object d js) ''action'' = Some (JString (action d))"
  "j_get (rule_object d js) ''dependsOnRuleName'' = Some (opt_json JString (dependsOnRuleName d))"
  "j_get (rule_object d js) ''timeout'' = Some (opt_json JInt (timeout d))"
  "j_get (rule_object d js) ''cacheDuration'' = Some (opt_json JInt (cacheDuration d))"
  "j_get (rule_object d js) ''childRules'' = Some (JArray js)"
  by (simp_all add: rule_object_def j_get_def)

lemma opt_json_simps [simp]: "opt_json f None = JNull" "opt_json f (Some v) = f v"
  by (simp_all add: opt_json_def)

lemma parse_duration_written:
  "ms_fits t \<Longrightarrow> parse_duration lib (Some (opt_json JInt t)) = Inr t"
  by (cases t) (simp_all add: parse_duration_def ms_fits_def)

lemma parse_data_written:
  assumes "data_fits d"
  shows "parse_data lib (rule_object d js) (rule_id d) = Inr (json_image d)"
proof -
  have dep: "(case opt_json JString x of JString s \<Rightarrow> Some s | _ \<Rightarrow> None) = x" for x :: "string option"
    by (cases x) simp_all
  show ?thesis
    using assms
    by (cases d) (simp add: parse_data_def data_fits_def parse_duration_written json_image_def string_field_def bool_field_def
       int_field_def default_rule_data_def dep)
qed

lemma parse_children_written:
  assumes "\<And>c dp j st. c \<in> set cs \<Longrightarrow> serializeRuleAtDepth dp c = Inr j \<Longrightarrow> rule_fits c \<Longrightarrow>
      \<exists>c' st'. parseRuleAtDepth lib dp j st = (Inr c', st') \<and> content c' = rule_shape json_image c"
    and "serialize_children dp cs = Inr js" "list_all rule_fits cs"
  shows "\<exists>cs' st'. parse_children lib dp js st = (Inr cs', st') \<and> map content cs' = map (rule_shape json_image) cs"
  using assms
proof (induction cs arbitrary: js st)
  case (Cons c cs)
  from Cons.prems(2) obtain j js' where j: "serializeRuleAtDepth dp c = Inr j" "serialize_children dp cs = Inr js'" "js = j # js'"
    by (auto split: sum.splits)
  from Cons.prems(1) [OF _ j(1), of st] Cons.prems(3) obtain c' st1 where
    c: "parseRuleAtDepth lib dp j st = (Inr c', st1)" "content c' = rule_shape json_image c" by auto
  from Cons.IH [OF Cons.prems(1) j(2), of st1] Cons.prems(3) obtain cs' st2 where
    "parse_children lib dp js' st1 = (Inr cs', st2)" "map content cs' = map (rule_shape json_image) cs" by auto
  with c j(3) show ?case by auto
qed simp

lemma parse_rule_written:
  "serializeRuleAtDepth dp r = Inr j \<Longrightarrow> rule_fits r \<Longrightarrow>
     \<exists>r' st'. parseRuleAtDepth lib dp j st = (Inr r', st') \<and> content r' = rule_shape json_image r"
proof (induction r arbitrary: dp j st)
  case (Rule a d cs)
  from Rule.prems(1) obtain js where le: "dp \<le> kMaxRuleNestingDepth" and js: "serialize_children (dp + 1) cs = Inr js"
    and j: "j = rule_object d js" by (auto split: if_splits sum.splits)
  have fits: "data_fits d" "list_all rule_fits cs" "int_fits (rule_id d)" using Rule.prems(2) by (auto simp: data_fits_def)
  from parse_children_written [OF Rule.IH js fits(2), of "st\<lparr>next_addr := next_addr st + 1\<rparr>"]
  obtain cs' st' where "parse_children lib (dp + 1) js (st\<lparr>next_addr := next_addr st + 1\<rparr>) = (Inr cs', st')"
    "map content cs' = map (rule_shape json_image) cs" by blast
  with le j fits show ?case
    by (simp add: parseRuleAtDepth.simps(1) parse_id_def parse_data_written)
qed

lemma rules_written:
  "serialize_children dp cs = Inr js \<Longrightarrow> list_all rule_fits cs \<Longrightarrow>
     \<exists>cs' st'. parse_children lib dp js st = (Inr cs', st') \<and> map content cs' = map (rule_shape json_image) cs"
  by (rule parse_children_written) (rule parse_rule_written)

lemma serialize_children_depth:
  assumes "\<And>c. c \<in> set cs \<Longrightarrow> (if P c then \<exists>j. serializeRuleAtDepth dp c = Inr (j :: 'd json)
      else serializeRuleAtDepth dp c = (Inl too_deep :: exn + 'd json))"
  shows "if list_all P cs then \<exists>js. serialize_children dp cs = Inr (js :: 'd json list)
      else serialize_children dp cs = (Inl too_deep :: exn + 'd json list)"
  using assms
proof (induction cs)
  case (Cons c cs)
  have "if P c then \<exists>j. serializeRuleAtDepth dp c = Inr (j :: 'd json) else serializeRuleAtDepth dp c = (Inl too_deep :: exn + 'd json)"
    by (rule Cons.prems) simp
  moreover have "if list_all P cs then \<exists>js. serialize_children dp cs = Inr (js :: 'd json list)
      else serialize_children dp cs = (Inl too_deep :: exn + 'd json list)"
    by (rule Cons.IH) (rule Cons.prems, simp)
  ultimately show ?case by (auto split: if_splits)
qed simp

lemma serialize_depth:
  "dp \<le> kMaxRuleNestingDepth \<Longrightarrow>
     (if nested_within (kMaxRuleNestingDepth - dp) r then \<exists>j. serializeRuleAtDepth dp r = Inr (j :: 'd json)
      else serializeRuleAtDepth dp r = (Inl too_deep :: exn + 'd json))"
proof (induction r arbitrary: dp)
  case (Rule a d cs)
  show ?case
  proof (cases "dp = kMaxRuleNestingDepth")
    case True
    have "serializeRuleAtDepth (Suc dp) c = (Inl too_deep :: exn + 'd json)" for c
      by (cases c) (simp add: True)
    then have "cs \<noteq> [] \<Longrightarrow> serialize_children (Suc dp) cs = (Inl too_deep :: exn + 'd json list)"
      by (cases cs) simp_all
    with True show ?thesis by (cases "cs = []") auto
  next
    case False
    then obtain m where m: "kMaxRuleNestingDepth - dp = Suc m" "kMaxRuleNestingDepth - Suc dp = m" "Suc dp \<le> kMaxRuleNestingDepth"
      using Rule.prems by (metis Suc_diff_Suc Suc_leI le_neq_implies_less)
    have "if list_all (nested_within m) cs then \<exists>js. serialize_children (Suc dp) cs = Inr (js :: 'd json list)
        else serialize_children (Suc dp) cs = (Inl too_deep :: exn + 'd json list)"
      by (rule serialize_children_depth) (use Rule.IH [OF _ m(3)] m(2) in simp)
    with m(1) Rule.prems show ?thesis by (auto split: if_splits)
  qed
qed

lemma workflow_object_get:
  assumes "workflow_object wk = Inr j"
  shows "j_get j ''id'' = Some (JInt (wf_id wk))" "j_get j ''name'' = Some (JString (wf_name wk))"
    "j_get j ''description'' = Some (JString (wf_description wk))" "j_get j ''isActive'' = Some (JBool (wf_isActive wk))"
    "\<exists>js. j_get j ''rules'' = Some (JArray js) \<and> serialize_children 0 (wf_rules wk) = Inr js"
  using assms by (auto simp: workflow_object_def j_get_def split: sum.splits)

lemma workflow_written:
  assumes "workflow_object wk = Inr j" "int_fits (wf_id wk)" "list_all rule_fits (wf_rules wk)"
  shows "\<exists>wk' st'. parse_workflow lib j st = (Inr wk', st') \<and> wf_id wk' = wf_id wk \<and> wf_name wk' = wf_name wk \<and>
    wf_description wk' = wf_description wk \<and> wf_isActive wk' = wf_isActive wk \<and>
    map content (wf_rules wk') = map (rule_shape json_image) (wf_rules wk)"
proof -
  note g = workflow_object_get [OF assms(1)]
  from g(5) obtain js where js: "j_get j ''rules'' = Some (JArray js)" "serialize_children 0 (wf_rules wk) = Inr js" by blast
  from rules_written [OF js(2) assms(3), of lib st] obtain rs st' where
    "parse_children lib 0 js st = (Inr rs, st')" "map content rs = map (rule_shape json_image) (wf_rules wk)" by blast
  with g(1-4) js(1) assms(2) show ?thesis
    by (simp add: parse_workflow_def parse_id_def string_field_def bool_field_def)
qed

lemma workflow_object_deep:
  assumes "\<not> list_all (nested_within kMaxRuleNestingDepth) (wf_rules wk)"
  shows "workflow_object wk = (Inl too_deep :: exn + 'd json)"
proof -
  have "if list_all (nested_within kMaxRuleNestingDepth) (wf_rules wk) then \<exists>js. serialize_children 0 (wf_rules wk) = Inr (js :: 'd json list)
      else serialize_children 0 (wf_rules wk) = (Inl too_deep :: exn + 'd json list)"
    by (rule serialize_children_depth) (rule serialize_depth [OF le0, unfolded diff_zero])
  with assms show ?thesis by (simp add: workflow_object_def)
qed

text \<open>
  C27. A workflow that is written as JSON is read back: if the library parses what it dumps, loading the
  saved text of a workflow (compact or pretty) succeeds from every state of the counters and gives the same identifier,
  name, description and active flag, and rules of the same content, order and nesting, except that rule names and rate
  limiters are gone. A workflow with rules nested deeper than 64 levels is never written; saving throws the documented exception.
\<close>

theorem json_workflow_roundtrip:
  assumes "\<forall>j s. json_dump lib j = Inr s \<or> json_dump2 lib j = Inr s \<longrightarrow> json_parse lib s = Inr j"
    and "int_fits (wf_id wk)" and "list_all rule_fits (wf_rules wk)"
  shows "(\<not> list_all (nested_within 64) (wf_rules wk) \<longrightarrow>
       saveWorkflow lib wk = Inl too_deep \<and> saveWorkflowPretty lib wk = Inl too_deep) \<and>
    (\<forall>out. saveWorkflow lib wk = Inr out \<or> saveWorkflowPretty lib wk = Inr out \<longrightarrow>
      (\<exists>wk' st'. loadWorkflow lib out st = (Inr wk', st') \<and> wf_id wk' = wf_id wk \<and> wf_name wk' = wf_name wk \<and>
         wf_description wk' = wf_description wk \<and> wf_isActive wk' = wf_isActive wk \<and>
         map content (wf_rules wk') = map (rule_shape json_image) (wf_rules wk)))"
proof (intro conjI impI allI)
  assume "\<not> list_all (nested_within 64) (wf_rules wk)"
  then have "workflow_object wk = (Inl too_deep :: exn + 'a json)"
    by (intro workflow_object_deep) (simp add: kMaxRuleNestingDepth_def)
  then show "saveWorkflow lib wk = Inl too_deep" "saveWorkflowPretty lib wk = Inl too_deep"
    by (simp_all add: saveWorkflow_def saveWorkflowPretty_def)
next
  fix out assume "saveWorkflow lib wk = Inr out \<or> saveWorkflowPretty lib wk = Inr out"
  then obtain j where j: "workflow_object wk = Inr j" "json_dump lib j = Inr out \<or> json_dump2 lib j = Inr out"
    by (auto simp: saveWorkflow_def saveWorkflowPretty_def split: sum.splits)
  from j(2) assms(1) have "json_parse lib out = Inr j" by blast
  with workflow_written [OF j(1) assms(2,3), of lib st]
  show "\<exists>wk' st'. loadWorkflow lib out st = (Inr wk', st') \<and> wf_id wk' = wf_id wk \<and> wf_name wk' = wf_name wk \<and>
         wf_description wk' = wf_description wk \<and> wf_isActive wk' = wf_isActive wk \<and>
         map content (wf_rules wk') = map (rule_shape json_image) (wf_rules wk)"
    by (simp add: loadWorkflow_def)
qed

definition json_sample :: "unit Workflow" where
  "json_sample = default_workflow\<lparr>wf_id := 3, wf_name := ''orders'',
     wf_rules := [Rule 0 (sample_data 1 ''x'') [Rule 1 (sample_data 2 ''y'') []]]\<rparr>"

text \<open>A library that can write one document.\<close>

definition sample_json_lib :: "unit json \<Rightarrow> unit json_lib" where
  "sample_json_lib doc =
     \<lparr>json_parse = (\<lambda>s. if s = ''doc'' then Inr doc else Inl UnknownException),
      json_dump = (\<lambda>j. if j = doc then Inr ''doc'' else Inl UnknownException),
      json_dump2 = (\<lambda>j. if j = doc then Inr ''doc'' else Inl UnknownException), float_to_int64 = (\<lambda>_. 0)\<rparr>"

theorem json_workflow_roundtrip_witness:
  "\<exists>doc wk' :: unit Workflow. saveWorkflow (sample_json_lib doc) json_sample = Inr ''doc'' \<and>
     fst (loadWorkflow (sample_json_lib doc) ''doc'' \<lparr>ruleIdCounter = 0, workflowIdCounter = 0, next_addr = 7\<rparr>) = Inr wk' \<and>
     map content (wf_rules wk') = [Shape ((sample_data 1 ''x'')\<lparr>rule_name := []\<rparr>) [Shape ((sample_data 2 ''y'')\<lparr>rule_name := []\<rparr>) []]]"
proof -
  obtain doc :: "unit json" where d: "workflow_object json_sample = Inr doc"
    by (simp add: workflow_object_def json_sample_def kMaxRuleNestingDepth_def)
  let ?lib = "sample_json_lib doc"
  have saved: "saveWorkflow ?lib json_sample = Inr ''doc''" using d by (simp add: saveWorkflow_def sample_json_lib_def)
  have "\<forall>j s. json_dump ?lib j = Inr s \<or> json_dump2 ?lib j = Inr s \<longrightarrow> json_parse ?lib s = Inr j"
    by (auto simp: sample_json_lib_def split: if_splits)
  moreover have "int_fits (wf_id json_sample)" "list_all rule_fits (wf_rules json_sample)"
    by (simp_all add: json_sample_def int_fits_def data_fits_def ms_fits_def sample_data_def)
  ultimately obtain wk' :: "unit Workflow" and st' where
    "loadWorkflow ?lib ''doc'' \<lparr>ruleIdCounter = 0, workflowIdCounter = 0, next_addr = 7\<rparr> = (Inr wk', st')"
    "map content (wf_rules wk') = map (rule_shape json_image) (wf_rules json_sample)"
    using json_workflow_roundtrip [of ?lib json_sample] saved by blast
  with saved show ?thesis
    by (intro exI [of _ doc] exI [of _ wk']) (simp add: json_sample_def json_image_def sample_data_def)
qed

text \<open>Since names are not written, a dependency of a rule that was read back has no provider.\<close>

lemma content_name: "content r' = rule_shape json_image r \<Longrightarrow> rname r' = []"
  by (cases r'; cases r) (simp add: json_image_def)

lemma json_roundtrip_loses_providers:
  assumes "map content rs' = map (rule_shape json_image) rs" "rdep r = Some n" "n \<noteq> []"
  shows "provider rs' r = None"
proof -
  have "rname q = []" if q: "q \<in> set rs'" for q
  proof -
    from q obtain i where "i < length rs'" "q = rs' ! i" by (auto simp: in_set_conv_nth)
    with assms(1) have "content q = rule_shape json_image (rs ! i)" by (metis length_map nth_map)
    then show ?thesis by (rule content_name)
  qed
  with assms(2,3) show ?thesis by (auto simp: provider_def find_None_iff)
qed

text \<open>An identifier from the counter may be one that the document gives to another rule.\<close>

lemma generated_id_collides:
  "\<exists>rs st'. parse_children lib 0 [JObject [], JObject [(''id'', JInt 1)]] \<lparr>ruleIdCounter = 0, workflowIdCounter = 0, next_addr = 0\<rparr> =
     (Inr rs, st') \<and> map rid rs = [1, 1] \<and> wf_check_duplicates {} rs \<noteq> Inr ()"
  by (simp add: parseRuleAtDepth.simps(1) kMaxRuleNestingDepth_def parse_id_def j_get_def next_rule_id_def as_int32_def
      parse_data_def parse_duration_def default_rule_data_def string_field_def bool_field_def int_field_def)

end
