(* ===== verification/Rule_Repository.thy ===== *)
theory Rule_Repository
  imports Json_Loader
begin

text \<open>
  The repositories of rules (extensions/include/fastrules/repository.hpp) and the one that keeps them in a JSON file
  (extensions/json/src/json_repository.cpp). The interface \<^verbatim>\<open>IRuleRepository\<close> is the locale \<open>rule_repository\<close>: a
  repository refines a map from identifiers to rule data. Repositories return rules without children, so what they
  hold of a rule is its data. The file replacement that the JSON and XML repositories share works on a map from paths to contents;
  its faults are the argument \<open>rep_io\<close>.
\<close>

section \<open>The interface\<close>

text \<open>The abstract repository, and the calls that change one.\<close>

type_synonym rule_table = "int \<rightharpoonup> RuleData"

datatype repo_call = RSave Rule | RRemove int

definition enter_rule :: "(RuleData \<Rightarrow> RuleData) \<Rightarrow> RuleData \<Rightarrow> rule_table \<Rightarrow> rule_table" where
  "enter_rule stored d m = m(rule_id d \<mapsto> stored d)"

lemma enter_rule_simps [simp]:
  "enter_rule stored d m (rule_id d) = Some (stored d)" "i \<noteq> rule_id d \<Longrightarrow> enter_rule stored d m i = m i"
  by (simp_all add: enter_rule_def)

fun table_call :: "(Rule \<Rightarrow> RuleData list) \<Rightarrow> (RuleData \<Rightarrow> RuleData) \<Rightarrow> repo_call \<Rightarrow> rule_table \<Rightarrow> rule_table" where
  "table_call entries stored (RSave r) m = fold (enter_rule stored) (entries r) m"
| "table_call entries stored (RRemove i) m = m(i := None)"

fun run_call :: "(Rule \<Rightarrow> 's \<Rightarrow> 's) \<Rightarrow> (int \<Rightarrow> 's \<Rightarrow> 's) \<Rightarrow> repo_call \<Rightarrow> 's \<Rightarrow> 's" where
  "run_call save remove (RSave r) s = save r s"
| "run_call save remove (RRemove i) s = remove i s"

fun call_rules :: "(Rule \<Rightarrow> RuleData list) \<Rightarrow> repo_call \<Rightarrow> RuleData list" where
  "call_rules entries (RSave r) = entries r"
| "call_rules entries (RRemove i) = []"

text \<open>\<open>entries\<close>: the rules that saving a rule writes; \<open>stored\<close>: what of a rule's data survives.\<close>

locale rule_repository =
  fixes save :: "Rule \<Rightarrow> 's \<Rightarrow> 's"
    and remove :: "int \<Rightarrow> 's \<Rightarrow> 's"
    and findById :: "'s \<Rightarrow> int \<Rightarrow> RuleData option"
    and exists :: "'s \<Rightarrow> int \<Rightarrow> bool"
    and entries :: "Rule \<Rightarrow> RuleData list"
    and stored :: "RuleData \<Rightarrow> RuleData"
    and good :: "'s \<Rightarrow> bool"
  assumes find_save: "good s \<Longrightarrow> list_all data_fits (entries r) \<Longrightarrow>
      findById (save r s) = fold (enter_rule stored) (entries r) (findById s)"
    and find_remove: "good s \<Longrightarrow> findById (remove i s) = (findById s)(i := None)"
    and exists_find: "good s \<Longrightarrow> exists s i \<longleftrightarrow> findById s i \<noteq> None"
    and good_save: "good s \<Longrightarrow> list_all data_fits (entries r) \<Longrightarrow> good (save r s)"
    and good_remove: "good s \<Longrightarrow> good (remove i s)"
begin

lemma calls_refine:
  "good s \<Longrightarrow> list_all (\<lambda>c. list_all data_fits (call_rules entries c)) calls \<Longrightarrow>
     good (fold (run_call save remove) calls s) \<and>
     findById (fold (run_call save remove) calls s) = fold (table_call entries stored) calls (findById s)"
proof (induction calls arbitrary: s)
  case (Cons c calls)
  have "good (run_call save remove c s) \<and>
      findById (run_call save remove c s) = table_call entries stored c (findById s)"
    using Cons.prems by (cases c) (simp_all add: find_save find_remove good_save good_remove)
  with Cons show ?case by simp
qed simp

lemma calls_exist:
  "good s \<Longrightarrow> list_all (\<lambda>c. list_all data_fits (call_rules entries c)) calls \<Longrightarrow>
     exists (fold (run_call save remove) calls s) i \<longleftrightarrow> fold (table_call entries stored) calls (findById s) i \<noteq> None"
  using calls_refine [of s calls] exists_find by simp

lemma saved_is_found:
  "good s \<Longrightarrow> list_all data_fits (entries r) \<Longrightarrow> d \<in> set (entries r) \<Longrightarrow> distinct (map rule_id (entries r)) \<Longrightarrow>
     findById (save r s) (rule_id d) = Some (stored d)"
proof -
  have "d \<in> set ds \<Longrightarrow> distinct (map rule_id ds) \<Longrightarrow> fold (enter_rule stored) ds m (rule_id d) = Some (stored d)" for ds m
  proof (induction ds arbitrary: m)
    case (Cons x ds)
    have keep: "rule_id d \<notin> rule_id ` set ds \<Longrightarrow> fold (enter_rule stored) ds m (rule_id d) = m (rule_id d)" for m
      by (induction ds arbitrary: m) simp_all
    show ?case
      using Cons keep [of "enter_rule stored d m"] by (cases "x = d") auto
  qed simp
  then show "good s \<Longrightarrow> list_all data_fits (entries r) \<Longrightarrow> d \<in> set (entries r) \<Longrightarrow> distinct (map rule_id (entries r)) \<Longrightarrow>
     findById (save r s) (rule_id d) = Some (stored d)"
    by (simp add: find_save)
qed

end

text \<open>The file repositories write a rule and its direct children; the database writes the rule alone.\<close>

definition saved_rules :: "Rule \<Rightarrow> RuleData list" where
  "saved_rules r = rdata r # map rdata (childRules r)"

section \<open>Replacing a file\<close>

text \<open>\<open>rio_open\<close>: the temporary file can be opened; \<open>rio_write\<close>: the write is complete, else
  what is in the temporary file; \<open>rio_rename\<close>: whether an attempt to rename succeeds.\<close>

record rep_io =
  rio_open :: bool
  rio_write :: "string \<Rightarrow> string option"
  rio_rename :: "nat \<Rightarrow> bool"

type_synonym path_map = "string \<rightharpoonup> string"

definition makeTempPath :: "string \<Rightarrow> nat \<Rightarrow> string \<Rightarrow> string" where
  "makeTempPath tid counter target = target @ ''.tmp.'' @ tid @ ''.'' @ std_to_string (int counter)"

definition max_attempts :: nat where
  "max_attempts = 40"

text \<open>The loop over the attempts; \<open>None\<close> means that all failed.\<close>

fun rename_loop :: "rep_io \<Rightarrow> string \<Rightarrow> string \<Rightarrow> nat list \<Rightarrow> path_map \<Rightarrow> path_map option" where
  "rename_loop io tmp target [] files = None"
| "rename_loop io tmp target (k # ks) files =
     (if rio_rename io k then Some ((files(target := files tmp))(tmp := None))
      else rename_loop io tmp target ks files)"

definition atomicReplace :: "rep_io \<Rightarrow> string \<Rightarrow> string \<Rightarrow> path_map \<Rightarrow> (exn + unit) \<times> path_map" where
  "atomicReplace io tmp target files =
     (case rename_loop io tmp target [0..<max_attempts] files of
        Some files' \<Rightarrow> (Inr (), files')
      | None \<Rightarrow> (Inl (StdException RuntimeError (''Failed to replace '' @ target @ '' with '' @ tmp)), files(tmp := None)))"

definition write_replacing ::
    "string \<Rightarrow> rep_io \<Rightarrow> string \<Rightarrow> nat \<Rightarrow> string \<Rightarrow> string \<Rightarrow> path_map \<Rightarrow> (exn + unit) \<times> path_map" where
  "write_replacing cls io tid counter target bytes files =
     (let tmp = makeTempPath tid counter target
      in if \<not> rio_open io
         then (Inl (StdException RuntimeError (cls @ '': cannot open '' @ tmp @ '' for writing'')), files)
         else (case rio_write io bytes of
                 Some part \<Rightarrow> (Inl (StdException RuntimeError (cls @ '': failed writing '' @ tmp)), files(tmp \<mapsto> part))
               | None \<Rightarrow> atomicReplace io tmp target (files(tmp \<mapsto> bytes))))"

lemma tmp_differs [simp]: "makeTempPath tid counter target \<noteq> target" "target \<noteq> makeTempPath tid counter target"
  by (simp_all add: makeTempPath_def)

lemma rename_loop_None: "rename_loop io tmp target ks files = None \<longleftrightarrow> (\<forall>k\<in>set ks. \<not> rio_rename io k)"
  by (induction ks) auto

lemma rename_loop_Some:
  "rename_loop io tmp target ks files = Some files' \<Longrightarrow> files' = (files(target := files tmp))(tmp := None)"
  by (induction ks) (auto split: if_splits)

text \<open>A write that throws leaves the old file, one that returns leaves exactly the new content.\<close>

lemma write_replacing_target:
  assumes "write_replacing cls io tid counter target bytes files = (res, files')"
  shows "files' target = (case res of Inr _ \<Rightarrow> Some bytes | Inl _ \<Rightarrow> files target)"
    and "path \<noteq> target \<Longrightarrow> path \<noteq> makeTempPath tid counter target \<Longrightarrow> files' path = files path"
  using assms
  by (auto simp: write_replacing_def atomicReplace_def Let_def
      split: if_splits option.splits dest!: rename_loop_Some)

lemma write_replacing_ok:
  assumes "rio_open io" "rio_write io bytes = None" "k < max_attempts" "rio_rename io k"
  shows "\<exists>files'. write_replacing cls io tid counter target bytes files = (Inr (), files') \<and> files' target = Some bytes"
proof -
  let ?tmp = "makeTempPath tid counter target"
  have "rename_loop io ?tmp target [0..<max_attempts] (files(?tmp \<mapsto> bytes)) \<noteq> None"
    using assms(3,4) by (auto simp: rename_loop_None)
  then obtain files' where f: "rename_loop io ?tmp target [0..<max_attempts] (files(?tmp \<mapsto> bytes)) = Some files'" by blast
  with assms(1,2) rename_loop_Some [OF f] show ?thesis by (simp add: write_replacing_def atomicReplace_def Let_def)
qed

section \<open>The JSON repository\<close>

text \<open>\<open>jlib\<close> is the JSON library; \<open>fint\<close> gives the integer that a floating-point number equals, if any, since the library
  compares numbers by value.\<close>

record 'd json_repo =
  jr_data :: "'d json list"
  jr_dirty :: bool

definition item_id :: "('d \<Rightarrow> int option) \<Rightarrow> 'd json \<Rightarrow> int option" where
  "item_id fint item =
     (case j_get item ''id'' of Some (JInt v) \<Rightarrow> Some v | Some (JFloat f) \<Rightarrow> fint f | _ \<Rightarrow> None)"

definition opt_entry :: "string \<Rightarrow> 'd json option \<Rightarrow> (string \<times> 'd json) list" where
  "opt_entry key v = (case v of None \<Rightarrow> [] | Some j \<Rightarrow> [(key, j)])"

definition text_entry :: "string \<Rightarrow> string \<Rightarrow> (string \<times> 'd json) list" where
  "text_entry key s = (if s = [] then [] else [(key, JString s)])"

definition ruleToJson :: "RuleData \<Rightarrow> 'd json" where
  "ruleToJson d =
     JObject ((''action'', JString (action d)) # opt_entry ''cacheDuration'' (map_option JInt (cacheDuration d)) @
       opt_entry ''dependsOn'' (map_option JString (dependsOnRuleName d)) @ text_entry ''description'' (description d) @
       [(''expression'', JString (expression d)), (''id'', JInt (rule_id d)), (''isActive'', JBool (isActive d))] @
       text_entry ''name'' (rule_name d) @
       (''priority'', JInt (priority d)) # opt_entry ''timeout'' (map_option JInt (timeout d)))"

definition jsonToRule :: "'d json \<Rightarrow> RuleData" where
  "jsonToRule j =
     default_rule_data\<lparr>rule_id := int_field j ''id'' 0, rule_name := string_field j ''name'' [],
       description := string_field j ''description'' [], expression := string_field j ''expression'' [],
       action := string_field j ''action'' [], isActive := bool_field j ''isActive'' True,
       priority := int_field j ''priority'' 0,
       timeout := (case j_get j ''timeout'' of Some (JInt v) \<Rightarrow> Some (as_int32 v) | _ \<Rightarrow> None),
       cacheDuration := (case j_get j ''cacheDuration'' of Some (JInt v) \<Rightarrow> Some (as_int64 v) | _ \<Rightarrow> None),
       dependsOnRuleName := (case j_get j ''dependsOn'' of Some (JString s) \<Rightarrow> Some s | _ \<Rightarrow> None)\<rparr>"

fun jr_upsert :: "('d \<Rightarrow> int option) \<Rightarrow> int \<Rightarrow> 'd json \<Rightarrow> 'd json list \<Rightarrow> 'd json list" where
  "jr_upsert fint i item [] = [item]"
| "jr_upsert fint i item (x # xs) = (if item_id fint x = Some i then item # xs else x # jr_upsert fint i item xs)"

definition put_rule :: "('d \<Rightarrow> int option) \<Rightarrow> RuleData \<Rightarrow> 'd json list \<Rightarrow> 'd json list" where
  "put_rule fint d data = jr_upsert fint (rule_id d) (ruleToJson d) data"

definition jr_save :: "('d \<Rightarrow> int option) \<Rightarrow> Rule \<Rightarrow> 'd json_repo \<Rightarrow> 'd json_repo" where
  "jr_save fint r s = s\<lparr>jr_data := fold (put_rule fint) (saved_rules r) (jr_data s), jr_dirty := True\<rparr>"

definition jr_findById :: "('d \<Rightarrow> int option) \<Rightarrow> 'd json_repo \<Rightarrow> int \<Rightarrow> RuleData option" where
  "jr_findById fint s i = map_option jsonToRule (find (\<lambda>x. item_id fint x = Some i) (jr_data s))"

definition jr_findAll :: "'d json_repo \<Rightarrow> RuleData list" where
  "jr_findAll s = map jsonToRule (jr_data s)"

definition jr_remove :: "('d \<Rightarrow> int option) \<Rightarrow> int \<Rightarrow> 'd json_repo \<Rightarrow> 'd json_repo" where
  "jr_remove fint i s =
     (let kept = filter (\<lambda>x. item_id fint x \<noteq> Some i) (jr_data s)
      in if length kept < length (jr_data s) then s\<lparr>jr_data := kept, jr_dirty := True\<rparr> else s)"

definition jr_exists :: "('d \<Rightarrow> int option) \<Rightarrow> 'd json_repo \<Rightarrow> int \<Rightarrow> bool" where
  "jr_exists fint s i = list_ex (\<lambda>x. item_id fint x = Some i) (jr_data s)"

definition jr_count :: "'d json_repo \<Rightarrow> nat" where
  "jr_count s = length (jr_data s)"

text \<open>A file that is missing, unreadable, not JSON or not an array is an empty repository.\<close>

definition jr_load :: "'d json_lib \<Rightarrow> (string \<Rightarrow> bool) \<Rightarrow> string \<Rightarrow> path_map \<Rightarrow> 'd json_repo" where
  "jr_load jlib readable path files =
     \<lparr>jr_data =
        (case files path of
           None \<Rightarrow> []
         | Some bytes \<Rightarrow>
             if \<not> readable path then []
             else (case json_parse jlib bytes of Inr (JArray items) \<Rightarrow> items | _ \<Rightarrow> [])),
      jr_dirty = False\<rparr>"

definition jr_flush ::
    "'d json_lib \<Rightarrow> rep_io \<Rightarrow> string \<Rightarrow> nat \<Rightarrow> string \<Rightarrow> 'd json_repo \<times> path_map \<Rightarrow> (exn + unit) \<times> 'd json_repo \<times> path_map" where
  "jr_flush jlib io tid counter path s =
     (let (r, files) = s
      in if \<not> jr_dirty r then (Inr (), r, files)
         else (case json_dump2 jlib (JArray (jr_data r)) of
                 Inl e \<Rightarrow>
                   if rio_open io then (Inl e, r, files(makeTempPath tid counter path \<mapsto> []))
                   else (Inl (StdException RuntimeError (''JsonRuleRepository: cannot open '' @
                           makeTempPath tid counter path @ '' for writing'')), r, files)
               | Inr bytes \<Rightarrow>
                   (case write_replacing ''JsonRuleRepository'' io tid counter path bytes files of
                      (Inl e, files') \<Rightarrow> (Inl e, r, files')
                    | (Inr _, files') \<Rightarrow> (Inr (), r\<lparr>jr_dirty := False\<rparr>, files'))))"

text \<open>The destructor flushes and swallows the exception.\<close>

definition jr_destroy ::
    "'d json_lib \<Rightarrow> rep_io \<Rightarrow> string \<Rightarrow> nat \<Rightarrow> string \<Rightarrow> 'd json_repo \<times> path_map \<Rightarrow> path_map" where
  "jr_destroy jlib io tid counter path s = snd (snd (jr_flush jlib io tid counter path s))"

subsection \<open>It refines the map\<close>

text \<open>Of a rule's data the limiter is lost and the timeout keeps 32 bits.\<close>

definition json_stored :: "RuleData \<Rightarrow> RuleData" where
  "json_stored d = d\<lparr>rateLimiter := None, timeout := map_option as_int32 (timeout d)\<rparr>"

lemma ruleToJson_get:
  "j_get (ruleToJson d) ''id'' = Some (JInt (rule_id d))"
  "string_field (ruleToJson d) ''name'' [] = rule_name d" "string_field (ruleToJson d) ''description'' [] = description d"
  "string_field (ruleToJson d) ''expression'' [] = expression d" "string_field (ruleToJson d) ''action'' [] = action d"
  "bool_field (ruleToJson d) ''isActive'' True = isActive d"
  "j_get (ruleToJson d) ''priority'' = Some (JInt (priority d))"
  "j_get (ruleToJson d) ''timeout'' = map_option JInt (timeout d)"
  "j_get (ruleToJson d) ''cacheDuration'' = map_option JInt (cacheDuration d)"
  "j_get (ruleToJson d) ''dependsOn'' = map_option JString (dependsOnRuleName d)"
  by (simp_all add: ruleToJson_def j_get_def string_field_def bool_field_def text_entry_def opt_entry_def split: option.split)

lemma item_id_ruleToJson [simp]: "item_id fint (ruleToJson d) = Some (rule_id d)"
  by (simp add: item_id_def ruleToJson_get)

lemma jsonToRule_ruleToJson: "data_fits d \<Longrightarrow> jsonToRule (ruleToJson d) = json_stored d"
  by (cases d; cases "timeout d"; cases "cacheDuration d"; cases "dependsOnRuleName d")
     (simp_all add: jsonToRule_def json_stored_def ruleToJson_get int_field_def data_fits_def ms_fits_def default_rule_data_def)

lemma find_upsert:
  assumes "item_id fint item = Some i"
  shows "find (\<lambda>x. item_id fint x = Some k) (jr_upsert fint i item xs) =
    (if k = i then Some item else find (\<lambda>x. item_id fint x = Some k) xs)"
  using assms by (induction xs) auto

lemma find_put_all:
  "list_all data_fits ds \<Longrightarrow>
     (\<lambda>i. map_option jsonToRule (find (\<lambda>x. item_id fint x = Some i) (fold (put_rule fint) ds data))) =
     fold (enter_rule json_stored) ds (\<lambda>i. map_option jsonToRule (find (\<lambda>x. item_id fint x = Some i) data))"
proof (induction ds arbitrary: data)
  case (Cons d ds)
  have "(\<lambda>i. map_option jsonToRule (find (\<lambda>x. item_id fint x = Some i) (put_rule fint d data))) =
      enter_rule json_stored d (\<lambda>i. map_option jsonToRule (find (\<lambda>x. item_id fint x = Some i) data))"
    using Cons.prems by (auto simp: fun_eq_iff put_rule_def find_upsert enter_rule_def jsonToRule_ruleToJson)
  with Cons show ?case by simp
qed simp

lemma find_filter_id:
  "find (\<lambda>x. item_id fint x = Some k) (filter (\<lambda>x. item_id fint x \<noteq> Some i) xs) =
     (if k = i then None else find (\<lambda>x. item_id fint x = Some k) xs)"
  by (induction xs) auto

lemma find_unfiltered:
  "\<not> length (filter P xs) < length xs \<Longrightarrow> filter P xs = xs"
  by (metis filter_id_conv length_filter_less)

lemma jr_findById_fun:
  "jr_findById fint s = (\<lambda>i. map_option jsonToRule (find (\<lambda>x. item_id fint x = Some i) (jr_data s)))"
  by (simp add: fun_eq_iff jr_findById_def)

interpretation jr: rule_repository "jr_save fint" "jr_remove fint" "jr_findById fint" "jr_exists fint" saved_rules json_stored
    "\<lambda>_. True"
proof
  show "list_all data_fits (saved_rules r) \<Longrightarrow>
      jr_findById fint (jr_save fint r s) = fold (enter_rule json_stored) (saved_rules r) (jr_findById fint s)" for r s
    using find_put_all [of "saved_rules r" fint "jr_data s"] by (simp add: jr_findById_fun jr_save_def)
  show "jr_findById fint (jr_remove fint i s) = (jr_findById fint s)(i := None)" for i s
  proof (cases "length (filter (\<lambda>x. item_id fint x \<noteq> Some i) (jr_data s)) < length (jr_data s)")
    case True
    then show ?thesis by (auto simp: jr_findById_def jr_remove_def Let_def find_filter_id fun_eq_iff)
  next
    case False
    have "find (\<lambda>x. item_id fint x = Some i) (jr_data s) = None"
      using find_filter_id [of fint i i "jr_data s"] unfolding find_unfiltered [OF False] by simp
    with False show ?thesis by (auto simp: jr_findById_fun jr_remove_def Let_def fun_eq_iff)
  qed
  show "jr_exists fint s i = (jr_findById fint s i \<noteq> None)" for s i
    by (auto simp: jr_exists_def jr_findById_def find_None_iff list_ex_iff)
qed simp_all

subsection \<open>What reaches the file\<close>

lemma clean_unchanged:
  "\<not> jr_dirty (fold (run_call (jr_save fint) (jr_remove fint)) calls s) \<Longrightarrow>
     fold (run_call (jr_save fint) (jr_remove fint)) calls s = s"
proof (induction calls rule: rev_induct)
  case (snoc c calls)
  then show ?case
    by (cases c) (auto simp: jr_save_def jr_remove_def Let_def split: if_splits)
qed simp

lemma jr_flush_cases:
  assumes "jr_flush jlib io tid counter path (r, files) = (res, r', files')"
    and "\<forall>j s. json_dump2 jlib j = Inr s \<longrightarrow> json_parse jlib s = Inr j"
  shows "(\<exists>e. res = Inl e \<and> r' = r \<and> jr_dirty r \<and> files' path = files path) \<or>
    (res = Inr () \<and> \<not> jr_dirty r \<and> r' = r \<and> files' = files) \<or>
    (res = Inr () \<and> jr_dirty r \<and> r' = r\<lparr>jr_dirty := False\<rparr> \<and>
       (\<exists>bytes. files' path = Some bytes \<and> json_parse jlib bytes = Inr (JArray (jr_data r))))"
proof (cases "jr_dirty r")
  case False
  with assms(1) show ?thesis by (auto simp: jr_flush_def)
next
  case True
  show ?thesis
  proof (cases "json_dump2 jlib (JArray (jr_data r))")
    case (Inl e)
    with True assms(1) show ?thesis by (auto simp: jr_flush_def split: if_splits)
  next
    case (Inr bytes)
    obtain w files1 where w: "write_replacing ''JsonRuleRepository'' io tid counter path bytes files = (w, files1)" by fastforce
    from write_replacing_target(1) [OF w] True Inr w assms show ?thesis
      by (cases w) (auto simp: jr_flush_def)
  qed
qed

text \<open>
  C20. The JSON repository is a map that survives a restart. After any sequence of saves and removals
  on a repository that was opened on a file, a lookup answers like the map of the saved rules and their
  direct children. If a flush returns, a repository that is opened on the file afterwards answers the
  same. If it throws, for whatever reason, the file is as it was before and the unwritten changes are kept for the
  next flush.
\<close>

theorem json_repository_durable:
  assumes "\<forall>j s. json_dump2 jlib j = Inr s \<longrightarrow> json_parse jlib s = Inr j"
    and "list_all (\<lambda>c. list_all data_fits (call_rules saved_rules c)) calls"
    and "r = fold (run_call (jr_save fint) (jr_remove fint)) calls (jr_load jlib (\<lambda>_. True) path files)"
    and "jr_flush jlib io tid counter path (r, files) = (res, r', files')"
  shows "jr_findById fint r = fold (table_call saved_rules json_stored) calls (jr_findById fint (jr_load jlib (\<lambda>_. True) path files)) \<and>
    (case res of
       Inr _ \<Rightarrow> jr_findById fint (jr_load jlib (\<lambda>_. True) path files') = jr_findById fint r
     | Inl e \<Rightarrow> files' path = files path \<and> r' = r \<and> jr_dirty r')"
proof (rule conjI)
  let ?s0 = "jr_load jlib (\<lambda>_. True) path files"
  show "jr_findById fint r = fold (table_call saved_rules json_stored) calls (jr_findById fint ?s0)"
    using jr.calls_refine [of calls fint ?s0] assms(2,3) by simp
  have clean: "\<not> jr_dirty r \<Longrightarrow> r = ?s0" using clean_unchanged assms(3) by metis
  from jr_flush_cases [OF assms(4,1)] clean
  show "case res of Inr _ \<Rightarrow> jr_findById fint (jr_load jlib (\<lambda>_. True) path files') = jr_findById fint r
     | Inl e \<Rightarrow> files' path = files path \<and> r' = r \<and> jr_dirty r'"
    by (auto simp: jr_load_def jr_findById_fun)
qed

text \<open>A temporary file that could not be written completely is left behind.\<close>

lemma failed_write_leaks_temp:
  "rio_open io \<Longrightarrow> rio_write io bytes = Some part \<Longrightarrow>
     snd (write_replacing cls io tid counter target bytes files) (makeTempPath tid counter target) = Some part"
  by (simp add: write_replacing_def Let_def)

text \<open>A file that cannot be parsed or opened counts as empty, and the next flush replaces it: what it held is lost.\<close>

lemma unreadable_file_overwritten:
  assumes "files path = Some old" "json_parse jlib old = Inl e \<or> \<not> readable path"
    and "json_dump2 jlib (JArray [ruleToJson (rdata r)]) = Inr bytes" "childRules r = []"
    and "rio_open io" "rio_write io bytes = None" "rio_rename io 0"
  shows "snd (snd (jr_flush jlib io tid counter path (jr_save fint r (jr_load jlib readable path files), files))) path = Some bytes"
proof -
  have data: "jr_data (jr_save fint r (jr_load jlib readable path files)) = [ruleToJson (rdata r)]"
    using assms(1,2,4) by (auto simp: jr_load_def jr_save_def saved_rules_def put_rule_def)
  obtain files' where "write_replacing ''JsonRuleRepository'' io tid counter path bytes files = (Inr (), files')" "files' path = Some bytes"
    using write_replacing_ok [OF assms(5,6) _ assms(7), of "''JsonRuleRepository''" tid counter path files] by (auto simp: max_attempts_def)
  moreover have "jr_dirty (jr_save fint r (jr_load jlib readable path files))" by (simp add: jr_save_def)
  ultimately show ?thesis using data assms(3) by (simp add: jr_flush_def)
qed

definition one_doc_lib :: "unit json_lib" where
  "one_doc_lib = sample_json_lib (JArray [ruleToJson (sample_data 5 ''x'')])"

theorem json_repository_durable_witness:
  "\<exists>r' files'. jr_flush one_doc_lib \<lparr>rio_open = True, rio_write = (\<lambda>_. None), rio_rename = (\<lambda>k. k = 3)\<rparr> ''t'' 0 ''rules''
     (jr_save (\<lambda>_. None) (Rule 0 (sample_data 5 ''x'') []) (jr_load one_doc_lib (\<lambda>_. True) ''rules'' Map.empty), Map.empty) =
     (Inr (), r', files') \<and>
   jr_findById (\<lambda>_. None) (jr_load one_doc_lib (\<lambda>_. True) ''rules'' files') 5 = Some (sample_data 5 ''x'')"
proof -
  let ?io = "\<lparr>rio_open = True, rio_write = (\<lambda>_. None), rio_rename = (\<lambda>k. k = 3)\<rparr>"
  let ?c = "[RSave (Rule 0 (sample_data 5 ''x'') [])]" and ?f = "\<lambda>_ :: unit. None :: int option"
  let ?r = "jr_save ?f (Rule 0 (sample_data 5 ''x'') []) (jr_load one_doc_lib (\<lambda>_. True) ''rules'' Map.empty)"
  obtain res r' files' where fl: "jr_flush one_doc_lib ?io ''t'' 0 ''rules'' (?r, Map.empty) = (res, r', files')"
    by (metis prod.exhaust)
  have data: "jr_data ?r = [ruleToJson (sample_data 5 ''x'')]" "jr_dirty ?r"
    by (simp_all add: jr_save_def jr_load_def saved_rules_def put_rule_def)
  obtain files1 where "write_replacing ''JsonRuleRepository'' ?io ''t'' 0 ''rules'' ''doc'' Map.empty = (Inr (), files1)"
    using write_replacing_ok [of ?io "''doc''" 3 "''JsonRuleRepository''" "''t''" 0 "''rules''" Map.empty] by (auto simp: max_attempts_def)
  moreover have "json_dump2 one_doc_lib (JArray (jr_data ?r)) = Inr ''doc''"
    unfolding data by (simp add: one_doc_lib_def sample_json_lib_def)
  ultimately have res: "res = Inr ()" using fl data(2) by (simp add: jr_flush_def)
  have "\<forall>j s. json_dump2 one_doc_lib j = Inr s \<longrightarrow> json_parse one_doc_lib s = Inr j"
    by (auto simp: one_doc_lib_def sample_json_lib_def split: if_splits)
  moreover have "list_all (\<lambda>c. list_all data_fits (call_rules saved_rules c)) ?c"
    by (simp add: saved_rules_def data_fits_def int_fits_def ms_fits_def sample_data_def)
  moreover have "?r = fold (run_call (jr_save ?f) (jr_remove ?f)) ?c (jr_load one_doc_lib (\<lambda>_. True) ''rules'' Map.empty)" by simp
  ultimately have "jr_findById ?f ?r = fold (table_call saved_rules json_stored) ?c (jr_findById ?f (jr_load one_doc_lib (\<lambda>_. True) ''rules'' Map.empty)) \<and>
    (case res of
       Inr _ \<Rightarrow> jr_findById ?f (jr_load one_doc_lib (\<lambda>_. True) ''rules'' files') = jr_findById ?f ?r
     | Inl e \<Rightarrow> files' ''rules'' = None \<and> r' = ?r \<and> jr_dirty r')"
    using json_repository_durable [OF _ _ _ fl, of ?c ?f] by simp
  with res fl show ?thesis
    by (intro exI [of _ r'] exI [of _ files'])
       (simp add: saved_rules_def enter_rule_def json_stored_def sample_data_def)
qed

end
