(* ===== verification/Xml_Repository.thy ===== *)
theory Xml_Repository
  imports Rule_Repository
begin

text \<open>
  The XML extension: \<^verbatim>\<open>XmlLoader\<close> (extensions/xml/src/xml_loader.cpp) and \<^verbatim>\<open>XmlRuleRepository\<close>
  (extensions/xml/src/xml_repository.cpp). A document is a tree of elements with attributes and text. The text form of
  documents and of numbers, which a third-party library reads and writes, is the argument \<open>xml_lib\<close>.
  Texts pass through \<^verbatim>\<open>c_str()\<close>, so they end at a zero byte.
\<close>

section \<open>Documents\<close>

datatype xml = Elem string "(string \<times> string) list" "xml list" | PCData string

text \<open>\<open>xml_load\<close> gives the document, also after a failed parse, and whether the parse succeeded.\<close>

record xml_lib =
  of_int_text :: "int \<Rightarrow> string"
  as_int_text :: "string \<Rightarrow> int"
  of_llong_text :: "int \<Rightarrow> string"
  as_llong_text :: "string \<Rightarrow> int"
  of_bool_text :: "bool \<Rightarrow> string"
  as_bool_text :: "string \<Rightarrow> bool"
  xml_load :: "string \<Rightarrow> xml list \<times> string option"
  xml_save :: "xml list \<Rightarrow> string"
  xml_save2 :: "xml list \<Rightarrow> string"

text \<open>What the code relies on: numbers and truth values are read back as they were written.\<close>

definition xml_lib_ok :: "xml_lib \<Rightarrow> bool" where
  "xml_lib_ok lib \<longleftrightarrow>
     (\<forall>v. int_fits v \<longrightarrow> as_int_text lib (of_int_text lib v) = v \<and> as_int_text lib (std_to_string v) = v) \<and>
     (\<forall>v. - (2 ^ 63) \<le> v \<and> v < 2 ^ 63 \<longrightarrow> as_llong_text lib (of_llong_text lib v) = v) \<and>
     (\<forall>b. as_bool_text lib (of_bool_text lib b) = b)"

fun is_elem :: "string \<Rightarrow> xml \<Rightarrow> bool" where
  "is_elem t (Elem t' as ks) \<longleftrightarrow> t' = t"
| "is_elem t (PCData s) \<longleftrightarrow> False"

fun attribute :: "xml \<Rightarrow> string \<Rightarrow> string option" where
  "attribute (Elem t as ks) k = map_of as k"
| "attribute (PCData s) k = None"

fun kids :: "xml \<Rightarrow> xml list" where
  "kids (Elem t as ks) = ks"
| "kids (PCData s) = []"

definition child :: "xml \<Rightarrow> string \<Rightarrow> xml option" where
  "child x t = find (is_elem t) (kids x)"

fun first_text :: "xml list \<Rightarrow> string" where
  "first_text [] = []"
| "first_text (PCData s # ks) = s"
| "first_text (Elem t as cs # ks) = first_text ks"

definition text_child :: "xml \<Rightarrow> string \<Rightarrow> string" where
  "text_child x t = (case child x t of None \<Rightarrow> [] | Some c \<Rightarrow> first_text (kids c))"

definition int_attr :: "xml_lib \<Rightarrow> xml \<Rightarrow> string \<Rightarrow> int" where
  "int_attr lib x k = (case attribute x k of None \<Rightarrow> 0 | Some v \<Rightarrow> as_int_text lib v)"

definition bool_attr :: "xml_lib \<Rightarrow> xml \<Rightarrow> string \<Rightarrow> bool" where
  "bool_attr lib x k = (case attribute x k of None \<Rightarrow> True | Some v \<Rightarrow> as_bool_text lib v)"

definition string_attr :: "xml \<Rightarrow> string \<Rightarrow> string" where
  "string_attr x k = (case attribute x k of None \<Rightarrow> [] | Some v \<Rightarrow> v)"

definition text_elem :: "string \<Rightarrow> string \<Rightarrow> xml" where
  "text_elem t s = Elem t [] [PCData (c_str s)]"

definition text_elem_unless_empty :: "string \<Rightarrow> string \<Rightarrow> xml list" where
  "text_elem_unless_empty t s = (if s = [] then [] else [text_elem t s])"

section \<open>The loader\<close>

definition xml_rule_data :: "xml_lib \<Rightarrow> xml \<Rightarrow> RuleData" where
  "xml_rule_data lib x =
     default_rule_data\<lparr>rule_id := int_attr lib x ''id'', rule_name := string_attr x ''name'',
       isActive := bool_attr lib x ''isActive'', priority := int_attr lib x ''priority'',
       expression := text_child x ''expression'', action := text_child x ''action'',
       description := text_child x ''description'',
       timeout := map_option (as_int_text lib) (attribute x ''timeout''),
       cacheDuration := map_option (as_int_text lib) (attribute x ''cacheDuration''),
       dependsOnRuleName := map_option (\<lambda>c. first_text (kids c)) (child x ''dependsOnRuleName'')\<rparr>"

lemma find_size: "find P xs = Some x \<Longrightarrow> size x < Suc (size_list size xs)"
  by (induction xs) (auto split: if_splits)

lemma size_filter_le: "size_list size (filter P xs) \<le> size_list size (xs :: xml list)"
  by (induction xs) auto

lemma child_size: "child x t = Some c \<Longrightarrow> size_list size (filter P (kids c)) < size x"
proof -
  assume c: "child x t = Some c"
  then have "size c < Suc (size_list size (kids x))" unfolding child_def by (rule find_size)
  moreover have "is_elem t c" using c find_SomeD unfolding child_def by fast
  then have "size_list size (kids c) < size c" by (cases c) simp_all
  moreover have "Suc (size_list size (kids x)) \<le> size x" using c by (cases x) (simp_all add: child_def)
  ultimately show ?thesis using size_filter_le [of P "kids c"] by linarith
qed

function (sequential) parse_xml_rule :: "xml_lib \<Rightarrow> xml \<Rightarrow> nat \<Rightarrow> Rule \<times> nat"
and parse_xml_rules :: "xml_lib \<Rightarrow> xml list \<Rightarrow> nat \<Rightarrow> Rule list \<times> nat" where
  "parse_xml_rule lib x a =
     (case child x ''childRules'' of
        None \<Rightarrow> (Rule a (xml_rule_data lib x) [], a + 1)
      | Some c \<Rightarrow> (let (cs, b) = parse_xml_rules lib (filter (is_elem ''rule'') (kids c)) (a + 1)
                  in (Rule a (xml_rule_data lib x) cs, b)))"
| "parse_xml_rules lib [] a = ([], a)"
| "parse_xml_rules lib (x # xs) a =
     (let (r, b) = parse_xml_rule lib x a; (rs, c) = parse_xml_rules lib xs b in (r # rs, c))"
  by pat_completeness auto
termination
  by (relation "measure (\<lambda>x. case x of Inl (lib, x, a) \<Rightarrow> size x | Inr (lib, xs, a) \<Rightarrow> size_list size xs)")
     (auto simp: child_size)

declare parse_xml_rule.simps [simp del]

text \<open>The timeouts are cast to \<^verbatim>\<open>int\<close>.\<close>

definition xml_rule_attrs :: "xml_lib \<Rightarrow> RuleData \<Rightarrow> (string \<times> string) list" where
  "xml_rule_attrs lib d =
     [(''id'', of_int_text lib (rule_id d)), (''isActive'', of_bool_text lib (isActive d)),
      (''priority'', of_int_text lib (priority d))] @
     (case timeout d of None \<Rightarrow> [] | Some t \<Rightarrow> [(''timeout'', of_int_text lib (as_int32 t))]) @
     (case cacheDuration d of None \<Rightarrow> [] | Some t \<Rightarrow> [(''cacheDuration'', of_int_text lib (as_int32 t))])"

definition xml_rule_texts :: "RuleData \<Rightarrow> xml list" where
  "xml_rule_texts d =
     text_elem_unless_empty ''description'' (description d) @ text_elem_unless_empty ''expression'' (expression d) @
     text_elem_unless_empty ''action'' (action d) @
     (case dependsOnRuleName d of None \<Rightarrow> [] | Some n \<Rightarrow> [text_elem ''dependsOnRuleName'' n])"

fun serialize_xml_rule :: "xml_lib \<Rightarrow> Rule \<Rightarrow> xml" where
  "serialize_xml_rule lib (Rule a d cs) =
     Elem ''rule'' (xml_rule_attrs lib d)
       (xml_rule_texts d @ (if cs = [] then [] else [Elem ''childRules'' [] (map (serialize_xml_rule lib) cs)]))"

definition xml_parse_workflow :: "xml_lib \<Rightarrow> string \<Rightarrow> xml list \<times> string option \<Rightarrow> nat \<Rightarrow> exn + 'h Workflow \<times> nat" where
  "xml_parse_workflow lib message loaded a =
     (case snd loaded of
        Some msg \<Rightarrow> Inl (StdException RuntimeError (message @ msg))
      | None \<Rightarrow>
          (case find (is_elem ''workflow'') (fst loaded) of
             None \<Rightarrow> Inl (StdException RuntimeError ''XML missing <workflow> root element'')
           | Some root \<Rightarrow>
               (let (rs, b) = (case child root ''rules'' of
                                 None \<Rightarrow> ([], a)
                               | Some n \<Rightarrow> parse_xml_rules lib (filter (is_elem ''rule'') (kids n)) a)
                in Inr (default_workflow\<lparr>wf_id := int_attr lib root ''id'', wf_name := string_attr root ''name'',
                     wf_description := string_attr root ''description'', wf_isActive := bool_attr lib root ''isActive'',
                     wf_rules := rs\<rparr>, b))))"

definition xml_loadWorkflow :: "xml_lib \<Rightarrow> string \<Rightarrow> nat \<Rightarrow> exn + 'h Workflow \<times> nat" where
  "xml_loadWorkflow lib doc a = xml_parse_workflow lib ''XML parse error: '' (xml_load lib (c_str doc)) a"

definition xml_loadWorkflowFromFile ::
    "xml_lib \<Rightarrow> (string \<Rightarrow> xml list \<times> string option) \<Rightarrow> string \<Rightarrow> nat \<Rightarrow> exn + 'h Workflow \<times> nat" where
  "xml_loadWorkflowFromFile lib load_file path a = xml_parse_workflow lib ''XML file parse error: '' (load_file (c_str path)) a"

definition xml_loadRule :: "xml_lib \<Rightarrow> string \<Rightarrow> nat \<Rightarrow> exn + Rule \<times> nat" where
  "xml_loadRule lib doc a =
     (case xml_load lib (c_str doc) of
        (d, Some msg) \<Rightarrow> Inl (StdException RuntimeError (''XML parse error: '' @ msg))
      | (d, None) \<Rightarrow>
          (case find (is_elem ''rule'') d of
             None \<Rightarrow> Inl (StdException RuntimeError ''XML missing <rule> root element'')
           | Some root \<Rightarrow> Inr (parse_xml_rule lib root a)))"

definition xml_workflow_doc :: "xml_lib \<Rightarrow> 'h Workflow \<Rightarrow> xml list" where
  "xml_workflow_doc lib wk =
     [Elem ''workflow'' [(''id'', c_str (std_to_string (wf_id wk))), (''name'', c_str (wf_name wk)),
        (''description'', c_str (wf_description wk)), (''isActive'', of_bool_text lib (wf_isActive wk))]
        [Elem ''rules'' [] (map (serialize_xml_rule lib) (wf_rules wk))]]"

definition xml_saveWorkflow :: "xml_lib \<Rightarrow> 'h Workflow \<Rightarrow> string" where
  "xml_saveWorkflow lib wk = xml_save lib (xml_workflow_doc lib wk)"

definition xml_saveWorkflowPretty :: "xml_lib \<Rightarrow> 'h Workflow \<Rightarrow> string" where
  "xml_saveWorkflowPretty lib wk = xml_save2 lib (xml_workflow_doc lib wk)"

definition xml_saveRulePretty :: "xml_lib \<Rightarrow> Rule \<Rightarrow> string" where
  "xml_saveRulePretty lib r = xml_save2 lib [serialize_xml_rule lib r]"

definition xml_saveRule :: "xml_lib \<Rightarrow> Rule \<Rightarrow> string" where
  "xml_saveRule lib r = xml_save lib [serialize_xml_rule lib r]"

subsection \<open>Reading back\<close>

definition xml_image :: "RuleData \<Rightarrow> RuleData" where
  "xml_image d =
     d\<lparr>rule_name := [], rateLimiter := None, description := c_str (description d), expression := c_str (expression d),
       action := c_str (action d), dependsOnRuleName := map_option c_str (dependsOnRuleName d),
       timeout := map_option as_int32 (timeout d), cacheDuration := map_option as_int32 (cacheDuration d)\<rparr>"

lemma as_int32_range: "int_fits (as_int32 v)"
  using signed_take_bit_int_greater_eq_minus_exp [of 31 v] signed_take_bit_int_less_exp [of 31 v]
  by (simp add: int_fits_def as_int32_def)

lemma xml_lib_okD:
  assumes "xml_lib_ok lib"
  shows "int_fits v \<Longrightarrow> as_int_text lib (of_int_text lib v) = v" "int_fits v \<Longrightarrow> as_int_text lib (std_to_string v) = v"
    "- (2 ^ 63) \<le> v \<Longrightarrow> v < 2 ^ 63 \<Longrightarrow> as_llong_text lib (of_llong_text lib v) = v"
    "as_bool_text lib (of_bool_text lib b) = b"
  using assms unfolding xml_lib_ok_def by blast+

lemma c_str_Nil_text [simp]: "c_str [] = []" by (simp add: c_str_def)

lemma xml_rule_data_written:
  assumes "xml_lib_ok lib" "data_fits d" "\<forall>x\<in>set rest. is_elem ''childRules'' x"
  shows "xml_rule_data lib (Elem ''rule'' (xml_rule_attrs lib d) (xml_rule_texts d @ rest)) = xml_image d"
proof -
  have none: "find (is_elem t) rest = None" if "t \<noteq> ''childRules''" for t
  proof -
    have "\<not> is_elem t x" if "x \<in> set rest" for x using assms(3) that \<open>t \<noteq> ''childRules''\<close> by (cases x) auto
    then show ?thesis by (auto simp: find_None_iff)
  qed
  have texts: "text_child (Elem ''rule'' a (xml_rule_texts d @ rest)) ''description'' = c_str (description d)"
    "text_child (Elem ''rule'' a (xml_rule_texts d @ rest)) ''expression'' = c_str (expression d)"
    "text_child (Elem ''rule'' a (xml_rule_texts d @ rest)) ''action'' = c_str (action d)"
    "map_option (\<lambda>c. first_text (kids c)) (child (Elem ''rule'' a (xml_rule_texts d @ rest)) ''dependsOnRuleName'') =
       map_option c_str (dependsOnRuleName d)" for a
    by (auto simp: text_child_def child_def xml_rule_texts_def text_elem_unless_empty_def text_elem_def none split: option.split)
  have attrs: "map_option (as_int_text lib) (attribute (Elem ''rule'' (xml_rule_attrs lib d) ks) ''timeout'') = map_option as_int32 (timeout d)"
    "map_option (as_int_text lib) (attribute (Elem ''rule'' (xml_rule_attrs lib d) ks) ''cacheDuration'') = map_option as_int32 (cacheDuration d)"
    "int_attr lib (Elem ''rule'' (xml_rule_attrs lib d) ks) ''id'' = rule_id d"
    "int_attr lib (Elem ''rule'' (xml_rule_attrs lib d) ks) ''priority'' = priority d"
    "string_attr (Elem ''rule'' (xml_rule_attrs lib d) ks) ''name'' = []"
    "bool_attr lib (Elem ''rule'' (xml_rule_attrs lib d) ks) ''isActive'' = isActive d" for ks
    using assms(2) xml_lib_okD [OF assms(1)] as_int32_range
    by (auto simp: xml_rule_attrs_def int_attr_def bool_attr_def string_attr_def data_fits_def split: option.split)
  show ?thesis unfolding xml_rule_data_def attrs texts by (simp add: xml_image_def default_rule_data_def)
qed

lemma serialize_is_rule [simp]: "is_elem ''rule'' (serialize_xml_rule lib r)"
  by (cases r) simp

lemma filter_serialized [simp]:
  "filter (is_elem ''rule'') (map (serialize_xml_rule lib) cs) = map (serialize_xml_rule lib) cs"
  by (simp add: filter_id_conv)

lemma no_childRules [simp]: "find (is_elem ''childRules'') (xml_rule_texts d) = None"
  by (auto simp: xml_rule_texts_def text_elem_unless_empty_def text_elem_def find_None_iff split: option.split)

lemma find_append_text: "find P xs = None \<Longrightarrow> find P (xs @ ys) = find P ys"
  by (induction xs) (auto split: if_splits)

lemma parse_xml_rules_written:
  assumes "\<And>c a. c \<in> set cs \<Longrightarrow> rule_fits c \<Longrightarrow> content (fst (parse_xml_rule lib (serialize_xml_rule lib c) a)) = rule_shape xml_image c"
    and "list_all rule_fits cs"
  shows "map content (fst (parse_xml_rules lib (map (serialize_xml_rule lib) cs) a)) = map (rule_shape xml_image) cs"
  using assms
proof (induction cs arbitrary: a)
  case (Cons c cs)
  obtain r b where r: "parse_xml_rule lib (serialize_xml_rule lib c) a = (r, b)" by fastforce
  have "content r = rule_shape xml_image c" using Cons.prems(1) [of c a] Cons.prems(2) r by simp
  moreover have "map content (fst (parse_xml_rules lib (map (serialize_xml_rule lib) cs) b)) = map (rule_shape xml_image) cs"
    by (rule Cons.IH) (use Cons.prems in auto)
  ultimately show ?case using r by (simp add: split_beta)
qed simp

lemma parse_xml_rule_written:
  "xml_lib_ok lib \<Longrightarrow> rule_fits r \<Longrightarrow> content (fst (parse_xml_rule lib (serialize_xml_rule lib r) a)) = rule_shape xml_image r"
proof (induction r arbitrary: a)
  case (Rule n d cs)
  let ?rest = "if cs = [] then [] else [Elem ''childRules'' [] (map (serialize_xml_rule lib) cs)]"
  have data: "xml_rule_data lib (Elem ''rule'' (xml_rule_attrs lib d) (xml_rule_texts d @ ?rest)) = xml_image d"
    using Rule.prems by (intro xml_rule_data_written) auto
  have kid: "child (Elem ''rule'' (xml_rule_attrs lib d) (xml_rule_texts d @ ?rest)) ''childRules'' =
      (if cs = [] then None else Some (Elem ''childRules'' [] (map (serialize_xml_rule lib) cs)))"
    by (simp add: child_def find_append_text)
  have "map content (fst (parse_xml_rules lib (map (serialize_xml_rule lib) cs) (a + 1))) = map (rule_shape xml_image) cs"
    by (rule parse_xml_rules_written) (use Rule.IH Rule.prems in auto)
  then show ?case
    using data kid by (cases "cs = []") (simp_all add: parse_xml_rule.simps(1) split_beta)
qed

lemma parse_written_rules:
  "xml_lib_ok lib \<Longrightarrow> list_all rule_fits cs \<Longrightarrow>
     map content (fst (parse_xml_rules lib (map (serialize_xml_rule lib) cs) a)) = map (rule_shape xml_image) cs"
  by (rule parse_xml_rules_written) (rule parse_xml_rule_written)

lemma c_str_to_string: "c_str (std_to_string i) = std_to_string i"
proof -
  have "c \<noteq> CHR 0x00" if "c \<in> set (std_to_string i)" for c
  proof -
    have "\<not> std_isdigit (CHR 0x00)" by (simp add: std_isdigit_def cc_def)
    with that show ?thesis by (auto simp: std_to_string_def split: if_splits dest: set_nat_digits)
  qed
  then show ?thesis unfolding c_str_def by (intro takeWhile_eq_all_conv [THEN iffD2]) blast
qed

text \<open>The XML form of a workflow is read back but for rule names, rate limiters, the high bits of
  the durations and what follows a zero byte. Unlike the JSON form it has no bound on the nesting.\<close>

lemma xml_workflow_roundtrip:
  assumes "xml_lib_ok lib" "int_fits (wf_id wk)" "list_all rule_fits (wf_rules wk)"
    and "xml_load lib (c_str (xml_saveWorkflow lib wk)) = (xml_workflow_doc lib wk, None)"
  shows "\<exists>wk' b. xml_loadWorkflow lib (xml_saveWorkflow lib wk) a = Inr (wk', b) \<and> wf_id wk' = wf_id wk \<and>
    wf_name wk' = c_str (wf_name wk) \<and> wf_description wk' = c_str (wf_description wk) \<and> wf_isActive wk' = wf_isActive wk \<and>
    map content (wf_rules wk') = map (rule_shape xml_image) (wf_rules wk)"
proof -
  obtain rs b where rs: "parse_xml_rules lib (map (serialize_xml_rule lib) (wf_rules wk)) a = (rs, b)" by fastforce
  have "map content rs = map (rule_shape xml_image) (wf_rules wk)"
    using parse_written_rules [OF assms(1,3), of a] rs by simp
  with rs assms(4) xml_lib_okD [OF assms(1)] assms(2) show ?thesis
    by (simp add: xml_loadWorkflow_def xml_parse_workflow_def xml_workflow_doc_def child_def int_attr_def string_attr_def
        bool_attr_def c_str_to_string)
qed

section \<open>The repository\<close>

record xml_repo =
  xr_doc :: "xml list"
  xr_dirty :: bool

definition ruleToXml :: "xml_lib \<Rightarrow> RuleData \<Rightarrow> xml" where
  "ruleToXml lib d =
     Elem ''rule''
       ([(''id'', of_int_text lib (rule_id d))] @
        (if rule_name d = [] then [] else [(''name'', c_str (rule_name d))]) @
        (if description d = [] then [] else [(''description'', c_str (description d))]) @
        [(''isActive'', of_bool_text lib (isActive d)), (''priority'', of_int_text lib (priority d))] @
        (case timeout d of None \<Rightarrow> [] | Some t \<Rightarrow> [(''timeout'', of_llong_text lib t)]) @
        (case cacheDuration d of None \<Rightarrow> [] | Some t \<Rightarrow> [(''cacheDuration'', of_llong_text lib t)]) @
        (case dependsOnRuleName d of None \<Rightarrow> [] | Some n \<Rightarrow> [(''dependsOn'', c_str n)]))
       (text_elem_unless_empty ''expression'' (expression d) @ text_elem_unless_empty ''action'' (action d))"

definition xmlToRule :: "xml_lib \<Rightarrow> xml \<Rightarrow> RuleData" where
  "xmlToRule lib x =
     default_rule_data\<lparr>rule_id := int_attr lib x ''id'', rule_name := string_attr x ''name'',
       description := string_attr x ''description'', isActive := bool_attr lib x ''isActive'',
       priority := int_attr lib x ''priority'', timeout := map_option (as_llong_text lib) (attribute x ''timeout''),
       cacheDuration := map_option (as_llong_text lib) (attribute x ''cacheDuration''),
       dependsOnRuleName := attribute x ''dependsOn'', expression := text_child x ''expression'',
       action := text_child x ''action''\<rparr>"

definition is_rule :: "xml_lib \<Rightarrow> int \<Rightarrow> xml \<Rightarrow> bool" where
  "is_rule lib i x \<longleftrightarrow> is_elem ''rule'' x \<and> int_attr lib x ''id'' = i"

text \<open>The children of the first \<^verbatim>\<open>rules\<close> element, and replacing them.\<close>

definition rules_root :: "xml list \<Rightarrow> xml option" where
  "rules_root doc = find (is_elem ''rules'') doc"

definition root_kids :: "xml list \<Rightarrow> xml list" where
  "root_kids doc = (case rules_root doc of None \<Rightarrow> [] | Some root \<Rightarrow> kids root)"

fun update_root :: "(xml list \<Rightarrow> xml list) \<Rightarrow> xml list \<Rightarrow> xml list" where
  "update_root f [] = []"
| "update_root f (PCData s # xs) = PCData s # update_root f xs"
| "update_root f (Elem t as ks # xs) =
     (if t = ''rules'' then Elem t as (f ks) # xs else Elem t as ks # update_root f xs)"

definition put_node :: "xml_lib \<Rightarrow> RuleData \<Rightarrow> xml list \<Rightarrow> xml list" where
  "put_node lib d ks = filter (\<lambda>x. \<not> is_rule lib (rule_id d) x) ks @ [ruleToXml lib d]"

definition xr_save :: "xml_lib \<Rightarrow> Rule \<Rightarrow> xml_repo \<Rightarrow> xml_repo" where
  "xr_save lib r s =
     (let doc = (if rules_root (xr_doc s) = None then xr_doc s @ [Elem ''rules'' [] []] else xr_doc s)
      in s\<lparr>xr_doc := update_root (fold (put_node lib) (saved_rules r)) doc, xr_dirty := True\<rparr>)"

definition xr_findById :: "xml_lib \<Rightarrow> xml_repo \<Rightarrow> int \<Rightarrow> RuleData option" where
  "xr_findById lib s i = map_option (xmlToRule lib) (find (is_rule lib i) (root_kids (xr_doc s)))"

definition xr_findAll :: "xml_lib \<Rightarrow> xml_repo \<Rightarrow> RuleData list" where
  "xr_findAll lib s = map (xmlToRule lib) (filter (is_elem ''rule'') (root_kids (xr_doc s)))"

fun remove_first :: "('a \<Rightarrow> bool) \<Rightarrow> 'a list \<Rightarrow> 'a list" where
  "remove_first P [] = []"
| "remove_first P (x # xs) = (if P x then xs else x # remove_first P xs)"

definition xr_remove :: "xml_lib \<Rightarrow> int \<Rightarrow> xml_repo \<Rightarrow> xml_repo" where
  "xr_remove lib i s =
     (if list_ex (is_rule lib i) (root_kids (xr_doc s))
      then s\<lparr>xr_doc := update_root (remove_first (is_rule lib i)) (xr_doc s), xr_dirty := True\<rparr> else s)"

definition xr_exists :: "xml_lib \<Rightarrow> xml_repo \<Rightarrow> int \<Rightarrow> bool" where
  "xr_exists lib s i = list_ex (is_rule lib i) (root_kids (xr_doc s))"

definition xr_count :: "xml_repo \<Rightarrow> nat" where
  "xr_count s = length (filter (is_elem ''rule'') (root_kids (xr_doc s)))"

text \<open>The result of the parse is ignored: the repository holds whatever the parser has built.\<close>

definition xr_load :: "xml_lib \<Rightarrow> (string \<Rightarrow> bool) \<Rightarrow> string \<Rightarrow> path_map \<Rightarrow> xml_repo" where
  "xr_load lib readable path files =
     \<lparr>xr_doc = (case files path of None \<Rightarrow> [] | Some bytes \<Rightarrow> if readable path then fst (xml_load lib bytes) else []),
      xr_dirty = False\<rparr>"

definition xr_flush ::
    "xml_lib \<Rightarrow> rep_io \<Rightarrow> string \<Rightarrow> nat \<Rightarrow> string \<Rightarrow> xml_repo \<times> path_map \<Rightarrow> (exn + unit) \<times> xml_repo \<times> path_map" where
  "xr_flush lib io tid counter path s =
     (let (r, files) = s
      in if \<not> xr_dirty r then (Inr (), r, files)
         else (case write_replacing ''XmlRuleRepository'' io tid counter path (xml_save lib (xr_doc r)) files of
                 (Inl e, files') \<Rightarrow> (Inl e, r, files')
               | (Inr _, files') \<Rightarrow> (Inr (), r\<lparr>xr_dirty := False\<rparr>, files')))"

definition xr_destroy :: "xml_lib \<Rightarrow> rep_io \<Rightarrow> string \<Rightarrow> nat \<Rightarrow> string \<Rightarrow> xml_repo \<times> path_map \<Rightarrow> path_map" where
  "xr_destroy lib io tid counter path s = snd (snd (xr_flush lib io tid counter path s))"

definition xr_toString :: "xml_lib \<Rightarrow> xml_repo \<Rightarrow> string" where
  "xr_toString lib s = xml_save lib (xr_doc s)"

subsection \<open>It refines the map\<close>

definition xml_stored :: "RuleData \<Rightarrow> RuleData" where
  "xml_stored d =
     d\<lparr>rateLimiter := None, rule_name := c_str (rule_name d), description := c_str (description d),
       expression := c_str (expression d), action := c_str (action d),
       dependsOnRuleName := map_option c_str (dependsOnRuleName d)\<rparr>"

lemma xmlToRule_written:
  assumes "xml_lib_ok lib" "data_fits d"
  shows "xmlToRule lib (ruleToXml lib d) = xml_stored d"
proof -
  let ?x = "ruleToXml lib d"
  have nums: "int_attr lib ?x ''id'' = rule_id d" "int_attr lib ?x ''priority'' = priority d" "bool_attr lib ?x ''isActive'' = isActive d"
    using assms(2) xml_lib_okD [OF assms(1)] by (auto simp: ruleToXml_def int_attr_def bool_attr_def data_fits_def)
  have strs: "string_attr ?x ''name'' = c_str (rule_name d)" "string_attr ?x ''description'' = c_str (description d)"
    "attribute ?x ''dependsOn'' = map_option c_str (dependsOnRuleName d)"
    by (auto simp: ruleToXml_def string_attr_def split: option.split)
  have times: "map_option (as_llong_text lib) (attribute ?x ''timeout'') = timeout d"
    "map_option (as_llong_text lib) (attribute ?x ''cacheDuration'') = cacheDuration d"
    using assms(2) xml_lib_okD(3) [OF assms(1)] by (auto simp: ruleToXml_def data_fits_def ms_fits_def split: option.split)
  have texts: "text_child ?x ''expression'' = c_str (expression d)" "text_child ?x ''action'' = c_str (action d)"
    by (auto simp: ruleToXml_def text_child_def child_def text_elem_unless_empty_def text_elem_def)
  show ?thesis unfolding xmlToRule_def nums strs times texts by (simp add: xml_stored_def default_rule_data_def)
qed

definition xr_good :: "xml_lib \<Rightarrow> xml_repo \<Rightarrow> bool" where
  "xr_good lib s \<longleftrightarrow>
     xml_lib_ok lib \<and> distinct (map (\<lambda>x. int_attr lib x ''id'') (filter (is_elem ''rule'') (root_kids (xr_doc s))))"

lemma root_kids_update: "rules_root doc \<noteq> None \<Longrightarrow> root_kids (update_root f doc) = f (root_kids doc)"
proof (induction doc)
  case (Cons x doc)
  then show ?case by (cases x) (auto simp: root_kids_def rules_root_def)
qed (simp add: rules_root_def)

lemma root_kids_none: "rules_root doc = None \<Longrightarrow> root_kids doc = []"
  by (simp add: root_kids_def)

lemma root_kids_append:
  "rules_root doc = None \<Longrightarrow> root_kids (doc @ [Elem ''rules'' [] []]) = [] \<and> rules_root (doc @ [Elem ''rules'' [] []]) \<noteq> None"
  by (simp add: root_kids_def rules_root_def find_append_text)

lemma xr_save_kids: "root_kids (xr_doc (xr_save lib r s)) = fold (put_node lib) (saved_rules r) (root_kids (xr_doc s))"
  using root_kids_append [of "xr_doc s"]
  by (cases "rules_root (xr_doc s)") (simp_all add: xr_save_def root_kids_update root_kids_none)

lemma is_rule_written [simp]:
  assumes "xml_lib_ok lib" "data_fits d"
  shows "is_rule lib i (ruleToXml lib d) \<longleftrightarrow> i = rule_id d" "is_elem ''rule'' (ruleToXml lib d)"
    "int_attr lib (ruleToXml lib d) ''id'' = rule_id d"
  using assms(2) xml_lib_okD(1) [OF assms(1)] by (auto simp: is_rule_def ruleToXml_def int_attr_def data_fits_def)

lemma is_rule_unique: "is_rule lib i x \<Longrightarrow> is_rule lib k x \<Longrightarrow> k = i"
  by (simp add: is_rule_def)

lemma find_other_rules:
  "find (is_rule lib k) (filter (\<lambda>x. \<not> is_rule lib i x) ks) = (if k = i then None else find (is_rule lib k) ks)"
  by (induction ks) (auto dest: is_rule_unique)

lemma find_append_option: "find P (xs @ ys) = (case find P xs of None \<Rightarrow> find P ys | Some x \<Rightarrow> Some x)"
  by (induction xs) auto

lemma find_put_node:
  assumes "xml_lib_ok lib" "data_fits d"
  shows "find (is_rule lib i) (put_node lib d ks) = (if i = rule_id d then Some (ruleToXml lib d) else find (is_rule lib i) ks)"
  using assms by (simp add: put_node_def find_append_option find_other_rules split: option.split)

lemma kept_rules_distinct:
  assumes "distinct (map (\<lambda>x. int_attr lib x ''id'') (filter (is_elem ''rule'') ks))"
  shows "distinct (map (\<lambda>x. int_attr lib x ''id'') (filter (is_elem ''rule'') (filter (\<lambda>x. \<not> is_rule lib i x) ks)))"
proof -
  have eq: "filter (is_elem ''rule'') (filter (\<lambda>x. \<not> is_rule lib i x) ks) =
      filter (\<lambda>x. int_attr lib x ''id'' \<noteq> i) (filter (is_elem ''rule'') ks)"
    by (auto simp: is_rule_def intro: filter_cong)
  show ?thesis unfolding eq by (rule distinct_map_filter [OF assms])
qed

lemma put_node_distinct:
  assumes "xml_lib_ok lib" "data_fits d" "distinct (map (\<lambda>x. int_attr lib x ''id'') (filter (is_elem ''rule'') ks))"
  shows "distinct (map (\<lambda>x. int_attr lib x ''id'') (filter (is_elem ''rule'') (put_node lib d ks)))"
proof -
  have "rule_id d \<notin> (\<lambda>x. int_attr lib x ''id'') ` set (filter (is_elem ''rule'') (filter (\<lambda>x. \<not> is_rule lib (rule_id d) x) ks))"
    by (auto simp: is_rule_def)
  with kept_rules_distinct [OF assms(3), of "rule_id d"] assms(1,2) show ?thesis
    by (simp add: put_node_def del: filter_filter)
qed

lemma put_nodes:
  assumes "xml_lib_ok lib" "list_all data_fits ds"
  shows "(\<lambda>i. map_option (xmlToRule lib) (find (is_rule lib i) (fold (put_node lib) ds ks))) =
      fold (enter_rule xml_stored) ds (\<lambda>i. map_option (xmlToRule lib) (find (is_rule lib i) ks))"
    and "distinct (map (\<lambda>x. int_attr lib x ''id'') (filter (is_elem ''rule'') ks)) \<Longrightarrow>
      distinct (map (\<lambda>x. int_attr lib x ''id'') (filter (is_elem ''rule'') (fold (put_node lib) ds ks)))"
  using assms(2)
proof (induction ds arbitrary: ks)
  case (Cons d ds)
  have one: "(\<lambda>i. map_option (xmlToRule lib) (find (is_rule lib i) (put_node lib d ks))) =
      enter_rule xml_stored d (\<lambda>i. map_option (xmlToRule lib) (find (is_rule lib i) ks))" if "data_fits d" for ks
    using that assms(1) by (auto simp: fun_eq_iff find_put_node enter_rule_def xmlToRule_written)
  { case 1
    then show ?case using Cons.IH(1) [of "put_node lib d ks"] one [of ks] by simp }
  { case 2
    then show ?case using Cons.IH(2) [of "put_node lib d ks"] put_node_distinct [OF assms(1), of d ks] by simp }
qed simp_all

lemma remove_first_filter:
  assumes "distinct (map (\<lambda>x. int_attr lib x ''id'') (filter (is_elem ''rule'') ks))"
  shows "remove_first (is_rule lib i) ks = filter (\<lambda>x. \<not> is_rule lib i x) ks"
  using assms
proof (induction ks)
  case (Cons x ks)
  show ?case
  proof (cases "is_rule lib i x")
    case True
    then have "\<not> is_rule lib i y" if "y \<in> set ks" for y
      using Cons.prems that by (auto simp: is_rule_def image_iff)
    with True show ?thesis by (simp add: filter_id_conv)
  qed (use Cons in \<open>auto split: if_splits\<close>)
qed simp

lemma xr_remove_kids:
  assumes "xr_good lib s"
  shows "root_kids (xr_doc (xr_remove lib i s)) = filter (\<lambda>x. \<not> is_rule lib i x) (root_kids (xr_doc s))"
proof (cases "list_ex (is_rule lib i) (root_kids (xr_doc s))")
  case True
  then have "rules_root (xr_doc s) \<noteq> None" by (auto simp: root_kids_def split: option.splits)
  with True assms show ?thesis by (simp add: xr_remove_def root_kids_update remove_first_filter xr_good_def)
next
  case False
  then have "filter (\<lambda>x. \<not> is_rule lib i x) (root_kids (xr_doc s)) = root_kids (xr_doc s)"
    by (intro filter_True) (auto simp: list_ex_iff)
  with False show ?thesis by (simp add: xr_remove_def)
qed

lemma xr_findById_fun:
  "xr_findById lib s = (\<lambda>i. map_option (xmlToRule lib) (find (is_rule lib i) (root_kids (xr_doc s))))"
  by (simp add: fun_eq_iff xr_findById_def)

interpretation xr: rule_repository "xr_save lib" "xr_remove lib" "xr_findById lib" "xr_exists lib" saved_rules xml_stored "xr_good lib"
proof
  fix s r i assume good: "xr_good lib s"
  then have ok: "xml_lib_ok lib"
    "distinct (map (\<lambda>x. int_attr lib x ''id'') (filter (is_elem ''rule'') (root_kids (xr_doc s))))"
    by (simp_all add: xr_good_def)
  show "list_all data_fits (saved_rules r) \<Longrightarrow>
      xr_findById lib (xr_save lib r s) = fold (enter_rule xml_stored) (saved_rules r) (xr_findById lib s)"
    by (simp add: xr_findById_fun xr_save_kids put_nodes(1) [OF ok(1)])
  show "list_all data_fits (saved_rules r) \<Longrightarrow> xr_good lib (xr_save lib r s)"
    using put_nodes(2) [OF ok(1) _ ok(2)] ok(1) by (simp add: xr_good_def xr_save_kids)
  show "xr_findById lib (xr_remove lib i s) = (xr_findById lib s)(i := None)"
    by (auto simp: fun_eq_iff xr_findById_fun xr_remove_kids [OF good] find_other_rules)
  show "xr_good lib (xr_remove lib i s)"
    using kept_rules_distinct [OF ok(2), of i] ok(1) by (simp add: xr_good_def xr_remove_kids [OF good] del: filter_filter)
  show "xr_exists lib s i = (xr_findById lib s i \<noteq> None)"
    by (auto simp: xr_exists_def xr_findById_def find_None_iff list_ex_iff)
qed

text \<open>A file that lists an identifier twice: removing the rule leaves the second one.\<close>

lemma xml_remove_leaves_duplicate:
  assumes "is_rule lib i x" "is_rule lib i y"
  shows "xr_findById lib (xr_remove lib i \<lparr>xr_doc = [Elem ''rules'' [] [x, y]], xr_dirty = False\<rparr>) i = Some (xmlToRule lib y)"
  using assms by (simp add: xr_findById_def xr_remove_def root_kids_def rules_root_def)

end
