(* ===== verification/Json_Serialization.thy ===== *)
theory Json_Serialization
  imports Json_Loader Rule_Versioning
begin

text \<open>
  \<^verbatim>\<open>JsonSerialization\<close> (extensions/json/src/json_serialization.cpp): version histories and whole version managers as JSON
  documents and back, and the export of traces and counters. The keys of an object are in their sorted order, as the
  library keeps them. Arguments of the model: the library \<open>json_lib\<close>, the record \<open>ser_env\<close> of time formatting and
  floating-point conversions, the clock \<open>clk\<close> whose readings are counted, and the iteration order \<open>it\<close> of the tracked rules.
\<close>

section \<open>Documents of the library\<close>

text \<open>\<open>put_utc\<close> formats a time in UTC, \<open>get_ok\<close> and \<open>get_local\<close> read such a text through \<^verbatim>\<open>get_time\<close> and
  \<^verbatim>\<open>mktime\<close>, that is as local time; \<open>float_int\<close> casts a number to \<^verbatim>\<open>int\<close>; \<open>quot_float\<close> is the quotient that the
  counters compute, 0 without executions.\<close>

record 'd ser_env =
  put_utc :: "int \<Rightarrow> string"
  get_ok :: "string \<Rightarrow> bool"
  get_local :: "string \<Rightarrow> int"
  float_int :: "'d \<Rightarrow> int"
  quot_float :: "(nat \<times> nat) option \<Rightarrow> 'd"
  quot_float_ms :: "(nat \<times> nat) option \<Rightarrow> 'd"

definition json_type_error :: exn where
  "json_type_error = StdException RuntimeError ''type_error''"

text \<open>\<^verbatim>\<open>j.value(key, default)\<close>: it throws on a value of another type and on a document that is no object.\<close>

definition j_value :: "('d json \<Rightarrow> 'a option) \<Rightarrow> 'a \<Rightarrow> 'd json \<Rightarrow> string \<Rightarrow> exn + 'a" where
  "j_value conv dflt j key =
     (case j of
        JObject kvs \<Rightarrow>
          (case map_of kvs key of
             None \<Rightarrow> Inr dflt
           | Some x \<Rightarrow> (case conv x of None \<Rightarrow> Inl json_type_error | Some v \<Rightarrow> Inr v))
      | _ \<Rightarrow> Inl json_type_error)"

fun to_text :: "'d json \<Rightarrow> string option" where
  "to_text (JString s) = Some s"
| "to_text _ = None"

fun to_bool :: "'d json \<Rightarrow> bool option" where
  "to_bool (JBool b) = Some b"
| "to_bool _ = None"

fun to_int :: "'d ser_env \<Rightarrow> 'd json \<Rightarrow> int option" where
  "to_int env (JInt v) = Some (as_int32 v)"
| "to_int env (JFloat f) = Some (float_int env f)"
| "to_int env (JBool b) = Some (if b then 1 else 0)"
| "to_int env _ = None"

text \<open>\<^verbatim>\<open>j[key]\<close> on a document that is not constant, and the elements a range loop visits.\<close>

fun j_index :: "'d json \<Rightarrow> string \<Rightarrow> exn + 'd json" where
  "j_index (JObject kvs) key = Inr (case map_of kvs key of None \<Rightarrow> JNull | Some x \<Rightarrow> x)"
| "j_index JNull key = Inr JNull"
| "j_index _ key = Inl json_type_error"

fun elements :: "'d json \<Rightarrow> 'd json list" where
  "elements JNull = []"
| "elements (JArray js) = js"
| "elements (JObject kvs) = map snd kvs"
| "elements j = [j]"

section \<open>Histories\<close>

definition version_object :: "'d ser_env \<Rightarrow> RuleVersion \<Rightarrow> 'd json" where
  "version_object env v =
     JObject [(''action'', JString (v_action v)), (''author'', JString (v_author v)),
       (''changeSummary'', JString (v_changeSummary v)), (''createdAt'', JString (put_utc env (v_createdAt v))),
       (''expression'', JString (v_expression v)), (''isActive'', JBool (v_isActive v)),
       (''parentVersionId'', JString (v_parentVersionId v)), (''priority'', JInt (v_priority v)),
       (''ruleId'', JString (v_ruleName v)), (''versionId'', JString (v_versionId v))]"

definition history_object :: "'d ser_env \<Rightarrow> RuleVersionHistory \<Rightarrow> 'd json" where
  "history_object env h =
     JObject [(''ruleId'', JString (h_ruleName h)), (''ruleName'', JString (h_ruleName h)),
       (''versions'', JArray (map (version_object env) (h_versions h)))]"

definition serialize_history :: "'d ser_env \<Rightarrow> 'd json_lib \<Rightarrow> RuleVersionHistory \<Rightarrow> exn + string" where
  "serialize_history env lib h = json_dump2 lib (history_object env h)"

definition parse_createdAt :: "'d ser_env \<Rightarrow> (nat \<Rightarrow> int) \<Rightarrow> 'd json \<Rightarrow> nat \<Rightarrow> int \<times> nat" where
  "parse_createdAt env clk ver n =
     (case j_get ver ''createdAt'' of
        Some (JString s) \<Rightarrow> (get_local env s, n)
      | _ \<Rightarrow> (clk n, n + 1))"

definition parse_version :: "'d ser_env \<Rightarrow> (nat \<Rightarrow> int) \<Rightarrow> 'd json \<Rightarrow> nat \<Rightarrow> (exn + RuleVersion) \<times> nat" where
  "parse_version env clk ver n =
     bindx (j_value to_text [] ver ''versionId'', n) (\<lambda>vid n.
     bindx (j_value to_text [] ver ''ruleId'', n) (\<lambda>rule n.
     bindx (j_value to_text [] ver ''expression'', n) (\<lambda>expr n.
     bindx (j_value to_text [] ver ''action'', n) (\<lambda>act n.
     bindx (j_value (to_int env) 0 ver ''priority'', n) (\<lambda>prio n.
     bindx (j_value to_bool True ver ''isActive'', n) (\<lambda>active n.
       let (created, n) = parse_createdAt env clk ver n in
     bindx (j_value to_text [] ver ''author'', n) (\<lambda>author n.
     bindx (j_value to_text [] ver ''changeSummary'', n) (\<lambda>summary n.
     bindx (j_value to_text [] ver ''parentVersionId'', n) (\<lambda>parent n.
       (Inr \<lparr>v_versionId = vid, v_ruleName = rule, v_expression = expr, v_action = act, v_priority = prio,
             v_isActive = active, v_createdAt = created, v_author = author, v_changeSummary = summary,
             v_parentVersionId = parent\<rparr>, n))))))))))"

fun parse_versions ::
    "'d ser_env \<Rightarrow> (nat \<Rightarrow> int) \<Rightarrow> 'd json list \<Rightarrow> RuleVersionHistory \<Rightarrow> nat \<Rightarrow> (exn + RuleVersionHistory) \<times> nat" where
  "parse_versions env clk [] h n = (Inr h, n)"
| "parse_versions env clk (ver # vers) h n =
     bindx (parse_version env clk ver n) (\<lambda>v n. parse_versions env clk vers (addVersion v h) n)"

definition parse_history :: "'d ser_env \<Rightarrow> (nat \<Rightarrow> int) \<Rightarrow> 'd json \<Rightarrow> nat \<Rightarrow> (exn + RuleVersionHistory) \<times> nat" where
  "parse_history env clk j n =
     bindx (j_value to_text [] j ''ruleId'', n) (\<lambda>_ n.
     bindx (j_value to_text [] j ''ruleName'', n) (\<lambda>name n.
     bindx (j_index j ''versions'', n) (\<lambda>vers n.
       parse_versions env clk (elements vers) (empty_history\<lparr>h_ruleName := name\<rparr>) n)))"

definition deserializeRuleVersionHistory ::
    "'d ser_env \<Rightarrow> 'd json_lib \<Rightarrow> (nat \<Rightarrow> int) \<Rightarrow> string \<Rightarrow> nat \<Rightarrow> RuleVersionHistory option \<times> nat" where
  "deserializeRuleVersionHistory env lib clk s n =
     (case json_parse lib s of
        Inl e \<Rightarrow> (None, n)
      | Inr j \<Rightarrow>
          (case parse_history env clk j n of
             (Inl e, n') \<Rightarrow> (None, n')
           | (Inr h, n') \<Rightarrow> (Some h, n')))"

section \<open>Managers\<close>

text \<open>The documents of the tracked rules: each history is written to text and parsed again.\<close>

fun history_documents ::
    "'d ser_env \<Rightarrow> 'd json_lib \<Rightarrow> ver_state \<Rightarrow> string list \<Rightarrow> exn + 'd json list" where
  "history_documents env lib m [] = Inr []"
| "history_documents env lib m (ruleId # ids) =
     (case stoi ruleId of
        None \<Rightarrow> Inl (StdException InvalidArgument ''stoi'')
      | Some i \<Rightarrow>
          (case getHistory m i of
             None \<Rightarrow> history_documents env lib m ids
           | Some h \<Rightarrow>
               (case serialize_history env lib h of
                  Inl e \<Rightarrow> Inl e
                | Inr s \<Rightarrow>
                    (case json_parse lib s of
                       Inl e \<Rightarrow> Inl e
                     | Inr j \<Rightarrow> map_sum id (\<lambda>js. j # js) (history_documents env lib m ids)))))"

definition serialize_manager ::
    "'d ser_env \<Rightarrow> 'd json_lib \<Rightarrow> (string list \<Rightarrow> string list) \<Rightarrow> (nat \<Rightarrow> int) \<Rightarrow> ver_state \<Rightarrow> (exn + string) \<times> ver_state" where
  "serialize_manager env lib it clk m =
     (case history_documents env lib m (it (getTrackedRuleIds m)) of
        Inl e \<Rightarrow> (Inl e, m\<lparr>ver_tick := ver_tick m + 1\<rparr>)
      | Inr js \<Rightarrow>
          (json_dump2 lib (JObject [(''exportDate'', JString (put_utc env (clk (ver_tick m)))), (''histories'', JArray js)]),
           m\<lparr>ver_tick := ver_tick m + 1\<rparr>))"

text \<open>The rule object that an imported version becomes; its other fields have their defaults.\<close>

definition version_rule :: "int \<Rightarrow> RuleVersion \<Rightarrow> Rule" where
  "version_rule i v =
     Rule 0 (default_rule_data\<lparr>rule_id := i, expression := v_expression v, action := v_action v, isActive := v_isActive v\<rparr>) []"

text \<open>The value says whether the loop ended without an exception.\<close>

fun import_versions :: "(int \<Rightarrow> string) \<Rightarrow> (nat \<Rightarrow> int) \<Rightarrow> RuleVersion list \<Rightarrow> ver_state \<Rightarrow> bool \<times> ver_state" where
  "import_versions fmt clk [] m = (True, m)"
| "import_versions fmt clk (v # vs) m =
     (case stoi (v_ruleName v) of
        None \<Rightarrow> (False, m)
      | Some i \<Rightarrow>
          import_versions fmt clk vs (snapshotRule fmt clk (v_author v) (v_changeSummary v) (version_rule i v) m))"

fun import_histories ::
    "'d ser_env \<Rightarrow> 'd json_lib \<Rightarrow> (int \<Rightarrow> string) \<Rightarrow> (nat \<Rightarrow> int) \<Rightarrow> 'd json list \<Rightarrow> ver_state \<Rightarrow> ver_state" where
  "import_histories env lib fmt clk [] m = m"
| "import_histories env lib fmt clk (hist # hists) m =
     (case json_dump lib hist of
        Inl e \<Rightarrow> m
      | Inr s \<Rightarrow>
          (case deserializeRuleVersionHistory env lib clk s (ver_tick m) of
             (None, n) \<Rightarrow> import_histories env lib fmt clk hists (m\<lparr>ver_tick := n\<rparr>)
           | (Some h, n) \<Rightarrow>
               (case import_versions fmt clk (h_versions h) (m\<lparr>ver_tick := n\<rparr>) of
                  (False, m') \<Rightarrow> m'
                | (True, m') \<Rightarrow> import_histories env lib fmt clk hists m')))"

definition deserialize_manager ::
    "'d ser_env \<Rightarrow> 'd json_lib \<Rightarrow> (int \<Rightarrow> string) \<Rightarrow> (nat \<Rightarrow> int) \<Rightarrow> string \<Rightarrow> ver_state \<Rightarrow> ver_state" where
  "deserialize_manager env lib fmt clk s m =
     (case json_parse lib s of
        Inl e \<Rightarrow> m
      | Inr j \<Rightarrow>
          (case j_index j ''histories'' of
             Inl e \<Rightarrow> m
           | Inr hs \<Rightarrow> import_histories env lib fmt clk (elements hs) m))"

section \<open>Traces and counters\<close>

text \<open>\<^verbatim>\<open>duration_cast\<close> to milliseconds rounds towards zero.\<close>

definition ns_to_ms :: "int \<Rightarrow> int" where
  "ns_to_ms t = sgn t * (\<bar>t\<bar> div 1000000)"

definition opt_member :: "string \<Rightarrow> ('a \<Rightarrow> 'd json) \<Rightarrow> 'a option \<Rightarrow> (string \<times> 'd json) list" where
  "opt_member key f v = (case v of None \<Rightarrow> [] | Some x \<Rightarrow> [(key, f x)])"

definition step_object :: "ExecutionTraceStep \<Rightarrow> 'd json" where
  "step_object s =
     JObject (opt_member ''action'' JString (ts_action s) @ opt_member ''dependencyId'' JInt (ts_dependencyId s) @
       [(''durationMs'', JInt (ns_to_ms (step_duration s))), (''durationNs'', JInt (step_duration s))] @
       opt_member ''expression'' JString (ts_expression s) @ opt_member ''message'' JString (ts_message s) @
       [(''ruleId'', JString (ts_ruleName s)), (''stage'', JString (ts_stage s)), (''success'', JBool (ts_success s))])"

definition trace_object :: "ExecutionTrace \<Rightarrow> 'd json" where
  "trace_object tr =
     JObject [(''overallSuccess'', JBool (tr_overallSuccess tr)), (''stepCount'', JInt (int (length (tr_steps tr)))),
       (''steps'', JArray (map step_object (tr_steps tr))), (''totalDurationMs'', JInt (ns_to_ms (totalDuration tr))),
       (''totalDurationNs'', JInt (totalDuration tr)), (''workflowId'', JInt (tr_workflowId tr))]"

definition serialize_trace :: "'d json_lib \<Rightarrow> ExecutionTrace \<Rightarrow> exn + string" where
  "serialize_trace lib tr = json_dump2 lib (trace_object tr)"

definition deserializeExecutionTrace :: "string \<Rightarrow> ExecutionTrace option" where
  "deserializeExecutionTrace s = None"

definition counters_object :: "'d ser_env \<Rightarrow> Counters \<Rightarrow> 'd json" where
  "counters_object env c =
     JObject [(''averageExecutionTimeMs'', JFloat (quot_float_ms env (getAverageExecutionTimeMs c))),
       (''cacheHitRate'', JFloat (quot_float env (getCacheHitRate c))),
       (''successRate'', JFloat (quot_float env (getSuccessRate c))),
       (''totalCompileCount'', JInt (uint (totalCompileCount c))),
       (''totalCompileFailures'', JInt (uint (totalCompileFailures c))),
       (''totalExecutionTimeNs'', JInt (uint (totalExecutionTimeNs c))),
       (''totalRulesCached'', JInt (uint (totalRulesCached c))), (''totalRulesExecuted'', JInt (uint (totalRulesExecuted c))),
       (''totalRulesFailed'', JInt (uint (totalRulesFailed c))),
       (''totalRulesRateLimited'', JInt (uint (totalRulesRateLimited c))),
       (''totalRulesSkipped'', JInt (uint (totalRulesSkipped c))),
       (''totalRulesSuccessful'', JInt (uint (totalRulesSuccessful c))),
       (''totalRulesTimedOut'', JInt (uint (totalRulesTimedOut c)))]"

definition serialize_counters :: "'d ser_env \<Rightarrow> 'd json_lib \<Rightarrow> Counters \<Rightarrow> exn + string" where
  "serialize_counters env lib c = json_dump2 lib (counters_object env (getCounters c))"

section \<open>A history comes back\<close>

text \<open>What a written version is read back as: its time passes through a UTC text that is read as local time.\<close>

definition relocated :: "'d ser_env \<Rightarrow> RuleVersion \<Rightarrow> RuleVersion" where
  "relocated env v = v\<lparr>v_createdAt := get_local env (put_utc env (v_createdAt v))\<rparr>"

lemma j_value_object [simp]: "j_value conv dflt (JObject kvs) key =
    (case map_of kvs key of None \<Rightarrow> Inr dflt | Some x \<Rightarrow> (case conv x of None \<Rightarrow> Inl json_type_error | Some v \<Rightarrow> Inr v))"
  by (simp add: j_value_def)

lemma parse_version_written:
  assumes "int_fits (v_priority v)"
  shows "parse_version env clk (version_object env v) n = (Inr (relocated env v), n)"
  using as_int_fits(1) [OF assms]
  by (simp add: parse_version_def version_object_def parse_createdAt_def j_get_def relocated_def)

lemma parse_versions_written:
  assumes "list_all (\<lambda>v. int_fits (v_priority v)) vs"
  shows "parse_versions env clk (map (version_object env) vs) h n = (Inr (h\<lparr>h_versions := h_versions h @ map (relocated env) vs\<rparr>), n)"
  using assms by (induction vs arbitrary: h) (simp_all add: parse_version_written addVersion_def)

lemma parse_history_written:
  assumes "list_all (\<lambda>v. int_fits (v_priority v)) (h_versions h)"
  shows "parse_history env clk (history_object env h) n =
    (Inr \<lparr>h_ruleName = h_ruleName h, h_versions = map (relocated env) (h_versions h)\<rparr>, n)"
  by (simp add: parse_history_def history_object_def parse_versions_written [OF assms] empty_history_def)

text \<open>What is used of the JSON library: a document that was written is read back, and the indentation does not
  matter for whether a document can be written.\<close>

definition json_lib_ok :: "'d json_lib \<Rightarrow> bool" where
  "json_lib_ok lib \<longleftrightarrow>
     (\<forall>j s. json_dump lib j = Inr s \<or> json_dump2 lib j = Inr s \<longrightarrow> json_parse lib s = Inr j) \<and>
     (\<forall>j. (\<exists>s. json_dump lib j = Inr s) = (\<exists>s. json_dump2 lib j = Inr s))"

lemma history_text_roundtrip:
  assumes "json_lib_ok lib" "serialize_history env lib h = Inr s" "list_all (\<lambda>v. int_fits (v_priority v)) (h_versions h)"
  shows "deserializeRuleVersionHistory env lib clk s n =
    (Some \<lparr>h_ruleName = h_ruleName h, h_versions = map (relocated env) (h_versions h)\<rparr>, n)"
proof -
  have "json_parse lib s = Inr (history_object env h)"
    using assms(1,2) by (simp add: json_lib_ok_def serialize_history_def)
  then show ?thesis by (simp add: deserializeRuleVersionHistory_def parse_history_written [OF assms(3)])
qed

section \<open>A manager comes back\<close>

text \<open>What an import keeps of a version, and the versions of a rule seen that way.\<close>

definition version_text :: "RuleVersion \<Rightarrow> string \<times> string \<times> string \<times> bool \<times> string \<times> string" where
  "version_text v = (v_ruleName v, v_expression v, v_action v, v_isActive v, v_author v, v_changeSummary v)"

definition contents :: "ver_state \<Rightarrow> string \<Rightarrow> (string \<times> string \<times> string \<times> bool \<times> string \<times> string) list" where
  "contents m key = (case map_of (histories m) key of None \<Rightarrow> [] | Some h \<Rightarrow> map version_text (h_versions h))"

lemma relocated_text [simp]: "version_text (relocated env v) = version_text v" "v_ruleName (relocated env v) = v_ruleName v"
  by (simp_all add: version_text_def relocated_def)

lemma contents_tick [simp]: "contents (m\<lparr>ver_tick := n\<rparr>) = contents m"
  by (simp add: contents_def fun_eq_iff)

lemma contents_snapshot:
  "contents (snapshotRule fmt clk author summary r m) =
     (contents m)(std_to_string (rid r) := contents m (std_to_string (rid r)) @
       [(std_to_string (rid r), expression (rdata r), action (rdata r), isActive (rdata r), author, summary)])"
  by (auto simp: contents_def snapshotRule_def generateVersionId_def Let_def update_conv' addVersion_def version_text_def
        empty_history_def fun_eq_iff split: option.splits)

lemma stoi_fits: "int_fits i \<Longrightarrow> stoi (std_to_string i) = Some i"
  by (simp add: stoi_to_string int_fits_def)

lemma import_versions_contents:
  assumes "int_fits i" "list_all (\<lambda>v. v_ruleName v = std_to_string i) vs"
  shows "\<exists>m'. import_versions fmt clk vs m = (True, m') \<and>
    contents m' = (contents m)(std_to_string i := contents m (std_to_string i) @ map version_text vs)"
  using assms(2)
proof (induction vs arbitrary: m)
  case (Cons v vs)
  let ?m = "snapshotRule fmt clk (v_author v) (v_changeSummary v) (version_rule i v) m"
  obtain m' where "import_versions fmt clk vs ?m = (True, m')"
    "contents m' = (contents ?m)(std_to_string i := contents ?m (std_to_string i) @ map version_text vs)"
    using Cons by fastforce
  with Cons.prems assms(1) show ?case
    by (simp add: stoi_fits contents_snapshot version_rule_def version_text_def [of v] fun_eq_iff)
qed simp

text \<open>Managers whose rules and priorities have the range of \<^verbatim>\<open>int\<close>; snapshots give only such.\<close>

definition history_ok :: "string \<Rightarrow> RuleVersionHistory \<Rightarrow> bool" where
  "history_ok key h \<longleftrightarrow>
     (\<exists>i. int_fits i \<and> key = std_to_string i) \<and> list_all (\<lambda>v. v_ruleName v = key \<and> int_fits (v_priority v)) (h_versions h)"

definition manager_ok :: "ver_state \<Rightarrow> bool" where
  "manager_ok m \<longleftrightarrow> distinct (map fst (histories m)) \<and> (\<forall>k h. map_of (histories m) k = Some h \<longrightarrow> history_ok k h)"

lemma manager_okE:
  assumes "manager_ok m" "map_of (histories m) k = Some h"
  obtains i where "int_fits i" "k = std_to_string i" "list_all (\<lambda>v. v_ruleName v = k \<and> int_fits (v_priority v)) (h_versions h)"
proof -
  have "history_ok k h" using assms unfolding manager_ok_def by blast
  with that show thesis by (auto simp: history_ok_def)
qed

lemma manager_ok_snapshot:
  assumes "manager_ok m" "int_fits (rid r)" "int_fits (priority (rdata r))"
  shows "manager_ok (snapshotRule fmt clk author summary r m)"
  using assms
  by (auto simp: manager_ok_def snapshotRule_def generateVersionId_def Let_def update_conv' distinct_update history_ok_def
        addVersion_def empty_history_def split: option.splits if_splits)

lemma manager_ok_snapshots:
  assumes "list_all (\<lambda>(author, summary, r). int_fits (rid r) \<and> int_fits (priority (rdata r))) snaps"
  shows "manager_ok (take_snapshots fmt clk snaps)"
proof -
  have "manager_ok (fold (\<lambda>(author, summary, r). snapshotRule fmt clk author summary r) snaps m)" if "manager_ok m" for m
    using that assms by (induction snaps arbitrary: m) (auto simp: manager_ok_snapshot)
  moreover have "manager_ok init_versions" by (simp add: manager_ok_def init_versions_def)
  ultimately show ?thesis by (simp add: take_snapshots_def)
qed

lemma history_documents_written:
  assumes "json_lib_ok lib" "manager_ok m" "set ks \<subseteq> set (map fst (histories m))" "history_documents env lib m ks = Inr js"
  shows "js = map (\<lambda>k. history_object env (the (map_of (histories m) k))) ks"
    "\<forall>j\<in>set js. \<exists>t. json_dump2 lib j = Inr t"
proof -
  have "js = map (\<lambda>k. history_object env (the (map_of (histories m) k))) ks \<and> (\<forall>j\<in>set js. \<exists>t. json_dump2 lib j = Inr t)"
    using assms(3,4)
  proof (induction ks arbitrary: js)
    case (Cons k ks)
    then obtain h where h: "map_of (histories m) k = Some h" by (metis list.set_intros(1) map_of_eq_None_iff not_Some_eq set_map subsetD)
    from manager_okE [OF assms(2) h] obtain i where i: "int_fits i" "k = std_to_string i" by metis
    from Cons.prems(2) obtain t j js' where t: "json_dump2 lib (history_object env h) = Inr t" "json_parse lib t = Inr j"
        "history_documents env lib m ks = Inr js'" "js = j # js'"
      by (auto simp: i(2) stoi_fits [OF i(1)] getHistory_def h [unfolded i(2)] serialize_history_def split: sum.splits)
        (auto simp: map_sum_def split: sum.splits)
    moreover from t(1,2) assms(1) have "j = history_object env h" by (auto simp: json_lib_ok_def)
    ultimately show ?case using Cons.IH [of js'] Cons.prems(1) h by auto
  qed simp
  then show "js = map (\<lambda>k. history_object env (the (map_of (histories m) k))) ks" "\<forall>j\<in>set js. \<exists>t. json_dump2 lib j = Inr t"
    by blast+
qed

lemma import_histories_contents:
  assumes lib: "json_lib_ok lib" and m: "manager_ok m"
    and "set ks \<subseteq> set (map fst (histories m))" "distinct ks"
    and "\<forall>k\<in>set ks. \<exists>t. json_dump2 lib (history_object env (the (map_of (histories m) k))) = Inr t"
  shows "contents (import_histories env lib fmt clk (map (\<lambda>k. history_object env (the (map_of (histories m) k))) ks) m0) =
    (\<lambda>k. contents m0 k @ (if k \<in> set ks then contents m k else []))"
  using assms(3-5)
proof (induction ks arbitrary: m0)
  case (Cons k ks)
  then obtain h where h: "map_of (histories m) k = Some h" by (metis list.set_intros(1) map_of_eq_None_iff not_Some_eq set_map subsetD)
  obtain i where i: "int_fits i" "k = std_to_string i" and vs: "list_all (\<lambda>v. v_ruleName v = k \<and> int_fits (v_priority v)) (h_versions h)"
    by (rule manager_okE [OF m h])
  have "\<exists>t. json_dump2 lib (history_object env h) = Inr t" using Cons.prems(3) h by auto
  with lib obtain t where t: "json_dump lib (history_object env h) = Inr t" unfolding json_lib_ok_def by blast
  have parsed: "deserializeRuleVersionHistory env lib clk t n =
      (Some \<lparr>h_ruleName = h_ruleName h, h_versions = map (relocated env) (h_versions h)\<rparr>, n)" for n
  proof -
    have "json_parse lib t = Inr (history_object env h)" using t lib by (auto simp: json_lib_ok_def)
    then show ?thesis using vs by (simp add: deserializeRuleVersionHistory_def parse_history_written list_all_iff)
  qed
  have "list_all (\<lambda>v. v_ruleName v = std_to_string i) (map (relocated env) (h_versions h))"
    using vs i by (simp add: list_all_iff)
  from import_versions_contents [OF i(1) this, of fmt clk m0] obtain m1 where
    m1: "import_versions fmt clk (map (relocated env) (h_versions h)) m0 = (True, m1)"
      "contents m1 = (contents m0)(k := contents m0 k @ contents m k)"
    by (auto simp: i(2) contents_def h [unfolded i(2)] comp_def)
  from Cons.IH [of m1] Cons.prems show ?case
    by (auto simp: h t parsed m1 fun_eq_iff)
qed simp

text \<open>Imported rules have the default priority.\<close>

definition default_priorities :: "ver_state \<Rightarrow> bool" where
  "default_priorities m \<longleftrightarrow> (\<forall>k h. map_of (histories m) k = Some h \<longrightarrow> list_all (\<lambda>v. v_priority v = 0) (h_versions h))"

lemma default_priorities_import:
  "default_priorities m \<Longrightarrow> default_priorities (snd (import_versions fmt clk vs m))"
proof (induction vs arbitrary: m)
  case (Cons v vs)
  have "default_priorities (snapshotRule fmt clk au su (version_rule i v) m)" for i au su
    using Cons.prems by (auto simp: default_priorities_def snapshotRule_def generateVersionId_def Let_def update_conv' addVersion_def
        version_rule_def default_rule_data_def empty_history_def split: option.splits if_splits)
  with Cons show ?case by (simp split: option.split)
qed simp

lemma default_priorities_histories:
  "default_priorities m \<Longrightarrow> default_priorities (import_histories env lib fmt clk js m)"
proof (induction js arbitrary: m)
  case (Cons j js)
  have tick: "default_priorities (m\<lparr>ver_tick := n\<rparr>)" for n using Cons.prems by (simp add: default_priorities_def)
  show ?case
    using Cons tick default_priorities_import [OF tick, of fmt clk]
    by (auto split: sum.split prod.split option.split bool.split) (metis snd_conv)+
qed simp


text \<open>One snapshot, and a library that can write the two documents of its export.\<close>

definition sample_ser_env :: "unit ser_env" where
  "sample_ser_env = \<lparr>put_utc = (\<lambda>_. ''1970-01-01T00:00:00Z''), get_ok = (\<lambda>_. True), get_local = (\<lambda>_. 0), float_int = (\<lambda>_. 0),
     quot_float = (\<lambda>_. ()), quot_float_ms = (\<lambda>_. ())\<rparr>"

definition sample_manager :: ver_state where
  "sample_manager = take_snapshots sample_fmt (\<lambda>_. 0) [(''ann'', ''first'', Rule 0 (sample_data 1 ''x'') [])]"

definition sample_documents :: "unit json \<times> unit json" where
  "sample_documents =
     (let d = history_object sample_ser_env (the (getHistory sample_manager 1))
      in (d, JObject [(''exportDate'', JString (put_utc sample_ser_env 0)), (''histories'', JArray [d])]))"

definition two_doc_lib :: "unit json \<times> unit json \<Rightarrow> unit json_lib" where
  "two_doc_lib docs =
     (let dump = (\<lambda>j. if j = fst docs then Inr ''1'' else if j = snd docs then Inr ''2'' else Inl UnknownException)
      in \<lparr>json_parse = (\<lambda>s. if s = ''1'' then Inr (fst docs) else if s = ''2'' then Inr (snd docs) else Inl UnknownException),
          json_dump = dump, json_dump2 = dump, float_to_int64 = (\<lambda>_. 0)\<rparr>)"


section \<open>What the exports show\<close>

lemma opt_member_map_of [simp]: "map_of (opt_member key f v @ kvs) k =
    (if k = key then (case v of None \<Rightarrow> map_of kvs k | Some x \<Rightarrow> Some (f x)) else map_of kvs k)"
  by (cases v) (simp_all add: opt_member_def)

lemma step_object_get:
  "j_get (step_object s) ''action'' = map_option JString (ts_action s)"
  "j_get (step_object s) ''dependencyId'' = map_option JInt (ts_dependencyId s)"
  "j_get (step_object s) ''expression'' = map_option JString (ts_expression s)"
  "j_get (step_object s) ''message'' = map_option JString (ts_message s)"
  "j_get (step_object s) ''ruleId'' = Some (JString (ts_ruleName s))" "j_get (step_object s) ''stage'' = Some (JString (ts_stage s))"
  "j_get (step_object s) ''success'' = Some (JBool (ts_success s))" "j_get (step_object s) ''durationNs'' = Some (JInt (step_duration s))"
  by (simp_all add: step_object_def j_get_def del: map_of_append split: option.split)

text \<open>An exported step determines the step up to its absolute times.\<close>

lemma step_object_inject:
  assumes "(step_object s :: 'd json) = step_object t"
  shows "t = s\<lparr>ts_startedAt := ts_startedAt t, ts_endedAt := ts_endedAt t\<rparr>" "step_duration s = step_duration t"
proof -
  have inj: "map_option JString u = map_option (JString :: _ \<Rightarrow> 'd json) v \<Longrightarrow> u = v"
    "map_option JInt x = map_option (JInt :: _ \<Rightarrow> 'd json) y \<Longrightarrow> x = y" for u v x y
    by (cases u; cases v; simp) (cases x; cases y; simp)
  have get: "j_get (step_object s :: 'd json) k = j_get (step_object t) k" for k using assms by simp
  have "ts_action s = ts_action t" "ts_dependencyId s = ts_dependencyId t" "ts_expression s = ts_expression t"
    "ts_message s = ts_message t"
    using get [of "''action''"] get [of "''dependencyId''"] get [of "''expression''"] get [of "''message''"]
    unfolding step_object_get by (blast intro: inj)+
  moreover have "ts_ruleName s = ts_ruleName t" "ts_stage s = ts_stage t" "ts_success s = ts_success t" "step_duration s = step_duration t"
    using get [of "''ruleId''"] get [of "''stage''"] get [of "''success''"] get [of "''durationNs''"]
    unfolding step_object_get by simp_all
  ultimately show "t = s\<lparr>ts_startedAt := ts_startedAt t, ts_endedAt := ts_endedAt t\<rparr>" "step_duration s = step_duration t"
    by simp_all
qed

lemma ns_to_ms_bounds: "\<bar>ns_to_ms t * 1000000\<bar> \<le> \<bar>t\<bar>" "\<bar>t - ns_to_ms t * 1000000\<bar> < 1000000"
  by (cases "t > 0"; cases "t = 0"; simp add: ns_to_ms_def abs_if; linarith)+

end
