(* ===== verification/Xml_Serialization.thy ===== *)
theory Xml_Serialization
  imports Xml_Repository Json_Serialization
begin

text \<open>
  \<^verbatim>\<open>XmlSerialization\<close> (extensions/xml/src/xml_serialization.cpp): version histories, managers, traces and counters as XML
  documents. It shares the argument \<open>ser_env\<close> of times and quotients and the import of versions with the JSON form;
  \<open>ftext\<close> is the library's text of a floating-point number.
\<close>

section \<open>Helpers\<close>

definition parseIsoTime :: "'d ser_env \<Rightarrow> (nat \<Rightarrow> int) \<Rightarrow> string \<Rightarrow> nat \<Rightarrow> int \<times> nat" where
  "parseIsoTime env clk s n = (if get_ok env s then (get_local env s, n) else (clk n, n + 1))"

text \<open>\<^verbatim>\<open>appendTextChild\<close> for numbers and truth values, whose text the library writes.\<close>

definition raw_elem :: "string \<Rightarrow> string \<Rightarrow> xml" where
  "raw_elem t s = Elem t [] [PCData s]"

text \<open>\<^verbatim>\<open>child(t).text().as_int(0)\<close> and \<^verbatim>\<open>as_bool(true)\<close>: the default stands for a missing or empty text.\<close>

definition child_value :: "(string \<Rightarrow> 'a) \<Rightarrow> 'a \<Rightarrow> xml \<Rightarrow> string \<Rightarrow> 'a" where
  "child_value conv dflt x t =
     (case child x t of
        None \<Rightarrow> dflt
      | Some c \<Rightarrow> if first_text (kids c) = [] then dflt else conv (first_text (kids c)))"

definition children_of :: "xml option \<Rightarrow> string \<Rightarrow> xml list" where
  "children_of x t = (case x of None \<Rightarrow> [] | Some c \<Rightarrow> filter (is_elem t) (kids c))"

section \<open>Histories\<close>

definition version_elem :: "'d ser_env \<Rightarrow> xml_lib \<Rightarrow> RuleVersion \<Rightarrow> xml" where
  "version_elem env lib v =
     Elem ''version'' []
       [text_elem ''versionId'' (v_versionId v), text_elem ''ruleId'' (v_ruleName v),
        text_elem ''expression'' (v_expression v), text_elem ''action'' (v_action v),
        raw_elem ''priority'' (of_int_text lib (v_priority v)), raw_elem ''isActive'' (of_bool_text lib (v_isActive v)),
        text_elem ''createdAt'' (put_utc env (v_createdAt v)), text_elem ''author'' (v_author v),
        text_elem ''changeSummary'' (v_changeSummary v), text_elem ''parentVersionId'' (v_parentVersionId v)]"

definition history_doc :: "'d ser_env \<Rightarrow> xml_lib \<Rightarrow> RuleVersionHistory \<Rightarrow> xml list" where
  "history_doc env lib h =
     [Elem ''ruleVersionHistory'' [(''ruleId'', c_str (h_ruleName h)), (''ruleName'', c_str (h_ruleName h))]
        [Elem ''versions'' [] (map (version_elem env lib) (h_versions h))]]"

definition xml_serialize_history :: "'d ser_env \<Rightarrow> xml_lib \<Rightarrow> RuleVersionHistory \<Rightarrow> string" where
  "xml_serialize_history env lib h = xml_save2 lib (history_doc env lib h)"

definition xml_version :: "'d ser_env \<Rightarrow> xml_lib \<Rightarrow> (nat \<Rightarrow> int) \<Rightarrow> xml \<Rightarrow> nat \<Rightarrow> RuleVersion \<times> nat" where
  "xml_version env lib clk ver n =
     (let at = text_child ver ''createdAt'';
          (created, n') = (if at \<noteq> [] then parseIsoTime env clk at n else (clk n, n + 1))
      in (\<lparr>v_versionId = text_child ver ''versionId'', v_ruleName = text_child ver ''ruleId'',
           v_expression = text_child ver ''expression'', v_action = text_child ver ''action'',
           v_priority = child_value (as_int_text lib) 0 ver ''priority'',
           v_isActive = child_value (as_bool_text lib) True ver ''isActive'', v_createdAt = created,
           v_author = text_child ver ''author'', v_changeSummary = text_child ver ''changeSummary'',
           v_parentVersionId = text_child ver ''parentVersionId''\<rparr>, n'))"

fun xml_versions ::
    "'d ser_env \<Rightarrow> xml_lib \<Rightarrow> (nat \<Rightarrow> int) \<Rightarrow> xml list \<Rightarrow> RuleVersionHistory \<Rightarrow> nat \<Rightarrow> RuleVersionHistory \<times> nat" where
  "xml_versions env lib clk [] h n = (h, n)"
| "xml_versions env lib clk (ver # vers) h n =
     (let (v, n') = xml_version env lib clk ver n in xml_versions env lib clk vers (addVersion v h) n')"

definition xml_deserialize_history ::
    "'d ser_env \<Rightarrow> xml_lib \<Rightarrow> (nat \<Rightarrow> int) \<Rightarrow> string \<Rightarrow> nat \<Rightarrow> RuleVersionHistory option \<times> nat" where
  "xml_deserialize_history env lib clk s n =
     (case xml_load lib (c_str s) of
        (doc, Some msg) \<Rightarrow> (None, n)
      | (doc, None) \<Rightarrow>
          (case find (is_elem ''ruleVersionHistory'') doc of
             None \<Rightarrow> (None, n)
           | Some root \<Rightarrow>
               (let (h, n') = xml_versions env lib clk (children_of (child root ''versions'') ''version'')
                                (empty_history\<lparr>h_ruleName := string_attr root ''ruleName''\<rparr>) n
                in (Some h, n'))))"

section \<open>Managers\<close>

fun attrs :: "xml \<Rightarrow> (string \<times> string) list" where
  "attrs (Elem t as ks) = as"
| "attrs (PCData s) = []"

text \<open>The history is written to text, loaded again and its root copied; the result of the load is not checked.\<close>

definition history_node :: "'d ser_env \<Rightarrow> xml_lib \<Rightarrow> RuleVersionHistory \<Rightarrow> xml" where
  "history_node env lib h =
     (case find (is_elem ''ruleVersionHistory'') (fst (xml_load lib (c_str (xml_serialize_history env lib h)))) of
        None \<Rightarrow> Elem ''history'' [] []
      | Some inner \<Rightarrow> Elem ''history'' (attrs inner) (kids inner))"

fun history_nodes :: "'d ser_env \<Rightarrow> xml_lib \<Rightarrow> ver_state \<Rightarrow> string list \<Rightarrow> exn + xml list" where
  "history_nodes env lib m [] = Inr []"
| "history_nodes env lib m (ruleId # ids) =
     (case stoi ruleId of
        None \<Rightarrow> Inl (StdException InvalidArgument ''stoi'')
      | Some i \<Rightarrow>
          (case getHistory m i of
             None \<Rightarrow> history_nodes env lib m ids
           | Some h \<Rightarrow> map_sum id (\<lambda>xs. history_node env lib h # xs) (history_nodes env lib m ids)))"

definition xml_serialize_manager ::
    "'d ser_env \<Rightarrow> xml_lib \<Rightarrow> (string list \<Rightarrow> string list) \<Rightarrow> (nat \<Rightarrow> int) \<Rightarrow> ver_state \<Rightarrow> (exn + string) \<times> ver_state" where
  "xml_serialize_manager env lib it clk m =
     (case history_nodes env lib m (it (getTrackedRuleIds m)) of
        Inl e \<Rightarrow> (Inl e, m\<lparr>ver_tick := ver_tick m + 1\<rparr>)
      | Inr xs \<Rightarrow>
          (Inr (xml_save2 lib [Elem ''ruleVersionManager'' [(''exportDate'', c_str (put_utc env (clk (ver_tick m))))]
                  [Elem ''histories'' [] xs]]),
           m\<lparr>ver_tick := ver_tick m + 1\<rparr>))"

definition inner_doc :: "xml \<Rightarrow> xml list" where
  "inner_doc hist =
     [Elem ''ruleVersionHistory'' [(''ruleId'', string_attr hist ''ruleId''), (''ruleName'', string_attr hist ''ruleName'')] (kids hist)]"

fun xml_import_histories ::
    "'d ser_env \<Rightarrow> xml_lib \<Rightarrow> (int \<Rightarrow> string) \<Rightarrow> (nat \<Rightarrow> int) \<Rightarrow> xml list \<Rightarrow> ver_state \<Rightarrow> ver_state" where
  "xml_import_histories env lib fmt clk [] m = m"
| "xml_import_histories env lib fmt clk (hist # hists) m =
     (case xml_deserialize_history env lib clk (xml_save lib (inner_doc hist)) (ver_tick m) of
        (None, n) \<Rightarrow> xml_import_histories env lib fmt clk hists (m\<lparr>ver_tick := n\<rparr>)
      | (Some h, n) \<Rightarrow>
          (case import_versions fmt clk (h_versions h) (m\<lparr>ver_tick := n\<rparr>) of
             (False, m') \<Rightarrow> m'
           | (True, m') \<Rightarrow> xml_import_histories env lib fmt clk hists m'))"

definition xml_deserialize_manager ::
    "'d ser_env \<Rightarrow> xml_lib \<Rightarrow> (int \<Rightarrow> string) \<Rightarrow> (nat \<Rightarrow> int) \<Rightarrow> string \<Rightarrow> ver_state \<Rightarrow> ver_state" where
  "xml_deserialize_manager env lib fmt clk s m =
     (case xml_load lib (c_str s) of
        (doc, Some msg) \<Rightarrow> m
      | (doc, None) \<Rightarrow>
          (case find (is_elem ''ruleVersionManager'') doc of
             None \<Rightarrow> m
           | Some root \<Rightarrow> xml_import_histories env lib fmt clk (children_of (child root ''histories'') ''history'') m))"

section \<open>Traces and counters\<close>

text \<open>Counts of milliseconds and of steps are cast to \<^verbatim>\<open>int\<close>, counters to \<^verbatim>\<open>long long\<close>.\<close>

definition opt_elem :: "string \<Rightarrow> string option \<Rightarrow> xml list" where
  "opt_elem t v = (case v of None \<Rightarrow> [] | Some s \<Rightarrow> [text_elem t s])"

definition step_elem :: "xml_lib \<Rightarrow> ExecutionTraceStep \<Rightarrow> xml" where
  "step_elem lib s =
     Elem ''step'' []
       ([text_elem ''ruleId'' (ts_ruleName s), text_elem ''stage'' (ts_stage s),
         raw_elem ''success'' (of_bool_text lib (ts_success s)),
         raw_elem ''durationMs'' (of_int_text lib (as_int32 (ns_to_ms (step_duration s)))),
         raw_elem ''durationNs'' (of_llong_text lib (step_duration s))] @
        opt_elem ''message'' (ts_message s) @
        (case ts_dependencyId s of None \<Rightarrow> [] | Some i \<Rightarrow> [raw_elem ''dependencyId'' (of_int_text lib i)]) @
        opt_elem ''expression'' (ts_expression s) @ opt_elem ''action'' (ts_action s))"

definition xml_serialize_trace :: "xml_lib \<Rightarrow> ExecutionTrace \<Rightarrow> string" where
  "xml_serialize_trace lib tr =
     xml_save2 lib
       [Elem ''executionTrace''
          [(''workflowId'', of_int_text lib (tr_workflowId tr)), (''overallSuccess'', of_bool_text lib (tr_overallSuccess tr))]
          [raw_elem ''totalDurationMs'' (of_int_text lib (as_int32 (ns_to_ms (totalDuration tr)))),
           raw_elem ''totalDurationNs'' (of_llong_text lib (totalDuration tr)),
           raw_elem ''stepCount'' (of_int_text lib (as_int32 (int (length (tr_steps tr))))),
           Elem ''steps'' [] (map (step_elem lib) (tr_steps tr))]]"

definition counter_elem :: "xml_lib \<Rightarrow> string \<Rightarrow> 64 word \<Rightarrow> xml" where
  "counter_elem lib t c = raw_elem t (of_llong_text lib (sint c))"

definition xml_serialize_counters :: "'d ser_env \<Rightarrow> xml_lib \<Rightarrow> ('d \<Rightarrow> string) \<Rightarrow> Counters \<Rightarrow> string" where
  "xml_serialize_counters env lib ftext counters =
     (let c = getCounters counters
      in xml_save2 lib
           [Elem ''performanceCounters'' []
              [counter_elem lib ''totalRulesExecuted'' (totalRulesExecuted c),
               counter_elem lib ''totalRulesSuccessful'' (totalRulesSuccessful c),
               counter_elem lib ''totalRulesFailed'' (totalRulesFailed c),
               counter_elem lib ''totalRulesSkipped'' (totalRulesSkipped c),
               counter_elem lib ''totalRulesCached'' (totalRulesCached c),
               counter_elem lib ''totalRulesTimedOut'' (totalRulesTimedOut c),
               counter_elem lib ''totalRulesRateLimited'' (totalRulesRateLimited c),
               counter_elem lib ''totalCompileCount'' (totalCompileCount c),
               counter_elem lib ''totalCompileFailures'' (totalCompileFailures c),
               counter_elem lib ''totalExecutionTimeNs'' (totalExecutionTimeNs c),
               raw_elem ''averageExecutionTimeMs'' (ftext (quot_float_ms env (getAverageExecutionTimeMs counters))),
               raw_elem ''successRate'' (ftext (quot_float env (getSuccessRate counters))),
               raw_elem ''cacheHitRate'' (ftext (quot_float env (getCacheHitRate counters)))]])"

section \<open>What comes back\<close>

text \<open>The texts of a version end at a zero byte.\<close>

definition c_str_version :: "RuleVersion \<Rightarrow> RuleVersion" where
  "c_str_version v =
     v\<lparr>v_versionId := c_str (v_versionId v), v_ruleName := c_str (v_ruleName v), v_expression := c_str (v_expression v),
       v_action := c_str (v_action v), v_author := c_str (v_author v), v_changeSummary := c_str (v_changeSummary v),
       v_parentVersionId := c_str (v_parentVersionId v)\<rparr>"

text \<open>What is used of the texts: a formatted time has no zero bytes and can be read, and no text is empty.\<close>

definition texts_ok :: "'d ser_env \<Rightarrow> xml_lib \<Rightarrow> bool" where
  "texts_ok env lib \<longleftrightarrow>
     (\<forall>v. of_int_text lib v \<noteq> []) \<and> (\<forall>b. of_bool_text lib b \<noteq> []) \<and>
     (\<forall>t. put_utc env t \<noteq> [] \<and> c_str (put_utc env t) = put_utc env t \<and> get_ok env (put_utc env t))"

lemma xml_version_written:
  assumes "texts_ok env lib" "xml_lib_ok lib" "int_fits (v_priority v)"
  shows "xml_version env lib clk (version_elem env lib v) n = (relocated env (c_str_version v), n)"
  using assms
  by (simp add: xml_version_def version_elem_def text_child_def child_value_def child_def text_elem_def raw_elem_def Let_def
      texts_ok_def xml_lib_ok_def parseIsoTime_def relocated_def c_str_version_def)

lemma xml_versions_written:
  assumes "texts_ok env lib" "xml_lib_ok lib" "list_all (\<lambda>v. int_fits (v_priority v)) vs"
  shows "xml_versions env lib clk (map (version_elem env lib) vs) h n =
    (h\<lparr>h_versions := h_versions h @ map (\<lambda>v. relocated env (c_str_version v)) vs\<rparr>, n)"
  using assms(3) by (induction vs arbitrary: h) (simp_all add: xml_version_written [OF assms(1,2)] addVersion_def)

lemma version_elems: "filter (is_elem ''version'') (map (version_elem env lib) vs) = map (version_elem env lib) vs"
  by (induction vs) (simp_all add: version_elem_def)

text \<open>A history that the library reads back as the document that was written comes back up to zero bytes and times.\<close>

lemma xml_history_roundtrip:
  assumes "texts_ok env lib" "xml_lib_ok lib" "list_all (\<lambda>v. int_fits (v_priority v)) (h_versions h)"
    and "xml_load lib (c_str (xml_serialize_history env lib h)) = (history_doc env lib h, None)"
  shows "xml_deserialize_history env lib clk (xml_serialize_history env lib h) n =
    (Some \<lparr>h_ruleName = c_str (h_ruleName h), h_versions = map (\<lambda>v. relocated env (c_str_version v)) (h_versions h)\<rparr>, n)"
  using assms(4)
  by (simp add: xml_deserialize_history_def history_doc_def children_of_def child_def version_elems string_attr_def
      xml_versions_written [OF assms(1-3)] empty_history_def)

text \<open>The node of an exported history holds exactly what the import takes out of it.\<close>

lemma history_node_inner:
  assumes "xml_load lib (c_str (xml_serialize_history env lib h)) = (history_doc env lib h, None)"
  shows "inner_doc (history_node env lib h) = history_doc env lib h"
  using assms by (simp add: history_node_def inner_doc_def history_doc_def string_attr_def)

text \<open>The first version whose rule name is no number ends the import; what was imported before stays.\<close>

lemma import_stops:
  assumes "list_all (\<lambda>v. stoi (v_ruleName v) \<noteq> None) us" "stoi (v_ruleName v) = None"
  shows "import_versions fmt clk (us @ v # vs) m = (False, snd (import_versions fmt clk us m))"
  using assms by (induction us arbitrary: m) (auto split: option.split)

end
