(* ===== verification/Db_Repository.thy ===== *)
theory Db_Repository
  imports Rule_Repository Rule_Versioning
begin

text \<open>
  The database extension (extensions/db/src/db_repository.cpp, db_bool.hpp): rules, workflows and versions in SQL tables.
  A table is the list of its rows, a nullable column an option; the time stamps of rules and workflows, which nothing
  reads, and the table of rule parameters, which nothing writes, are left out. Every statement has the meaning of its SQL text with the declared primary keys. Arguments:
  \<open>fk\<close>, whether the backend enforces foreign keys; \<open>fault\<close>, which statements of a call fail; \<open>ord\<close>, the order
  in which a query without ORDER BY returns its rows. A transaction that is not committed is rolled back.
\<close>

section \<open>Tables\<close>

record rule_row =
  rr_id :: int
  rr_name :: "string option"
  rr_expression :: "string option"
  rr_action :: "string option"
  rr_description :: "string option"
  rr_is_active :: "int option"
  rr_priority :: "int option"
  rr_timeout_ms :: "int option"
  rr_cache_duration_ms :: "int option"
  rr_depends_on :: "string option"

record workflow_row =
  wr_id :: int
  wr_name :: "string option"
  wr_description :: "string option"
  wr_is_active :: "int option"

record link_row =
  ln_workflow :: int
  ln_rule :: int
  ln_order :: int

record version_row =
  vr_version_id :: string
  vr_rule_id :: int
  vr_expression :: "string option"
  vr_action :: "string option"
  vr_priority :: "int option"
  vr_is_active :: "int option"
  vr_created_at :: "int option"
  vr_author :: "string option"
  vr_change_summary :: "string option"
  vr_parent :: "string option"

record database =
  t_rules :: "rule_row list"
  t_workflows :: "workflow_row list"
  t_links :: "link_row list"
  t_versions :: "version_row list"

text \<open>The message of a database error is the backend's.\<close>

definition db_error :: exn where
  "db_error = StdException RuntimeError ''database''"

definition DbBool_to_base :: "bool \<Rightarrow> int" where
  "DbBool_to_base v = (if v then 1 else 0)"

definition DbBool_from_base :: "int option \<Rightarrow> bool" where
  "DbBool_from_base v = (case v of None \<Rightarrow> False | Some n \<Rightarrow> n \<noteq> 0)"

definition column :: "'a \<Rightarrow> 'a option \<Rightarrow> 'a" where
  "column dflt v = (case v of None \<Rightarrow> dflt | Some x \<Rightarrow> x)"

section \<open>Rules\<close>

text \<open>An absent duration is stored as -1, an absent dependency as the empty text; durations are cast to \<^verbatim>\<open>int\<close>.\<close>

definition ms_column :: "int option \<Rightarrow> int" where
  "ms_column t = (case t of None \<Rightarrow> - 1 | Some v \<Rightarrow> as_int32 v)"

definition rule_to_row :: "RuleData \<Rightarrow> rule_row" where
  "rule_to_row d =
     \<lparr>rr_id = rule_id d, rr_name = Some (rule_name d), rr_expression = Some (expression d), rr_action = Some (action d),
      rr_description = Some (description d), rr_is_active = Some (DbBool_to_base (isActive d)),
      rr_priority = Some (priority d), rr_timeout_ms = Some (ms_column (timeout d)),
      rr_cache_duration_ms = Some (ms_column (cacheDuration d)),
      rr_depends_on = Some (column [] (dependsOnRuleName d))\<rparr>"

definition ms_value :: "int option \<Rightarrow> int option" where
  "ms_value v = (let t = column (- 1) v in if 0 \<le> t then Some t else None)"

definition rowToRule :: "rule_row \<Rightarrow> RuleData" where
  "rowToRule row =
     default_rule_data\<lparr>rule_id := rr_id row, rule_name := column [] (rr_name row),
       expression := column [] (rr_expression row), action := column [] (rr_action row),
       description := column [] (rr_description row), isActive := (column 1 (rr_is_active row) \<noteq> 0),
       priority := column 0 (rr_priority row), timeout := ms_value (rr_timeout_ms row),
       cacheDuration := ms_value (rr_cache_duration_ms row),
       dependsOnRuleName := (let s = column [] (rr_depends_on row) in if s = [] then None else Some s)\<rparr>"

definition insertRule :: "RuleData \<Rightarrow> database \<Rightarrow> database" where
  "insertRule d db = db\<lparr>t_rules := t_rules db @ [rule_to_row d]\<rparr>"

definition updateRule :: "RuleData \<Rightarrow> database \<Rightarrow> database" where
  "updateRule d db = db\<lparr>t_rules := map (\<lambda>row. if rr_id row = rule_id d then rule_to_row d else row) (t_rules db)\<rparr>"

definition count_rules :: "int \<Rightarrow> database \<Rightarrow> nat" where
  "count_rules i db = length (filter (\<lambda>row. rr_id row = i) (t_rules db))"

text \<open>Statements: 0 counts, 1 inserts or updates, 2 commits.\<close>

definition dr_save :: "(nat \<Rightarrow> bool) \<Rightarrow> Rule \<Rightarrow> database \<Rightarrow> (exn + unit) \<times> database" where
  "dr_save fault r db =
     (if fault 0 \<or> fault 1 \<or> fault 2 then (Inl db_error, db)
      else if count_rules (rid r) db > 0 then (Inr (), updateRule (rdata r) db)
      else (Inr (), insertRule (rdata r) db))"

definition dr_findById :: "database \<Rightarrow> int \<Rightarrow> RuleData option" where
  "dr_findById db i = map_option rowToRule (find (\<lambda>row. rr_id row = i) (t_rules db))"

definition dr_findAll :: "(rule_row list \<Rightarrow> rule_row list) \<Rightarrow> database \<Rightarrow> RuleData list" where
  "dr_findAll ord db = map rowToRule (ord (t_rules db))"

text \<open>Deleting a rule cascades to the links when foreign keys are enforced.\<close>

definition dr_remove :: "bool \<Rightarrow> int \<Rightarrow> database \<Rightarrow> database" where
  "dr_remove fk i db =
     db\<lparr>t_rules := filter (\<lambda>row. rr_id row \<noteq> i) (t_rules db),
        t_links := (if fk then filter (\<lambda>l. ln_rule l \<noteq> i) (t_links db) else t_links db)\<rparr>"

definition dr_exists :: "database \<Rightarrow> int \<Rightarrow> bool" where
  "dr_exists db i \<longleftrightarrow> count_rules i db > 0"

definition dr_count :: "database \<Rightarrow> nat" where
  "dr_count db = length (t_rules db)"

definition dr_clear :: "bool \<Rightarrow> database \<Rightarrow> database" where
  "dr_clear fk db = db\<lparr>t_rules := [], t_links := (if fk then [] else t_links db)\<rparr>"

section \<open>Workflows\<close>

definition workflow_to_row :: "'h Workflow \<Rightarrow> workflow_row" where
  "workflow_to_row wk =
     \<lparr>wr_id = wf_id wk, wr_name = Some (wf_name wk), wr_description = Some (wf_description wk),
      wr_is_active = Some (DbBool_to_base (wf_isActive wk))\<rparr>"

text \<open>The links of the rules, one statement each, from position \<open>i\<close> on; the primary key is the pair of
  workflow and rule.\<close>

fun insert_links :: "bool \<Rightarrow> (nat \<Rightarrow> bool) \<Rightarrow> int \<Rightarrow> nat \<Rightarrow> Rule list \<Rightarrow> database \<Rightarrow> database option" where
  "insert_links fk fault wid i [] db = Some db"
| "insert_links fk fault wid i (r # rs) db =
     (if fault (3 + i) \<or> list_ex (\<lambda>l. ln_workflow l = wid \<and> ln_rule l = rid r) (t_links db) \<or>
         (fk \<and> count_rules (rid r) db = 0)
      then None
      else insert_links fk fault wid (i + 1) rs
        (db\<lparr>t_links := t_links db @ [\<lparr>ln_workflow = wid, ln_rule = rid r, ln_order = as_int32 (int i)\<rparr>]\<rparr>))"

definition save_workflow_row :: "'h Workflow \<Rightarrow> database \<Rightarrow> database" where
  "save_workflow_row wk db =
     (if list_ex (\<lambda>row. wr_id row = wf_id wk) (t_workflows db)
      then db\<lparr>t_workflows := map (\<lambda>row. if wr_id row = wf_id wk then workflow_to_row wk else row) (t_workflows db),
              t_links := filter (\<lambda>l. ln_workflow l \<noteq> wf_id wk) (t_links db)\<rparr>
      else db\<lparr>t_workflows := t_workflows db @ [workflow_to_row wk]\<rparr>)"

text \<open>Statements: 0 counts, 1 updates or inserts, 2 deletes the old links, 3 and following insert links, the last commits.\<close>

definition dw_save :: "bool \<Rightarrow> (nat \<Rightarrow> bool) \<Rightarrow> 'h Workflow \<Rightarrow> database \<Rightarrow> (exn + unit) \<times> database" where
  "dw_save fk fault wk db =
     (if fault 0 \<or> fault 1 \<or> (list_ex (\<lambda>row. wr_id row = wf_id wk) (t_workflows db) \<and> fault 2) then (Inl db_error, db)
      else case insert_links fk fault (wf_id wk) 0 (wf_rules wk) (save_workflow_row wk db) of
             None \<Rightarrow> (Inl db_error, db)
           | Some db' \<Rightarrow> if fault (3 + length (wf_rules wk)) then (Inl db_error, db) else (Inr (), db'))"

definition workflow_rules :: "int \<Rightarrow> database \<Rightarrow> RuleData list" where
  "workflow_rules wid db =
     concat (map (\<lambda>l. map rowToRule (filter (\<lambda>row. rr_id row = ln_rule l) (t_rules db)))
       (sort_key ln_order (filter (\<lambda>l. ln_workflow l = wid) (t_links db))))"

fun number_rules :: "nat \<Rightarrow> RuleData list \<Rightarrow> Rule list" where
  "number_rules a [] = []"
| "number_rules a (d # ds) = Rule a d [] # number_rules (a + 1) ds"

text \<open>The active flag is read without a default, which throws on a null column. \<open>a\<close>: the address of the first new rule.\<close>

definition dw_findById :: "nat \<Rightarrow> database \<Rightarrow> int \<Rightarrow> exn + 'h Workflow option" where
  "dw_findById a db i =
     (case find (\<lambda>row. wr_id row = i) (t_workflows db) of
        None \<Rightarrow> Inr None
      | Some row \<Rightarrow>
          (case wr_is_active row of
             None \<Rightarrow> Inl db_error
           | Some act \<Rightarrow>
               Inr (Some (default_workflow\<lparr>wf_id := wr_id row, wf_name := column [] (wr_name row),
                 wf_description := column [] (wr_description row), wf_isActive := (act \<noteq> 0),
                 wf_rules := number_rules a (workflow_rules i db)\<rparr>))))"

fun find_workflows :: "nat \<Rightarrow> database \<Rightarrow> int list \<Rightarrow> exn + 'h Workflow list" where
  "find_workflows a db [] = Inr []"
| "find_workflows a db (i # is) =
     (case dw_findById a db i of
        Inl e \<Rightarrow> Inl e
      | Inr found \<Rightarrow>
          (case find_workflows (a + length (workflow_rules i db)) db is of
             Inl e \<Rightarrow> Inl e
           | Inr wks \<Rightarrow> Inr ((case found of None \<Rightarrow> [] | Some wk \<Rightarrow> [wk]) @ wks)))"

definition dw_findAll :: "nat \<Rightarrow> (int list \<Rightarrow> int list) \<Rightarrow> database \<Rightarrow> exn + 'h Workflow list" where
  "dw_findAll a ord db = find_workflows a db (ord (map wr_id (t_workflows db)))"

text \<open>Two statements without a transaction.\<close>

definition dw_remove :: "(nat \<Rightarrow> bool) \<Rightarrow> int \<Rightarrow> database \<Rightarrow> (exn + unit) \<times> database" where
  "dw_remove fault i db =
     (if fault 0 then (Inl db_error, db)
      else let db1 = db\<lparr>t_links := filter (\<lambda>l. ln_workflow l \<noteq> i) (t_links db)\<rparr>
           in if fault 1 then (Inl db_error, db1)
              else (Inr (), db1\<lparr>t_workflows := filter (\<lambda>row. wr_id row \<noteq> i) (t_workflows db1)\<rparr>))"

definition dw_exists :: "database \<Rightarrow> int \<Rightarrow> bool" where
  "dw_exists db i \<longleftrightarrow> list_ex (\<lambda>row. wr_id row = i) (t_workflows db)"

definition dw_count :: "database \<Rightarrow> nat" where
  "dw_count db = length (t_workflows db)"

definition dw_clear :: "database \<Rightarrow> database" where
  "dw_clear db = db\<lparr>t_links := [], t_workflows := []\<rparr>"

section \<open>Versions\<close>

text \<open>The creation time of a version is not part of the INSERT: the backend's clock \<open>t\<close> sets it.\<close>

definition saveVersion :: "(nat \<Rightarrow> bool) \<Rightarrow> int \<Rightarrow> RuleVersion \<Rightarrow> int \<Rightarrow> database \<Rightarrow> (exn + unit) \<times> database" where
  "saveVersion fault t v ruleId db =
     (if fault 0 \<or> list_ex (\<lambda>row. vr_version_id row = v_versionId v \<and> vr_rule_id row = ruleId) (t_versions db)
      then (Inl db_error, db)
      else (Inr (), db\<lparr>t_versions := t_versions db @
        [\<lparr>vr_version_id = v_versionId v, vr_rule_id = ruleId, vr_expression = Some (v_expression v),
          vr_action = Some (v_action v), vr_priority = Some (v_priority v),
          vr_is_active = Some (DbBool_to_base (v_isActive v)), vr_created_at = Some t, vr_author = Some (v_author v),
          vr_change_summary = Some (v_changeSummary v), vr_parent = Some (v_parentVersionId v)\<rparr>]\<rparr>))"

text \<open>\<open>mk\<close>: a stored UTC time stamp through \<^verbatim>\<open>std::mktime\<close>, which takes it for local time; a null
  column leaves the epoch.\<close>

definition rowToVersion :: "(int \<Rightarrow> int) \<Rightarrow> int \<Rightarrow> version_row \<Rightarrow> RuleVersion" where
  "rowToVersion mk ruleId row =
     \<lparr>v_versionId = vr_version_id row, v_ruleName = std_to_string ruleId, v_expression = column [] (vr_expression row),
      v_action = column [] (vr_action row), v_priority = column 0 (vr_priority row),
      v_isActive = (column 1 (vr_is_active row) \<noteq> 0), v_createdAt = (case vr_created_at row of None \<Rightarrow> 0 | Some t \<Rightarrow> mk t),
      v_author = column [] (vr_author row), v_changeSummary = column [] (vr_change_summary row),
      v_parentVersionId = column [] (vr_parent row)\<rparr>"

text \<open>Rows of equal time come in the order \<open>ord\<close> of the backend; a null time counts as the epoch.\<close>

definition findVersionsForRule ::
    "(version_row list \<Rightarrow> version_row list) \<Rightarrow> (int \<Rightarrow> int) \<Rightarrow> database \<Rightarrow> int \<Rightarrow> RuleVersion list" where
  "findVersionsForRule ord mk db ruleId =
     map (rowToVersion mk ruleId)
       (sort_key (\<lambda>row. - column 0 (vr_created_at row)) (ord (filter (\<lambda>row. vr_rule_id row = ruleId) (t_versions db))))"

definition findVersion :: "(int \<Rightarrow> int) \<Rightarrow> database \<Rightarrow> int \<Rightarrow> string \<Rightarrow> RuleVersion option" where
  "findVersion mk db ruleId versionId =
     map_option (rowToVersion mk ruleId)
       (find (\<lambda>row. vr_rule_id row = ruleId \<and> vr_version_id row = versionId) (t_versions db))"

definition removeAllVersionsForRule :: "int \<Rightarrow> database \<Rightarrow> database" where
  "removeAllVersionsForRule ruleId db = db\<lparr>t_versions := filter (\<lambda>row. vr_rule_id row \<noteq> ruleId) (t_versions db)\<rparr>"

section \<open>The rule table refines the map\<close>

text \<open>Of a rule's data the limiter and the children are lost, a duration keeps 32 bits and is lost
  when these are negative, and an empty dependency is none.\<close>

definition db_stored :: "RuleData \<Rightarrow> RuleData" where
  "db_stored d =
     d\<lparr>rateLimiter := None, timeout := ms_value (Some (ms_column (timeout d))),
       cacheDuration := ms_value (Some (ms_column (cacheDuration d))),
       dependsOnRuleName := (if dependsOnRuleName d = Some [] then None else dependsOnRuleName d)\<rparr>"

lemma rowToRule_written: "rowToRule (rule_to_row d) = db_stored d"
  by (cases d; cases "dependsOnRuleName d")
     (auto simp: rowToRule_def rule_to_row_def db_stored_def column_def default_rule_data_def DbBool_to_base_def)

lemma rule_to_row_id [simp]: "rr_id (rule_to_row d) = rule_id d"
  by (simp add: rule_to_row_def)

lemma find_updated:
  "find (\<lambda>row. rr_id row = i) (map (\<lambda>row. if rr_id row = rule_id d then rule_to_row d else row) rows) =
     (if i = rule_id d then (if \<exists>row\<in>set rows. rr_id row = i then Some (rule_to_row d) else None)
      else find (\<lambda>row. rr_id row = i) rows)"
  by (induction rows) auto

lemma count_pos_iff: "count_rules i db > 0 \<longleftrightarrow> (\<exists>row\<in>set (t_rules db). rr_id row = i)"
  by (auto simp: count_rules_def filter_empty_conv)

lemma dr_exists_find: "dr_exists db i \<longleftrightarrow> dr_findById db i \<noteq> None"
  by (auto simp: dr_exists_def count_pos_iff dr_findById_def find_None_iff)

definition dr_good :: "database \<Rightarrow> bool" where
  "dr_good db \<longleftrightarrow> distinct (map rr_id (t_rules db))"

definition dr_save_done :: "Rule \<Rightarrow> database \<Rightarrow> database" where
  "dr_save_done r db = snd (dr_save (\<lambda>_. False) r db)"

lemma dr_save_find: "dr_findById (dr_save_done r db) = (dr_findById db)(rid r \<mapsto> db_stored (rdata r))"
proof (cases "count_rules (rid r) db > 0")
  case True
  then show ?thesis
    by (auto simp: fun_eq_iff dr_save_done_def dr_save_def dr_findById_def updateRule_def find_updated rowToRule_written count_pos_iff)
next
  case False
  have app: "find P (xs @ [x]) = (case find P xs of None \<Rightarrow> if P x then Some x else None | Some y \<Rightarrow> Some y)"
    for P and xs :: "rule_row list" and x
    by (induction xs) auto
  have none: "find (\<lambda>row. rr_id row = rid r) (t_rules db) = None"
    using False by (auto simp: count_pos_iff find_None_iff)
  with False show ?thesis
    by (auto simp: fun_eq_iff dr_save_done_def dr_save_def dr_findById_def insertRule_def app rowToRule_written split: option.splits)
qed

lemma dr_save_good: "dr_good db \<Longrightarrow> dr_good (dr_save_done r db)"
proof (cases "count_rules (rid r) db > 0")
  case True
  have ids: "map rr_id (map (\<lambda>row. if rr_id row = rid r then rule_to_row (rdata r) else row) rows) = map rr_id rows" for rows :: "rule_row list"
    by (induction rows) auto
  assume "dr_good db"
  with True ids [of "t_rules db"] show ?thesis
    by (simp add: dr_good_def dr_save_done_def dr_save_def updateRule_def del: map_map)
next
  case False
  then have "rid r \<notin> rr_id ` set (t_rules db)" by (auto simp: count_pos_iff)
  moreover assume "dr_good db"
  ultimately show ?thesis using False by (simp add: dr_good_def dr_save_done_def dr_save_def insertRule_def)
qed

lemma dr_remove_find: "dr_findById (dr_remove fk i db) = (dr_findById db)(i := None)"
proof -
  have "find (\<lambda>row. rr_id row = k) (filter (\<lambda>row. rr_id row \<noteq> i) rows) =
      (if k = i then None else find (\<lambda>row. rr_id row = k) rows)" for k and rows :: "rule_row list"
    by (induction rows) auto
  then show ?thesis by (auto simp: fun_eq_iff dr_findById_def dr_remove_def)
qed

interpretation dr: rule_repository dr_save_done "dr_remove fk" dr_findById dr_exists "\<lambda>r. [rdata r]" db_stored dr_good
  by unfold_locales
     (simp_all add: dr_save_find enter_rule_def dr_remove_find dr_exists_find dr_save_good,
      simp add: dr_good_def dr_remove_def distinct_map_filter)

section \<open>Workflows come back\<close>

definition links_of :: "int \<Rightarrow> nat \<Rightarrow> Rule list \<Rightarrow> link_row list" where
  "links_of wid i rs = map (\<lambda>(k, r). \<lparr>ln_workflow = wid, ln_rule = rid r, ln_order = as_int32 (int k)\<rparr>) (enumerate i rs)"

lemma links_of_simps [simp]:
  "links_of wid i [] = []"
  "links_of wid i (r # rs) = \<lparr>ln_workflow = wid, ln_rule = rid r, ln_order = as_int32 (int i)\<rparr> # links_of wid (Suc i) rs"
  by (simp_all add: links_of_def)

lemma insert_links_Some:
  assumes "insert_links fk fault wid i rs db = Some db'"
  shows "db' = db\<lparr>t_links := t_links db @ links_of wid i rs\<rparr>"
  using assms by (induction fk fault wid i rs db rule: insert_links.induct) (auto split: if_splits)

lemma insert_links_iff:
  assumes "\<forall>k. \<not> fault k"
  shows "(\<exists>db'. insert_links fk fault wid i rs db = Some db') \<longleftrightarrow>
    distinct (map rid rs) \<and> (\<forall>r\<in>set rs. \<forall>l\<in>set (t_links db). \<not> (ln_workflow l = wid \<and> ln_rule l = rid r)) \<and>
    (fk \<longrightarrow> (\<forall>r\<in>set rs. count_rules (rid r) db > 0))"
  using assms
proof (induction fk fault wid i rs db rule: insert_links.induct)
  case (2 fk fault wid i r rs db)
  let ?l = "\<lparr>ln_workflow = wid, ln_rule = rid r, ln_order = as_int32 (int i)\<rparr>"
  show ?case
  proof (cases "list_ex (\<lambda>l. ln_workflow l = wid \<and> ln_rule l = rid r) (t_links db) \<or> (fk \<and> count_rules (rid r) db = 0)")
    case True
    then show ?thesis by (auto simp: list_ex_iff)
  next
    case False
    then have step: "insert_links fk fault wid i (r # rs) db = insert_links fk fault wid (i + 1) rs (db\<lparr>t_links := t_links db @ [?l]\<rparr>)"
      using "2.prems" by auto
    let ?db = "db\<lparr>t_links := t_links db @ [?l]\<rparr>"
    have count: "count_rules k ?db = count_rules k db" for k by (simp add: count_rules_def)
    have own: "\<forall>l\<in>set (t_links db). \<not> (ln_workflow l = wid \<and> ln_rule l = rid r)" "fk \<longrightarrow> count_rules (rid r) db > 0"
      using False by (auto simp: list_ex_iff)
    have links: "(\<forall>l\<in>set (t_links ?db). \<not> (ln_workflow l = wid \<and> ln_rule l = k)) \<longleftrightarrow>
        rid r \<noteq> k \<and> (\<forall>l\<in>set (t_links db). \<not> (ln_workflow l = wid \<and> ln_rule l = k))" for k
      by auto
    have ih: "(\<exists>db'. insert_links fk fault wid (i + 1) rs ?db = Some db') \<longleftrightarrow>
        distinct (map rid rs) \<and> (\<forall>q\<in>set rs. rid r \<noteq> rid q \<and> (\<forall>l\<in>set (t_links db). \<not> (ln_workflow l = wid \<and> ln_rule l = rid q))) \<and>
        (fk \<longrightarrow> (\<forall>q\<in>set rs. count_rules (rid q) db > 0))"
      unfolding links [symmetric] count [symmetric] by (rule "2.IH") (use False "2.prems" in auto)
    have dist: "distinct (map rid (r # rs)) \<longleftrightarrow> distinct (map rid rs) \<and> (\<forall>q\<in>set rs. rid r \<noteq> rid q)"
      by (auto simp: image_iff)
    show ?thesis unfolding step ih dist using own by (simp add: ball_conj_distrib)
  qed
qed simp

text \<open>The tables as their keys keep them: unique identifiers, and links of workflows that exist.\<close>

definition db_good :: "database \<Rightarrow> bool" where
  "db_good db \<longleftrightarrow>
     dr_good db \<and> distinct (map wr_id (t_workflows db)) \<and>
     (\<forall>l\<in>set (t_links db). \<exists>row\<in>set (t_workflows db). wr_id row = ln_workflow l)"

lemma save_row_frame [simp]: "t_rules (save_workflow_row wk db) = t_rules db"
  by (simp add: save_workflow_row_def)

lemma save_row_links:
  assumes "db_good db"
  shows "\<forall>l\<in>set (t_links (save_workflow_row wk db)). ln_workflow l \<noteq> wf_id wk"
proof (cases "list_ex (\<lambda>row. wr_id row = wf_id wk) (t_workflows db)")
  case True
  then show ?thesis by (simp add: save_workflow_row_def)
next
  case False
  have "ln_workflow l \<noteq> wf_id wk" if "l \<in> set (t_links db)" for l
    using assms that False by (fastforce simp: db_good_def list_ex_iff)
  with False show ?thesis by (simp add: save_workflow_row_def)
qed

lemma find_saved_row: "find (\<lambda>row. wr_id row = wf_id wk) (t_workflows (save_workflow_row wk db)) = Some (workflow_to_row wk)"
proof -
  have id: "wr_id (workflow_to_row wk) = wf_id wk" by (simp add: workflow_to_row_def)
  have upd: "list_ex (\<lambda>row. wr_id row = wf_id wk) rows \<Longrightarrow>
      find (\<lambda>row. wr_id row = wf_id wk) (map (\<lambda>row. if wr_id row = wf_id wk then workflow_to_row wk else row) rows) =
      Some (workflow_to_row wk)" for rows
    by (induction rows) (auto simp: id)
  have app: "\<not> list_ex (\<lambda>row. wr_id row = wf_id wk) rows \<Longrightarrow>
      find (\<lambda>row. wr_id row = wf_id wk) (rows @ [workflow_to_row wk]) = Some (workflow_to_row wk)" for rows
    by (induction rows) (auto simp: id)
  show ?thesis using upd app by (simp add: save_workflow_row_def)
qed

lemma links_sorted:
  assumes "i + length rs \<le> 2 ^ 31"
  shows "sorted (map ln_order (links_of wid i rs))"
proof -
  have "map ln_order (links_of wid i rs) = map int [i..<i + length rs]"
    using assms
  proof (induction rs arbitrary: i)
    case (Cons r rs)
    have "as_int32 (int i) = int i" using Cons.prems by (intro as_int_fits) (simp add: int_fits_def)
    with Cons.IH [of "Suc i"] Cons.prems upt_conv_Cons [of i "i + Suc (length rs)"] show ?case by simp
  qed simp
  then show ?thesis by (simp add: sorted_map)
qed

lemma filter_rules_find:
  assumes "dr_good db"
  shows "map rowToRule (filter (\<lambda>row. rr_id row = i) (t_rules db)) = (case dr_findById db i of None \<Rightarrow> [] | Some d \<Rightarrow> [d])"
proof -
  have "distinct (map rr_id rows) \<Longrightarrow>
      map rowToRule (filter (\<lambda>row. rr_id row = i) rows) =
      (case map_option rowToRule (find (\<lambda>row. rr_id row = i) rows) of None \<Rightarrow> [] | Some d \<Rightarrow> [d])" for rows :: "rule_row list"
  proof (induction rows)
    case (Cons row rows)
    have "rr_id row = i \<Longrightarrow> filter (\<lambda>x. rr_id x = i) rows = []"
      using Cons.prems by (auto simp: filter_empty_conv image_iff)
    with Cons show ?case by auto
  qed simp
  with assms show ?thesis by (simp add: dr_good_def dr_findById_def)
qed

lemma joined_rules:
  assumes "dr_good db"
  shows "concat (map (\<lambda>l. map rowToRule (filter (\<lambda>row. rr_id row = ln_rule l) (t_rules db))) (links_of wid i rs)) =
    List.map_filter (\<lambda>r. dr_findById db (rid r)) rs"
  by (induction rs arbitrary: i) (simp_all add: map_filter_simps filter_rules_find [OF assms] split: option.split)

lemma number_rules_data [simp]: "map rdata (number_rules a ds) = ds" "list_all (\<lambda>r. childRules r = []) (number_rules a ds)"
  by (induction ds arbitrary: a) simp_all

lemma saved_workflow_found:
  fixes wk :: "'h Workflow"
  assumes good: "db_good db" and len: "length (wf_rules wk) \<le> 2 ^ 31"
    and ins: "insert_links fk fault (wf_id wk) 0 (wf_rules wk) (save_workflow_row wk db) = Some db'"
  shows "dw_findById a db' (wf_id wk) = Inr (Some (default_workflow\<lparr>wf_id := wf_id wk, wf_name := wf_name wk,
    wf_description := wf_description wk, wf_isActive := wf_isActive wk,
    wf_rules := number_rules a (List.map_filter (\<lambda>r. dr_findById db (rid r)) (wf_rules wk))\<rparr> :: 'h Workflow))"
proof -
  let ?db1 = "save_workflow_row wk db" and ?new = "links_of (wf_id wk) 0 (wf_rules wk)"
  have db': "db' = ?db1\<lparr>t_links := t_links ?db1 @ ?new\<rparr>" by (rule insert_links_Some [OF ins])
  have own: "filter (\<lambda>l. ln_workflow l = wf_id wk) (links_of (wf_id wk) i rs) = links_of (wf_id wk) i rs" for i rs
    by (induction rs arbitrary: i) simp_all
  have "filter (\<lambda>l. ln_workflow l = wf_id wk) (t_links db') = ?new"
    using save_row_links [OF good, of wk] by (auto simp: db' own filter_empty_conv)
  moreover have "sort_key ln_order ?new = ?new"
    using links_sorted [of 0 "wf_rules wk"] len by (intro sort_key_id_if_sorted) simp
  moreover have "t_rules db' = t_rules db" by (simp add: db')
  ultimately have rules: "workflow_rules (wf_id wk) db' = List.map_filter (\<lambda>r. dr_findById db (rid r)) (wf_rules wk)"
    using joined_rules [of db] good by (simp add: workflow_rules_def db_good_def)
  have "find (\<lambda>row. wr_id row = wf_id wk) (t_workflows db') = Some (workflow_to_row wk)"
    by (simp add: db' find_saved_row)
  with rules show ?thesis
    by (simp add: dw_findById_def workflow_to_row_def column_def DbBool_to_base_def)
qed

text \<open>Every operation keeps the tables well formed, whether it succeeds or not.\<close>

lemma dw_save_good:
  assumes "db_good db"
  shows "db_good (snd (dw_save fk fault wk db))"
proof (cases "insert_links fk fault (wf_id wk) 0 (wf_rules wk) (save_workflow_row wk db)")
  case None
  with assms show ?thesis by (simp add: dw_save_def)
next
  case (Some db')
  have ids: "map wr_id (map (\<lambda>row. if wr_id row = wf_id wk then workflow_to_row wk else row) rows) = map wr_id rows" for rows
    by (induction rows) (auto simp: workflow_to_row_def)
  have dist: "distinct (map wr_id (t_workflows (save_workflow_row wk db)))"
    using assms ids [of "t_workflows db"]
    by (auto simp: save_workflow_row_def db_good_def list_ex_iff workflow_to_row_def simp del: map_map)
  have set: "wr_id ` set (t_workflows (save_workflow_row wk db)) = insert (wf_id wk) (wr_id ` set (t_workflows db))"
  proof -
    have "set (map wr_id (t_workflows (save_workflow_row wk db))) = insert (wf_id wk) (set (map wr_id (t_workflows db)))"
      unfolding save_workflow_row_def
      by (simp add: ids list_ex_iff workflow_to_row_def del: map_map set_map split: if_split) (auto simp: image_iff, metis)
    then show ?thesis by simp
  qed
  have old: "ln_workflow ` set (t_links (save_workflow_row wk db)) \<subseteq> wr_id ` set (t_workflows db)"
    using assms by (auto simp: save_workflow_row_def db_good_def image_iff Bex_def eq_commute)
  have new: "ln_workflow ` set (links_of wid i rs) \<subseteq> {wid}" for wid i rs
    by (induction rs arbitrary: i) auto
  have links: "ln_workflow ` set (t_links db') \<subseteq> wr_id ` set (t_workflows db')"
    using insert_links_Some [OF Some] old new [of "wf_id wk" 0 "wf_rules wk"] by (auto simp: set image_Un)
  have "\<exists>row\<in>set (t_workflows db'). wr_id row = ln_workflow l" if "l \<in> set (t_links db')" for l
  proof -
    have "ln_workflow l \<in> wr_id ` set (t_workflows db')" using links that by blast
    then show ?thesis by auto
  qed
  with insert_links_Some [OF Some] dist assms have "db_good db'" by (simp add: db_good_def dr_good_def)
  with assms Some show ?thesis by (simp add: dw_save_def)
qed

lemma db_good_kept:
  assumes "db_good db"
  shows "db_good (dr_save_done r db)" "db_good (dr_remove fk i db)" "db_good (dr_clear fk db)"
    "db_good (dw_clear db)" "db_good (removeAllVersionsForRule i db)"
    "db_good (snd (saveVersion fault t v i db))"
proof -
  have frame: "t_workflows (dr_save_done r db) = t_workflows db" "t_links (dr_save_done r db) = t_links db"
    by (simp_all add: dr_save_done_def dr_save_def insertRule_def updateRule_def)
  show "db_good (dr_save_done r db)" using assms dr_save_good [of db r] by (simp add: db_good_def frame)
qed (use assms in \<open>auto simp: db_good_def dr_good_def dr_remove_def dr_clear_def dw_clear_def
  removeAllVersionsForRule_def saveVersion_def distinct_map_filter\<close>)

lemma dw_remove_good: "db_good db \<Longrightarrow> db_good (snd (dw_remove fault i db))"
  by (fastforce simp: db_good_def dr_good_def dw_remove_def Let_def distinct_map_filter)


text \<open>A database with one rule and a workflow of that rule.\<close>

definition sample_db :: database where
  "sample_db = insertRule (sample_data 1 ''x'') \<lparr>t_rules = [], t_workflows = [], t_links = [], t_versions = []\<rparr>"

definition sample_db_workflow :: "unit Workflow" where
  "sample_db_workflow = default_workflow\<lparr>wf_id := 3, wf_name := ''orders'', wf_rules := [Rule 0 (sample_data 1 ''x'') []]\<rparr>"


section \<open>Versions: what comes back\<close>

lemma find_appended: "\<not> list_ex P xs \<Longrightarrow> P x \<Longrightarrow> find P (xs @ [x]) = Some x"
  by (induction xs) auto

lemma saveVersion_refused_iff:
  "(\<exists>e db'. saveVersion fault t v i db = (Inl e, db')) \<longleftrightarrow> fault 0 \<or> findVersion mk db i (v_versionId v) \<noteq> None"
  by (auto simp: saveVersion_def findVersion_def list_ex_iff find_None_iff)

text \<open>A saved version comes back with the database's time in place of its own, taken for local time, and
  with the rule's number in place of the rule's name.\<close>

lemma saved_version_found:
  assumes "saveVersion fault t v i db = (Inr (), db')"
  shows "findVersion mk db' i (v_versionId v) = Some (v\<lparr>v_ruleName := std_to_string i, v_createdAt := mk t\<rparr>)"
proof -
  have new: "\<not> list_ex (\<lambda>row. vr_rule_id row = i \<and> vr_version_id row = v_versionId v) (t_versions db)"
    using assms by (auto simp: saveVersion_def list_ex_iff split: if_splits)
  from assms find_appended [OF new] show ?thesis
    by (auto simp: saveVersion_def findVersion_def rowToVersion_def column_def DbBool_to_base_def split: if_splits)
qed

lemma removed_versions_gone: "findVersion mk (removeAllVersionsForRule i db) i v = None"
  by (simp add: removeAllVersionsForRule_def findVersion_def find_None_iff)

lemma findVersionsForRule_all:
  assumes "\<And>xs. set (ord xs) = set xs"
  shows "v \<in> set (findVersionsForRule ord mk db i) \<longleftrightarrow>
    (\<exists>row\<in>set (t_versions db). vr_rule_id row = i \<and> v = rowToVersion mk i row)"
  using assms by (auto simp: findVersionsForRule_def)

text \<open>A failing second statement of a removal leaves the workflow without its rules.\<close>

lemma dw_remove_not_atomic:
  assumes "\<not> fault 0" "fault 1"
  shows "t_workflows (snd (dw_remove fault i db)) = t_workflows db" "workflow_rules i (snd (dw_remove fault i db)) = []"
  using assms by (simp_all add: dw_remove_def workflow_rules_def)

text \<open>Values that the table of rules does not keep.\<close>

lemma db_duration_lost:
  "ms_value (Some (ms_column (Some (2 ^ 31)))) = None" "ms_value (Some (ms_column (Some (- 5)))) = None"
  by code_simp+

end
