(* ===== verification/Type_Registry.thy ===== *)
theory Type_Registry
  imports Lua_Engine "HOL-Library.Multiset"
begin

text \<open>
  The registration of C++ classes with Lua (include/fastrules/type_registry.hpp, \<^verbatim>\<open>LuaBridge3Backend::bindTypes\<close> in
  src/lua_backend_luabridge.cpp): descriptors with field offsets and method invokers, the metatables made from them
  and the closures that read and write the fields of an object by its address. Memory is a map from addresses to bytes
  (little-endian) and, for the objects of type \<^verbatim>\<open>std::string\<close>, from addresses to their text; a byte
  written into a string object destroys it. Sizes are those of the LP64 model.
\<close>

section \<open>Memory\<close>

record memory =
  bytes :: "nat \<Rightarrow> 8 word"
  strs :: "nat \<rightharpoonup> string"

fun load :: "nat \<Rightarrow> (nat \<Rightarrow> 8 word) \<Rightarrow> nat \<Rightarrow> nat" where
  "load 0 m a = 0"
| "load (Suc n) m a = unat (m a) + 256 * load n m (a + 1)"

fun store :: "nat \<Rightarrow> (nat \<Rightarrow> 8 word) \<Rightarrow> nat \<Rightarrow> nat \<Rightarrow> (nat \<Rightarrow> 8 word)" where
  "store 0 m a x = m"
| "store (Suc n) m a x = store n (m(a := word_of_nat (x mod 256))) (a + 1) (x div 256)"

definition sizeof_string :: nat where
  "sizeof_string = 32"

definition write_bytes :: "nat \<Rightarrow> nat \<Rightarrow> nat \<Rightarrow> memory \<Rightarrow> memory" where
  "write_bytes n a x mem =
     mem\<lparr>bytes := store n (bytes mem) a x,
         strs := (\<lambda>s. if s + sizeof_string \<le> a \<or> a + n \<le> s then strs mem s else None)\<rparr>"

section \<open>Descriptors\<close>

record TypeField =
  tf_name :: string
  tf_offset :: nat
  tf_luaType :: string

text \<open>An invoker gets the arguments after the object, the object's address and the memory; it returns the values pushed.\<close>

type_synonym invoker = "lua_value list \<Rightarrow> nat \<Rightarrow> memory \<Rightarrow> lua_value list \<times> memory"

record TypeMethod =
  tm_name :: string
  tm_invoker :: invoker

record full_descriptor = TypeDescriptor +
  td_fields :: "TypeField list"
  td_methods :: "TypeMethod list"

definition getLuaType :: "cpp_type \<Rightarrow> string" where
  "getLuaType t =
     (if t = TBool then ''bool''
      else if t \<in> {TInt, TUInt, TLong, TULong, TShort, TUShort, TLongLong, TULongLong, TChar} then ''int''
      else if t \<in> {TDouble, TFloat} then ''double''
      else if t = TString then ''string'' else ''unknown'')"

definition bind_field :: "string \<Rightarrow> nat \<Rightarrow> cpp_type \<Rightarrow> full_descriptor \<Rightarrow> full_descriptor" where
  "bind_field name offset t d =
     d\<lparr>td_fields := td_fields d @ [\<lparr>tf_name = name, tf_offset = offset, tf_luaType = getLuaType t\<rparr>]\<rparr>"

definition addMethod :: "string \<Rightarrow> invoker \<Rightarrow> full_descriptor \<Rightarrow> full_descriptor" where
  "addMethod name ivk d = d\<lparr>td_methods := td_methods d @ [\<lparr>tm_name = name, tm_invoker = ivk\<rparr>]\<rparr>"

section \<open>Methods\<close>

text \<open>The argument types that a method may have, and conversions that the virtual machine and the compiler make.\<close>

datatype arg_type = AInt | ADouble | AFloat | ABool | AString

record conversions =
  double2float :: "64 word \<Rightarrow> 32 word"
  longdouble2double :: "80 word \<Rightarrow> 64 word"
  number2int_exact :: "64 word \<Rightarrow> int option"
  str2int :: "string \<Rightarrow> int option"

text \<open>\<^verbatim>\<open>lua_tointeger\<close>: 0 for what has no exact integer value.\<close>

fun lua_tointeger :: "conversions \<Rightarrow> lua_value \<Rightarrow> int" where
  "lua_tointeger cv (LInteger i) = i"
| "lua_tointeger cv (LNumber d) = (case number2int_exact cv d of None \<Rightarrow> 0 | Some i \<Rightarrow> i)"
| "lua_tointeger cv (LString s) = (case str2int cv s of None \<Rightarrow> 0 | Some i \<Rightarrow> i)"
| "lua_tointeger cv _ = 0"

fun readArg :: "'h lua_vm \<Rightarrow> conversions \<Rightarrow> arg_type \<Rightarrow> lua_value \<Rightarrow> any_value" where
  "readArg vm cv AInt v = VInt (signed_take_bit 31 (lua_tointeger cv v))"
| "readArg vm cv ADouble v = VDouble (lv_toNumber vm v)"
| "readArg vm cv AFloat v = VFloat (double2float cv (lv_toNumber vm v))"
| "readArg vm cv ABool v = VBool (lv_toBool v)"
| "readArg vm cv AString v = VString (lv_toString vm v)"

text \<open>An index past the arguments reads as nil.\<close>

fun readArgs :: "'h lua_vm \<Rightarrow> conversions \<Rightarrow> arg_type list \<Rightarrow> lua_value list \<Rightarrow> any_value list" where
  "readArgs vm cv [] args = []"
| "readArgs vm cv (t # ts) args =
     readArg vm cv t (case args of [] \<Rightarrow> LNil | v # _ \<Rightarrow> v) # readArgs vm cv ts (tl args)"

fun pushReturn :: "'h lua_vm \<Rightarrow> conversions \<Rightarrow> any_value \<Rightarrow> lua_value" where
  "pushReturn vm cv (VBool b) = LBool b"
| "pushReturn vm cv (VInt i) = LInteger (to_lua_Integer i)"
| "pushReturn vm cv (VUInt i) = LInteger (to_lua_Integer i)"
| "pushReturn vm cv (VShort i) = LInteger (to_lua_Integer i)"
| "pushReturn vm cv (VUShort i) = LInteger (to_lua_Integer i)"
| "pushReturn vm cv (VLong i) = LInteger (to_lua_Integer i)"
| "pushReturn vm cv (VULong i) = LInteger (to_lua_Integer i)"
| "pushReturn vm cv (VLongLong i) = LInteger (to_lua_Integer i)"
| "pushReturn vm cv (VULongLong i) = LInteger (to_lua_Integer i)"
| "pushReturn vm cv (VChar c) = LInteger (signed_take_bit 7 (of_char c))"
| "pushReturn vm cv (VFloat f) = LNumber (vm_float2double vm f)"
| "pushReturn vm cv (VDouble d) = LNumber d"
| "pushReturn vm cv (VLongDouble x) = LNumber (longdouble2double cv x)"
| "pushReturn vm cv (VString s) = LString (c_str s)"
| "pushReturn vm cv (VConstCharPtr s) = LString (c_str s)"
| "pushReturn vm cv _ = LNil"

text \<open>\<open>f\<close> is the member function; it returns no value if it is void.\<close>

definition buildInvoker ::
    "'h lua_vm \<Rightarrow> conversions \<Rightarrow> arg_type list \<Rightarrow> (nat \<Rightarrow> any_value list \<Rightarrow> memory \<Rightarrow> any_value option \<times> memory) \<Rightarrow> invoker" where
  "buildInvoker vm cv ts f = (\<lambda>args obj mem.
     case f obj (readArgs vm cv ts args) mem of
       (None, mem') \<Rightarrow> ([], mem')
     | (Some v, mem') \<Rightarrow> ([pushReturn vm cv v], mem'))"

section \<open>The registry\<close>

type_synonym type_registry = "(cpp_type \<times> full_descriptor) list"

definition isRegistered :: "type_registry \<Rightarrow> cpp_type \<Rightarrow> bool" where
  "isRegistered reg t \<longleftrightarrow> map_of reg t \<noteq> None"

definition getDescriptor :: "type_registry \<Rightarrow> cpp_type \<Rightarrow> full_descriptor option" where
  "getDescriptor reg t = map_of reg t"

text \<open>\<^verbatim>\<open>any_cast<T*>\<close>, for the class number \<open>c\<close>; a null pointer counts as none.\<close>

definition extractPointer :: "nat \<Rightarrow> any_value \<Rightarrow> 64 word option" where
  "extractPointer c v = (case v of VObjectPtr c' p \<Rightarrow> if c' = c \<and> p \<noteq> 0 then Some p else None | _ \<Rightarrow> None)"

datatype binding = BindField string nat cpp_type | BindMethod string invoker

fun apply_binding :: "binding \<Rightarrow> full_descriptor \<Rightarrow> full_descriptor" where
  "apply_binding (BindField name offset t) d = bind_field name offset t d"
| "apply_binding (BindMethod name ivk) d = addMethod name ivk d"

definition empty_descriptor :: full_descriptor where
  "empty_descriptor = \<lparr>td_name = [], td_extractPointer = (\<lambda>_. None), td_fields = [], td_methods = []\<rparr>"

definition registerType :: "nat \<Rightarrow> string \<Rightarrow> binding list \<Rightarrow> type_registry \<Rightarrow> type_registry" where
  "registerType c name binds reg =
     (let d = (case map_of reg (TClass c) of None \<Rightarrow> empty_descriptor | Some d \<Rightarrow> d)
      in AList.update (TClass c) (fold apply_binding binds (d\<lparr>td_name := name, td_extractPointer := extractPointer c\<rparr>)) reg)"

section \<open>Metatables\<close>

text \<open>The entries of a metatable; a method entry and its slot name an entry of \<^verbatim>\<open>boundMethods_\<close>.\<close>

datatype mt_value =
    MtFields "string \<rightharpoonup> nat \<times> string" | MtIndex | MtNewIndex | MtSlot string | MtMethod string | MtName string

record type_tables =
  metatables :: "string \<rightharpoonup> (string \<rightharpoonup> mt_value)"
  boundMethods :: "string \<rightharpoonup> TypeMethod"

definition mtName :: "string \<Rightarrow> string" where
  "mtName name = ''__fastrules_mt_'' @ name"

definition field_table :: "TypeField list \<Rightarrow> (string \<rightharpoonup> nat \<times> string)" where
  "field_table tfs = fold (\<lambda>f m. m(c_str (tf_name f) \<mapsto> (tf_offset f, c_str (tf_luaType f)))) tfs Map.empty"

definition bind_method ::
    "string \<Rightarrow> TypeMethod \<Rightarrow> (string \<rightharpoonup> mt_value) \<times> (string \<rightharpoonup> TypeMethod) \<Rightarrow> (string \<rightharpoonup> mt_value) \<times> (string \<rightharpoonup> TypeMethod)" where
  "bind_method table m s =
     (let (mt, slots) = s; methodKey = table @ ''::'' @ tm_name m
      in (mt(c_str (''__method_'' @ tm_name m) \<mapsto> MtSlot methodKey, c_str (tm_name m) \<mapsto> MtMethod methodKey),
          slots(methodKey \<mapsto> m)))"

definition bind_type :: "cpp_type \<times> full_descriptor \<Rightarrow> type_tables \<Rightarrow> type_tables" where
  "bind_type entry tt =
     (let desc = snd entry; key = c_str (mtName (td_name desc));
          mt0 = (case metatables tt key of None \<Rightarrow> [''__name'' \<mapsto> MtName key] | Some mt \<Rightarrow> mt);
          mt1 = mt0(''__fields'' \<mapsto> MtFields (field_table (td_fields desc)), ''__index'' \<mapsto> MtIndex, ''__newindex'' \<mapsto> MtNewIndex);
          (mt2, slots) = fold (bind_method (mtName (td_name desc))) (td_methods desc) (mt1, boundMethods tt)
      in tt\<lparr>metatables := (metatables tt)(key \<mapsto> mt2), boundMethods := slots\<rparr>)"

text \<open>\<open>it\<close>: the iteration order of the map of types.\<close>

definition bindTypes :: "(type_registry \<Rightarrow> type_registry) \<Rightarrow> type_registry \<Rightarrow> type_tables \<Rightarrow> type_tables" where
  "bindTypes it reg tt = fold bind_type (it reg) tt"

section \<open>The closures\<close>

text \<open>\<^verbatim>\<open>lua_tostring\<close>, null for what is neither a string nor a number.\<close>

definition key_text :: "'h lua_vm \<Rightarrow> lua_value \<Rightarrow> string option" where
  "key_text vm v = (if lv_isString v then Some (lv_toString vm v) else None)"

definition read_field :: "string \<Rightarrow> nat \<Rightarrow> memory \<Rightarrow> lua_value" where
  "read_field typeStr a mem =
     (if typeStr = ''int'' then LInteger (signed_take_bit 31 (int (load 4 (bytes mem) a)))
      else if typeStr = ''double'' then LNumber (word_of_nat (load 8 (bytes mem) a))
      else if typeStr = ''bool'' then LBool (load 1 (bytes mem) a \<noteq> 0)
      else if typeStr = ''string'' then (case strs mem a of None \<Rightarrow> LNil | Some s \<Rightarrow> LString (c_str s))
      else LNil)"

definition write_field :: "'h lua_vm \<Rightarrow> conversions \<Rightarrow> string \<Rightarrow> nat \<Rightarrow> lua_value \<Rightarrow> memory \<Rightarrow> memory" where
  "write_field vm cv typeStr a v mem =
     (if typeStr = ''int'' then write_bytes 4 a (nat (lua_tointeger cv v mod 2 ^ 32)) mem
      else if typeStr = ''double'' then write_bytes 8 a (unat (lv_toNumber vm v)) mem
      else if typeStr = ''bool'' then write_bytes 1 a (if lv_toBool v then 1 else 0) mem
      else if typeStr = ''string'' then mem\<lparr>strs := (strs mem)(a \<mapsto> lv_toString vm v)\<rparr>
      else mem)"

datatype indexed = Entry mt_value | Field lua_value

definition index_closure ::
    "'h lua_vm \<Rightarrow> (string \<rightharpoonup> mt_value) \<Rightarrow> 64 word \<Rightarrow> lua_value \<Rightarrow> memory \<Rightarrow> indexed" where
  "index_closure vm mt p key mem =
     (if p = 0 then Field LNil
      else case key_text vm key of
             None \<Rightarrow> Field LNil
           | Some k \<Rightarrow>
               (case mt k of
                  Some x \<Rightarrow> Entry x
                | None \<Rightarrow>
                    (case mt ''__fields'' of
                       Some (MtFields fs) \<Rightarrow>
                         (case fs k of
                            None \<Rightarrow> Field LNil
                          | Some (offset, typeStr) \<Rightarrow> Field (read_field typeStr (unat p + offset) mem))
                     | _ \<Rightarrow> Field LNil)))"

definition newindex_closure ::
    "'h lua_vm \<Rightarrow> conversions \<Rightarrow> (string \<rightharpoonup> mt_value) \<Rightarrow> 64 word \<Rightarrow> lua_value \<Rightarrow> lua_value \<Rightarrow> memory \<Rightarrow> memory" where
  "newindex_closure vm cv mt p key v mem =
     (if p = 0 then mem
      else case key_text vm key of
             None \<Rightarrow> mem
           | Some k \<Rightarrow>
               (case mt ''__fields'' of
                  Some (MtFields fs) \<Rightarrow>
                    (case fs k of
                       None \<Rightarrow> mem
                     | Some (offset, typeStr) \<Rightarrow> write_field vm cv typeStr (unat p + offset) v mem)
                | _ \<Rightarrow> mem))"

text \<open>The object is whatever userdata is the first argument; its class is not checked.\<close>

definition method_closure ::
    "type_tables \<Rightarrow> string \<Rightarrow> 64 word \<Rightarrow> lua_value list \<Rightarrow> memory \<Rightarrow> lua_value list \<times> memory" where
  "method_closure tt slot p args mem =
     (case boundMethods tt slot of
        None \<Rightarrow> ([], mem)
      | Some m \<Rightarrow> if p = 0 then ([], mem) else tm_invoker m args (unat p) mem)"

section \<open>Loads and stores\<close>

lemma store_frame: "b < a \<or> a + n \<le> b \<Longrightarrow> store n m a x b = m b"
  by (induction n arbitrary: m a x) auto

lemma load_cong: "(\<And>b. a \<le> b \<Longrightarrow> b < a + n \<Longrightarrow> m b = m' b) \<Longrightarrow> load n m a = load n m' a"
  by (induction n arbitrary: a) auto

lemma load_frame: "a + n \<le> b \<or> b + k \<le> a \<Longrightarrow> load n (store k m b x) a = load n m a"
  by (rule load_cong) (auto intro: store_frame)

lemma load_store: "load n (store n m a x) a = x mod 256 ^ n"
proof (induction n arbitrary: m a x)
  case (Suc n)
  have "unat (word_of_nat (x mod 256) :: 8 word) = x mod 256"
    by (simp add: unat_of_nat)
  with Suc show ?case by (simp add: store_frame mod_mult2_eq)
qed simp

section \<open>Fields read back what was written\<close>

text \<open>The sizes of the types of fields, and the number of bytes that the closures access.\<close>

definition field_size :: "cpp_type \<Rightarrow> nat" where
  "field_size t =
     (if t \<in> {TBool, TChar} then 1 else if t \<in> {TShort, TUShort} then 2 else if t \<in> {TInt, TUInt, TFloat} then 4
      else if t = TString then sizeof_string else 8)"

definition access_size :: "string \<Rightarrow> nat" where
  "access_size ty = (if ty = ''int'' then 4 else if ty = ''double'' then 8 else if ty = ''bool'' then 1
     else if ty = ''string'' then sizeof_string else 0)"

text \<open>The closures access as many bytes as the field has for these types alone.\<close>

definition exact_type :: "cpp_type \<Rightarrow> bool" where
  "exact_type t \<longleftrightarrow> t \<in> {TInt, TUInt, TDouble, TBool, TString}"

lemma exact_type_iff: "getLuaType t \<noteq> ''unknown'' \<Longrightarrow> access_size (getLuaType t) = field_size t \<longleftrightarrow> exact_type t"
  by (cases t) (simp_all add: getLuaType_def access_size_def field_size_def exact_type_def sizeof_string_def)

definition written_value :: "'h lua_vm \<Rightarrow> conversions \<Rightarrow> string \<Rightarrow> lua_value \<Rightarrow> lua_value" where
  "written_value vm cv ty v =
     (if ty = ''int'' then LInteger (signed_take_bit 31 (lua_tointeger cv v))
      else if ty = ''double'' then LNumber (lv_toNumber vm v)
      else if ty = ''bool'' then LBool (lv_toBool v) else LString (c_str (lv_toString vm v)))"

lemma read_written:
  assumes "ty \<in> {''int'', ''double'', ''bool'', ''string''}"
  shows "read_field ty a (write_field vm cv ty a v mem) = written_value vm cv ty v"
proof -
  have mod: "int (nat (i mod 2 ^ 32) mod 256 ^ 4) = i mod 2 ^ 32" for i :: int
    by (simp add: zmod_int)
  have "signed_take_bit 31 (i mod 2 ^ 32) = signed_take_bit 31 (i :: int)" for i
    by (simp add: signed_take_bit_eq_take_bit_shift take_bit_eq_mod mod_simps)
  with mod have i: "signed_take_bit 31 (int (load 4 (store 4 m a (nat (i mod 2 ^ 32))) a)) = signed_take_bit 31 i" for i :: int and m
    by (simp only: load_store)
  have d: "word_of_nat (load 8 (store 8 m a (unat w)) a) = w" for w :: "64 word" and m
    by (simp only: load_store) (simp add: unsigned_less [of w, simplified])
  have b: "load 1 (store 1 m a x) a = x mod 256" for m x by (simp only: load_store) simp
  show ?thesis
    using assms i d b by (auto simp: read_field_def write_field_def write_bytes_def written_value_def simp del: load.simps store.simps)
qed

lemma write_field_frame:
  assumes "ty \<in> {''int'', ''double'', ''bool'', ''string''}"
  shows "c < b \<or> b + access_size ty \<le> c \<Longrightarrow> bytes (write_field vm cv ty b v mem) c = bytes mem c"
    and "s + sizeof_string \<le> b \<or> b + access_size ty \<le> s \<Longrightarrow> strs (write_field vm cv ty b v mem) s = strs mem s"
proof -
  consider "ty = ''int''" | "ty = ''double''" | "ty = ''bool''" | "ty = ''string''" using assms by blast
  note cases = this
  show "bytes (write_field vm cv ty b v mem) c = bytes mem c" if "c < b \<or> b + access_size ty \<le> c"
    using that by (cases rule: cases) (simp_all add: write_field_def write_bytes_def access_size_def store_frame del: store.simps)
  show "strs (write_field vm cv ty b v mem) s = strs mem s" if "s + sizeof_string \<le> b \<or> b + access_size ty \<le> s"
    using that by (cases rule: cases) (auto simp: write_field_def write_bytes_def access_size_def sizeof_string_def simp del: store.simps)
qed

lemma read_field_cong:
  assumes "ty \<in> {''int'', ''double'', ''bool'', ''string''}"
    and "\<And>b. a \<le> b \<Longrightarrow> b < a + access_size ty \<Longrightarrow> bytes mem b = bytes mem' b" and "ty = ''string'' \<Longrightarrow> strs mem a = strs mem' a"
  shows "read_field ty a mem = read_field ty a mem'"
proof -
  consider "ty = ''int''" | "ty = ''double''" | "ty = ''bool''" | "ty = ''string''" using assms by blast
  then show ?thesis
    using assms(2,3) load_cong [of a "access_size ty" "bytes mem" "bytes mem'"]
    by cases (simp_all add: read_field_def access_size_def del: load.simps)
qed

lemma read_other:
  assumes ty: "ty \<in> {''int'', ''double'', ''bool'', ''string''}" and ty': "ty' \<in> {''int'', ''double'', ''bool'', ''string''}"
    and apart: "a + access_size ty \<le> b \<or> b + access_size ty' \<le> a"
  shows "read_field ty a (write_field vm cv ty' b v mem) = read_field ty a mem"
proof (rule read_field_cong [OF ty])
  show "bytes (write_field vm cv ty' b v mem) c = bytes mem c" if "a \<le> c" "c < a + access_size ty" for c
    using apart that by (intro write_field_frame(1) [OF ty']) auto
  show "strs (write_field vm cv ty' b v mem) a = strs mem a" if "ty = ''string''"
    using apart that by (intro write_field_frame(2) [OF ty']) (auto simp: access_size_def)
qed

section \<open>From the registration to the closures\<close>

text \<open>A class whose fields have names of their own, exact types and disjoint places.\<close>

type_synonym field_decl = "string \<times> nat \<times> cpp_type"

definition field_name_ok :: "string \<Rightarrow> bool" where
  "field_name_ok n \<longleftrightarrow> c_str n = n \<and> n \<notin> {''__name'', ''__fields'', ''__index'', ''__newindex''}"

definition layout_ok :: "field_decl list \<Rightarrow> bool" where
  "layout_ok fs \<longleftrightarrow>
     distinct (map fst fs) \<and> list_all (\<lambda>(n, off, t). field_name_ok n \<and> exact_type t) fs \<and>
     list_all (\<lambda>(n, off, t). list_all (\<lambda>(n', off', t').
       n = n' \<or> off + field_size t \<le> off' \<or> off' + field_size t' \<le> off) fs) fs"

definition field_binds :: "field_decl list \<Rightarrow> binding list" where
  "field_binds fs = map (\<lambda>(n, off, t). BindField n off t) fs"

lemma fold_field_binds:
  "fold apply_binding (field_binds fs) d =
     d\<lparr>td_fields := td_fields d @ map (\<lambda>(n, off, t). \<lparr>tf_name = n, tf_offset = off, tf_luaType = getLuaType t\<rparr>) fs\<rparr>"
  by (induction fs arbitrary: d) (auto simp: field_binds_def bind_field_def)

lemma getLuaType_c_str [simp]: "c_str (getLuaType t) = getLuaType t"
  by (simp add: getLuaType_def c_str_def)

lemma field_table_get:
  assumes "distinct (map fst fs)" "list_all (\<lambda>(n, off, t). c_str n = n) fs" "(n, off, t) \<in> set fs"
  shows "field_table (map (\<lambda>(n, off, t). \<lparr>tf_name = n, tf_offset = off, tf_luaType = getLuaType t\<rparr>) fs) n = Some (off, getLuaType t)"
proof -
  have "fold (\<lambda>f m. m(c_str (tf_name f) \<mapsto> (tf_offset f, c_str (tf_luaType f))))
      (map (\<lambda>(n, off, t). \<lparr>tf_name = n, tf_offset = off, tf_luaType = getLuaType t\<rparr>) fs) m n =
      (if n \<in> fst ` set fs then Some (off, getLuaType t) else m n)" if "n \<in> fst ` set fs \<Longrightarrow> (n, off, t) \<in> set fs" for m
    using assms(1,2) that
  proof (induction fs arbitrary: m)
    case (Cons f fs)
    obtain n' o' t' where f: "f = (n', o', t')" by (metis prod_cases3)
    show ?case
    proof (cases "n' = n")
      case True
      with Cons.prems f have "n \<notin> fst ` set fs" "off = o'" "t = t'" by force+
      with Cons f True show ?thesis by simp
    next
      case False
      with Cons f show ?thesis by auto
    qed
  qed simp
  with assms(3) show ?thesis by (force simp: field_table_def)
qed

lemma mtName_simps [simp]: "c_str (mtName s) = mtName (c_str s)" "mtName s = mtName s' \<longleftrightarrow> s = s'"
  by (simp_all add: mtName_def c_str_def)

lemma bind_type_other: "c_str (td_name (snd e)) \<noteq> c_str n \<Longrightarrow>
    metatables (bind_type e tt) (mtName (c_str n)) = metatables tt (mtName (c_str n))"
  by (auto simp: bind_type_def Let_def split: prod.split)

lemma bind_types_other: "\<forall>e\<in>set es. c_str (td_name (snd e)) \<noteq> c_str n \<Longrightarrow>
    metatables (fold bind_type es tt) (mtName (c_str n)) = metatables tt (mtName (c_str n))"
  by (induction es arbitrary: tt) (simp_all add: bind_type_other)

lemma update_new: "map_of xs k = None \<Longrightarrow> AList.update k v xs = xs @ [(k, v)]"
  by (induction xs) (auto split: if_splits)

text \<open>The metatable of a class that was registered with fields only.\<close>

lemma registered_metatable:
  assumes "map_of reg (TClass c) = None" "\<forall>e\<in>set reg. c_str (td_name (snd e)) \<noteq> c_str name"
    and "mset (it (registerType c name (field_binds fs) reg)) = mset (registerType c name (field_binds fs) reg)"
    and "metatables tt (mtName (c_str name)) = None"
  shows "metatables (bindTypes it (registerType c name (field_binds fs) reg) tt) (mtName (c_str name)) =
    Some [''__name'' \<mapsto> MtName (mtName (c_str name)),
      ''__fields'' \<mapsto> MtFields (field_table (map (\<lambda>(n, off, t). \<lparr>tf_name = n, tf_offset = off, tf_luaType = getLuaType t\<rparr>) fs)),
      ''__index'' \<mapsto> MtIndex, ''__newindex'' \<mapsto> MtNewIndex]"
proof -
  define desc where "desc = empty_descriptor\<lparr>td_name := name, td_extractPointer := extractPointer c,
      td_fields := map (\<lambda>(n, off, t). \<lparr>tf_name = n, tf_offset = off, tf_luaType = getLuaType t\<rparr>) fs\<rparr>"
  have reg: "registerType c name (field_binds fs) reg = reg @ [(TClass c, desc)]"
    using assms(1) by (simp add: registerType_def update_new fold_field_binds desc_def empty_descriptor_def)
  have "(TClass c, desc) \<in> set (it (reg @ [(TClass c, desc)]))"
    using mset_eq_setD [OF assms(3)] by (simp add: reg)
  then obtain ys zs where split: "it (reg @ [(TClass c, desc)]) = ys @ (TClass c, desc) # zs" by (meson split_list)
  have "mset (ys @ zs) = mset reg" using assms(3) by (simp add: reg split)
  then have others: "\<forall>e\<in>set ys. c_str (td_name (snd e)) \<noteq> c_str name" "\<forall>e\<in>set zs. c_str (td_name (snd e)) \<noteq> c_str name"
    using assms(2) by (metis Un_iff mset_eq_setD set_append)+
  have key: "td_name desc = name" "td_methods desc = []"
    "td_fields desc = map (\<lambda>(n, off, t). \<lparr>tf_name = n, tf_offset = off, tf_luaType = getLuaType t\<rparr>) fs"
    by (simp_all add: desc_def empty_descriptor_def)
  let ?tt = "fold bind_type ys tt"
  have "metatables ?tt (mtName (c_str name)) = None"
    using bind_types_other [OF others(1)] assms(4) by simp
  then show ?thesis
    by (simp add: bindTypes_def reg split bind_types_other [OF others(2)]) (simp add: bind_type_def Let_def key)
qed


text \<open>A class with a number, a text and a flag.\<close>

definition sample_fields :: "field_decl list" where
  "sample_fields = [(''age'', 0, TInt), (''name'', 8, TString), (''vip'', 40, TBool)]"

definition sample_conversions :: conversions where
  "sample_conversions = \<lparr>double2float = (\<lambda>_. 0), longdouble2double = (\<lambda>_. 0), number2int_exact = (\<lambda>_. None), str2int = (\<lambda>_. None)\<rparr>"


section \<open>Where the sizes differ\<close>

text \<open>Writing a field of type \<^verbatim>\<open>short\<close> overwrites the two bytes behind it.\<close>

lemma store_zero: "store n m a 0 b = (if a \<le> b \<and> b < a + n then 0 else m b)"
  by (induction n arbitrary: m a) auto

lemma short_field_clobbers:
  "getLuaType TShort = ''int''" "load 2 (bytes (write_field vm cv (getLuaType TShort) a (LInteger 0) mem)) (a + 2) = 0"
  by (simp_all add: getLuaType_def write_field_def write_bytes_def store_zero numeral_2_eq_2 del: store.simps)

text \<open>Of a 64-bit integer only the low half is read.\<close>

lemma long_field_truncated:
  assumes "load 4 (bytes mem) a = 0"
  shows "read_field (getLuaType TLongLong) a mem = LInteger 0"
  using assms by (simp add: getLuaType_def read_field_def)

text \<open>An unsigned integer is read as a signed one.\<close>

lemma unsigned_field_signed:
  "read_field (getLuaType TUInt) a (write_field vm cv (getLuaType TUInt) a (LInteger (2 ^ 32 - 1)) mem) = LInteger (- 1)"
  using read_written [of "getLuaType TUInt" a vm cv "LInteger (2 ^ 32 - 1)" mem]
  by (simp add: getLuaType_def written_value_def signed_take_bit_eq_take_bit_shift take_bit_eq_mod)

text \<open>Two classes of one Lua name share a metatable: the one bound last decides the places of the fields of both.\<close>

lemma same_name_shares_fields:
  assumes "c_str (td_name d) = c_str (td_name d')" "td_methods d' = []"
  shows "\<exists>mt. metatables (bind_type (t', d') (bind_type (t, d) tt)) (mtName (c_str (td_name d))) = Some mt \<and>
    mt ''__fields'' = Some (MtFields (field_table (td_fields d')))"
  using assms by (auto simp: bind_type_def Let_def split: prod.split)

section \<open>Registering again\<close>

interpretation type_store: kv_store "AList.update :: cpp_type \<Rightarrow> full_descriptor \<Rightarrow> type_registry \<Rightarrow> type_registry" map_of
  by unfold_locales (simp_all add: update_conv')

lemma apply_binding_name: "apply_binding b (d\<lparr>td_name := n, td_extractPointer := x\<rparr>) = (apply_binding b d)\<lparr>td_name := n, td_extractPointer := x\<rparr>"
  by (cases b) (simp_all add: bind_field_def addMethod_def)

lemma fold_binding_name:
  "fold apply_binding bs (d\<lparr>td_name := n, td_extractPointer := x\<rparr>) = (fold apply_binding bs d)\<lparr>td_name := n, td_extractPointer := x\<rparr>"
  by (induction bs arbitrary: d) (simp_all add: apply_binding_name)

text \<open>Registering a class twice is registering it once with both lists of bindings and the later name.\<close>

lemma registerType_twice:
  "map_of (registerType c n' bs' (registerType c n bs reg)) = map_of (registerType c n' (bs @ bs') reg)"
  by (simp add: registerType_def Let_def update_conv' fold_binding_name split: option.split)

lemma getDescriptor_registered:
  "isRegistered (registerType c n bs reg) t \<longleftrightarrow> t = TClass c \<or> isRegistered reg t"
  "t \<noteq> TClass c \<Longrightarrow> getDescriptor (registerType c n bs reg) t = getDescriptor reg t"
  by (auto simp: isRegistered_def getDescriptor_def registerType_def Let_def update_conv')

text \<open>The engine's registry sees the name and the pointer extraction of a descriptor.\<close>

lemma registered_object_global:
  assumes "p \<noteq> 0"
  shows "lua_globals (be_lua (setRegisteredTypeGlobal x (TClass c) (VObjectPtr c p)
      (\<lambda>t. map_option TypeDescriptor.truncate (getDescriptor (registerType c n bs reg) t)) b)) (c_str x) = LUserdata (mtName n) p"
  using assms
  by (simp add: setRegisteredTypeGlobal_def getDescriptor_def registerType_def Let_def update_conv' fold_binding_name
      TypeDescriptor.truncate_def extractPointer_def mtName_def lua_setglobal_def has_value_def)

text \<open>A method that is bound again is called in its new version, also through closures made before.\<close>

lemma bind_method_slot [simp]: "snd (bind_method table m s) = (snd s)(table @ ''::'' @ tm_name m \<mapsto> m)"
  by (simp add: bind_method_def Let_def split: prod.split)

lemma bind_methods_slot:
  assumes "distinct (map tm_name ms)" "m \<in> set ms"
  shows "snd (fold (bind_method table) ms s) (table @ ''::'' @ tm_name m) = Some m"
proof -
  have keep: "tm_name m \<notin> tm_name ` set ms \<Longrightarrow> snd (fold (bind_method table) ms s) (table @ ''::'' @ tm_name m) = snd s (table @ ''::'' @ tm_name m)" for ms s
    by (induction ms arbitrary: s) simp_all
  show ?thesis
    using assms
  proof (induction ms arbitrary: s)
    case (Cons x ms)
    then show ?case using keep [of ms "bind_method table x s"] by (cases "x = m") auto
  qed simp
qed

lemma bind_type_slots: "\<exists>s. boundMethods (bind_type (t, d) tt) = snd (fold (bind_method (mtName (td_name d))) (td_methods d) s)"
  by (simp add: bind_type_def Let_def split: prod.split) (metis snd_conv)

lemma rebound_method_called:
  assumes "distinct (map tm_name (td_methods d))" "m \<in> set (td_methods d)" "p \<noteq> 0"
  shows "method_closure (bind_type (t, d) tt) (mtName (td_name d) @ ''::'' @ tm_name m) p args mem = tm_invoker m args (unat p) mem"
proof -
  obtain s where "boundMethods (bind_type (t, d) tt) = snd (fold (bind_method (mtName (td_name d))) (td_methods d) s)"
    using bind_type_slots by blast
  with bind_methods_slot [OF assms(1,2)] assms(3) show ?thesis by (simp add: method_closure_def)
qed

end
