(* ===== verification/Lua_Tables.thy ===== *)
theory Lua_Tables
  imports Lua_Engine
begin

text \<open>
  Tables behind \<^verbatim>\<open>LuaBridgeValue\<close> (src/lua_backend_luabridge.cpp): listing the keys, assigning a key, and the predicate
  \<^verbatim>\<open>contains\<close> (src/lua_engine.cpp) that is built on them. A table is the list of its entries in the order in which
  \<^verbatim>\<open>lua_next\<close> visits them.
\<close>

section \<open>Keys\<close>

definition next_error :: string where
  "next_error = ''invalid key to '' @ [CHR 0x27] @ ''next'' @ [CHR 0x27]"

text \<open>The loop of \<^verbatim>\<open>keys\<close>. \<^verbatim>\<open>lua_tostring\<close> turns a number on the stack into a string, and \<^verbatim>\<open>lua_next\<close> then
  continues behind that string: it raises an error if the table has no such key. \<open>None\<close>: the loop does not end.\<close>

partial_function (option) keys_loop ::
    "'h lua_vm \<Rightarrow> (lua_value \<times> lua_value) list \<Rightarrow> (lua_value \<times> lua_value) list \<Rightarrow> string list \<Rightarrow> (string + string list) option" where
  "keys_loop vm es rest acc =
     (case rest of
        [] \<Rightarrow> Some (Inr acc)
      | (k, v) # rest' \<Rightarrow>
          if \<not> lv_isString k then keys_loop vm es rest' acc
          else if lv_type k = String_t then keys_loop vm es rest' (acc @ [lv_toString vm k])
          else (case dropWhile (\<lambda>e. fst e \<noteq> LString (lv_toString vm k)) es of
                  [] \<Rightarrow> Some (Inl next_error)
                | _ # behind \<Rightarrow> keys_loop vm es behind (acc @ [lv_toString vm k])))"

fun lv_keys :: "'h lua_vm \<Rightarrow> lua_value \<Rightarrow> (string + string list) option" where
  "lv_keys vm (LTable es) = keys_loop vm es es []"
| "lv_keys vm _ = Some (Inr [])"

text \<open>Assigning nil takes the key out.\<close>

fun lv_set :: "string \<Rightarrow> lua_value \<Rightarrow> lua_value \<Rightarrow> lua_value" where
  "lv_set key v (LTable es) =
     LTable (if v = LNil then filter (\<lambda>e. fst e \<noteq> LString (c_str key)) es else AList.update (LString (c_str key)) v es)"
| "lv_set key v t = t"

section \<open>The predicate contains\<close>

definition pred_contains :: "'h lua_vm \<Rightarrow> lua_value list \<Rightarrow> (string + bool) option" where
  "pred_contains vm args =
     (if length args < 2 \<or> \<not> lv_isTable (args ! 0) then Some (Inr False)
      else (case lv_keys vm (args ! 0) of
              None \<Rightarrow> None
            | Some (Inl e) \<Rightarrow> Some (Inl e)
            | Some (Inr ks) \<Rightarrow>
                Some (Inr (list_ex (\<lambda>k. lv_toString vm (lv_get (args ! 0) k) = lv_toString vm (args ! 1)) ks))))"

lemmas keys_loop_Nil [simp] = keys_loop.simps [of vm es "[]" for vm es, simplified]
lemmas keys_loop_Cons = keys_loop.simps [of vm es "(k, v) # rest" for vm es k v rest, simplified]

lemma keys_of_text_keys:
  assumes "list_all (\<lambda>(k, v). \<exists>s. k = LString s) rest"
  shows "keys_loop vm es rest acc = Some (Inr (acc @ map (\<lambda>(k, v). lv_toString vm k) rest))"
  using assms
proof (induction rest arbitrary: acc)
  case (Cons e rest)
  obtain s v where e: "e = (LString s, v)" using Cons.prems by (cases e) auto
  from Cons.IH [of "acc @ [c_str s]"] Cons.prems show ?case by (simp add: e keys_loop_Cons)
qed simp

text \<open>On a table whose keys are texts without zero bytes, the predicate finds exactly the values of the table,
  compared as text.\<close>

lemma contains_text_keys:
  assumes "list_all (\<lambda>(k, v). \<exists>s. k = LString s \<and> c_str s = s) es" "distinct (map fst es)"
  shows "pred_contains vm [LTable es, x] = Some (Inr (\<exists>(k, v)\<in>set es. lv_toString vm v = lv_toString vm x))"
proof -
  have keys: "lv_keys vm (LTable es) = Some (Inr (map (\<lambda>(k, v). lv_toString vm k) es))"
  proof -
    have "list_all (\<lambda>(k, v). \<exists>s. k = LString s) es" using assms(1) by (auto simp: list_all_iff)
    then show ?thesis using keys_of_text_keys [of es vm es "[]"] by simp
  qed
  have get: "lv_get (LTable es) (lv_toString vm k) = v" if kv: "(k, v) \<in> set es" for k v
  proof -
    obtain s where k: "k = LString s" "c_str s = s" using assms(1) kv by (fastforce simp: list_all_iff)
    have "map_of es k = Some v" using assms(2) kv by simp
    with k show ?thesis by simp
  qed
  have "list_ex (\<lambda>k. lv_toString vm (lv_get (LTable es) k) = y) (map (\<lambda>(k, v). lv_toString vm k) es) \<longleftrightarrow>
      (\<exists>(k, v)\<in>set es. lv_toString vm v = y)" for y
    unfolding list_ex_iff set_map bex_simps by (rule bex_cong) (auto simp: get simp del: lv_get.simps)
  then show ?thesis by (simp add: pred_contains_def keys del: lv_get.simps lv_keys.simps)
qed

text \<open>On an array the predicate always fails with the error of \<^verbatim>\<open>lua_next\<close>, whatever is searched.\<close>

lemma contains_array_fails:
  assumes "es \<noteq> []" "list_all (\<lambda>(k, v). \<exists>i. k = LInteger i) es"
  shows "pred_contains vm [LTable es, x] = Some (Inl next_error)"
proof -
  obtain i v rest where es: "es = (LInteger i, v) # rest"
    using assms by (cases es) auto
  have none: "dropWhile (\<lambda>e. fst e \<noteq> LString t) es = []" for t
    using assms(2) by (fastforce simp: dropWhile_eq_Nil_conv list_all_iff)
  have "keys_loop vm es es [] = Some (Inl next_error)"
    by (subst (2) es) (simp add: keys_loop_Cons none)
  then show ?thesis by (simp add: pred_contains_def)
qed

lemma lv_get_set:
  assumes "v \<noteq> LNil"
  shows "lv_get (lv_set key v (LTable es)) key' = (if c_str key' = c_str key then v else lv_get (LTable es) key')"
  using assms by (simp add: update_conv')

end
