(* ===== verification/Workflow_Graph.thy ===== *)
theory Workflow_Graph
  imports Workflow
begin

text \<open>
  \<^verbatim>\<open>Workflow::toGraph\<close> (src/workflow.cpp): the rules of a workflow and their dependencies as a graph in the DOT language.
\<close>

section \<open>The text\<close>

definition dq :: string where
  "dq = [CHR 0x22]"

text \<open>The two characters backslash and n.\<close>

definition esc_n :: string where
  "esc_n = [CHR 0x5C, CHR ''n'']"

definition nl :: string where
  "nl = [CHR 0x0A]"

definition node_name :: "int \<Rightarrow> string" where
  "node_name i = dq @ ''rule_'' @ std_to_string i @ dq"

definition snippet :: "string \<Rightarrow> string" where
  "snippet expr = (if length expr > 30 then take 27 expr @ ''...'' else expr)"

definition node_line :: "RuleData \<Rightarrow> string" where
  "node_line d =
     ''  '' @ node_name (rule_id d) @ '' [label='' @ dq @ ''Rule '' @ std_to_string (rule_id d) @
     (if description d = [] then [] else esc_n @ description d) @
     (if expression d = [] then [] else esc_n @ ''['' @ dq @ snippet (expression d) @ '' '' @ dq @ '']'') @
     (if isActive d then [] else dq @ '', fillcolor=gray, fontcolor=white'') @ dq @ ''];'' @ nl"

text \<open>The first rule of the workflow with the name; -1 stands for none.\<close>

definition parent_id :: "Rule list \<Rightarrow> string \<Rightarrow> int" where
  "parent_id rules n = (case find (\<lambda>r. rname r = n) rules of None \<Rightarrow> - 1 | Some r \<Rightarrow> rid r)"

definition depends_line :: "Rule list \<Rightarrow> RuleData \<Rightarrow> string" where
  "depends_line rules d =
     (case dependsOnRuleName d of
        None \<Rightarrow> []
      | Some n \<Rightarrow>
          (let parentId = parent_id rules n
           in if parentId \<noteq> - 1
              then ''  '' @ node_name parentId @ '' -> '' @ node_name (rule_id d) @
                   '' [color=red, penwidth=2.0, label='' @ dq @ ''depends on'' @ dq @ ''];'' @ nl
              else []))"

definition children_lines :: "RuleData \<Rightarrow> Rule list \<Rightarrow> string" where
  "children_lines d cs =
     ''  '' @ node_name (rule_id d) @ '' -> {'' @ nl @
     concat (map (\<lambda>c. ''    '' @ node_name (rid c) @ nl) cs) @
     ''  } [style=dashed, label='' @ dq @ ''parent/child'' @ dq @ ''];'' @ nl"

fun collect_rule :: "Rule list \<Rightarrow> Rule \<Rightarrow> string"
and collectRules :: "Rule list \<Rightarrow> Rule list \<Rightarrow> string" where
  "collect_rule rules (Rule a d cs) =
     node_line d @ depends_line rules d @ (if cs = [] then [] else children_lines d cs @ collectRules rules cs)"
| "collectRules rules [] = []"
| "collectRules rules (r # rs) = collect_rule rules r @ collectRules rules rs"

definition toGraph :: "'h Workflow \<Rightarrow> string" where
  "toGraph wk =
     ''digraph Workflow {'' @ nl @ ''  rankdir=TB;'' @ nl @ ''  node [shape=box, style=filled, fillcolor=lightblue];'' @ nl @
     ''  edge [arrowhead=vee];'' @ nl @ nl @
     ''  label='' @ dq @ ''Workflow '' @ std_to_string (wf_id wk) @
     (if wf_description wk = [] then [] else esc_n @ wf_description wk) @ dq @ '';'' @ nl @ ''  labelloc=t;'' @ nl @ nl @
     collectRules (wf_rules wk) (wf_rules wk) @ ''}'' @ nl"

section \<open>Which edges are drawn\<close>

text \<open>A dependency is drawn from the rule that provides it, also for child rules; a provider numbered -1 is missed.\<close>

lemma depends_line_iff:
  "depends_line rules d \<noteq> [] \<longleftrightarrow> (\<exists>q. provider rules (Rule a d cs) = Some q \<and> rid q \<noteq> - 1)"
  by (auto simp: depends_line_def parent_id_def provider_def Let_def split: option.splits)

text \<open>Every rule of the tree has its node.\<close>

fun tree_rules :: "Rule \<Rightarrow> RuleData list" where
  "tree_rules (Rule a d cs) = d # concat (map tree_rules cs)"

lemma node_drawn: "d \<in> set (tree_rules r) \<Longrightarrow> \<exists>xs ys. collect_rule rules r = xs @ node_line d @ ys"
  "d \<in> set (concat (map tree_rules rs)) \<Longrightarrow> \<exists>xs ys. collectRules rules rs = xs @ node_line d @ ys"
proof (induction rules r and rules rs rule: collect_rule_collectRules.induct)
  case (1 rules a e cs)
  show ?case
  proof (cases "d = e")
    case True
    then have "collect_rule rules (Rule a e cs) =
        [] @ node_line d @ (depends_line rules e @ (if cs = [] then [] else children_lines e cs @ collectRules rules cs))" by simp
    then show ?thesis by blast
  next
    case False
    then have in_cs: "d \<in> set (concat (map tree_rules cs))" using "1.prems" by simp
    then have "cs \<noteq> []" by auto
    moreover from "1.IH" [OF this in_cs] obtain xs ys where "collectRules rules cs = xs @ node_line d @ ys" by blast
    ultimately have "collect_rule rules (Rule a e cs) =
        (node_line e @ depends_line rules e @ children_lines e cs @ xs) @ node_line d @ ys" by simp
    then show ?thesis by blast
  qed
next
  case (3 rules r rs)
  then consider "d \<in> set (tree_rules r)" | "d \<in> set (concat (map tree_rules rs))" by auto
  then show ?case
  proof cases
    case 1
    with 3 obtain xs ys where "collect_rule rules r = xs @ node_line d @ ys" by blast
    then have "collectRules rules (r # rs) = xs @ node_line d @ (ys @ collectRules rules rs)" by simp
    then show ?thesis by blast
  next
    case 2
    with 3 obtain xs ys where "collectRules rules rs = xs @ node_line d @ ys" by blast
    then have "collectRules rules (r # rs) = (collect_rule rules r @ xs) @ node_line d @ ys" by simp
    then show ?thesis by blast
  qed
qed simp

section \<open>Quotes\<close>

definition quotes :: "string \<Rightarrow> nat" where
  "quotes s = length (filter (\<lambda>c. c = CHR 0x22) s)"

lemma quotes_append [simp]: "quotes (s @ t) = quotes s + quotes t"
  by (simp add: quotes_def)

lemma quotes_simps [simp]: "quotes [] = 0" "quotes (c # s) = (if c = CHR 0x22 then 1 else 0) + quotes s"
  by (simp_all add: quotes_def)

lemma quotes_number [simp]: "quotes (std_to_string i) = 0"
proof -
  have "c \<noteq> CHR 0x22" if "c \<in> set (nat_digits n)" for c n
    using set_nat_digits [OF that] by (auto simp: std_isdigit_def cc_def)
  then show ?thesis by (auto simp: quotes_def std_to_string_def filter_empty_conv)
qed

text \<open>The line of an inactive rule has an odd number of quotes, so the last text of the line is not closed.\<close>

lemma inactive_node_unbalanced:
  assumes "\<not> isActive d" "quotes (description d) = 0" "quotes (expression d) = 0"
  shows "odd (quotes (node_line d))"
proof -
  have "quotes (snippet e) = 0" if "quotes e = 0" for e
    using that by (auto simp: snippet_def quotes_def filter_empty_conv dest: in_set_takeD)
  with assms show ?thesis by (simp add: node_line_def node_name_def dq_def esc_n_def nl_def)
qed

text \<open>The expression stands between quotes that are not escaped, so that it ends the label.\<close>

lemma expression_closes_label:
  assumes "expression d \<noteq> []" "description d = []"
  shows "\<exists>rest. node_line d = ''  '' @ node_name (rule_id d) @ '' [label='' @ dq @ ''Rule '' @ std_to_string (rule_id d) @
     esc_n @ ''['' @ dq @ snippet (expression d) @ rest"
  using assms by (simp add: node_line_def)

end
