(* ===== verification/Spec2Isabelle.thy ===== *)
theory Spec2Isabelle
  imports Workflow_Runs Engine_Pool Thread_Pool Memory_Pool Rule_Versioning Input_Validator C_Api Async_Workflow Sandbox
    Timeout_Executor Parallel_Compile Aot_Compiler Xml_Serialization Db_Repository
    Type_Registry Lua_Tables Workflow_Graph
begin

text \<open>
  FastRules is a rule engine in C++. A rule is a Lua condition with an optional Lua action, a name, a number, child
  rules and at most one rule that it depends on; a workflow is a list of rules. The library compiles the rules into
  one or more Lua states and runs them in the order of their dependencies, one after the other, in parallel on a pool
  of engines, or as a stream of results.

  \<^bold>\<open>The parts and where they are modelled.\<close> All paths are under src/.

  \<^item> \<open>FR_Prelude\<close>: exceptions, strings and conversions of the standard library, the interface \<open>kv_store\<close>.
  \<^item> \<open>Parameter_Validator\<close> (include/fastrules/rule.hpp, src/parameter_validator.cpp): \<^verbatim>\<open>std::any\<close> values, parameters and
    their type check.
  \<^item> \<open>Expression_Validator\<close> and \<open>Input_Validator\<close> (src/expression_validator.cpp, src/input_validator.cpp): the texts that
    are accepted as expressions, parameter names and values.
  \<^item> \<open>Rate_Limiter\<close>, \<open>Performance_Counters\<close> (src/rate_limiter.cpp, src/performance_counters.cpp): sliding windows per
    rule, and the 64-bit counters.
  \<^item> \<open>Rule_Context\<close> (include/fastrules/rule_result.hpp, src/rule_context.cpp): results and the table of results and
    variables that rules share.
  \<^item> \<open>Lua_Backend\<close>, \<open>Lua_Engine\<close> (src/lua_backend_luabridge.cpp, src/lua_engine.cpp): chunks, globals, callbacks and
    coroutines of one Lua state; the table of references on top of it.
  \<^item> \<open>Type_Registry\<close>, \<open>Lua_Tables\<close> (include/fastrules/type_registry.hpp, src/lua_backend_luabridge.cpp): the access of Lua code to
    registered C++ objects in a memory of bytes; the keys of tables and the predicate \<^verbatim>\<open>contains\<close>.
  \<^item> \<open>Rule_Core\<close>, \<open>Rule_Execute\<close>, \<open>Rule_Dependencies\<close> (src/rule.cpp): compilation, result cache, the execution of a rule
    with its children, and the checks of its dependencies.
  \<^item> \<open>Workflow_Order\<close>, \<open>Workflow\<close>, \<open>Workflow_Runs\<close>, \<open>Execution_Tracer\<close> (src/workflow.cpp, src/execution_tracer.cpp):
    dependency levels, validation, compilation, the execution modes and which rules they run; \<open>Workflow_Graph\<close>: the export
    as a graph.
  \<^item> \<open>Compilation_Levels\<close>, \<open>Parallel_Compile\<close> (src/workflow.cpp): the levels and the worker threads of
    \<^verbatim>\<open>compileParallel\<close>.
  \<^item> \<open>Aot_Compiler\<close> (src/aot_compiler.cpp): bytecode caches in memory and in files, and the bounded expression cache.
  \<^item> \<open>Async_Workflow\<close> (src/async_workflow.cpp): execution on a thread pool with engines of its own, and the coroutines.
  \<^item> \<open>Engine_Pool\<close>, \<open>Work_Queues\<close>, \<open>Thread_Pool\<close>, \<open>Memory_Pool\<close> (include/fastrules/engine_pool.hpp,
    work_stealing_queue.hpp, work_stealing_thread_pool.hpp, memory_pool.hpp): the concurrent containers, as state
    machines whose steps are the atomic actions of the threads.
  \<^item> \<open>Sandbox\<close>, \<open>Timeout_Executor\<close> (src/sandbox.cpp, include/fastrules/timeout_executor.hpp): the restrictions of a Lua
    state with its memory and instruction limits, and the executors with a time limit.
  \<^item> \<open>Rule_Versioning\<close> (src/rule_versioning.cpp): snapshots, histories and rollback.
  \<^item> \<open>C_Text\<close>, \<open>C_Api\<close> (src/c_api.cpp): the text formats of the C interface and its functions on handles.
  \<^item> \<open>Json_Loader\<close>, \<open>Rule_Repository\<close> (extensions/json/src/json_loader.cpp, json_repository.cpp): rules and workflows as
    JSON documents, and the repository in a JSON file with the replacement of the file.
  \<^item> \<open>Xml_Repository\<close> (extensions/xml/src/xml_loader.cpp, xml_repository.cpp): the same in XML.
  \<^item> \<open>Json_Serialization\<close>, \<open>Xml_Serialization\<close> (extensions/json/src/json_serialization.cpp,
    extensions/xml/src/xml_serialization.cpp): export and import of versions, and the export of traces and counters.
  \<^item> \<open>Db_Repository\<close> (extensions/db/src/db_repository.cpp): rules, workflows and versions in SQL tables.
  \<^item> This theory: the repositories of rules compared.

  A class is a record with the source's fields; a member function takes the object and returns it. Rule objects are
  shared by pointer: a rule has an address, and what its execution changes (cache, compilations, flags) is in the store
  of a \<open>world\<close> record, with the engine, the context, the rate limiters, the counters and the clock of the run. An
  exception is the left value of a sum; \<open>bindx\<close> keeps the state that a throwing call leaves behind.

  \<^bold>\<open>Interfaces.\<close> \<open>kv_store\<close> states what a lookup returns after an insertion (the context's tables, the callback table,
  version histories, the fields of a C object); \<open>steal_queue\<close> states the ends of a work-stealing queue (both queues of the
  source); \<open>rule_executor\<close> states what the workflow's loops need of \<^verbatim>\<open>Rule::execute\<close>: it publishes the result that it
  returns and writes no other rule's; \<open>transparent_cache\<close> states that a cache answers like the function behind it (the
  ahead-of-time cache and the expression cache); \<open>rule_repository\<close> states that saving, removing and finding rules refine a
  map (the JSON, XML and database repositories). Each is interpreted on the model's own definitions.

  \<^bold>\<open>What is shown.\<close> Rule execution returns proper results, publishes them and stops at a failed child; the cache serves
  exactly the fresh entries and stays bounded; a compiled rule is bound to its own sources. Kahn's levels, the
  recursive cycle checks and the resolved order agree with the graph of dependencies; sequential, parallel and streamed
  execution run a rule only after its provider has succeeded; parallel compilation compiles every rule, children first, whatever
  its threads do; the bytecode caches are transparent; and streaming is a refinement of sequential execution. The
  engine pool is linearizable to a stack of free engines and never hands an engine to two threads; the two queues are
  equivalent; the thread pool runs every task. References of the Lua engine stay valid until they are released,
  parameters do not leak, an evaluation respects its timeout, and the fields of registered objects
  are independent of each other. Validators accept exactly the described texts; the rate
  limiter never permits more than its maximum in any window. The sandbox caps the growth of memory and the number of
  instructions and is applied to recycled states. The asynchronous workflow ends exactly on acyclic dependencies and then
  reports every rule. The C interface reads back the parameters that a client
  writes, reports what the workflow returns, and keeps its registries apart. A workflow written as JSON is read back as the same workflow;
  a flush of the JSON repository that returns makes its answers durable, one that throws loses nothing; an exported version manager is imported with the same versions except for their priorities; a workflow is
  saved in the database entirely or not at all; and the three repositories give the same answers on rules that each of them keeps. Some theorems state where the code departs
  from its documentation; they are named as findings of the development.

  \<^bold>\<open>Arguments, bounds and fuel.\<close> The Lua virtual machine is third-party code: the record \<open>lua_vm\<close> of its operations is an
  argument, as are the clock, the JSON and XML libraries' texts, the faults of files and SQL statements,
  hash functions, implementation-defined type names, floating-point operations, the iteration
  order of hash containers and the order in which the tasks of a batch run. Theorems hold for all of them or name what
  they need. Integers whose overflow matters are words or written with a modulus. Every recursion is structural or has a
  measure, except the level loop of \<open>Async_Workflow\<close>, which may not end and is a partial function; no definition uses fuel.

  \<^bold>\<open>Not modelled.\<close> The registration macros (type_registration_macro.hpp) only expand to calls of the registry. Documentation
  comments make up a large part of the headers. The logger, the examples, the benchmarks and the tests have no logic of their own that the rest depends on.
\<close>

section \<open>The three repositories of rules agree\<close>

text \<open>Rules that every repository keeps as they are: no children and no limiter, durations of 0 to
  \<open>2\<^sup>3\<^sup>1 - 1\<close> ms, no zero byte in a text and no empty dependency.\<close>

definition portable_ms :: "int option \<Rightarrow> bool" where
  "portable_ms t \<longleftrightarrow> (case t of None \<Rightarrow> True | Some v \<Rightarrow> 0 \<le> v \<and> v < 2 ^ 31)"

definition portable_text :: "string \<Rightarrow> bool" where
  "portable_text s \<longleftrightarrow> CHR 0x00 \<notin> set s"

definition portable_data :: "RuleData \<Rightarrow> bool" where
  "portable_data d \<longleftrightarrow>
     int_fits (rule_id d) \<and> int_fits (priority d) \<and> rateLimiter d = None \<and> portable_ms (timeout d) \<and>
     portable_ms (cacheDuration d) \<and> list_all portable_text [rule_name d, description d, expression d, action d] \<and>
     (case dependsOnRuleName d of None \<Rightarrow> True | Some n \<Rightarrow> n \<noteq> [] \<and> portable_text n)"

fun portable_call :: "repo_call \<Rightarrow> bool" where
  "portable_call (RSave r) \<longleftrightarrow> childRules r = [] \<and> portable_data (rdata r)"
| "portable_call (RRemove i) \<longleftrightarrow> True"

lemma portable_fits:
  assumes "portable_data d"
  shows "data_fits d"
  using assms by (auto simp: portable_data_def data_fits_def ms_fits_def portable_ms_def split: option.splits)

lemma portable_as_int: "portable_ms t \<Longrightarrow> map_option as_int32 t = t" "portable_ms t \<Longrightarrow> ms_value (Some (ms_column t)) = t"
  using as_int_fits
  by (auto simp: portable_ms_def ms_value_def ms_column_def column_def int_fits_def Let_def split: option.splits)

lemma portable_c_str: "portable_text s \<Longrightarrow> c_str s = s"
  by (auto simp: portable_text_def c_str_def takeWhile_eq_all_conv)

lemma portable_stored:
  assumes "portable_data d"
  shows "json_stored d = d" "xml_stored d = d" "db_stored d = d"
proof -
  have dep: "map_option c_str (dependsOnRuleName d) = dependsOnRuleName d" "dependsOnRuleName d \<noteq> Some []"
    using assms by (auto simp: portable_data_def portable_c_str split: option.splits)
  show "json_stored d = d" "xml_stored d = d" "db_stored d = d"
    using assms dep
    by (simp_all add: json_stored_def xml_stored_def db_stored_def portable_data_def portable_as_int portable_c_str)
qed

text \<open>On portable calls every repository follows the same table.\<close>

lemma portable_table:
  assumes "list_all portable_call calls" "\<And>d. portable_data d \<Longrightarrow> stored d = d"
    and "\<And>r. childRules r = [] \<Longrightarrow> entries r = [rdata r]"
  shows "fold (table_call entries stored) calls m = fold (table_call (\<lambda>r. [rdata r]) (\<lambda>d. d)) calls m"
  using assms(1)
proof (induction calls arbitrary: m)
  case (Cons c calls)
  have "table_call entries stored c m = table_call (\<lambda>r. [rdata r]) (\<lambda>d. d) c m"
    using Cons.prems assms(2,3) by (cases c) (simp_all add: enter_rule_def)
  with Cons show ?case by simp
qed simp

lemma portable_calls_fit:
  assumes "list_all portable_call calls" "\<And>r. childRules r = [] \<Longrightarrow> entries r = [rdata r]"
  shows "list_all (\<lambda>c. list_all data_fits (call_rules entries c)) calls"
proof -
  have "list_all data_fits (call_rules entries c)" if "portable_call c" for c
    using that assms(2) portable_fits by (cases c) auto
  with assms(1) show ?thesis by (auto simp: list_all_iff)
qed

text \<open>
  C28. The three rule repositories are interchangeable on the rules that each of them keeps: started from
  contents that answer alike, after any sequence of saves and removals of portable rules the JSON, the XML
  and the database repository find the same rule data under every identifier, namely those of a map
  that the calls update, and agree on which rules exist.
\<close>

theorem repositories_agree:
  assumes "list_all portable_call calls" and "xr_good lib xs" and "dr_good db"
    and "xr_findById lib xs = jr_findById fint js" and "dr_findById db = jr_findById fint js"
  shows "let js' = fold (run_call (jr_save fint) (jr_remove fint)) calls js;
             xs' = fold (run_call (xr_save lib) (xr_remove lib)) calls xs;
             db' = fold (run_call dr_save_done (dr_remove fk)) calls db;
             m = fold (table_call (\<lambda>r. [rdata r]) (\<lambda>d. d)) calls (jr_findById fint js)
         in jr_findById fint js' = m \<and> xr_findById lib xs' = m \<and> dr_findById db' = m \<and>
            (\<forall>i. jr_exists fint js' i = (m i \<noteq> None) \<and> xr_exists lib xs' i = (m i \<noteq> None) \<and> dr_exists db' i = (m i \<noteq> None))"
proof -
  have one: "childRules r = [] \<Longrightarrow> saved_rules r = [rdata r]" for r by (simp add: saved_rules_def)
  note fit = portable_calls_fit [OF assms(1)]
  note tab = portable_table [OF assms(1)]
  have "fold (table_call saved_rules json_stored) calls m = fold (table_call (\<lambda>r. [rdata r]) (\<lambda>d. d)) calls m"
    "fold (table_call saved_rules xml_stored) calls m = fold (table_call (\<lambda>r. [rdata r]) (\<lambda>d. d)) calls m"
    "fold (table_call (\<lambda>r. [rdata r]) db_stored) calls m = fold (table_call (\<lambda>r. [rdata r]) (\<lambda>d. d)) calls m" for m
    by (rule tab; simp add: portable_stored one)+
  note same = this
  have "jr_findById fint (fold (run_call (jr_save fint) (jr_remove fint)) calls js) = fold (table_call saved_rules json_stored) calls (jr_findById fint js)"
    "xr_findById lib (fold (run_call (xr_save lib) (xr_remove lib)) calls xs) = fold (table_call saved_rules xml_stored) calls (xr_findById lib xs)"
    "dr_findById (fold (run_call dr_save_done (dr_remove fk)) calls db) = fold (table_call (\<lambda>r. [rdata r]) db_stored) calls (dr_findById db)"
    using jr.calls_refine [OF TrueI fit] xr.calls_refine [OF assms(2) fit] dr.calls_refine [OF assms(3) fit] one by auto
  moreover have "jr_exists fint (fold (run_call (jr_save fint) (jr_remove fint)) calls js) i \<longleftrightarrow>
      fold (table_call saved_rules json_stored) calls (jr_findById fint js) i \<noteq> None"
    "xr_exists lib (fold (run_call (xr_save lib) (xr_remove lib)) calls xs) i \<longleftrightarrow>
      fold (table_call saved_rules xml_stored) calls (xr_findById lib xs) i \<noteq> None"
    "dr_exists (fold (run_call dr_save_done (dr_remove fk)) calls db) i \<longleftrightarrow>
      fold (table_call (\<lambda>r. [rdata r]) db_stored) calls (dr_findById db) i \<noteq> None" for i
    using jr.calls_exist [OF TrueI fit] xr.calls_exist [OF assms(2) fit] dr.calls_exist [OF assms(3) fit] one by auto
  ultimately show ?thesis by (simp add: Let_def same assms(4,5))
qed

text \<open>A library of decimal numbers, and empty repositories.\<close>

definition decimal_xml_lib :: xml_lib where
  "decimal_xml_lib =
     \<lparr>of_int_text = std_to_string, as_int_text = (\<lambda>s. case scan_int s of None \<Rightarrow> 0 | Some (v, _) \<Rightarrow> v),
      of_llong_text = std_to_string, as_llong_text = (\<lambda>s. case scan_int s of None \<Rightarrow> 0 | Some (v, _) \<Rightarrow> v),
      of_bool_text = (\<lambda>b. if b then ''true'' else ''false''), as_bool_text = (\<lambda>s. s = ''true''),
      xml_load = (\<lambda>_. ([], None)), xml_save = (\<lambda>_. []), xml_save2 = (\<lambda>_. [])\<rparr>"

theorem repositories_agree_witness:
  "let calls = [RSave (Rule 0 (sample_data 1 ''x'') []), RSave (Rule 1 (sample_data 2 ''y'') []), RRemove 1];
       js' = fold (run_call (jr_save Some) (jr_remove Some)) calls \<lparr>jr_data = [], jr_dirty = False\<rparr>;
       xs' = fold (run_call (xr_save decimal_xml_lib) (xr_remove decimal_xml_lib)) calls \<lparr>xr_doc = [], xr_dirty = False\<rparr>;
       db' = fold (run_call dr_save_done (dr_remove True)) calls \<lparr>t_rules = [], t_workflows = [], t_links = [], t_versions = []\<rparr>
   in jr_findById Some js' 2 = Some (sample_data 2 ''y'') \<and> xr_findById decimal_xml_lib xs' = jr_findById Some js' \<and>
      dr_findById db' = jr_findById Some js' \<and> \<not> dr_exists db' 1"
proof -
  let ?calls = "[RSave (Rule 0 (sample_data 1 ''x'') []), RSave (Rule 1 (sample_data 2 ''y'') []), RRemove 1]"
  let ?xs = "\<lparr>xr_doc = [], xr_dirty = False\<rparr>" and ?js = "\<lparr>jr_data = [], jr_dirty = False\<rparr> :: int json_repo"
    and ?db = "\<lparr>t_rules = [], t_workflows = [], t_links = [], t_versions = []\<rparr>"
  have calls: "list_all portable_call ?calls"
    by (simp add: portable_data_def sample_data_def portable_ms_def portable_text_def int_fits_def)
  have xs: "xr_good decimal_xml_lib ?xs"
    by (simp add: xr_good_def xml_lib_ok_def decimal_xml_lib_def root_kids_def rules_root_def scan_int_to_string [of "[]", simplified])
  have db: "dr_good ?db" by (simp add: dr_good_def)
  have empty: "xr_findById decimal_xml_lib ?xs = jr_findById Some ?js" "dr_findById ?db = jr_findById Some ?js"
    by (simp_all add: fun_eq_iff xr_findById_def jr_findById_def dr_findById_def root_kids_def rules_root_def)
  show ?thesis
    using repositories_agree [OF calls xs db empty, of True]
    by (simp add: Let_def enter_rule_def sample_data_def)
qed

end
